(* ===== verification/Base.thy ===== *)
theory Base
  imports Main "HOL-Library.Word"
begin

text \<open>
  Prelude of the development: the results of an operation (a value, an exception of the
  framework, or an abort by \<open>Assert\<close>), the combinators that sequence such operations over an
  explicit state, the framework's exception codes, and the generic lemmas on lists that the
  components share.
\<close>

section \<open>Results\<close>

text \<open>
  \<open>Assert\<close> (Assert.hxx) calls \<open>abort()\<close>, which ends the process and cannot be caught; an
  \<open>Exception\<close> (Exception.hxx) is thrown and unwinds through the transaction macros. The two
  are different constructors of a result. \<open>Blocked\<close> is a call that waits for a lock it cannot get.
\<close>

datatype code =
    CommandNotFound | CollectorUnavailable | DatabaseBusy | DatabaseCannotCreate
  | DatabaseCannotRemove | DatabaseDoesNotExist | DatabaseExists | DatabaseInvalid
  | DatabaseReadOnly | EntryNotFound | EntryNotUnique | EntryOverlapping
  | LibraryFuncNotFound | LibraryNotFound | MPIImplChoiceInvalid | ParameterValueInvalid
  | ProcessUnavailable | StateAlreadyChanging | StateChangeInvalid | ThreadUnavailable
  | Unknown

datatype exception = Exception (dm_code: code) (dm_arguments: "string list")

datatype 'a res = Ok (the_Ok: 'a) | Throw exception | Abort | Blocked

definition Assert :: "bool \<Rightarrow> unit res" where
  "Assert assertion = (if \<not> assertion then Abort else Ok ())"

definition bind_res :: "'a res \<Rightarrow> ('a \<Rightarrow> 'b res) \<Rightarrow> 'b res" where
  "bind_res m f = (case m of Ok x \<Rightarrow> f x | Throw e \<Rightarrow> Throw e | Abort \<Rightarrow> Abort | Blocked \<Rightarrow> Blocked)"

named_theorems res_simps "evaluation of results and of state-passing operations"

lemma bind_res_simps [simp, res_simps]:
  "bind_res (Ok x) f = f x"
  "bind_res (Throw e) f = Throw e"
  "bind_res Abort f = Abort"
  "bind_res Blocked f = Blocked"
  by (simp_all add: bind_res_def)

lemma Assert_simps [simp, res_simps]:
  "Assert True = Ok ()"
  "Assert False = Abort"
  by (simp_all add: Assert_def)

lemma bind_Assert [res_simps]: "bind_res (Assert b) f = (if b then f () else Abort)"
  by (simp add: Assert_def)

lemma bind_res_Ok_iff: "bind_res m f = Ok y \<longleftrightarrow> (\<exists>x. m = Ok x \<and> f x = Ok y)"
  by (cases m) auto

lemma bind_res_assoc: "bind_res (bind_res m f) g = bind_res m (\<lambda>x. bind_res (f x) g)"
  by (cases m) auto

fun map_res_list :: "('a \<Rightarrow> 'b res) \<Rightarrow> 'a list \<Rightarrow> 'b list res" where
  "map_res_list f [] = Ok []"
| "map_res_list f (x # xs) =
     bind_res (f x) (\<lambda>y. bind_res (map_res_list f xs) (\<lambda>ys. Ok (y # ys)))"

lemma map_res_list_Ok:
  "(\<And>x. x \<in> set xs \<Longrightarrow> f x = Ok (g x)) \<Longrightarrow> map_res_list f xs = Ok (map g xs)"
  by (induction xs) auto

section \<open>Operations over a state\<close>

text \<open>
  An operation that reads and writes a state \<open>'s\<close> returns its result with the state it leaves,
  also when it throws: the handlers of the code run in that state.
\<close>

type_synonym ('s, 'a) op = "'s \<Rightarrow> 'a res \<times> 's"

definition ret :: "'a \<Rightarrow> ('s, 'a) op" where
  "ret x s = (Ok x, s)"

definition throw :: "exception \<Rightarrow> ('s, 'a) op" where
  "throw e s = (Throw e, s)"

definition andthen :: "('s, 'a) op \<Rightarrow> ('a \<Rightarrow> ('s, 'b) op) \<Rightarrow> ('s, 'b) op" where
  "andthen m f s =
     (case m s of
        (Ok x, s') \<Rightarrow> f x s'
      | (Throw e, s') \<Rightarrow> (Throw e, s')
      | (Abort, s') \<Rightarrow> (Abort, s')
      | (Blocked, s') \<Rightarrow> (Blocked, s'))"

definition lift_res :: "'a res \<Rightarrow> ('s, 'a) op" where
  "lift_res r s = (r, s)"

definition assert_op :: "('s \<Rightarrow> bool) \<Rightarrow> ('s, unit) op" where
  "assert_op P s = (if P s then Ok () else Abort, s)"

fun for_each :: "'a list \<Rightarrow> ('b \<Rightarrow> 'a \<Rightarrow> ('s, 'b) op) \<Rightarrow> 'b \<Rightarrow> ('s, 'b) op" where
  "for_each [] body acc = ret acc"
| "for_each (x # xs) body acc = andthen (body acc x) (for_each xs body)"

lemma op_simps [res_simps]:
  "ret x s = (Ok x, s)"
  "throw e s = (Throw e, s)"
  "lift_res r s = (r, s)"
  "assert_op P s = (if P s then Ok () else Abort, s)"
  by (simp_all add: ret_def throw_def lift_res_def assert_op_def)

lemma andthen_simps [res_simps]:
  "m s = (Ok x, s') \<Longrightarrow> andthen m f s = f x s'"
  "m s = (Throw e, s') \<Longrightarrow> andthen m f s = (Throw e, s')"
  "m s = (Abort, s') \<Longrightarrow> andthen m f s = (Abort, s')"
  "m s = (Blocked, s') \<Longrightarrow> andthen m f s = (Blocked, s')"
  by (simp_all add: andthen_def)

lemma andthen_ret [simp]: "andthen (ret x) f = f x"
  by (simp add: fun_eq_iff andthen_def ret_def)

lemma andthen_assoc: "andthen (andthen m f) g = andthen m (\<lambda>x. andthen (f x) g)"
  by (auto simp: fun_eq_iff andthen_def split: prod.splits res.splits)

lemma andthen_Ok_iff:
  "andthen m f s = (Ok y, s') \<longleftrightarrow> (\<exists>x t. m s = (Ok x, t) \<and> f x t = (Ok y, s'))"
  by (auto simp: andthen_def split: prod.splits res.splits)

text \<open>A loop whose body leaves the state alone and always succeeds is a fold.\<close>

lemma for_each_pure:
  assumes "\<And>acc x. x \<in> set xs \<Longrightarrow> body acc x s = (Ok (g acc x), s)"
  shows "for_each xs body acc s = (Ok (foldl g acc xs), s)"
  using assms by (induction xs arbitrary: acc) (auto simp: res_simps)

lemma for_each_append:
  "for_each (xs @ ys) body acc = andthen (for_each xs body acc) (for_each ys body)"
proof (induction xs arbitrary: acc)
  case Nil
  show ?case by simp
next
  case (Cons x xs)
  have "for_each (xs @ ys) body = (\<lambda>a. andthen (for_each xs body a) (for_each ys body))"
    using Cons.IH by (simp add: fun_eq_iff)
  then show ?case by (simp add: andthen_assoc)
qed

text \<open>An invariant that every step of a loop keeps holds after the loop.\<close>

lemma for_each_invariant:
  assumes "for_each xs body acc s = (Ok acc', s')"
    and "P acc s"
    and step: "\<And>x a t a' t'. x \<in> set xs \<Longrightarrow> body a x t = (Ok a', t') \<Longrightarrow> P a t \<Longrightarrow> P a' t'"
  shows "P acc' s'"
  using assms
proof (induction xs arbitrary: acc s)
  case Nil
  then show ?case by (simp add: ret_def)
next
  case (Cons x xs)
  from Cons.prems(1) obtain a t where first: "body acc x s = (Ok a, t)"
    and rest: "for_each xs body a t = (Ok acc', s')"
    by (auto simp: andthen_Ok_iff)
  have "P a t"
    by (rule Cons.prems(3) [OF _ first Cons.prems(2)]) simp
  show ?case
  proof (rule Cons.IH [OF rest \<open>P a t\<close>])
    fix y b u b' u'
    assume "y \<in> set xs" and "body b y u = (Ok b', u')" and "P b u"
    then show "P b' u'" using Cons.prems(3) [of y b u b' u'] by simp
  qed
qed

text \<open>What an operation returns when it succeeds, established from its text.\<close>

definition returns :: "('a \<Rightarrow> bool) \<Rightarrow> ('s, 'a) op \<Rightarrow> bool" where
  "returns P m \<longleftrightarrow> (\<forall>s x s'. m s = (Ok x, s') \<longrightarrow> P x)"

named_theorems returns_intros "what operations return"

lemma returns_basic [returns_intros]:
  "P x \<Longrightarrow> returns P (ret x)"
  "returns P (throw e)"
  "(\<And>x. returns P (f x)) \<Longrightarrow> returns P (andthen m0 f)"
  "returns P m \<Longrightarrow> returns P m' \<Longrightarrow> returns P (if b then m else m')"
  "(\<And>x y. returns P (g x y)) \<Longrightarrow> returns P (case p of (x, y) \<Rightarrow> g x y)"
  by (auto simp: returns_def andthen_Ok_iff res_simps split: prod.splits)

section \<open>Lists\<close>

lemma foldl_insert: "foldl (\<lambda>S x. insert (f x) S) S xs = S \<union> f ` set xs"
  by (induction xs arbitrary: S) auto

lemma foldl_snoc: "foldl (\<lambda>ys x. ys @ [f x]) ys xs = ys @ map f xs"
  by (induction xs arbitrary: ys) auto

lemma foldl_last: "foldl (\<lambda>_ x. f x) a xs = (if xs = [] then a else f (last xs))"
  by (induction xs arbitrary: a) auto

end
