(* ===== verification/StdMap.thy ===== *)
theory StdMap
  imports Base
begin

text \<open>
  The associative containers of the C++ library that the code searches with a comparison of its
  own: \<open>std::map\<close> and \<open>std::set\<close> under a comparator \<open>lt\<close>. A container is the list of its
  entries in iteration order. \<open>find\<close> walks to the first key that is not less than the wanted key
  and tests equivalence there; \<open>insert\<close> keeps an existing equivalent entry. The laws hold for
  comparators that are transitive and irreflexive on the keys the code stores, which is weaker
  than a total order: two keys that are neither less nor greater are equivalent, not equal.
\<close>

section \<open>Operations\<close>

type_synonym ('k, 'v) stdmap = "('k \<times> 'v) list"

fun map_find :: "('k \<Rightarrow> 'k \<Rightarrow> bool) \<Rightarrow> 'k \<Rightarrow> ('k, 'v) stdmap \<Rightarrow> ('k \<times> 'v) option" where
  "map_find lt k [] = None"
| "map_find lt k ((a, v) # m) =
     (if lt a k then map_find lt k m else if lt k a then None else Some (a, v))"

fun map_insert :: "('k \<Rightarrow> 'k \<Rightarrow> bool) \<Rightarrow> 'k \<Rightarrow> 'v \<Rightarrow> ('k, 'v) stdmap \<Rightarrow> ('k, 'v) stdmap" where
  "map_insert lt k x [] = [(k, x)]"
| "map_insert lt k x ((a, v) # m) =
     (if lt a k then (a, v) # map_insert lt k x m
      else if lt k a then (k, x) # (a, v) # m else (a, v) # m)"

text \<open>Assignment through the iterator that \<open>find\<close> or \<open>insert\<close> returned.\<close>

fun map_modify :: "('k \<Rightarrow> 'k \<Rightarrow> bool) \<Rightarrow> 'k \<Rightarrow> ('v \<Rightarrow> 'v) \<Rightarrow> ('k, 'v) stdmap \<Rightarrow> ('k, 'v) stdmap" where
  "map_modify lt k f [] = []"
| "map_modify lt k f ((a, v) # m) =
     (if lt a k then (a, v) # map_modify lt k f m
      else if lt k a then (a, v) # m else (a, f v) # m)"

fun map_erase :: "('k \<Rightarrow> 'k \<Rightarrow> bool) \<Rightarrow> 'k \<Rightarrow> ('k, 'v) stdmap \<Rightarrow> ('k, 'v) stdmap" where
  "map_erase lt k [] = []"
| "map_erase lt k ((a, v) # m) =
     (if lt a k then (a, v) # map_erase lt k m
      else if lt k a then (a, v) # m else m)"

definition set_insert :: "('k \<Rightarrow> 'k \<Rightarrow> bool) \<Rightarrow> 'k \<Rightarrow> 'k list \<Rightarrow> 'k list" where
  "set_insert lt k ks = map fst (map_insert lt k () (map (\<lambda>a. (a, ())) ks))"

lemma set_insert_simps [simp]:
  "set_insert lt k [] = [k]"
  "set_insert lt k (a # ks) =
     (if lt a k then a # set_insert lt k ks else if lt k a then k # a # ks else a # ks)"
  by (simp_all add: set_insert_def comp_def)

definition keys :: "('k, 'v) stdmap \<Rightarrow> 'k list" where
  "keys m = map fst m"

lemma keys_simps [simp]: "keys [] = []" "keys (e # m) = fst e # keys m"
  by (simp_all add: keys_def)

section \<open>Laws under a comparator\<close>

text \<open>
  \<open>valid\<close> singles out the keys the code stores (for address ranges: the non-empty ones).
\<close>

locale key_order =
  fixes lt :: "'k \<Rightarrow> 'k \<Rightarrow> bool" and valid :: "'k \<Rightarrow> bool"
  assumes irrefl: "valid a \<Longrightarrow> \<not> lt a a"
    and trans: "valid b \<Longrightarrow> lt a b \<Longrightarrow> lt b c \<Longrightarrow> lt a c"
begin

definition equivalent :: "'k \<Rightarrow> 'k \<Rightarrow> bool" where
  "equivalent a b \<longleftrightarrow> \<not> lt a b \<and> \<not> lt b a"

definition ordered :: "'k list \<Rightarrow> bool" where
  "ordered ks \<longleftrightarrow> sorted_wrt lt ks \<and> (\<forall>k \<in> set ks. valid k)"

lemma ordered_simps [simp]:
  "ordered []"
  "ordered (k # ks) \<longleftrightarrow> valid k \<and> (\<forall>a \<in> set ks. lt k a) \<and> ordered ks"
  by (auto simp: ordered_def)

lemma equivalent_sym: "equivalent a b = equivalent b a"
  by (auto simp: equivalent_def)

lemma equivalent_refl: "valid a \<Longrightarrow> equivalent a a"
  by (simp add: equivalent_def irrefl)

lemma asym: "valid a \<Longrightarrow> valid b \<Longrightarrow> lt a b \<Longrightarrow> \<not> lt b a"
  using trans irrefl by blast

text \<open>Distinct entries of a container are comparable, so never equivalent.\<close>

lemma ordered_comparable:
  "ordered ks \<Longrightarrow> i < length ks \<Longrightarrow> j < length ks \<Longrightarrow> i < j \<Longrightarrow> lt (ks ! i) (ks ! j)"
  by (simp add: ordered_def sorted_wrt_nth_less)

lemma ordered_not_equivalent:
  "ordered ks \<Longrightarrow> a \<in> set ks \<Longrightarrow> b \<in> set ks \<Longrightarrow> a \<noteq> b \<Longrightarrow> \<not> equivalent a b"
  by (induction ks) (auto simp: equivalent_def)

lemma ordered_distinct: "ordered ks \<Longrightarrow> distinct ks"
  by (induction ks) (auto dest: irrefl)

lemma find_Some: "map_find lt k m = Some (a, v) \<Longrightarrow> (a, v) \<in> set m \<and> equivalent a k"
  by (induction m) (auto simp: equivalent_def split: if_splits)

lemma find_None:
  "ordered (keys m) \<Longrightarrow> valid k \<Longrightarrow> map_find lt k m = None \<Longrightarrow> a \<in> set (keys m)
    \<Longrightarrow> \<not> equivalent a k"
proof (induction m)
  case Nil
  then show ?case by simp
next
  case (Cons e m)
  obtain b v where e: "e = (b, v)" by (cases e)
  show ?case
  proof (cases "a = b")
    case True
    with Cons.prems e show ?thesis by (auto simp: equivalent_def split: if_splits)
  next
    case False
    with Cons.prems e have a: "a \<in> set (keys m)" and "lt b a" and "valid b" by auto
    show ?thesis
    proof (cases "lt b k")
      case True
      with Cons e a show ?thesis by auto
    next
      case False
      with Cons.prems e have "lt k b" by (auto split: if_splits)
      with \<open>lt b a\<close> \<open>valid b\<close> have "lt k a" using trans by blast
      then show ?thesis by (simp add: equivalent_def)
    qed
  qed
qed

lemma find_present:
  assumes "ordered (keys m)" and "(k, v) \<in> set m"
  shows "map_find lt k m = Some (k, v)"
  using assms
proof (induction m)
  case Nil
  then show ?case by simp
next
  case (Cons e m)
  show ?case
  proof (cases "e = (k, v)")
    case True
    with Cons.prems show ?thesis by (simp add: irrefl)
  next
    case False
    then have "k \<in> set (keys m)" using Cons.prems by (force simp: keys_def)
    with False Cons show ?thesis by (cases e) auto
  qed
qed

lemma insert_keys_subset: "set (keys (map_insert lt k x m)) \<subseteq> insert k (set (keys m))"
  by (induction m) (auto split: if_splits)

lemma insert_ordered:
  "ordered (keys m) \<Longrightarrow> valid k \<Longrightarrow> ordered (keys (map_insert lt k x m))"
proof (induction m)
  case Nil
  then show ?case by simp
next
  case (Cons e m)
  obtain b v where e: "e = (b, v)" by (cases e)
  show ?case
  proof (cases "lt b k")
    case True
    with Cons e insert_keys_subset [of k x m] show ?thesis by auto
  next
    case False
    with Cons.prems e show ?thesis by (auto intro: trans [of b])
  qed
qed

lemma insert_absent:
  assumes "ordered (keys m)" and "valid k" and "map_find lt k m = None"
  shows "set (map_insert lt k x m) = insert (k, x) (set m)"
  using assms by (induction m) (auto split: if_splits)

lemma insert_present:
  assumes "map_find lt k m = Some e"
  shows "map_insert lt k x m = m"
  using assms by (induction m) (auto split: if_splits)

lemma modify_keys [simp]: "keys (map_modify lt k f m) = keys m"
  by (induction m) auto

lemma modify_present:
  assumes "ordered (keys m)" and "map_find lt k m = Some (a, v)"
  shows "set (map_modify lt k f m) = insert (a, f v) (set m - {(a, v)})"
  using assms
proof (induction m)
  case Nil
  then show ?case by simp
next
  case (Cons e m)
  obtain b w where e: "e = (b, w)" by (cases e)
  have new: "b \<notin> set (keys m)" using Cons.prems e by (auto dest: irrefl)
  show ?case
  proof (cases "lt b k")
    case True
    with Cons.prems e have "map_find lt k m = Some (a, v)" by simp
    then have "a \<in> set (keys m)" by (auto dest: find_Some simp: keys_def image_iff intro: bexI [of _ "(a, v)"])
    with True Cons e new show ?thesis by auto
  next
    case False
    have "(b, w) \<notin> set m" using new by (force simp: keys_def)
    with False Cons.prems e show ?thesis by (auto split: if_splits)
  qed
qed

lemma erase_subset: "set (map_erase lt k m) \<subseteq> set m"
  by (induction m) (auto split: if_splits)

lemma erase_keys_subset: "set (keys (map_erase lt k m)) \<subseteq> set (keys m)"
  using erase_subset by (auto simp: keys_def)

lemma erase_ordered: "ordered (keys m) \<Longrightarrow> ordered (keys (map_erase lt k m))"
proof (induction m)
  case Nil
  then show ?case by simp
next
  case (Cons e m)
  then show ?case using erase_keys_subset [of k m] by (cases e) auto
qed

lemma erase_removes:
  assumes "ordered (keys m)" and "(k, v) \<in> set m"
  shows "set (map_erase lt k m) = set m - {(k, v)}"
  using assms
proof (induction m)
  case Nil
  then show ?case by simp
next
  case (Cons e m)
  obtain b w where e: "e = (b, w)" by (cases e)
  have new: "(b, w) \<notin> set m" using Cons.prems e by (force simp: keys_def dest: irrefl)
  show ?case
  proof (cases "e = (k, v)")
    case True
    with Cons.prems e new show ?thesis by (auto simp: irrefl)
  next
    case False
    then have "k \<in> set (keys m)" using Cons.prems by (force simp: keys_def)
    with False Cons e show ?thesis by auto
  qed
qed

lemma set_insert_ordered: "ordered ks \<Longrightarrow> valid k \<Longrightarrow> ordered (set_insert lt k ks)"
  using insert_ordered [of "map (\<lambda>a. (a, ())) ks" k "()"]
  by (simp add: set_insert_def keys_def comp_def)

lemma set_insert_subset: "set (set_insert lt k ks) \<subseteq> insert k (set ks)"
  by (induction ks) auto

lemma set_insert_append: "\<forall>a \<in> set ks. lt a k \<Longrightarrow> set_insert lt k ks = ks @ [k]"
  by (induction ks) auto

end

section \<open>A total order as a comparator\<close>

interpretation linear: key_order "(<) :: 'a::linorder \<Rightarrow> 'a \<Rightarrow> bool" "\<lambda>_. True"
  by unfold_locales auto

lemma linear_equivalent: "linear.equivalent a b \<longleftrightarrow> a = b"
  by (auto simp: linear.equivalent_def)

lemma linear_find: "linear.ordered (keys m) \<Longrightarrow> map_find (<) k m = map_option (Pair k) (map_of m k)"
proof (induction m)
  case Nil
  then show ?case by simp
next
  case (Cons e m)
  have "k < fst e \<Longrightarrow> map_of m k = None"
    using Cons.prems by (force simp: map_of_eq_None_iff keys_def)
  with Cons show ?case by (cases e) auto
qed

lemma linear_set_insert: "set (set_insert (<) k ks) = insert k (set (ks :: 'a::linorder list))"
  by (induction ks) auto

lemma linear_map_of_insert:
  "linear.ordered (keys m) \<Longrightarrow> map_of (map_insert (<) k x m) =
     (if map_of m k = None then (map_of m)(k \<mapsto> x) else map_of m)"
proof (induction m)
  case Nil
  then show ?case by (simp add: fun_eq_iff)
next
  case (Cons e m)
  have "k < fst e \<Longrightarrow> map_of m k = None"
    using Cons.prems by (force simp: map_of_eq_None_iff keys_def)
  with Cons show ?case by (cases e) (auto simp: fun_eq_iff)
qed

lemma linear_map_of_modify:
  "linear.ordered (keys m) \<Longrightarrow>
     map_of (map_modify (<) k f m) = (map_of m)(k := map_option f (map_of m k))"
proof (induction m)
  case Nil
  then show ?case by (simp add: fun_eq_iff)
next
  case (Cons e m)
  have "k \<le> fst e \<Longrightarrow> map_of m k = None"
    using Cons.prems by (force simp: map_of_eq_None_iff keys_def)
  with Cons show ?case by (cases e) (auto simp: fun_eq_iff)
qed

text \<open>A measure summed over the values of a container.\<close>

definition total :: "('v \<Rightarrow> nat) \<Rightarrow> ('k, 'v) stdmap \<Rightarrow> nat" where
  "total f m = sum_list (map (\<lambda>(_, v). f v) m)"

lemma total_modify:
  "linear.ordered (keys m) \<Longrightarrow> map_of m k = Some v \<Longrightarrow>
     total f (map_modify (<) k g m) + f v = total f m + f (g v)"
proof (induction m)
  case Nil
  then show ?case by simp
next
  case (Cons e m)
  have "k < fst e \<Longrightarrow> map_of m k = None"
    using Cons.prems by (force simp: map_of_eq_None_iff keys_def)
  with Cons show ?case by (cases e) (auto simp: total_def split: if_splits)
qed

lemma total_insert:
  "linear.ordered (keys m) \<Longrightarrow> map_of m k = None \<Longrightarrow>
     total f (map_insert (<) k v m) = total f m + f v"
  by (induction m) (auto simp: total_def split: if_splits)

end
