(* ===== verification/Hoare.thy ===== *)
theory Hoare
  imports Base
begin

text \<open>
  Triples for operations over a state: if the precondition holds and the operation returns, the
  postcondition holds of its result; if it throws, the exceptional postcondition holds of the state
  it leaves. Nothing is claimed of an abort or of a call that blocks; where it matters that an
  operation does return, that is proved separately.
\<close>

definition hoare :: "('s \<Rightarrow> bool) \<Rightarrow> ('s, 'a) op \<Rightarrow> ('a \<Rightarrow> 's \<Rightarrow> bool) \<Rightarrow> ('s \<Rightarrow> bool) \<Rightarrow> bool" where
  "hoare P m Q E \<longleftrightarrow>
     (\<forall>s. P s \<longrightarrow> (case m s of (Ok x, s') \<Rightarrow> Q x s' | (Throw e, s') \<Rightarrow> E s' | _ \<Rightarrow> True))"

named_theorems hoare_rules "rules for triples"

lemma hoare_I:
  "(\<And>s r s'. P s \<Longrightarrow> m s = (r, s') \<Longrightarrow>
     (\<forall>x. r = Ok x \<longrightarrow> Q x s') \<and> (\<forall>e. r = Throw e \<longrightarrow> E s')) \<Longrightarrow> hoare P m Q E"
  unfolding hoare_def by (auto split: prod.splits res.splits)

lemma hoare_Ok: "hoare P m Q E \<Longrightarrow> P s \<Longrightarrow> m s = (Ok x, s') \<Longrightarrow> Q x s'"
  unfolding hoare_def by (auto dest: spec [of _ s])

lemma hoare_Throw: "hoare P m Q E \<Longrightarrow> P s \<Longrightarrow> m s = (Throw e, s') \<Longrightarrow> E s'"
  unfolding hoare_def by (auto dest: spec [of _ s])

lemma hoare_andthen [hoare_rules]:
  assumes m: "hoare P m R E" and f: "\<And>x. hoare (R x) (f x) Q E"
  shows "hoare P (andthen m f) Q E"
proof (rule hoare_I)
  fix s r s'
  assume P: "P s" and run: "andthen m f s = (r, s')"
  obtain r1 s1 where m1: "m s = (r1, s1)" by fastforce
  show "(\<forall>x. r = Ok x \<longrightarrow> Q x s') \<and> (\<forall>e. r = Throw e \<longrightarrow> E s')"
  proof (cases r1)
    case (Ok x)
    have "R x s1" using hoare_Ok [OF m P] m1 Ok by simp
    with run m1 Ok hoare_Ok [OF f] hoare_Throw [OF f] show ?thesis
      by (auto simp: andthen_simps)
  next
    case (Throw e)
    with run m1 hoare_Throw [OF m P] show ?thesis by (auto simp: andthen_simps)
  qed (use run m1 in \<open>auto simp: andthen_simps\<close>)
qed

lemma hoare_conseq:
  assumes "hoare P' m Q' E'" and "\<And>s. P s \<Longrightarrow> P' s" and "\<And>x s. Q' x s \<Longrightarrow> Q x s"
    and "\<And>s. E' s \<Longrightarrow> E s"
  shows "hoare P m Q E"
  using assms(2-4) hoare_Ok [OF assms(1)] hoare_Throw [OF assms(1)]
  by (intro hoare_I conjI allI impI) blast+

lemma hoare_pre: "hoare P' m Q E \<Longrightarrow> (\<And>s. P s \<Longrightarrow> P' s) \<Longrightarrow> hoare P m Q E"
  by (rule hoare_conseq)

lemma hoare_ex:
  assumes "\<And>x. hoare (P x) m Q E"
  shows "hoare (\<lambda>s. \<exists>x. P x s) m Q E"
  using hoare_Ok [OF assms] hoare_Throw [OF assms] by (intro hoare_I) auto

lemma hoare_assume:
  assumes "b \<Longrightarrow> hoare P m Q E"
  shows "hoare (\<lambda>s. b \<and> P s) m Q E"
  using hoare_Ok [OF assms] hoare_Throw [OF assms] by (intro hoare_I) auto

lemma hoare_if [hoare_rules]:
  "(b \<Longrightarrow> hoare P m Q E) \<Longrightarrow> (\<not> b \<Longrightarrow> hoare P m' Q E) \<Longrightarrow> hoare P (if b then m else m') Q E"
  by simp

lemma hoare_prod [hoare_rules]:
  "(\<And>x y. p = (x, y) \<Longrightarrow> hoare P (f x y) Q E) \<Longrightarrow> hoare P (case p of (x, y) \<Rightarrow> f x y) Q E"
  by (cases p) simp

lemma hoare_ret: "(\<And>s. P s \<Longrightarrow> Q x s) \<Longrightarrow> hoare P (ret x) Q E"
  by (simp add: hoare_def ret_def)

lemma hoare_throw: "(\<And>s. P s \<Longrightarrow> E s) \<Longrightarrow> hoare P (throw e) Q E"
  by (simp add: hoare_def throw_def)

lemma hoare_for_each:
  assumes "\<And>a x. x \<in> set xs \<Longrightarrow> hoare (I a) (body a x) I E"
  shows "hoare (I acc) (for_each xs body acc) I E"
  using assms
proof (induction xs arbitrary: acc)
  case Nil
  show ?case by (simp add: hoare_ret)
next
  case (Cons x xs)
  then show ?case by (auto intro!: hoare_andthen)
qed

end
