(* ===== verification/Interval.thy ===== *)
theory Interval
  imports StdMap
begin

text \<open>
  Points of time, memory addresses and the half-closed intervals over them: Time.hxx,
  Address.hxx, Interval.hxx, TimeInterval.hxx, AddressRange.hxx and TotallyOrdered.hxx. Both
  \<open>Time\<close> and \<open>Address\<close> hold a \<open>uint64_t\<close>; a difference is an \<open>int64_t\<close>, kept as a 64-bit word that
  \<^const>\<open>sint\<close> reads. The class template \<open>Interval\<close> is a datatype over a linear order, with the
  operators of the source; intervals denote sets of points, against which the operators are
  specified.
\<close>

section \<open>Addresses and times\<close>

type_synonym addr = "64 word"
type_synonym time = "64 word"
type_synonym diff = "64 word"

definition TheLowest :: addr where "TheLowest = 0"
definition TheHighest :: addr where "TheHighest = - 1"
definition TheBeginning :: time where "TheBeginning = 0"
definition TheEnd :: time where "TheEnd = - 1"

definition Address_plus :: "addr \<Rightarrow> addr \<Rightarrow> addr res" where
  "Address_plus self other =
     (let result = self + other in
      bind_res (Assert (result \<ge> self)) (\<lambda>_. Ok result))"

text \<open>The assertions of this overload are commented out in the source: it only prints.\<close>

definition Address_plus_diff :: "addr \<Rightarrow> diff \<Rightarrow> addr" where
  "Address_plus_diff self other = self + other"

definition Address_minus :: "addr \<Rightarrow> addr \<Rightarrow> diff res" where
  "Address_minus self other =
     (let result = self - other in
      bind_res (Assert (self > other \<or> sint result \<le> 0)) (\<lambda>_.
      bind_res (Assert (self < other \<or> sint result \<ge> 0)) (\<lambda>_. Ok result)))"

definition Address_inc :: "addr \<Rightarrow> addr" where
  "Address_inc self = Address_plus_diff self 1"

definition Address_dec :: "addr \<Rightarrow> addr" where
  "Address_dec self = Address_plus_diff self (- 1)"

definition Time_plus_diff :: "time \<Rightarrow> diff \<Rightarrow> time res" where
  "Time_plus_diff self other =
     (let result = self + other in
      bind_res (Assert (sint other > 0 \<or> result \<le> self)) (\<lambda>_.
      bind_res (Assert (sint other < 0 \<or> result \<ge> self)) (\<lambda>_. Ok result)))"

definition Time_minus :: "time \<Rightarrow> time \<Rightarrow> diff res" where
  "Time_minus self other =
     (let result = self - other in
      bind_res (Assert (self > other \<or> sint result \<le> 0)) (\<lambda>_.
      bind_res (Assert (self < other \<or> sint result \<ge> 0)) (\<lambda>_. Ok result)))"

lemma sint_64: "sint (w :: 64 word) = (if uint w < 2 ^ 63 then uint w else uint w - 2 ^ 64)"
proof -
  have "sint w = (uint w + 2 ^ 63) mod 2 ^ 64 - 2 ^ 63"
    by (simp add: sint_uint signed_take_bit_eq_take_bit_shift take_bit_eq_mod)
  moreover have "0 \<le> uint w" "uint w < 2 ^ 64"
    using uint_lt2p [of w] by simp_all
  ultimately show ?thesis by (simp add: mod_add_if_z)
qed

lemma uint_minus_64:
  "uint (a - b :: 64 word) = (if uint b \<le> uint a then uint a - uint b else uint a - uint b + 2 ^ 64)"
  by (simp add: uint_sub_if')

lemma uint_bounds_64: "0 \<le> uint (a :: 64 word)" "uint (a :: 64 word) < 2 ^ 64"
  using uint_lt2p [of a] by simp_all

text \<open>
  The difference of two addresses is defined exactly when it fits a signed 64-bit integer; the
  assertions catch the other cases.
\<close>

lemma Address_minus_eq:
  "Address_minus a b =
     (if - (2 ^ 63) \<le> uint a - uint b \<and> uint a - uint b < 2 ^ 63 then Ok (a - b) else Abort)"
  using uint_bounds_64 [of a] uint_bounds_64 [of b]
  by (auto simp: Address_minus_def Let_def Assert_def word_less_def sint_64 uint_minus_64)
    (use uint_ge_0 [of a] uint_ge_0 [of b] in linarith)+

lemma Time_minus_eq: "Time_minus a b = Address_minus a b"
  by (simp add: Time_minus_def Address_minus_def)

lemma sint_minus_64:
  "Address_minus a b = Ok d \<Longrightarrow> sint d = uint a - uint b"
  using uint_bounds_64 [of a] uint_bounds_64 [of b]
  by (auto simp: Address_minus_eq sint_64 uint_minus_64 split: if_splits)

lemma Address_minus_within:
  assumes "b \<le> a" and "a - b < 2 ^ 63"
  shows "Address_minus a b = Ok (a - b)"
proof -
  have "uint (a - b) < 2 ^ 63" using assms(2) by (simp add: word_less_def)
  moreover have "uint b \<le> uint a" using assms(1) by (simp add: word_le_def)
  ultimately show ?thesis by (simp add: Address_minus_eq uint_minus_64)
qed

section \<open>Operators defined from a less-than\<close>

text \<open>
  \<open>TotallyOrdered\<close> derives the other comparisons of a class from its \<open><\<close>.
\<close>

definition eq_by :: "('a \<Rightarrow> 'a \<Rightarrow> bool) \<Rightarrow> 'a \<Rightarrow> 'a \<Rightarrow> bool" where
  "eq_by lt x y \<longleftrightarrow> \<not> lt x y \<and> \<not> lt y x"

definition neq_by :: "('a \<Rightarrow> 'a \<Rightarrow> bool) \<Rightarrow> 'a \<Rightarrow> 'a \<Rightarrow> bool" where
  "neq_by lt x y \<longleftrightarrow> lt x y \<or> lt y x"

definition gt_by :: "('a \<Rightarrow> 'a \<Rightarrow> bool) \<Rightarrow> 'a \<Rightarrow> 'a \<Rightarrow> bool" where
  "gt_by lt x y \<longleftrightarrow> lt y x"

definition le_by :: "('a \<Rightarrow> 'a \<Rightarrow> bool) \<Rightarrow> 'a \<Rightarrow> 'a \<Rightarrow> bool" where
  "le_by lt x y \<longleftrightarrow> \<not> lt y x"

definition ge_by :: "('a \<Rightarrow> 'a \<Rightarrow> bool) \<Rightarrow> 'a \<Rightarrow> 'a \<Rightarrow> bool" where
  "ge_by lt x y \<longleftrightarrow> \<not> lt x y"

lemmas by_defs = eq_by_def neq_by_def gt_by_def le_by_def ge_by_def

locale totally_ordered =
  fixes lt :: "'a \<Rightarrow> 'a \<Rightarrow> bool"
  assumes lt_irrefl: "\<not> lt x x"
    and lt_trans: "lt x y \<Longrightarrow> lt y z \<Longrightarrow> lt x z"
    and lt_total: "x \<noteq> y \<Longrightarrow> lt x y \<or> lt y x"
begin

lemma derived_operators:
  "eq_by lt x y \<longleftrightarrow> x = y"
  "neq_by lt x y \<longleftrightarrow> x \<noteq> y"
  "gt_by lt x y \<longleftrightarrow> lt y x"
  "le_by lt x y \<longleftrightarrow> lt x y \<or> x = y"
  "ge_by lt x y \<longleftrightarrow> lt y x \<or> x = y"
  unfolding by_defs by (metis lt_irrefl lt_trans lt_total)+

end

section \<open>Half-closed intervals\<close>

datatype 'a interval = Interval (dm_begin: 'a) (dm_end: 'a)

text \<open>The default constructor leaves both ends at the default value of the type.\<close>

definition Interval_default :: "'a::zero interval" where
  "Interval_default = Interval 0 0"

definition Interval_make :: "'a::linorder \<Rightarrow> 'a \<Rightarrow> 'a interval res" where
  "Interval_make b e = bind_res (Assert (b < e)) (\<lambda>_. Ok (Interval b e))"

text \<open>The constructor from a single value, where \<open>value + 1\<close> is the class's own addition.\<close>

definition AddressRange_of :: "addr \<Rightarrow> addr interval" where
  "AddressRange_of a = Interval a (Address_plus_diff a 1)"

definition TimeInterval_of :: "time \<Rightarrow> time interval res" where
  "TimeInterval_of t = bind_res (Time_plus_diff t 1) (\<lambda>e. Ok (Interval t e))"

definition Interval_less :: "'a::linorder interval \<Rightarrow> 'a interval \<Rightarrow> bool" where
  "Interval_less self other =
     (if dm_begin self < dm_begin other then True
      else if dm_begin self > dm_begin other then False
      else dm_end self < dm_end other)"

definition Interval_inter :: "'a::linorder interval \<Rightarrow> 'a interval \<Rightarrow> 'a interval" where
  "Interval_inter self other =
     (let b = (if dm_begin self < dm_begin other then dm_begin other else dm_begin self);
          e = (if dm_end self > dm_end other then dm_end other else dm_end self);
          b' = (if e < b then e else b)
      in Interval b' e)"

definition Interval_isEmpty :: "'a interval \<Rightarrow> bool" where
  "Interval_isEmpty self \<longleftrightarrow> dm_begin self = dm_end self"

definition Interval_union :: "'a::linorder interval \<Rightarrow> 'a interval \<Rightarrow> 'a interval" where
  "Interval_union self other =
     (if \<not> Interval_isEmpty other then
        if Interval_isEmpty self then other
        else Interval
          (if dm_begin self > dm_begin other then dm_begin other else dm_begin self)
          (if dm_end self < dm_end other then dm_end other else dm_end self)
      else self)"

definition Interval_getWidth :: "'n::len word interval \<Rightarrow> 'n word" where
  "Interval_getWidth self = dm_end self - dm_begin self"

definition Interval_containsValue :: "'a::linorder interval \<Rightarrow> 'a \<Rightarrow> bool" where
  "Interval_containsValue self v \<longleftrightarrow> v \<ge> dm_begin self \<and> v < dm_end self"

text \<open>
  The test for a contained range computes \<open>range.dm_end - 1\<close> with the subtraction of two
  addresses, whose assertions apply; it is evaluated only if the first test succeeds.
\<close>

definition Interval_containsRange :: "addr interval \<Rightarrow> addr interval \<Rightarrow> bool res" where
  "Interval_containsRange self other =
     (if Interval_containsValue self (dm_begin other)
      then bind_res (Address_minus (dm_end other) 1)
             (\<lambda>last. Ok (Interval_containsValue self last))
      else Ok False)"

definition Interval_doesIntersect :: "'a::linorder interval \<Rightarrow> 'a interval \<Rightarrow> bool" where
  "Interval_doesIntersect self other \<longleftrightarrow> \<not> Interval_isEmpty (Interval_inter self other)"

text \<open>The specialisation of \<open>std::less\<close> that orders intervals in associative containers.\<close>

definition Interval_precedes :: "'a::linorder interval \<Rightarrow> 'a interval \<Rightarrow> bool" where
  "Interval_precedes lhs rhs = (if dm_end lhs \<le> dm_begin rhs then True else False)"

subsection \<open>The total order of intervals\<close>

lemma Interval_less_iff:
  "Interval_less a b \<longleftrightarrow>
     dm_begin a < dm_begin b \<or> dm_begin a = dm_begin b \<and> dm_end a < dm_end b"
  by (auto simp: Interval_less_def)

lemma interval_eq_iff: "a = b \<longleftrightarrow> dm_begin a = dm_begin b \<and> dm_end a = dm_end b"
  by (cases a; cases b) simp

interpretation interval_ordered: totally_ordered Interval_less
  by unfold_locales (auto simp: Interval_less_iff interval_eq_iff)

instantiation interval :: (linorder) linorder
begin

definition less_interval :: "'a interval \<Rightarrow> 'a interval \<Rightarrow> bool" where
  "less_interval = Interval_less"

definition less_eq_interval :: "'a interval \<Rightarrow> 'a interval \<Rightarrow> bool" where
  "less_eq_interval = le_by Interval_less"

instance
  by standard
    (auto simp: less_interval_def less_eq_interval_def le_by_def Interval_less_iff interval_eq_iff)

end

subsection \<open>The points of an interval\<close>

definition points :: "'a::linorder interval \<Rightarrow> 'a set" where
  "points i = {dm_begin i ..< dm_end i}"

definition proper :: "'a::linorder interval \<Rightarrow> bool" where
  "proper i \<longleftrightarrow> dm_begin i < dm_end i"

lemma points_default [simp]: "points (Interval_default :: 'a::{zero,linorder} interval) = {}"
  by (simp add: points_def Interval_default_def)

lemma points_iff [simp]: "x \<in> points i \<longleftrightarrow> Interval_containsValue i x"
  by (auto simp: points_def Interval_containsValue_def)

lemma proper_points: "proper i \<longleftrightarrow> points i \<noteq> {}"
  by (auto simp: proper_def points_def)

lemma Interval_make_Ok: "Interval_make b e = Ok i \<longleftrightarrow> b < e \<and> i = Interval b e"
  by (auto simp: Interval_make_def Assert_def)

lemma points_inter: "points (Interval_inter a b) = points a \<inter> points b"
  by (auto simp: points_def Interval_inter_def Let_def)

lemma isEmpty_inter: "Interval_isEmpty (Interval_inter a b) \<longleftrightarrow> points a \<inter> points b = {}"
proof -
  have "Interval_isEmpty (Interval_inter a b) \<longleftrightarrow> points (Interval_inter a b) = {}"
    by (auto simp: Interval_isEmpty_def Interval_inter_def points_def Let_def)
  then show ?thesis by (simp add: points_inter)
qed

lemma points_union_upper: "points a \<union> points b \<subseteq> points (Interval_union a b)"
  by (auto simp: points_def Interval_union_def Interval_isEmpty_def)

lemma points_union_least:
  assumes "points a \<union> points b \<subseteq> {lo ..< hi}" and "proper a" and "proper b"
  shows "points (Interval_union a b) \<subseteq> {lo ..< hi}"
  using assms unfolding proper_def points_def Interval_union_def Interval_isEmpty_def
  by (auto simp: ivl_subset)

lemma doesIntersect_iff: "Interval_doesIntersect a b \<longleftrightarrow> points a \<inter> points b \<noteq> {}"
  by (simp add: Interval_doesIntersect_def isEmpty_inter)

subsection \<open>Intervals as keys of an associative container\<close>

lemma precedes_iff [simp]: "Interval_precedes a b \<longleftrightarrow> dm_end a \<le> dm_begin b"
  by (simp add: Interval_precedes_def)

interpretation range_key: key_order "Interval_precedes :: 'a::linorder interval \<Rightarrow> _" proper
  by unfold_locales (auto simp: proper_def)

text \<open>Two non-empty intervals are equivalent under this order exactly if they overlap.\<close>

lemma range_key_equivalent:
  assumes "proper a" and "proper b"
  shows "range_key.equivalent a b \<longleftrightarrow> points a \<inter> points b \<noteq> {}"
  using assms by (auto simp: range_key.equivalent_def proper_def points_def not_le)

section \<open>Properties\<close>

text \<open>The difference of two addresses is defined exactly when it fits a signed 64-bit integer,
  and then it is the difference of the two values; the two assertions catch every other case.\<close>

theorem Address_minus_exact:
  "case Address_minus a b of
     Ok d \<Rightarrow> sint d = uint a - uint b \<and> uint a - uint b \<in> {- (2 ^ 63)..<2 ^ 63}
   | Abort \<Rightarrow> uint a - uint b \<notin> {- (2 ^ 63)..<2 ^ 63}
   | _ \<Rightarrow> False"
proof (cases "uint a - uint b \<in> {- (2 ^ 63)..<2 ^ 63}")
  case True
  then have "Address_minus a b = Ok (a - b)" by (simp add: Address_minus_eq)
  with True sint_minus_64 [OF this] show ?thesis by simp
next
  case False
  then have "Address_minus a b = Abort" by (auto simp: Address_minus_eq)
  with False show ?thesis by simp
qed

text \<open>As keys of a map or set, two non-empty address ranges are equivalent exactly when they
  overlap, so a lookup with a one-address range finds the range that contains the address.\<close>

theorem range_keys_overlap:
  assumes "dm_begin a < dm_end a" and "dm_begin b < dm_end b"
  shows "(\<not> Interval_precedes a b \<and> \<not> Interval_precedes b a) \<longleftrightarrow> points a \<inter> points b \<noteq> {}"
  using range_key_equivalent [of a b] assms by (simp add: range_key.equivalent_def proper_def)

lemma range_keys_overlap_witness:
  "points (Interval 10 20) \<inter> points (Interval 19 (30 :: addr)) \<noteq> {}
   \<and> points (Interval 10 20) \<inter> points (Interval 20 (30 :: addr)) = {}"
  using range_keys_overlap [of "Interval 10 20" "Interval 19 (30 :: addr)"]
    range_keys_overlap [of "Interval 10 20" "Interval 20 (30 :: addr)"]
  by simp

text \<open>
  Whether a range contains another is asked through \<open>range.dm_end - 1\<close>, a subtraction of addresses:
  it aborts for a range that ends above the middle of the address space.
\<close>

lemma containsRange_aborts_in_the_upper_half:
  "Interval_containsRange (Interval 0xFFFFFFFF80000000 0xFFFFFFFF90000000)
     (Interval 0xFFFFFFFF80000000 0xFFFFFFFF80001000) = Abort"
  by code_simp

end
