(* ===== verification/Extent.thy ===== *)
theory Extent
  imports Interval
begin

text \<open>
  Extents in time and space (Extent.hxx): a time interval paired with an address range. The
  interval operators lift component by component. What a client of these operators may rely on
  is stated once as the locale \<open>region\<close>, which intervals and extents both provide.
\<close>

section \<open>The contract of the interval operators\<close>

locale region =
  fixes den :: "'r \<Rightarrow> 'p set"
    and inter :: "'r \<Rightarrow> 'r \<Rightarrow> 'r"
    and union :: "'r \<Rightarrow> 'r \<Rightarrow> 'r"
    and isEmpty :: "'r \<Rightarrow> bool"
    and default :: "'r"
  assumes den_inter: "den (inter a b) = den a \<inter> den b"
    and inter_isEmpty: "isEmpty (inter a b) \<longleftrightarrow> den a \<inter> den b = {}"
    and union_upper: "den a \<union> den b \<subseteq> den (union a b)"
    and den_default: "den default = {}"
    and union_default: "den (union default a) = den a"
begin

definition bound :: "'r list \<Rightarrow> 'r" where
  "bound rs = foldl union default rs"

lemma foldl_union_upper: "den a \<union> (\<Union>r \<in> set rs. den r) \<subseteq> den (foldl union a rs)"
proof (induction rs arbitrary: a)
  case Nil
  show ?case by simp
next
  case (Cons r rs)
  have "den a \<union> den r \<subseteq> den (union a r)" by (rule union_upper)
  with Cons.IH [of "union a r"] show ?case by auto
qed

lemma bound_upper: "r \<in> set rs \<Longrightarrow> den r \<subseteq> den (bound rs)"
  using foldl_union_upper [of default rs] by (auto simp: bound_def)

lemma bound_single: "den (bound [r]) = den r"
  by (simp add: bound_def union_default)

text \<open>A region that misses a bound misses everything under it: what makes pruning sound.\<close>

lemma prune:
  "den r \<subseteq> den b \<Longrightarrow> isEmpty (inter e b) \<Longrightarrow> isEmpty (inter e r)"
  by (auto simp: inter_isEmpty)

end

lemma Interval_union_default:
  "points (Interval_union Interval_default a) = points (a :: 'a::{zero,linorder} interval)"
  by (auto simp: points_def Interval_union_def Interval_default_def Interval_isEmpty_def)

interpretation ivl: region points Interval_inter Interval_union Interval_isEmpty
  "Interval_default :: 'a::{zero,linorder} interval"
  by unfold_locales
    (simp_all only: points_inter isEmpty_inter points_union_upper points_default
      Interval_union_default)

section \<open>Extents\<close>

datatype extent = Extent (dm_interval: "time interval") (dm_range: "addr interval")

definition Extent_default :: extent where
  "Extent_default = Extent Interval_default Interval_default"

definition Extent_less :: "extent \<Rightarrow> extent \<Rightarrow> bool" where
  "Extent_less self other =
     (if dm_interval self < dm_interval other then True
      else if dm_interval self > dm_interval other then False
      else dm_range self < dm_range other)"

definition Extent_inter :: "extent \<Rightarrow> extent \<Rightarrow> extent" where
  "Extent_inter self other =
     Extent (Interval_inter (dm_interval self) (dm_interval other))
       (Interval_inter (dm_range self) (dm_range other))"

definition Extent_union :: "extent \<Rightarrow> extent \<Rightarrow> extent" where
  "Extent_union self other =
     Extent (Interval_union (dm_interval self) (dm_interval other))
       (Interval_union (dm_range self) (dm_range other))"

definition Extent_isEmpty :: "extent \<Rightarrow> bool" where
  "Extent_isEmpty self \<longleftrightarrow>
     Interval_isEmpty (dm_interval self) \<or> Interval_isEmpty (dm_range self)"

definition Extent_doesIntersect :: "extent \<Rightarrow> extent \<Rightarrow> bool" where
  "Extent_doesIntersect self e \<longleftrightarrow> \<not> Extent_isEmpty (Extent_inter self e)"

lemma extent_eq_iff: "a = b \<longleftrightarrow> dm_interval a = dm_interval b \<and> dm_range a = dm_range b"
  by (cases a; cases b) simp

lemma Extent_less_iff:
  "Extent_less a b \<longleftrightarrow>
     dm_interval a < dm_interval b \<or> dm_interval a = dm_interval b \<and> dm_range a < dm_range b"
  by (auto simp: Extent_less_def)

interpretation extent_ordered: totally_ordered Extent_less
  by unfold_locales (auto simp: Extent_less_iff extent_eq_iff)

instantiation extent :: linorder
begin

definition less_extent :: "extent \<Rightarrow> extent \<Rightarrow> bool" where
  "less_extent = Extent_less"

definition less_eq_extent :: "extent \<Rightarrow> extent \<Rightarrow> bool" where
  "less_eq_extent = le_by Extent_less"

instance
  by standard
    (auto simp: less_extent_def less_eq_extent_def le_by_def Extent_less_iff extent_eq_iff)

end

subsection \<open>The points of an extent\<close>

definition extent_points :: "extent \<Rightarrow> (time \<times> addr) set" where
  "extent_points e = points (dm_interval e) \<times> points (dm_range e)"

lemma extent_points_iff [simp]:
  "(t, a) \<in> extent_points e \<longleftrightarrow>
     Interval_containsValue (dm_interval e) t \<and> Interval_containsValue (dm_range e) a"
  by (simp add: extent_points_def)

interpretation ext: region extent_points Extent_inter Extent_union Extent_isEmpty Extent_default
proof (unfold_locales, goal_cases)
  case (1 a b)
  show ?case
    by (simp add: extent_points_def Extent_inter_def points_inter Times_Int_Times del: points_iff)
next
  case (2 a b)
  show ?case
    by (auto simp: Extent_isEmpty_def Extent_inter_def isEmpty_inter extent_points_def
        Times_Int_Times simp del: points_iff)
next
  case (3 a b)
  show ?case
    using points_union_upper [of "dm_interval a" "dm_interval b"]
      points_union_upper [of "dm_range a" "dm_range b"]
    by (auto simp: extent_points_def Extent_union_def simp del: points_iff)
next
  case 4
  show ?case by (simp add: extent_points_def Extent_default_def del: points_iff)
next
  case (5 a)
  show ?case
    by (simp add: extent_points_def Extent_union_def Extent_default_def Interval_union_default
        del: points_iff)
qed

lemma Extent_doesIntersect_iff:
  "Extent_doesIntersect a b \<longleftrightarrow> extent_points a \<inter> extent_points b \<noteq> {}"
  by (simp add: Extent_doesIntersect_def ext.inter_isEmpty)

section \<open>Properties\<close>

text \<open>On the points of time and space that extents denote, \<open>&\<close> is the intersection,
  \<open>doesIntersect\<close> tests whether it is empty, and \<open>|\<close> covers both operands.\<close>

theorem Extent_operators:
  "extent_points (Extent_inter a b) = extent_points a \<inter> extent_points b
   \<and> (Extent_doesIntersect a b \<longleftrightarrow> extent_points a \<inter> extent_points b \<noteq> {})
   \<and> extent_points a \<union> extent_points b \<subseteq> extent_points (Extent_union a b)"
  by (simp only: ext.den_inter Extent_doesIntersect_iff ext.union_upper simp_thms)

end
