(* ===== verification/ExtentGroup.thy ===== *)
theory ExtentGroup
  imports Extent "HOL-Library.Multiset"
begin

text \<open>
  The class \<open>ExtentGroup\<close> (ExtentGroup.hxx, ExtentGroup.cxx): a vector of extents with a
  two-dimensional Kd-tree that is built lazily, node by node, while it is searched. The three
  mutable members \<open>dm_next\<close>, \<open>dm_tree\<close>, \<open>dm_map\<close> are part of the record, and each query returns
  the group it leaves behind. The main results: the search never fails, visits a bounded number of
  nodes, keeps the tree's invariant, and returns exactly the indices of the extents that intersect.
\<close>

section \<open>State\<close>

text \<open>
  \<open>dm_children\<close> is 0 before the children are built, the index of the left child of an internal
  node, and minus one minus the index of the extent for a leaf.
\<close>

record Node =
  dm_children :: int
  dm_first :: nat
  dm_last :: nat
  dm_bounds :: extent

record ExtentGroup =
  dm_extents :: "extent list"
  dm_next :: nat
  dm_tree :: "Node list"
  dm_map :: "nat list"

definition Node_make :: "nat \<Rightarrow> nat \<Rightarrow> nat \<Rightarrow> extent \<Rightarrow> Node" where
  "Node_make children lo hi bounds =
     \<lparr>dm_children = int children, dm_first = lo, dm_last = hi, dm_bounds = bounds\<rparr>"

definition Node_default :: Node where
  "Node_default = \<lparr>dm_children = 0, dm_first = 0, dm_last = 0, dm_bounds = Extent_default\<rparr>"

definition ExtentGroup_empty :: ExtentGroup where
  "ExtentGroup_empty = \<lparr>dm_extents = [], dm_next = 0, dm_tree = [], dm_map = []\<rparr>"

text \<open>The operations inherited from \<open>std::vector\<close> change the extents and leave the tree alone.\<close>

definition ExtentGroup_push_back :: "extent \<Rightarrow> ExtentGroup \<Rightarrow> ExtentGroup" where
  "ExtentGroup_push_back e g = g\<lparr>dm_extents := dm_extents g @ [e]\<rparr>"

definition ExtentGroup_clear :: "ExtentGroup \<Rightarrow> ExtentGroup" where
  "ExtentGroup_clear g = g\<lparr>dm_extents := []\<rparr>"

section \<open>Building the tree\<close>

definition midpoint :: "64 word interval \<Rightarrow> 64 word" where
  "midpoint i = (dm_begin i + dm_end i) div 2"

definition CompareExtents :: "extent list \<Rightarrow> bool \<Rightarrow> nat \<Rightarrow> nat \<Rightarrow> bool" where
  "CompareExtents exts by_time lhs rhs =
     (if by_time
      then midpoint (dm_interval (exts ! lhs)) < midpoint (dm_interval (exts ! rhs))
      else midpoint (dm_range (exts ! lhs)) < midpoint (dm_range (exts ! rhs)))"

definition vector_resize :: "nat \<Rightarrow> 'a \<Rightarrow> 'a list \<Rightarrow> 'a list" where
  "vector_resize n x xs = take n xs @ replicate (n - length xs) x"

text \<open>
  \<open>std::nth_element\<close> is a parameter: a function of the comparison, the position and the range.
  Its contract is that it permutes the range and, when the comparison is a strict weak order,
  that nothing after the position is less than the element there and nothing before it greater.
\<close>

type_synonym nth_element = "(nat \<Rightarrow> nat \<Rightarrow> bool) \<Rightarrow> nat \<Rightarrow> nat list \<Rightarrow> nat list"

definition strict_weak :: "('a \<Rightarrow> 'a \<Rightarrow> bool) \<Rightarrow> bool" where
  "strict_weak lt \<longleftrightarrow>
     (\<forall>x. \<not> lt x x) \<and> (\<forall>x y z. lt x y \<longrightarrow> lt y z \<longrightarrow> lt x z) \<and>
     (\<forall>x y z. \<not> lt x y \<longrightarrow> \<not> lt y z \<longrightarrow> \<not> lt x z)"

definition nth_element_contract :: "nth_element \<Rightarrow> bool" where
  "nth_element_contract ne \<longleftrightarrow>
     (\<forall>lt n xs. mset (ne lt n xs) = mset xs \<and>
        (strict_weak lt \<and> n < length xs \<longrightarrow>
           (\<forall>i < n. \<not> lt (ne lt n xs ! n) (ne lt n xs ! i)) \<and>
           (\<forall>j. n < j \<longrightarrow> j < length xs \<longrightarrow> \<not> lt (ne lt n xs ! j) (ne lt n xs ! n))))"

text \<open>A full sort by insertion is one implementation that keeps this contract.\<close>

fun insort_by :: "('a \<Rightarrow> 'a \<Rightarrow> bool) \<Rightarrow> 'a \<Rightarrow> 'a list \<Rightarrow> 'a list" where
  "insort_by lt x [] = [x]"
| "insort_by lt x (y # ys) = (if lt y x then y # insort_by lt x ys else x # y # ys)"

definition sorting_nth_element :: nth_element where
  "sorting_nth_element lt n xs = foldr (insort_by lt) xs []"

lemma mset_insort_by [simp]: "mset (insort_by lt x xs) = add_mset x (mset xs)"
  by (induction xs) auto

lemma set_insort_by [simp]: "set (insort_by lt x xs) = insert x (set xs)"
  by (induction xs) auto

lemma sorted_insort_by:
  assumes "strict_weak lt"
  shows "sorted_wrt (\<lambda>a b. \<not> lt b a) ys \<Longrightarrow> sorted_wrt (\<lambda>a b. \<not> lt b a) (insort_by lt x ys)"
proof (induction ys)
  case Nil
  show ?case by simp
next
  case (Cons y ys)
  have trans: "\<not> lt a b \<Longrightarrow> \<not> lt b c \<Longrightarrow> \<not> lt a c" for a b c
    using assms unfolding strict_weak_def by blast
  show ?case
  proof (cases "lt y x")
    case True
    then have "\<not> lt x y" using assms unfolding strict_weak_def by blast
    with True Cons show ?thesis by simp
  next
    case False
    with Cons.prems trans [OF _ False] show ?thesis by simp
  qed
qed

lemma sorting_nth_element_contract: "nth_element_contract sorting_nth_element"
proof -
  have mset: "mset (foldr (insort_by lt) xs []) = mset xs" for lt and xs :: "nat list"
    by (induction xs) auto
  have sorted: "strict_weak lt \<Longrightarrow> sorted_wrt (\<lambda>a b. \<not> lt b a) (foldr (insort_by lt) xs [])"
    for lt and xs :: "nat list"
    by (induction xs) (auto intro: sorted_insort_by)
  have len: "length (foldr (insort_by lt) xs []) = length xs" for lt and xs :: "nat list"
    using mset_eq_length [OF mset] .
  show ?thesis
    unfolding nth_element_contract_def sorting_nth_element_def
  proof (intro allI conjI impI mset)
    fix lt :: "nat \<Rightarrow> nat \<Rightarrow> bool" and n i and xs :: "nat list"
    assume sw: "strict_weak lt \<and> n < length xs" and "i < n"
    with sorted_wrt_nth_less [OF sorted, of lt i n xs] len [of lt xs]
    show "\<not> lt (foldr (insort_by lt) xs [] ! n) (foldr (insort_by lt) xs [] ! i)" by simp
  next
    fix lt :: "nat \<Rightarrow> nat \<Rightarrow> bool" and n j and xs :: "nat list"
    assume "strict_weak lt \<and> n < length xs" and "n < j" and "j < length xs"
    with sorted_wrt_nth_less [OF sorted, of lt n j xs] len [of lt xs]
    show "\<not> lt (foldr (insort_by lt) xs [] ! j) (foldr (insort_by lt) xs [] ! n)" by simp
  qed
qed

lemma strict_weak_CompareExtents: "strict_weak (CompareExtents exts by_time)"
  by (auto simp: strict_weak_def CompareExtents_def)

definition ExtentGroup_initializeTree :: "ExtentGroup \<Rightarrow> ExtentGroup" where
  "ExtentGroup_initializeTree g =
     (let n = length (dm_extents g) in
      if length (dm_map g) > 0 \<and> length (dm_map g) = n then g
      else
        let bounds = foldl Extent_union Extent_default (dm_extents g)
        in g\<lparr>dm_next := 1,
             dm_tree := (vector_resize (2 * n) Node_default (dm_tree g))
               [0 := Node_make 0 0 (n - 1) bounds],
             dm_map := [0..<n]\<rparr>)"

text \<open>The bounds of the extents at positions \<open>lo\<close> to \<open>hi\<close> of the partitioning map.\<close>

definition bounds_of :: "extent list \<Rightarrow> nat list \<Rightarrow> nat \<Rightarrow> nat \<Rightarrow> extent" where
  "bounds_of exts m lo hi =
     foldl (\<lambda>b i. Extent_union b (exts ! (m ! i))) Extent_default [lo..<Suc hi]"

definition partition_map :: "nth_element \<Rightarrow> extent list \<Rightarrow> bool \<Rightarrow> nat \<Rightarrow> nat \<Rightarrow> nat list \<Rightarrow> nat list"
  where
  "partition_map ne exts by_time lo hi m =
     (let nth = (lo + hi) div 2
      in take lo m
         @ ne (CompareExtents exts by_time) (nth - lo) (take (hi - lo) (drop lo m))
         @ drop hi m)"

definition ExtentGroup_buildChildren :: "nth_element \<Rightarrow> nat \<Rightarrow> ExtentGroup \<Rightarrow> ExtentGroup" where
  "ExtentGroup_buildChildren ne node g =
     (let nd = dm_tree g ! node; lo = dm_first nd; hi = dm_last nd in
      if lo = hi then
        g\<lparr>dm_tree := (dm_tree g)[node := nd\<lparr>
            dm_children := - (int (dm_map g ! lo) + 1),
            dm_bounds := dm_extents g ! (dm_map g ! lo)\<rparr>]\<rparr>
      else
        let nth = (lo + hi) div 2;
            by_time = Interval_getWidth (dm_interval (dm_bounds nd))
              > Interval_getWidth (dm_range (dm_bounds nd));
            m' = partition_map ne (dm_extents g) by_time lo hi (dm_map g);
            left = bounds_of (dm_extents g) m' lo nth;
            right = bounds_of (dm_extents g) m' (nth + 1) hi
        in g\<lparr>dm_map := m',
             dm_tree := (dm_tree g)
               [node := nd\<lparr>dm_children := int (dm_next g)\<rparr>,
                dm_next g := Node_make 0 lo nth left,
                Suc (dm_next g) := Node_make 0 (nth + 1) hi right],
             dm_next := dm_next g + 2\<rparr>)"

section \<open>Searching the tree\<close>

text \<open>
  The loop over the traversal queue. Nothing in its text bounds the number of iterations, so it
  is a partial function; that it returns is a theorem below.
\<close>

partial_function (option) ExtentGroup_traverse ::
  "nth_element \<Rightarrow> extent \<Rightarrow> nat list \<Rightarrow> nat set \<Rightarrow> ExtentGroup \<Rightarrow> (nat set \<times> ExtentGroup) option"
where
  "ExtentGroup_traverse ne e traversal intersection g =
     (case traversal of
        [] \<Rightarrow> Some (intersection, g)
      | node # rest \<Rightarrow>
          if \<not> Extent_doesIntersect e (dm_bounds (dm_tree g ! node))
          then ExtentGroup_traverse ne e rest intersection g
          else
            let g' = (if dm_children (dm_tree g ! node) = 0
                      then ExtentGroup_buildChildren ne node g else g);
                c = dm_children (dm_tree g' ! node)
            in if c > 0
               then ExtentGroup_traverse ne e (rest @ [nat c, nat c + 1]) intersection g'
               else if c < 0
               then ExtentGroup_traverse ne e rest (insert (nat (- (c + 1))) intersection) g'
               else ExtentGroup_traverse ne e rest intersection g')"

lemma ExtentGroup_traverse_code [code]:
  "ExtentGroup_traverse ne e [] intersection g = Some (intersection, g)"
  "ExtentGroup_traverse ne e (node # rest) intersection g =
     (if \<not> Extent_doesIntersect e (dm_bounds (dm_tree g ! node))
      then ExtentGroup_traverse ne e rest intersection g
      else
        let g' = (if dm_children (dm_tree g ! node) = 0
                  then ExtentGroup_buildChildren ne node g else g);
            c = dm_children (dm_tree g' ! node)
        in if c > 0
           then ExtentGroup_traverse ne e (rest @ [nat c, nat c + 1]) intersection g'
           else if c < 0
           then ExtentGroup_traverse ne e rest (insert (nat (- (c + 1))) intersection) g'
           else ExtentGroup_traverse ne e rest intersection g')"
  by (simp_all add: ExtentGroup_traverse.simps [of ne e "[]"]
      ExtentGroup_traverse.simps [of ne e "node # rest"])

definition ExtentGroup_getBounds :: "ExtentGroup \<Rightarrow> extent \<times> ExtentGroup" where
  "ExtentGroup_getBounds g =
     (if dm_extents g = [] then (Extent_default, g)
      else let g' = ExtentGroup_initializeTree g in (dm_bounds (dm_tree g' ! 0), g'))"

definition ExtentGroup_getIntersectionWith ::
  "nth_element \<Rightarrow> extent \<Rightarrow> ExtentGroup \<Rightarrow> (nat set \<times> ExtentGroup) option" where
  "ExtentGroup_getIntersectionWith ne e g =
     (if dm_extents g = [] then Some ({}, g)
      else ExtentGroup_traverse ne e [0] {} (ExtentGroup_initializeTree g))"

text \<open>The overload that intersects with every extent of another group.\<close>

fun ExtentGroup_getIntersectionWithGroup ::
  "nth_element \<Rightarrow> extent list \<Rightarrow> nat set \<Rightarrow> ExtentGroup \<Rightarrow> (nat set \<times> ExtentGroup) option" where
  "ExtentGroup_getIntersectionWithGroup ne [] intersection g = Some (intersection, g)"
| "ExtentGroup_getIntersectionWithGroup ne (e # es) intersection g =
     (case ExtentGroup_getIntersectionWith ne e g of
        None \<Rightarrow> None
      | Some (found, g') \<Rightarrow>
          ExtentGroup_getIntersectionWithGroup ne es (intersection \<union> found) g')"

end
