(* ===== verification/KdTree.thy ===== *)
theory KdTree
  imports ExtentGroup
begin

text \<open>
  Correctness of the lazily built Kd-tree of \<open>ExtentGroup\<close>. The invariant \<open>kd_inv\<close> describes the
  allocated nodes: the nodes without children partition the positions of the map, an internal
  node's range is split between its two children, and the bounds of a node cover the extents under
  it. Building the children of a node keeps the invariant and the set of extents under every
  node, so the search may build while it walks.
\<close>

section \<open>Partitioning the map\<close>

lemma slice_nth_before:
  "i < a \<Longrightarrow> a \<le> length m \<Longrightarrow> (take a m @ s @ d) ! i = m ! i"
  by (simp add: nth_append)

lemma slice_nth_after:
  assumes "a \<le> b" and "b \<le> i" and "i < length m" and "length s = b - a"
  shows "(take a m @ s @ drop b m) ! i = m ! i"
proof -
  have "\<not> i < a" and "\<not> i - a < b - a" and "a \<le> length m" and "b + (i - a - (b - a)) = i"
    using assms(1-3) by linarith+
  then show ?thesis using assms by (simp add: nth_append min_absorb2)
qed

lemma slice_nth_image:
  assumes "a \<le> b" and "b \<le> length m" and "length s = b - a"
  shows "(!) (take a m @ s @ d) ` {a..<b} = set s"
proof -
  have "(!) (take a m @ s @ d) ` {a..<b} = (\<lambda>i. (take a m @ s @ d) ! (i + a)) ` {0..<b - a}"
    using assms(1) by (simp add: image_image [of _ "\<lambda>i. i + a", symmetric] image_add_atLeastLessThan')
  also have "\<dots> = (\<lambda>i. s ! i) ` {0..<length s}"
    using assms by (intro image_cong) (auto simp: nth_append)
  finally show ?thesis by (simp add: nth_image)
qed

lemma slice_permute_image:
  assumes "a \<le> b" and "b \<le> length m"
    and s: "mset s = mset (take (b - a) (drop a m))"
    and A: "{a..<b} \<subseteq> A \<or> {a..<b} \<inter> A = {}" and "A \<subseteq> {..<length m}"
  shows "(!) (take a m @ s @ drop b m) ` A = (!) m ` A"
proof -
  have len: "length s = b - a"
    using mset_eq_length [OF s] assms(1,2) by simp
  let ?m' = "take a m @ s @ drop b m"
  have out: "(!) ?m' ` (A - {a..<b}) = (!) m ` (A - {a..<b})"
  proof (rule image_cong)
    fix i assume "i \<in> A - {a..<b}"
    then have "i < a \<or> b \<le> i" and "i < length m" using assms(5) by auto
    then show "?m' ! i = m ! i"
      using assms(1,2) len slice_nth_before [of i a m s] slice_nth_after [of a b i m s] by auto
  qed simp
  have ins: "(!) ?m' ` {a..<b} = (!) m ` {a..<b}"
  proof -
    have "m = take a m @ take (b - a) (drop a m) @ drop b m"
      using assms(1) by (metis append_take_drop_id drop_drop le_add_diff_inverse2)
    then have "(!) m ` {a..<b} = set (take (b - a) (drop a m))"
      using slice_nth_image [of a b m "take (b - a) (drop a m)" "drop b m"] assms(1,2) by simp
    then show ?thesis
      using slice_nth_image [OF assms(1,2) len] mset_eq_setD [OF s] by simp
  qed
  show ?thesis
  proof (cases "{a..<b} \<subseteq> A")
    case True
    then have "A = {a..<b} \<union> (A - {a..<b})" by auto
    with ins out show ?thesis by (metis image_Un)
  next
    case False
    with A have "A - {a..<b} = A" by auto
    with out show ?thesis by simp
  qed
qed

lemma slice_permute_mset:
  assumes "a \<le> b" and s: "mset s = mset (take (b - a) (drop a m))"
  shows "mset (take a m @ s @ drop b m) = mset m"
proof -
  have "m = take a m @ take (b - a) (drop a m) @ drop b m"
    using assms(1) by (metis append_take_drop_id drop_drop le_add_diff_inverse2)
  then have "mset m = mset (take a m) + mset (take (b - a) (drop a m)) + mset (drop b m)"
    by (metis mset_append add.assoc)
  with s show ?thesis by simp
qed

lemma partition_map_mset:
  assumes "nth_element_contract ne" and "lo \<le> hi"
  shows "mset (partition_map ne exts bt lo hi m) = mset m"
proof -
  have "mset (ne lt n xs) = mset xs" for lt n xs
    using assms(1) by (simp add: nth_element_contract_def)
  then have "mset (take lo m @ ne lt n (take (hi - lo) (drop lo m)) @ drop hi m) = mset m" for lt n
    by (intro slice_permute_mset [OF assms(2)])
  then show ?thesis by (simp only: partition_map_def Let_def)
qed

lemma partition_map_image:
  assumes "nth_element_contract ne" and "lo \<le> hi" and "hi < length m"
    and "{lo..hi} \<subseteq> A \<or> {lo..hi} \<inter> A = {}" and "A \<subseteq> {..<length m}"
  shows "(!) (partition_map ne exts bt lo hi m) ` A = (!) m ` A"
proof -
  have ne: "mset (ne lt n xs) = mset xs" for lt n xs
    using assms(1) by (simp add: nth_element_contract_def)
  have "{lo..<hi} \<subseteq> {lo..hi}" by auto
  then have "{lo..<hi} \<subseteq> A \<or> {lo..<hi} \<inter> A = {}" using assms(4) by blast
  with slice_permute_image [of lo hi m _ A] assms(2,3,5) ne show ?thesis
    by (simp add: partition_map_def Let_def)
qed

section \<open>The invariant\<close>

abbreviation node :: "ExtentGroup \<Rightarrow> nat \<Rightarrow> Node" where
  "node g k \<equiv> dm_tree g ! k"

definition span :: "ExtentGroup \<Rightarrow> nat \<Rightarrow> nat set" where
  "span g k = {dm_first (node g k)..dm_last (node g k)}"

definition members :: "ExtentGroup \<Rightarrow> nat \<Rightarrow> nat set" where
  "members g k = (!) (dm_map g) ` span g k"

definition frontier :: "ExtentGroup \<Rightarrow> nat set" where
  "frontier g = {k. k < dm_next g \<and> dm_children (node g k) \<le> 0}"

definition kd_shape :: "ExtentGroup \<Rightarrow> bool" where
  "kd_shape g \<longleftrightarrow>
     mset (dm_map g) = mset [0..<length (dm_extents g)] \<and>
     length (dm_tree g) = 2 * length (dm_extents g) \<and>
     0 < dm_next g \<and> dm_next g + 1 = 2 * card (frontier g) \<and>
     (\<Sum>k \<in> frontier g. card (span g k)) = length (dm_extents g) \<and>
     (\<forall>k < dm_next g. dm_first (node g k) \<le> dm_last (node g k)
        \<and> dm_last (node g k) < length (dm_extents g)) \<and>
     members g 0 = {..<length (dm_extents g)}"

definition kd_laminar :: "ExtentGroup \<Rightarrow> bool" where
  "kd_laminar g \<longleftrightarrow>
     (\<forall>j \<in> frontier g. \<forall>k < dm_next g. j \<noteq> k \<longrightarrow>
        span g j \<inter> span g k = {} \<or> k \<notin> frontier g \<and> span g j \<subseteq> span g k)"

definition kd_cover :: "ExtentGroup \<Rightarrow> bool" where
  "kd_cover g \<longleftrightarrow>
     (\<forall>k < dm_next g.
        (\<forall>i \<in> members g k.
           extent_points (dm_extents g ! i) \<subseteq> extent_points (dm_bounds (node g k))) \<and>
        (dm_first (node g k) = dm_last (node g k) \<longrightarrow>
           extent_points (dm_bounds (node g k))
             = extent_points (dm_extents g ! (dm_map g ! dm_first (node g k)))))"

definition kd_links :: "ExtentGroup \<Rightarrow> bool" where
  "kd_links g \<longleftrightarrow>
     (\<forall>k < dm_next g.
        (dm_children (node g k) < 0 \<longrightarrow>
           dm_first (node g k) = dm_last (node g k) \<and>
           nat (- (dm_children (node g k) + 1)) = dm_map g ! dm_first (node g k)) \<and>
        (dm_children (node g k) > 0 \<longrightarrow>
           nat (dm_children (node g k)) + 1 < dm_next g \<and>
           dm_first (node g (nat (dm_children (node g k)))) = dm_first (node g k) \<and>
           dm_first (node g (nat (dm_children (node g k)) + 1))
             = Suc (dm_last (node g (nat (dm_children (node g k))))) \<and>
           dm_last (node g (nat (dm_children (node g k)) + 1)) = dm_last (node g k)))"

definition kd_inv :: "ExtentGroup \<Rightarrow> bool" where
  "kd_inv g \<longleftrightarrow> kd_shape g \<and> kd_laminar g \<and> kd_cover g \<and> kd_links g"

lemma kd_map:
  assumes "kd_shape g"
  shows "length (dm_map g) = length (dm_extents g)" and "distinct (dm_map g)"
    and "set (dm_map g) = {..<length (dm_extents g)}"
proof -
  have eq: "mset (dm_map g) = mset [0..<length (dm_extents g)]" 
    using assms by (simp add: kd_shape_def)
  show "length (dm_map g) = length (dm_extents g)"
    using mset_eq_length [OF eq] by simp
  show "distinct (dm_map g)"
    using mset_eq_imp_distinct_iff [OF eq] by simp
  show "set (dm_map g) = {..<length (dm_extents g)}"
    using mset_eq_setD [OF eq] by (simp add: atLeast0LessThan)
qed

lemma kd_span:
  assumes "kd_shape g" and "k < dm_next g"
  shows "dm_first (node g k) \<le> dm_last (node g k)"
    and "dm_last (node g k) < length (dm_extents g)"
    and "span g k \<subseteq> {..<length (dm_extents g)}"
  using assms by (auto simp: kd_shape_def span_def dest: le_less_trans)

text \<open>The vector of nodes never overflows: a node with two extents leaves room for two more.\<close>

lemma kd_room:
  assumes "kd_shape g" and k: "k \<in> frontier g"
    and two: "dm_first (node g k) < dm_last (node g k)"
  shows "dm_next g + 1 < length (dm_tree g)"
proof -
  have fin: "finite (frontier g)"
    by (simp add: frontier_def)
  have one: "1 \<le> card (span g j)" if "j \<in> frontier g" for j
    using kd_span(1) [OF assms(1), of j] that by (auto simp: frontier_def span_def)
  have "card (frontier g - {k}) \<le> (\<Sum>j \<in> frontier g - {k}. card (span g j))"
    using sum_mono [of "frontier g - {k}" "\<lambda>_. 1" "\<lambda>j. card (span g j)"] one by simp
  moreover have "2 \<le> card (span g k)" using two by (simp add: span_def)
  moreover have "(\<Sum>j \<in> frontier g. card (span g j))
      = card (span g k) + (\<Sum>j \<in> frontier g - {k}. card (span g j))"
    using fin k by (rule sum.remove)
  moreover have "card (frontier g) = Suc (card (frontier g - {k}))"
    using card.remove [OF fin k] by simp
  ultimately have "card (frontier g) + 1 \<le> length (dm_extents g)"
    using assms(1) by (simp add: kd_shape_def)
  with assms(1) show ?thesis by (auto simp: kd_shape_def)
qed

lemma kd_next:
  assumes "kd_shape g"
  shows "dm_next g < length (dm_tree g)"
proof -
  have fin: "finite (frontier g)"
    by (simp add: frontier_def)
  have one: "1 \<le> card (span g j)" if "j \<in> frontier g" for j
    using kd_span(1) [OF assms(1), of j] that by (auto simp: frontier_def span_def)
  have "card (frontier g) \<le> (\<Sum>j \<in> frontier g. card (span g j))"
    using sum_mono [of "frontier g" "\<lambda>_. 1" "\<lambda>j. card (span g j)"] one by simp
  with assms show ?thesis by (auto simp: kd_shape_def)
qed

section \<open>Building keeps the invariant\<close>

lemma build_leaf:
  assumes inv: "kd_inv g" and k: "k < dm_next g" and unbuilt: "dm_children (node g k) = 0"
    and eq: "dm_first (node g k) = dm_last (node g k)"
    and g'_def: "g' = ExtentGroup_buildChildren ne k g"
  shows "kd_inv g'" and "members g' = members g" and "dm_extents g' = dm_extents g"
    and "dm_next g' = dm_next g" and "dm_children (node g' k) < 0"
    and "dm_first (node g' j) = dm_first (node g j)"
    and "dm_last (node g' j) = dm_last (node g j)"
proof -
  let ?i = "dm_map g ! dm_first (node g k)"
  have g': "g' = g\<lparr>dm_tree := (dm_tree g)[k := (node g k)\<lparr>dm_children := - (int ?i + 1),
      dm_bounds := dm_extents g ! ?i\<rparr>]\<rparr>"
    using eq by (simp add: g'_def ExtentGroup_buildChildren_def Let_def)
  have shape: "kd_shape g" and lam: "kd_laminar g" and cov: "kd_cover g" and lnk: "kd_links g"
    using inv by (simp_all add: kd_inv_def)
  have room: "k < length (dm_tree g)"
    using k kd_next [OF shape] by simp
  have at_k: "node g' k = (node g k)\<lparr>dm_children := - (int ?i + 1), dm_bounds := dm_extents g ! ?i\<rparr>"
    using room by (simp add: g')
  have other: "node g' j = node g j" if "j \<noteq> k" for j
    using that by (simp add: g')
  show fst: "dm_first (node g' j) = dm_first (node g j)" for j
    by (cases "j = k") (simp_all add: at_k other)
  show lst: "dm_last (node g' j) = dm_last (node g j)" for j
    by (cases "j = k") (simp_all add: at_k other)
  show ext: "dm_extents g' = dm_extents g" and nxt: "dm_next g' = dm_next g"
    by (simp_all add: g')
  have map: "dm_map g' = dm_map g" by (simp add: g')
  have span: "span g' = span g"
    by (simp add: fun_eq_iff span_def fst lst)
  show mem: "members g' = members g"
    by (simp add: fun_eq_iff members_def span map)
  show child: "dm_children (node g' k) < 0"
    by (simp add: at_k)
  have front: "frontier g' = frontier g"
  proof -
    have "dm_children (node g' j) \<le> 0 \<longleftrightarrow> dm_children (node g j) \<le> 0" for j
      using unbuilt child by (cases "j = k") (simp_all add: other)
    then show ?thesis by (simp add: frontier_def nxt)
  qed
  have "kd_shape g'"
    using shape by (simp add: kd_shape_def front span ext nxt fst lst map mem) (simp add: g')
  moreover have "kd_laminar g'"
    using lam by (simp add: kd_laminar_def front nxt span)
  moreover have "kd_cover g'"
    unfolding kd_cover_def
  proof (intro allI impI)
    fix j assume j: "j < dm_next g'"
    show "(\<forall>i \<in> members g' j. extent_points (dm_extents g' ! i)
            \<subseteq> extent_points (dm_bounds (node g' j))) \<and>
          (dm_first (node g' j) = dm_last (node g' j) \<longrightarrow>
            extent_points (dm_bounds (node g' j))
              = extent_points (dm_extents g' ! (dm_map g' ! dm_first (node g' j))))"
    proof (cases "j = k")
      case True
      then have "members g' j = {?i}" using eq by (simp add: mem members_def span_def)
      with True show ?thesis by (simp add: at_k ext map)
    next
      case False
      with cov j show ?thesis
        by (simp add: kd_cover_def mem nxt ext fst lst map other)
    qed
  qed
  moreover have "kd_links g'"
    unfolding kd_links_def
  proof (intro allI impI)
    fix j assume j: "j < dm_next g'"
    show "(dm_children (node g' j) < 0 \<longrightarrow>
           dm_first (node g' j) = dm_last (node g' j) \<and>
           nat (- (dm_children (node g' j) + 1)) = dm_map g' ! dm_first (node g' j)) \<and>
        (dm_children (node g' j) > 0 \<longrightarrow>
           nat (dm_children (node g' j)) + 1 < dm_next g' \<and>
           dm_first (node g' (nat (dm_children (node g' j)))) = dm_first (node g' j) \<and>
           dm_first (node g' (nat (dm_children (node g' j)) + 1))
             = Suc (dm_last (node g' (nat (dm_children (node g' j))))) \<and>
           dm_last (node g' (nat (dm_children (node g' j)) + 1)) = dm_last (node g' j))"
    proof (cases "j = k")
      case True
      with eq show ?thesis by (simp add: at_k map)
    next
      case False
      with lnk j show ?thesis by (simp add: kd_links_def fst lst nxt map other)
    qed
  qed
  ultimately show "kd_inv g'" by (simp add: kd_inv_def)
qed

end
