(* ===== verification/KdBuild.thy ===== *)
theory KdBuild
  imports KdTree
begin

text \<open>
  Building the children of an internal node of the Kd-tree (\<open>ExtentGroup::buildChildren\<close>): every
  part of the invariant \<open>kd_inv\<close> holds again in the tree with the two new nodes, and the node's
  extents are split between them. Together with the case of a leaf this is \<open>build_ok\<close>, the only
  fact about building that the search uses.
\<close>

lemma bounds_of_bound:
  "bounds_of exts m lo hi = ext.bound (map (\<lambda>i. exts ! (m ! i)) [lo..<Suc hi])"
  by (simp only: bounds_of_def ext.bound_def foldl_map)

lemma bounds_of_upper:
  assumes "lo \<le> i" and "i \<le> hi"
  shows "extent_points (exts ! (m ! i)) \<subseteq> extent_points (bounds_of exts m lo hi)"
  unfolding bounds_of_bound by (rule ext.bound_upper) (use assms in \<open>auto simp del: upt_Suc\<close>)

lemma bounds_of_single:
  "extent_points (bounds_of exts m lo lo) = extent_points (exts ! (m ! lo))"
  by (simp add: bounds_of_bound ext.bound_single)

text \<open>What building the children of a node with several extents does to the fields.\<close>

definition kd_split ::
  "nth_element \<Rightarrow> ExtentGroup \<Rightarrow> nat \<Rightarrow> nat \<Rightarrow> nat list \<Rightarrow> ExtentGroup \<Rightarrow> bool" where
  "kd_split ne g k mid m' g' \<longleftrightarrow>
     nth_element_contract ne \<and> kd_inv g \<and> k < dm_next g \<and> dm_children (node g k) = 0 \<and>
     dm_first (node g k) < dm_last (node g k) \<and> g' = ExtentGroup_buildChildren ne k g \<and>
     mid = (dm_first (node g k) + dm_last (node g k)) div 2 \<and>
     m' = partition_map ne (dm_extents g)
          (Interval_getWidth (dm_interval (dm_bounds (node g k)))
             > Interval_getWidth (dm_range (dm_bounds (node g k))))
          (dm_first (node g k)) (dm_last (node g k)) (dm_map g)"

lemma kd_splitD:
  assumes "kd_split ne g k mid m' g'"
  shows contract: "nth_element_contract ne"
    and inv: "kd_inv g" and k: "k < dm_next g" and unbuilt: "dm_children (node g k) = 0"
    and two: "dm_first (node g k) < dm_last (node g k)"
    and g'_def: "g' = ExtentGroup_buildChildren ne k g"
    and mid_def: "mid = (dm_first (node g k) + dm_last (node g k)) div 2"
    and m'_def: "m' = partition_map ne (dm_extents g)
          (Interval_getWidth (dm_interval (dm_bounds (node g k)))
             > Interval_getWidth (dm_range (dm_bounds (node g k))))
          (dm_first (node g k)) (dm_last (node g k)) (dm_map g)"
  using assms unfolding kd_split_def by blast+

lemma split_parts:
  assumes "kd_split ne g k mid m' g'"
  shows "kd_shape g" and "kd_laminar g" and "kd_cover g" and "kd_links g"
    and "k \<in> frontier g"
  using kd_splitD [OF assms] by (simp_all add: kd_inv_def frontier_def)

lemma split_room:
  assumes "kd_split ne g k mid m' g'"
  shows "dm_next g + 1 < length (dm_tree g)" and "k < length (dm_tree g)"
    and "dm_first (node g k) \<le> mid" and "mid < dm_last (node g k)"
  using kd_room [OF split_parts(1) [OF assms] split_parts(5) [OF assms]] kd_splitD [OF assms]
  by auto

lemma split_fields:
  assumes "kd_split ne g k mid m' g'"
  shows "dm_extents g' = dm_extents g" and "dm_next g' = dm_next g + 2" and "dm_map g' = m'"
    and "length (dm_tree g') = length (dm_tree g)"
  using kd_splitD [OF assms] by (simp_all add: ExtentGroup_buildChildren_def Let_def)

lemma split_nodes:
  assumes "kd_split ne g k mid m' g'"
  shows "node g' k = (node g k)\<lparr>dm_children := int (dm_next g)\<rparr>"
    and "node g' (dm_next g) = Node_make 0 (dm_first (node g k)) mid
          (bounds_of (dm_extents g) m' (dm_first (node g k)) mid)"
    and "node g' (Suc (dm_next g)) = Node_make 0 (mid + 1) (dm_last (node g k))
          (bounds_of (dm_extents g) m' (mid + 1) (dm_last (node g k)))"
    and "j < dm_next g \<Longrightarrow> j \<noteq> k \<Longrightarrow> node g' j = node g j"
  using kd_splitD [OF assms] split_room [OF assms]
  by (simp_all add: ExtentGroup_buildChildren_def Let_def)

lemma split_ranges:
  assumes "kd_split ne g k mid m' g'"
  shows "j < dm_next g \<Longrightarrow> span g' j = span g j"
    and "span g' (dm_next g) = {dm_first (node g k)..mid}"
    and "span g' (Suc (dm_next g)) = {Suc mid..dm_last (node g k)}"
    and "span g' (dm_next g) \<union> span g' (Suc (dm_next g)) = span g k"
    and "span g' (dm_next g) \<inter> span g' (Suc (dm_next g)) = {}"
proof -
  show "j < dm_next g \<Longrightarrow> span g' j = span g j"
    by (cases "j = k") (simp_all add: span_def split_nodes [OF assms])
  show l: "span g' (dm_next g) = {dm_first (node g k)..mid}"
    and r: "span g' (Suc (dm_next g)) = {Suc mid..dm_last (node g k)}"
    by (simp_all add: span_def split_nodes [OF assms] Node_make_def)
  show "span g' (dm_next g) \<union> span g' (Suc (dm_next g)) = span g k"
    using split_room(3,4) [OF assms] unfolding l r by (auto simp: span_def)
  show "span g' (dm_next g) \<inter> span g' (Suc (dm_next g)) = {}"
    unfolding l r by auto
qed

lemma split_frontier:
  assumes "kd_split ne g k mid m' g'"
  shows "frontier g' = insert (dm_next g) (insert (Suc (dm_next g)) (frontier g - {k}))"
proof (rule set_eqI)
  fix j
  consider "j < dm_next g" | "j = dm_next g" | "j = Suc (dm_next g)" | "Suc (dm_next g) < j"
    by linarith
  then show "j \<in> frontier g' \<longleftrightarrow>
      j \<in> insert (dm_next g) (insert (Suc (dm_next g)) (frontier g - {k}))"
  proof cases
    case 1
    then show ?thesis
      using k [OF assms]
      by (cases "j = k") (auto simp: frontier_def split_fields [OF assms] split_nodes [OF assms])
  qed (simp_all add: frontier_def split_fields [OF assms] split_nodes [OF assms] Node_make_def)
qed

lemma kd_laminarD:
  "kd_laminar g \<Longrightarrow> j \<in> frontier g \<Longrightarrow> i < dm_next g \<Longrightarrow> j \<noteq> i \<Longrightarrow>
    span g j \<inter> span g i = {} \<or> i \<notin> frontier g \<and> span g j \<subseteq> span g i"
  by (auto simp: kd_laminar_def)

lemma split_old_members:
  assumes S: "kd_split ne g k mid m' g'" and j: "j < dm_next g"
  shows "members g' j = members g j"
proof -
  have "span g k \<subseteq> span g j \<or> span g k \<inter> span g j = {}"
  proof (cases "j = k")
    case False
    with kd_laminarD [OF split_parts(2,5) [OF S] j] show ?thesis by blast
  qed simp
  moreover have "span g j \<subseteq> {..<length (dm_map g)}"
    using kd_span(3) [OF split_parts(1) [OF S] j] kd_map(1) [OF split_parts(1) [OF S]] by simp
  moreover have "dm_last (node g k) < length (dm_map g)"
    using kd_span(2) [OF split_parts(1) [OF S] k [OF S]] kd_map(1) [OF split_parts(1) [OF S]]
    by simp
  ultimately show ?thesis
    using partition_map_image [OF contract [OF S] less_imp_le [OF two [OF S]],
        of "dm_map g" "span g j"]
    by (simp add: members_def split_ranges(1) [OF S j] split_fields [OF S] m'_def [OF S]
        span_def [of g k])
qed

lemma split_members:
  assumes S: "kd_split ne g k mid m' g'"
  shows "members g k = members g' (dm_next g) \<union> members g' (Suc (dm_next g))"
  using split_old_members [OF S k [OF S]] split_ranges(1) [OF S k [OF S]] split_ranges(4) [OF S]
  by (simp add: members_def image_Un [symmetric])

lemma split_frontier_card:
  assumes S: "kd_split ne g k mid m' g'"
  shows "card (frontier g') = Suc (card (frontier g))"
    and "(\<Sum>j \<in> frontier g'. card (span g' j)) = (\<Sum>j \<in> frontier g. card (span g j))"
proof -
  have fin: "finite (frontier g)" by (simp add: frontier_def)
  have new: "dm_next g \<notin> frontier g - {k}" "Suc (dm_next g) \<notin> frontier g - {k}"
    by (simp_all add: frontier_def)
  show "card (frontier g') = Suc (card (frontier g))"
    using fin new split_parts(5) [OF S] card.remove [OF fin split_parts(5) [OF S]]
    by (simp add: split_frontier [OF S])
  have "(\<Sum>j \<in> frontier g'. card (span g' j)) =
      card (span g' (dm_next g)) + card (span g' (Suc (dm_next g)))
        + (\<Sum>j \<in> frontier g - {k}. card (span g' j))"
    using fin new by (simp add: split_frontier [OF S] add.assoc)
  also have "card (span g' (dm_next g)) + card (span g' (Suc (dm_next g))) = card (span g k)"
    by (metis card_Un_disjoint finite_atLeastAtMost split_ranges(2-5) [OF S])
  also have "(\<Sum>j \<in> frontier g - {k}. card (span g' j)) = (\<Sum>j \<in> frontier g - {k}. card (span g j))"
    by (rule sum.cong) (auto simp: split_ranges(1) [OF S] frontier_def)
  also have "card (span g k) + (\<Sum>j \<in> frontier g - {k}. card (span g j))
      = (\<Sum>j \<in> frontier g. card (span g j))"
    by (rule sum.remove [OF fin split_parts(5) [OF S], symmetric])
  finally show "(\<Sum>j \<in> frontier g'. card (span g' j)) = (\<Sum>j \<in> frontier g. card (span g j))" .
qed

lemma split_cases:
  assumes S: "kd_split ne g k mid m' g'" and "j < dm_next g'"
  obtains "j = k" | "j < dm_next g" "j \<noteq> k" | "j = dm_next g" | "j = Suc (dm_next g)"
  using assms(2) split_fields(2) [OF S] by linarith

lemma split_shape:
  assumes S: "kd_split ne g k mid m' g'"
  shows "kd_shape g'"
proof -
  have "mset m' = mset (dm_map g)"
    by (simp add: m'_def [OF S] partition_map_mset [OF contract [OF S] less_imp_le [OF two [OF S]]])
  moreover have "dm_first (node g' j) \<le> dm_last (node g' j) \<and>
      dm_last (node g' j) < length (dm_extents g)" if "j < dm_next g'" for j
    using S that
  proof (cases rule: split_cases)
    case 2
    with kd_span(1,2) [OF split_parts(1) [OF S], of j] show ?thesis
      by (simp add: split_nodes [OF S])
  qed (use split_room(3,4) [OF S] kd_span [OF split_parts(1) [OF S] k [OF S]]
      in \<open>simp_all add: split_nodes [OF S] Node_make_def\<close>)
  moreover have "members g' 0 = members g 0"
    using split_parts(1) [OF S] by (intro split_old_members [OF S]) (simp add: kd_shape_def)
  ultimately show ?thesis
    using split_parts(1) [OF S] split_frontier_card [OF S]
    by (simp add: kd_shape_def split_fields [OF S])
qed

lemma split_laminar:
  assumes S: "kd_split ne g k mid m' g'"
  shows "kd_laminar g'"
  unfolding kd_laminar_def
proof (intro ballI allI impI)
  have old: "span g i \<inter> span g l = {} \<or> l \<notin> frontier g \<and> span g i \<subseteq> span g l"
    if "i \<in> frontier g" and "l < dm_next g" and "i \<noteq> l" for i l
    using kd_laminarD [OF split_parts(2) [OF S] that] .
  have sub: "span g' (dm_next g) \<subseteq> span g k" "span g' (Suc (dm_next g)) \<subseteq> span g k"
    using split_ranges(4) [OF S] by blast+
  fix j l
  assume j: "j \<in> frontier g'" and l: "l < dm_next g'" and "j \<noteq> l"
  have front: "l \<notin> frontier g' \<longleftrightarrow> l \<notin> frontier g \<or> l = k" if "l < dm_next g"
    using that by (simp add: split_frontier [OF S])
  consider "j \<in> frontier g" "j \<noteq> k" | "j = dm_next g" | "j = Suc (dm_next g)"
    using j by (auto simp: split_frontier [OF S])
  then show "span g' j \<inter> span g' l = {} \<or> l \<notin> frontier g' \<and> span g' j \<subseteq> span g' l"
  proof cases
    case 1
    then have jn: "j < dm_next g" by (simp add: frontier_def)
    have jk: "span g j \<inter> span g k = {}"
      using old [OF 1(1) k [OF S] 1(2)] split_parts(5) [OF S] by blast
    show ?thesis
      using S l
    proof (cases rule: split_cases)
      case 2: 2
      with old [OF 1(1) 2(1) \<open>j \<noteq> l\<close>] show ?thesis
        by (simp add: split_ranges(1) [OF S] jn front)
    qed (use jk sub k [OF S] in \<open>auto simp: split_ranges(1) [OF S] jn\<close>)
  next
    case 2
    show ?thesis
      using S l
    proof (cases rule: split_cases)
      case 1
      with 2 sub k [OF S] front show ?thesis by (simp add: split_ranges(1) [OF S])
    next
      case lo: 2
      with old [OF split_parts(5) [OF S] lo(1)] sub front 2 show ?thesis
        by (auto simp: split_ranges(1) [OF S])
    qed (use 2 \<open>j \<noteq> l\<close> split_ranges(5) [OF S] in auto)
  next
    case 3
    show ?thesis
      using S l
    proof (cases rule: split_cases)
      case 1
      with 3 sub k [OF S] front show ?thesis by (simp add: split_ranges(1) [OF S])
    next
      case lo: 2
      with old [OF split_parts(5) [OF S] lo(1)] sub front 3 show ?thesis
        by (auto simp: split_ranges(1) [OF S])
    qed (use 3 \<open>j \<noteq> l\<close> split_ranges(5) [OF S] in auto)
  qed
qed

lemma split_cover:
  assumes S: "kd_split ne g k mid m' g'"
  shows "kd_cover g'"
  unfolding kd_cover_def
proof (intro allI impI)
  fix j assume j: "j < dm_next g'"
  let ?covers = "(\<forall>i \<in> members g' j.
        extent_points (dm_extents g' ! i) \<subseteq> extent_points (dm_bounds (node g' j))) \<and>
      (dm_first (node g' j) = dm_last (node g' j) \<longrightarrow>
        extent_points (dm_bounds (node g' j))
          = extent_points (dm_extents g' ! (dm_map g' ! dm_first (node g' j))))"
  have new: ?covers if "node g' j = Node_make 0 lo hi (bounds_of (dm_extents g) m' lo hi)"
    for lo hi
    using that bounds_of_upper [of lo _ hi "dm_extents g" m']
    by (auto simp: members_def span_def Node_make_def split_fields [OF S] bounds_of_single)
  show ?covers
    using S j
  proof (cases rule: split_cases)
    case 1
    with split_parts(3) [OF S] split_old_members [OF S k [OF S]] k [OF S] two [OF S] show ?thesis
      by (simp add: kd_cover_def split_nodes(1) [OF S] split_fields(1) [OF S])
  next
    case 2
    have "dm_map g' ! dm_first (node g j) = dm_map g ! dm_first (node g j)"
      if eq: "dm_first (node g j) = dm_last (node g j)"
    proof -
      have "members g' j = {dm_map g' ! dm_first (node g j)}"
        and "members g j = {dm_map g ! dm_first (node g j)}"
        using 2 eq by (simp_all add: members_def span_def split_nodes(4) [OF S])
      with split_old_members [OF S 2(1)] show ?thesis by simp
    qed
    with 2 split_parts(3) [OF S] split_old_members [OF S 2(1)] show ?thesis
      by (simp add: kd_cover_def split_nodes(4) [OF S] split_fields(1) [OF S])
  next
    case 3
    then show ?thesis using new split_nodes(2) [OF S] by simp
  next
    case 4
    then show ?thesis using new split_nodes(3) [OF S] by simp
  qed
qed

lemma split_links:
  assumes S: "kd_split ne g k mid m' g'"
  shows "kd_links g'"
  unfolding kd_links_def
proof (intro allI impI)
  fix j assume j: "j < dm_next g'"
  let ?links = "(dm_children (node g' j) < 0 \<longrightarrow>
           dm_first (node g' j) = dm_last (node g' j) \<and>
           nat (- (dm_children (node g' j) + 1)) = dm_map g' ! dm_first (node g' j)) \<and>
        (dm_children (node g' j) > 0 \<longrightarrow>
           nat (dm_children (node g' j)) + 1 < dm_next g' \<and>
           dm_first (node g' (nat (dm_children (node g' j)))) = dm_first (node g' j) \<and>
           dm_first (node g' (nat (dm_children (node g' j)) + 1))
             = Suc (dm_last (node g' (nat (dm_children (node g' j))))) \<and>
           dm_last (node g' (nat (dm_children (node g' j)) + 1)) = dm_last (node g' j))"
  have same: "dm_first (node g' i) = dm_first (node g i)" "dm_last (node g' i) = dm_last (node g i)"
    if "i < dm_next g" for i
    using that by (cases "i = k", simp_all add: split_nodes(1,4) [OF S])+
  show ?links
    using S j
  proof (cases rule: split_cases)
    case 1
    then show ?thesis
      by (simp add: split_nodes [OF S] split_fields [OF S] Node_make_def)
  next
    case 2
    have "dm_map g' ! dm_first (node g j) = dm_map g ! dm_first (node g j)"
      if eq: "dm_first (node g j) = dm_last (node g j)"
    proof -
      have "members g' j = {dm_map g' ! dm_first (node g j)}"
        and "members g j = {dm_map g ! dm_first (node g j)}"
        using 2 eq by (simp_all add: members_def span_def split_nodes(4) [OF S])
      with split_old_members [OF S 2(1)] show ?thesis by simp
    qed
    moreover have "nat (dm_children (node g j)) + 1 < dm_next g" if "dm_children (node g j) > 0"
      using that 2 split_parts(4) [OF S] by (simp add: kd_links_def)
    ultimately show ?thesis
      using 2 split_parts(4) [OF S]
      by (auto simp: kd_links_def split_nodes(4) [OF S] split_fields(2) [OF S] same)
  qed (simp_all add: split_nodes(2,3) [OF S] Node_make_def)
qed

lemma build_split:
  assumes S: "kd_split ne g k mid m' g'"
  shows "kd_inv g'"
  using split_shape [OF S] split_laminar [OF S] split_cover [OF S] split_links [OF S]
  by (simp add: kd_inv_def)

section \<open>Either case\<close>

lemma build_ok:
  assumes "nth_element_contract ne" and "kd_inv g" and "k < dm_next g"
    and "dm_children (node g k) = 0" and "g' = ExtentGroup_buildChildren ne k g"
  shows "kd_inv g'" and "dm_extents g' = dm_extents g" and "dm_next g \<le> dm_next g'"
    and "dm_children (node g' k) \<noteq> 0"
    and "j < dm_next g \<Longrightarrow> members g' j = members g j"
    and "j < dm_next g \<Longrightarrow> span g' j = span g j"
proof -
  have shape: "kd_shape g" using assms(2) by (simp add: kd_inv_def)
  consider "dm_first (node g k) = dm_last (node g k)"
    | mid m' where "kd_split ne g k mid m' g'"
    using kd_span(1) [OF shape assms(3)] assms unfolding kd_split_def by force
  then have "kd_inv g' \<and> dm_extents g' = dm_extents g \<and> dm_next g \<le> dm_next g' \<and>
      dm_children (node g' k) \<noteq> 0 \<and> (\<forall>j < dm_next g. members g' j = members g j \<and> span g' j = span g j)"
  proof cases
    case 1
    note leaf = build_leaf [OF assms(2-4) 1 assms(5)]
    from leaf(5) show ?thesis
      by (simp add: leaf(1-4) span_def leaf(6,7))
  next
    case 2
    have "dm_next g \<noteq> 0" using shape by (simp add: kd_shape_def)
    with 2 show ?thesis
      by (simp add: build_split split_fields split_nodes(1) split_old_members split_ranges(1))
  qed
  then show "kd_inv g'" and "dm_extents g' = dm_extents g" and "dm_next g \<le> dm_next g'"
    and "dm_children (node g' k) \<noteq> 0"
    and "j < dm_next g \<Longrightarrow> members g' j = members g j"
    and "j < dm_next g \<Longrightarrow> span g' j = span g j"
    by simp_all
qed

end
