(* ===== verification/KdSearch.thy ===== *)
theory KdSearch
  imports KdBuild
begin

text \<open>
  The search of the Kd-tree: \<open>ExtentGroup::getIntersectionWith\<close> and \<open>getBounds\<close> against their
  specification (the indices of the extents that intersect, the bounds of all extents), with the
  invariant \<open>tree_ok\<close> of an \<open>ExtentGroup\<close> between calls.
\<close>

section \<open>Creating the root\<close>

lemma initializeTree_fresh:
  assumes "dm_extents g \<noteq> []"
    and "\<not> (length (dm_map g) > 0 \<and> length (dm_map g) = length (dm_extents g))"
  shows "kd_inv (ExtentGroup_initializeTree g)"
proof -
  let ?n = "length (dm_extents g)" and ?g = "ExtentGroup_initializeTree g"
  let ?bounds = "foldl Extent_union Extent_default (dm_extents g)"
  have g: "?g = g\<lparr>dm_next := 1, dm_tree := (vector_resize (2 * ?n) Node_default (dm_tree g))
      [0 := Node_make 0 0 (?n - 1) ?bounds], dm_map := [0..<?n]\<rparr>"
    using assms(2) by (simp only: ExtentGroup_initializeTree_def Let_def if_False)
  have len: "length (vector_resize (2 * ?n) Node_default (dm_tree g)) = 2 * ?n"
    by (simp add: vector_resize_def)
  have root: "node ?g 0 = Node_make 0 0 (?n - 1) ?bounds"
    using len assms(1) by (simp add: g)
  have front: "frontier ?g = {0}"
    using root by (auto simp: frontier_def g Node_make_def)
  have pos: "0 < ?n" using assms(1) by simp
  then have span: "span ?g 0 = {..<?n}"
    by (auto simp: span_def root Node_make_def simp flip: less_Suc_eq_le)
  have mem: "members ?g 0 = {..<?n}"
    unfolding members_def span by (auto simp: g image_iff)
  have upper: "extent_points (dm_extents g ! i) \<subseteq> extent_points ?bounds" if "i < ?n" for i
    using ext.bound_upper [of "dm_extents g ! i" "dm_extents g"] that by (simp add: ext.bound_def)
  have single: "extent_points ?bounds = extent_points (dm_extents g ! 0)" if "?n = 1"
    using that ext.bound_single [of "dm_extents g ! 0"]
    by (cases "dm_extents g") (simp_all add: ext.bound_def)
  have fields: "dm_extents ?g = dm_extents g" "dm_next ?g = 1" "dm_map ?g = [0..<?n]"
    "length (dm_tree ?g) = 2 * ?n"
    using len by (simp_all add: g)
  have "kd_shape ?g"
    using pos by (simp add: kd_shape_def fields front root span mem) (simp add: Node_make_def)
  moreover have "kd_laminar ?g"
    by (simp add: kd_laminar_def front fields)
  moreover have "?n = 1" if "?n \<le> 1"
    using that pos by linarith
  with single have "extent_points ?bounds = extent_points (dm_extents g ! 0)" if "?n \<le> 1"
    using that by blast
  then have "kd_cover ?g"
    using pos by (simp add: kd_cover_def fields mem root) (use upper in \<open>auto simp: Node_make_def simp del: extent_points_iff\<close>)
  moreover have "kd_links ?g"
    by (simp add: kd_links_def fields root) (simp add: Node_make_def)
  ultimately show ?thesis by (simp add: kd_inv_def)
qed

text \<open>
  Between calls the tree is either absent, of the wrong size (so that the next query rebuilds
  it), or a Kd-tree of the group's extents.
\<close>

definition tree_ok :: "ExtentGroup \<Rightarrow> bool" where
  "tree_ok g \<longleftrightarrow> (length (dm_map g) > 0 \<and> length (dm_map g) = length (dm_extents g) \<longrightarrow> kd_inv g)"

text \<open>A group only grows, so a tree that is too small is rebuilt before it is searched.\<close>

definition group_ok :: "ExtentGroup \<Rightarrow> bool" where
  "group_ok g \<longleftrightarrow> tree_ok g \<and> length (dm_map g) \<le> length (dm_extents g)"

lemma initializeTree_ok:
  assumes "tree_ok g" and "dm_extents g \<noteq> []"
  shows "kd_inv (ExtentGroup_initializeTree g)"
    and "dm_extents (ExtentGroup_initializeTree g) = dm_extents g"
proof -
  show "kd_inv (ExtentGroup_initializeTree g)"
  proof (cases "length (dm_map g) > 0 \<and> length (dm_map g) = length (dm_extents g)")
    case True
    then have "ExtentGroup_initializeTree g = g"
      using assms(2) by (simp add: ExtentGroup_initializeTree_def Let_def)
    with True assms show ?thesis by (simp add: tree_ok_def)
  next
    case False
    with assms(2) show ?thesis by (rule initializeTree_fresh)
  qed
  show "dm_extents (ExtentGroup_initializeTree g) = dm_extents g"
    by (simp add: ExtentGroup_initializeTree_def Let_def)
qed

section \<open>The search loop\<close>

definition hits :: "extent \<Rightarrow> extent list \<Rightarrow> nat set" where
  "hits e exts = {i. i < length exts \<and> Extent_doesIntersect e (exts ! i)}"

lemma kd_members:
  assumes "kd_inv g" and "k < dm_next g"
  shows "members g k \<subseteq> {..<length (dm_extents g)}"
proof -
  have shape: "kd_shape g" using assms(1) by (simp add: kd_inv_def)
  show ?thesis
    using kd_span(3) [OF shape assms(2)] kd_map [OF shape]
    by (auto simp: members_def) (metis lessThan_iff nth_mem subsetD)
qed

lemma kd_prune:
  assumes "kd_inv g" and "k < dm_next g" and "\<not> Extent_doesIntersect e (dm_bounds (node g k))"
  shows "members g k \<inter> hits e (dm_extents g) = {}"
proof -
  have "\<not> Extent_doesIntersect e (dm_extents g ! i)" if "i \<in> members g k" for i
    using assms that ext.prune [of "dm_extents g ! i" "dm_bounds (node g k)" e]
    by (auto simp: kd_inv_def kd_cover_def Extent_doesIntersect_def)
  then show ?thesis by (auto simp: hits_def)
qed

lemma kd_internal:
  assumes "kd_inv g" and "k < dm_next g" and c: "dm_children (node g k) > 0"
  defines "l \<equiv> nat (dm_children (node g k))"
  shows "l < dm_next g" and "l + 1 < dm_next g"
    and "members g k = members g l \<union> members g (l + 1)"
    and "card (span g k) = card (span g l) + card (span g (l + 1))"
proof -
  have shape: "kd_shape g" and links: "kd_links g" using assms(1) by (simp_all add: kd_inv_def)
  have two: "l + 1 < dm_next g" "dm_first (node g l) = dm_first (node g k)"
    "dm_first (node g (l + 1)) = Suc (dm_last (node g l))"
    "dm_last (node g (l + 1)) = dm_last (node g k)"
    using links assms(2) c by (simp_all add: kd_links_def l_def)
  then show "l < dm_next g" and "l + 1 < dm_next g" by simp_all
  have le: "dm_first (node g l) \<le> dm_last (node g l)"
    "dm_first (node g (l + 1)) \<le> dm_last (node g (l + 1))"
    using kd_span(1) [OF shape] two(1) by simp_all
  have parts: "span g k = span g l \<union> span g (l + 1)" "span g l \<inter> span g (l + 1) = {}"
    using two(2-4) le by (auto simp: span_def)
  then show "members g k = members g l \<union> members g (l + 1)"
    by (simp add: members_def image_Un)
  have "finite (span g l)" "finite (span g (l + 1))" by (simp_all add: span_def)
  with parts show "card (span g k) = card (span g l) + card (span g (l + 1))"
    by (simp add: card_Un_disjoint)
qed

lemma kd_leaf:
  assumes "kd_inv g" and "k < dm_next g" and c: "dm_children (node g k) < 0"
    and "Extent_doesIntersect e (dm_bounds (node g k))"
  defines "i \<equiv> nat (- (dm_children (node g k) + 1))"
  shows "members g k = {i}" and "i \<in> hits e (dm_extents g)"
proof -
  have shape: "kd_shape g" and links: "kd_links g" using assms(1) by (simp_all add: kd_inv_def)
  have eq: "dm_first (node g k) = dm_last (node g k)" and i: "i = dm_map g ! dm_first (node g k)"
    using links assms(2) c unfolding i_def kd_links_def by blast+
  then show mem: "members g k = {i}" by (simp add: members_def span_def)
  have "extent_points (dm_bounds (node g k)) = extent_points (dm_extents g ! i)"
    using assms(1,2) eq i by (simp add: kd_inv_def kd_cover_def)
  with assms(4) have "Extent_doesIntersect e (dm_extents g ! i)"
    by (simp add: Extent_doesIntersect_iff)
  with kd_members [OF assms(1,2)] mem show "i \<in> hits e (dm_extents g)"
    by (simp add: hits_def)
qed

text \<open>The nodes still to visit bound the iterations: a node of \<open>w\<close> extents costs \<open>2 w - 1\<close>.\<close>

definition todo :: "ExtentGroup \<Rightarrow> nat list \<Rightarrow> nat" where
  "todo g q = sum_list (map (\<lambda>k. 2 * card (span g k) - 1) q)"

definition searching :: "extent \<Rightarrow> nat list \<Rightarrow> nat set \<Rightarrow> ExtentGroup \<Rightarrow> bool" where
  "searching e q acc g \<longleftrightarrow>
     kd_inv g \<and> (\<forall>k \<in> set q. k < dm_next g) \<and> acc \<subseteq> hits e (dm_extents g) \<and>
     hits e (dm_extents g) \<subseteq> acc \<union> (\<Union>k \<in> set q. members g k)"

lemma searching_build:
  assumes "nth_element_contract ne" and "searching e q acc g" and "k \<in> set q"
    and "dm_children (node g k) = 0" and "g' = ExtentGroup_buildChildren ne k g"
  shows "searching e q acc g'" and "todo g' q = todo g q" and "dm_extents g' = dm_extents g"
    and "dm_children (node g' k) \<noteq> 0" and "span g' k = span g k"
proof -
  have inv: "kd_inv g" and q: "\<forall>k \<in> set q. k < dm_next g" and k: "k < dm_next g"
    using assms(2,3) by (auto simp: searching_def)
  note built = build_ok [OF assms(1) inv k assms(4,5)]
  show "searching e q acc g'"
    using assms(2) q built(1-3,5) by (auto simp: searching_def)
  show "todo g' q = todo g q"
    using q built(6) by (simp add: todo_def cong: map_cong)
  show "dm_extents g' = dm_extents g" and "dm_children (node g' k) \<noteq> 0"
    and "span g' k = span g k"
    using built(2,4,6) k by simp_all
qed

lemma searching_internal:
  assumes "searching e (k # q) acc g" and c: "dm_children (node g k) > 0"
  defines "l \<equiv> nat (dm_children (node g k))"
  shows "searching e (q @ [l, l + 1]) acc g" and "todo g (q @ [l, l + 1]) < todo g (k # q)"
proof -
  have inv: "kd_inv g" and k: "k < dm_next g" using assms(1) by (simp_all add: searching_def)
  note int = kd_internal [OF inv k c, folded l_def]
  show "searching e (q @ [l, l + 1]) acc g"
    using assms(1) int(1-3) by (auto simp: searching_def)
  have "1 \<le> card (span g j)" if "j < dm_next g" for j
    using kd_span(1) [of g j] inv that by (simp add: kd_inv_def span_def)
  from this [OF int(1)] this [OF int(2)] int(4)
  show "todo g (q @ [l, l + 1]) < todo g (k # q)" by (simp add: todo_def)
qed

lemma searching_leaf:
  assumes "searching e (k # q) acc g" and c: "dm_children (node g k) < 0"
    and "Extent_doesIntersect e (dm_bounds (node g k))"
  defines "i \<equiv> nat (- (dm_children (node g k) + 1))"
  shows "searching e q (insert i acc) g"
proof -
  have inv: "kd_inv g" and k: "k < dm_next g" using assms(1) by (simp_all add: searching_def)
  from assms(1) kd_leaf [OF inv k c assms(3), folded i_def] show ?thesis
    by (auto simp: searching_def)
qed

lemma searching_drop:
  assumes "searching e (k # q) acc g" and "\<not> Extent_doesIntersect e (dm_bounds (node g k))"
  shows "searching e q acc g"
  using assms kd_prune [of g k e] by (auto simp: searching_def)

lemma todo_Cons:
  assumes "searching e (k # q) acc g"
  shows "todo g q < todo g (k # q)"
  using assms kd_span(1) [of g k] by (auto simp: todo_def searching_def kd_inv_def span_def)

lemma traverse_step:
  assumes "nth_element_contract ne" and J: "searching e (k # q) acc g"
  obtains q' acc' g' where
    "ExtentGroup_traverse ne e (k # q) acc g = ExtentGroup_traverse ne e q' acc' g'"
    and "searching e q' acc' g'" and "todo g' q' < todo g (k # q)"
    and "dm_extents g' = dm_extents g"
proof (cases "Extent_doesIntersect e (dm_bounds (node g k))")
  case False
  with that [of q acc g] searching_drop [OF J False] todo_Cons [OF J] show ?thesis
    by (simp add: ExtentGroup_traverse.simps [of ne e "k # q"])
next
  case True
  define g' where "g' = (if dm_children (node g k) = 0 then ExtentGroup_buildChildren ne k g else g)"
  have built: "searching e (k # q) acc g'" "todo g' (k # q) = todo g (k # q)"
    "dm_extents g' = dm_extents g" "dm_children (node g' k) \<noteq> 0"
    using J searching_build [OF assms(1) J _ _ refl] by (simp_all add: g'_def)
  have meets: "Extent_doesIntersect e (dm_bounds (node g' k))"
  proof (cases "dm_children (node g k) = 0")
    case True
    have "dm_bounds (node g' k) = dm_bounds (node g k) \<or>
        (dm_first (node g k) = dm_last (node g k) \<and>
         dm_bounds (node g' k) = dm_extents g ! (dm_map g ! dm_first (node g k)))"
    proof -
      have "k < length (dm_tree g)" and "k < dm_next g"
        using J kd_next [of g] by (auto simp: searching_def kd_inv_def)
      with True show ?thesis
        by (simp add: g'_def ExtentGroup_buildChildren_def Let_def)
    qed
    moreover have "kd_cover g" and "k < dm_next g"
      using J by (simp_all add: searching_def kd_inv_def)
    ultimately show ?thesis
      using \<open>Extent_doesIntersect e (dm_bounds (node g k))\<close>
      by (auto simp: kd_cover_def Extent_doesIntersect_iff)
  qed (use \<open>Extent_doesIntersect e (dm_bounds (node g k))\<close> in \<open>simp add: g'_def\<close>)
  have step: "ExtentGroup_traverse ne e (k # q) acc g =
      (let c = dm_children (node g' k) in
       if c > 0 then ExtentGroup_traverse ne e (q @ [nat c, nat c + 1]) acc g'
       else if c < 0 then ExtentGroup_traverse ne e q (insert (nat (- (c + 1))) acc) g'
       else ExtentGroup_traverse ne e q acc g')"
    using True by (simp add: ExtentGroup_traverse.simps [of ne e "k # q"] g'_def Let_def)
  consider "dm_children (node g' k) > 0" | "dm_children (node g' k) < 0"
    using built(4) by linarith
  then show ?thesis
  proof cases
    case 1
    with searching_internal [OF built(1) 1] built(2,3) show ?thesis
      by (intro that [of "q @ [nat (dm_children (node g' k)), nat (dm_children (node g' k)) + 1]"
            acc g']) (simp_all add: step Let_def)
  next
    case 2
    with searching_leaf [OF built(1) 2 meets] todo_Cons [OF built(1)] built(2,3) show ?thesis
      by (intro that [of q "insert (nat (- (dm_children (node g' k) + 1))) acc" g'])
        (simp_all add: step Let_def)
  qed
qed

lemma traverse_correct:
  assumes "nth_element_contract ne" and "searching e q acc g"
  shows "\<exists>g'. ExtentGroup_traverse ne e q acc g = Some (hits e (dm_extents g), g')
    \<and> kd_inv g' \<and> dm_extents g' = dm_extents g"
  using assms(2)
proof (induction "todo g q" arbitrary: q acc g rule: less_induct)
  case less
  show ?case
  proof (cases q)
    case Nil
    with less.prems show ?thesis
      by (auto simp: ExtentGroup_traverse.simps [of ne e "[]"] searching_def)
  next
    case (Cons k rest)
    from traverse_step [OF assms(1) less.prems [unfolded Cons]]
    obtain q' acc' g' where
      "ExtentGroup_traverse ne e (k # rest) acc g = ExtentGroup_traverse ne e q' acc' g'"
      and "searching e q' acc' g'" and "todo g' q' < todo g (k # rest)"
      and "dm_extents g' = dm_extents g" .
    with less.hyps [of g' q' acc'] Cons show ?thesis by simp
  qed
qed

section \<open>Queries\<close>

lemma query_correct:
  assumes "nth_element_contract ne" and "tree_ok g"
  shows "\<exists>g'. ExtentGroup_getIntersectionWith ne e g = Some (hits e (dm_extents g), g')
    \<and> tree_ok g' \<and> dm_extents g' = dm_extents g \<and> (group_ok g \<longrightarrow> group_ok g')"
proof (cases "dm_extents g = []")
  case True
  with assms(2) show ?thesis by (simp add: ExtentGroup_getIntersectionWith_def hits_def)
next
  case False
  let ?g = "ExtentGroup_initializeTree g"
  have inv: "kd_inv ?g" and ext: "dm_extents ?g = dm_extents g"
    using initializeTree_ok [OF assms(2) False] .
  have "members ?g 0 = {..<length (dm_extents g)}" and "0 < dm_next ?g"
    using inv ext by (simp_all add: kd_inv_def kd_shape_def)
  then have "searching e [0] {} ?g"
    using inv ext by (auto simp: searching_def hits_def)
  from traverse_correct [OF assms(1) this] obtain g' where
    "ExtentGroup_traverse ne e [0] {} ?g = Some (hits e (dm_extents g), g')"
    and g': "kd_inv g'" "dm_extents g' = dm_extents g" unfolding ext by blast
  moreover have "length (dm_map g') = length (dm_extents g')"
    using g'(1) kd_map(1) by (simp add: kd_inv_def)
  ultimately show ?thesis
    using False by (simp add: ExtentGroup_getIntersectionWith_def tree_ok_def group_ok_def)
qed

lemma group_query_correct:
  assumes "nth_element_contract ne" and "tree_ok g"
  shows "\<exists>g'. ExtentGroup_getIntersectionWithGroup ne es acc g
      = Some (acc \<union> (\<Union>e \<in> set es. hits e (dm_extents g)), g')
    \<and> tree_ok g' \<and> dm_extents g' = dm_extents g \<and> (group_ok g \<longrightarrow> group_ok g')"
  using assms(2)
proof (induction es arbitrary: acc g)
  case Nil
  then show ?case by simp
next
  case (Cons e es)
  from query_correct [OF assms(1) Cons.prems, of e] obtain g' where
    "ExtentGroup_getIntersectionWith ne e g = Some (hits e (dm_extents g), g')"
    and "tree_ok g'" and "dm_extents g' = dm_extents g" and "group_ok g \<longrightarrow> group_ok g'" by blast
  with Cons.IH [of g' "acc \<union> hits e (dm_extents g)"] show ?case
    by (auto simp: Un_assoc)
qed

text \<open>A group that only grows is always searchable.\<close>

lemma tree_ok_empty: "tree_ok ExtentGroup_empty"
  by (simp add: tree_ok_def ExtentGroup_empty_def)

lemma tree_ok_unbuilt: "dm_map g = [] \<Longrightarrow> tree_ok g"
  by (simp add: tree_ok_def)

definition three_extents :: ExtentGroup where
  "three_extents = foldl (\<lambda>g e. ExtentGroup_push_back e g) ExtentGroup_empty
     [Extent (Interval 0 10) (Interval 100 200),
      Extent (Interval 20 30) (Interval 100 300),
      Extent (Interval 5 25) (Interval 250 400)]"

lemma three_extents_simps:
  "dm_map three_extents = []"
  "dm_extents three_extents = [Extent (Interval 0 10) (Interval 100 200),
      Extent (Interval 20 30) (Interval 100 300), Extent (Interval 5 25) (Interval 250 400)]"
  by (simp_all add: three_extents_def ExtentGroup_push_back_def ExtentGroup_empty_def)

lemma set_filter_upt: "set (filter P [0..<n]) = {i. i < n \<and> P i}"
  by auto

section \<open>Trees as they are built\<close>

text \<open>
  A tree that the class has built for the extents of a group: the root made when there is no tree of
  the right size, then any nodes without children split, in any order.
\<close>

inductive built :: "nth_element \<Rightarrow> ExtentGroup \<Rightarrow> bool" for ne where
  built_root: "dm_extents g \<noteq> [] \<Longrightarrow>
     \<not> (length (dm_map g) > 0 \<and> length (dm_map g) = length (dm_extents g)) \<Longrightarrow>
     built ne (ExtentGroup_initializeTree g)"
| built_children: "built ne g \<Longrightarrow> k < dm_next g \<Longrightarrow> dm_children (node g k) = 0 \<Longrightarrow>
     built ne (ExtentGroup_buildChildren ne k g)"

lemma built_inv:
  assumes "nth_element_contract ne" and "built ne g"
  shows "kd_inv g"
  using assms(2)
  by induction (auto intro: initializeTree_fresh build_ok(1) [OF assms(1)])

lemma members_card:
  assumes "kd_inv g" and "k < dm_next g"
  shows "card (members g k) = card (span g k)"
proof -
  have shape: "kd_shape g" using assms(1) by (simp add: kd_inv_def)
  have "inj_on ((!) (dm_map g)) (span g k)"
    using kd_map(1,2) [OF shape] kd_span(3) [OF shape assms(2)] by (intro inj_on_nth) auto
  then show ?thesis by (simp add: members_def card_image)
qed

lemma members_disjoint:
  assumes "kd_inv g" and "i < dm_next g" and "j < dm_next g" and "span g i \<inter> span g j = {}"
  shows "members g i \<inter> members g j = {}"
proof -
  have shape: "kd_shape g" using assms(1) by (simp add: kd_inv_def)
  have "inj_on ((!) (dm_map g)) {..<length (dm_map g)}"
    using kd_map(2) [OF shape] by (intro inj_on_nth) auto
  moreover have "span g i \<subseteq> {..<length (dm_map g)}" and "span g j \<subseteq> {..<length (dm_map g)}"
    using kd_span(3) [OF shape] assms(2,3) kd_map(1) [OF shape] by simp_all
  ultimately show ?thesis
    using assms(4) by (simp add: members_def inj_on_image_Int [symmetric])
qed

lemma split_balanced:
  assumes S: "kd_split ne g k mid m' g'"
  shows "card (span g' (dm_next g)) = card (span g' (Suc (dm_next g)))
    \<or> card (span g' (dm_next g)) = Suc (card (span g' (Suc (dm_next g))))"
  unfolding split_ranges(2,3) [OF S] using mid_def [OF S] two [OF S] by auto

section \<open>Properties\<close>

text \<open>C2: whatever the group and the extent, and whatever permutation \<open>std::nth_element\<close> picks,
  the search of the lazily built tree ends and returns exactly the indices of the extents that
  intersect, and leaves a tree the next query may use.\<close>

theorem getIntersectionWith_exact:
  assumes "nth_element_contract ne" and "tree_ok g"
  shows "\<exists>g'. ExtentGroup_getIntersectionWith ne e g
      = Some ({i. i < length (dm_extents g) \<and> Extent_doesIntersect e (dm_extents g ! i)}, g')
    \<and> tree_ok g' \<and> dm_extents g' = dm_extents g"
  using query_correct [OF assms, of e] by (auto simp: hits_def)

lemma getIntersectionWith_exact_witness:
  "map_option fst (ExtentGroup_getIntersectionWith sorting_nth_element
     (Extent (Interval 8 22) (Interval 150 260)) three_extents) = Some {0, 1, 2}"
proof -
  let ?e = "Extent (Interval 8 22) (Interval 150 260)"
  have "{i. i < length (dm_extents three_extents) \<and>
      Extent_doesIntersect ?e (dm_extents three_extents ! i)} = {0, 1, 2}"
    by (simp only: set_filter_upt [symmetric]) code_simp
  with getIntersectionWith_exact [OF sorting_nth_element_contract
      tree_ok_unbuilt [OF three_extents_simps(1)], of ?e]
  show ?thesis by auto
qed

text \<open>C5: intersecting with a whole group returns the union of the intersections with its
  extents, in any order and with the tree shared between the searches.\<close>

theorem getIntersectionWithGroup_exact:
  assumes "nth_element_contract ne" and "tree_ok g"
  shows "\<exists>g'. ExtentGroup_getIntersectionWithGroup ne es {} g
      = Some ({i. i < length (dm_extents g) \<and>
                (\<exists>e \<in> set es. Extent_doesIntersect e (dm_extents g ! i))}, g')
    \<and> tree_ok g' \<and> dm_extents g' = dm_extents g"
proof -
  have "(\<Union>e \<in> set es. hits e (dm_extents g)) = {i. i < length (dm_extents g) \<and>
      (\<exists>e \<in> set es. Extent_doesIntersect e (dm_extents g ! i))}"
    by (auto simp: hits_def)
  with group_query_correct [OF assms, of es "{}"] show ?thesis by auto
qed

lemma getIntersectionWithGroup_exact_witness:
  "map_option fst (ExtentGroup_getIntersectionWithGroup sorting_nth_element
     [Extent (Interval 0 4) (Interval 0 1000), Extent (Interval 26 40) (Interval 0 1000)]
     {} three_extents) = Some {0, 1}"
proof -
  let ?es = "[Extent (Interval 0 4) (Interval 0 1000), Extent (Interval 26 40) (Interval 0 1000)]"
  have "{i. i < length (dm_extents three_extents) \<and>
      (\<exists>e \<in> set ?es. Extent_doesIntersect e (dm_extents three_extents ! i))} = {0, 1}"
    by (simp only: set_filter_upt [symmetric]) code_simp
  with getIntersectionWithGroup_exact [OF sorting_nth_element_contract
      tree_ok_unbuilt [OF three_extents_simps(1)], of ?es]
  show ?thesis by auto
qed

text \<open>C6: whatever extents a group has, whatever \<open>std::nth_element\<close> picks and whichever nodes have been
  split before, splitting a node of several extents writes its two children inside the vector of
  nodes and permutes the partitioning map only inside its bounds. The children are two new nodes
  without children; the extents of the node are shared out to them without overlap in two halves
  whose sizes differ by at most one, the bounds of each child contain its extents, and all other
  nodes keep their contents and their extents.\<close>

theorem buildChildren_in_bounds:
  assumes "nth_element_contract ne" and "built ne g"
    and "k < dm_next g" and "dm_children (dm_tree g ! k) = 0"
    and "dm_first (dm_tree g ! k) < dm_last (dm_tree g ! k)"
    and "g' = ExtentGroup_buildChildren ne k g" and "l = dm_next g" and "r = dm_next g + 1"
  shows "r < length (dm_tree g) \<and> dm_last (dm_tree g ! k) < length (dm_map g)
    \<and> dm_extents g' = dm_extents g \<and> mset (dm_map g') = mset [0..<length (dm_extents g)]
    \<and> dm_next g' = r + 1 \<and> dm_children (dm_tree g' ! k) = int l
    \<and> dm_children (dm_tree g' ! l) = 0 \<and> dm_children (dm_tree g' ! r) = 0
    \<and> members g' l \<union> members g' r = members g k \<and> members g' l \<inter> members g' r = {}
    \<and> members g' r \<noteq> {} \<and> card (members g' l) \<in> {card (members g' r), card (members g' r) + 1}
    \<and> (\<forall>j \<in> {l, r}. \<forall>i \<in> members g' j.
         extent_points (dm_extents g ! i) \<subseteq> extent_points (dm_bounds (dm_tree g' ! j)))
    \<and> (\<forall>j < dm_next g. j \<noteq> k \<longrightarrow> dm_tree g' ! j = dm_tree g ! j \<and> members g' j = members g j)"
proof -
  let ?mid = "(dm_first (node g k) + dm_last (node g k)) div 2"
  have "kd_inv g" by (rule built_inv [OF assms(1,2)])
  then obtain m' where S: "kd_split ne g k ?mid m' g'" using assms by (simp add: kd_split_def)
  note shape = split_parts(1) [OF S] and inv' = build_split [OF S]
  have two: "l < dm_next g'" "r < dm_next g'" using split_fields(2) [OF S] assms(7,8) by simp_all
  have sizes: "card (members g' l) = card (span g' l)" "card (members g' r) = card (span g' r)"
    by (rule members_card [OF inv' two(1)], rule members_card [OF inv' two(2)])
  have cover: "\<forall>j \<in> {l, r}. \<forall>i \<in> members g' j.
      extent_points (dm_extents g ! i) \<subseteq> extent_points (dm_bounds (node g' j))"
    using split_cover [OF S] two split_fields(1) [OF S] by (auto simp: kd_cover_def simp del: extent_points_iff)
  have "span g' r \<noteq> {}" using kd_span(1) [of g' r] two inv' by (simp add: span_def kd_inv_def)
  then have right: "members g' r \<noteq> {}" by (simp add: members_def)
  have new: "dm_children (node g' k) = int l" "dm_children (node g' l) = 0" "dm_children (node g' r) = 0"
    using split_nodes(1-3) [OF S] assms(7,8) by (simp_all add: Node_make_def)
  have share: "members g' l \<union> members g' r = members g k" "members g' l \<inter> members g' r = {}"
    using split_members [OF S] members_disjoint [OF inv' two] split_ranges(5) [OF S] assms(7,8)
    by simp_all
  have old: "\<forall>j < dm_next g. j \<noteq> k \<longrightarrow> node g' j = node g j \<and> members g' j = members g j"
    using split_nodes(4) [OF S] split_old_members [OF S] by blast
  have map: "mset (dm_map g') = mset [0..<length (dm_extents g)]"
    using inv' split_fields(1) [OF S] by (simp add: kd_inv_def kd_shape_def)
  have room: "r < length (dm_tree g)" "dm_last (node g k) < length (dm_map g)"
    using kd_room [OF shape split_parts(5) [OF S] assms(5)] kd_span(2) [OF shape assms(3)]
      kd_map(1) [OF shape] assms(8) by simp_all
  show ?thesis
    using room split_fields(1,2) [OF S] map new share right split_balanced [OF S] sizes cover old
      assms(7,8) by simp
qed

lemma buildChildren_in_bounds_witness:
  "let g = ExtentGroup_initializeTree three_extents;
       g' = ExtentGroup_buildChildren sorting_nth_element 0 g
   in dm_next g + 1 < length (dm_tree g) \<and> dm_last (dm_tree g ! 0) < length (dm_map g)
      \<and> mset (dm_map g') = mset [0, 1, 2] \<and> dm_next g' = 3 \<and> dm_children (dm_tree g' ! 0) = 1
      \<and> members g' 1 \<union> members g' 2 = {0, 1, 2} \<and> members g' 1 \<inter> members g' 2 = {}
      \<and> members g' 2 \<noteq> {} \<and> card (members g' 1) \<in> {card (members g' 2), card (members g' 2) + 1}
      \<and> (\<forall>j \<in> {1, 2}. \<forall>i \<in> members g' j.
           extent_points (dm_extents g ! i) \<subseteq> extent_points (dm_bounds (dm_tree g' ! j)))"
proof -
  let ?g = "ExtentGroup_initializeTree three_extents"
  have built: "built sorting_nth_element ?g"
    by (rule built_root) (simp_all add: three_extents_simps)
  have k: "0 < dm_next ?g" "dm_children (dm_tree ?g ! 0) = 0"
    "dm_first (dm_tree ?g ! 0) < dm_last (dm_tree ?g ! 0)" by code_simp+
  have fields: "dm_next ?g = 1" "dm_extents ?g = dm_extents three_extents"
    "[0..<length (dm_extents three_extents)] = [0, 1, 2]" by code_simp+
  have "members ?g 0 = {0, 1, 2}"
    using built_inv [OF sorting_nth_element_contract built] fields(3)
    by (simp only: kd_inv_def kd_shape_def fields(2) atLeast_upt) simp
  with buildChildren_in_bounds [OF sorting_nth_element_contract built k refl refl refl] fields
  show ?thesis by (simp only: Let_def) (simp add: numeral_2_eq_2 numeral_3_eq_3)
qed

text \<open>
  Two observations. The tree is rebuilt only when the number of extents changes, so a group that
  is cleared and refilled with as many extents is searched in the old tree. And the range passed
  to \<open>std::nth_element\<close> ends before \<open>dm_last\<close>, so the last extent of a node keeps its place and
  the two halves need not lie on two sides of a plane.
\<close>

lemma refilled_group_is_searched_in_the_old_tree:
  "let old = Extent (Interval 0 10) (Interval 0 10);
       new = Extent (Interval 50 60) (Interval 50 60);
       g = ExtentGroup_push_back old ExtentGroup_empty
   in (case ExtentGroup_getIntersectionWith sorting_nth_element old g of
         None \<Rightarrow> False
       | Some (_, g') \<Rightarrow>
           map_option fst (ExtentGroup_getIntersectionWith sorting_nth_element old
             (ExtentGroup_push_back new (ExtentGroup_clear g'))) = Some {0})
      \<and> \<not> Extent_doesIntersect old new"
  by code_simp

lemma last_extent_is_not_partitioned:
  "let exts = [Extent (Interval 20 30) (Interval 0 1), Extent (Interval 10 20) (Interval 0 1),
         Extent (Interval 0 2) (Interval 0 1)];
       m = partition_map sorting_nth_element exts True 0 2 [0, 1, 2]
   in m = [1, 0, 2] \<and> CompareExtents exts True (m ! 2) (m ! 0)"
  by code_simp

end
