(* ===== verification/Blob.thy ===== *)
theory Blob
  imports Base
begin

text \<open>
  The class \<open>Blob\<close> (Blob.hxx, Blob.cxx): a buffer of bytes with an owner. The memory it allocates
  with \<open>new char[]\<close> is an explicit store of blocks, so that copies, assignment and the destructor
  act on the store as the code does, and \<open>blob_ok\<close> says that a blob owns the block it points to.
  The XDR library is a parameter: an encoder is a function from the size of the buffer to the bytes
  it writes (or failure), a decoder a function from the contents to a value and a position. The
  string encoding is proved to be undone by the runtime's \<open>OpenSS_DecodeParameters\<close>.
\<close>

unbundle bit_operations_syntax

type_synonym byte = "8 word"

section \<open>The store\<close>

record store =
  st_next :: nat
  st_blocks :: "nat \<Rightarrow> byte list option"

definition store_empty :: store where
  "store_empty = \<lparr>st_next = 0, st_blocks = \<lambda>_. None\<rparr>"

definition store_new :: "byte list \<Rightarrow> store \<Rightarrow> nat \<times> store" where
  "store_new bytes st =
     (st_next st, st\<lparr>st_next := Suc (st_next st), st_blocks := (st_blocks st)(st_next st \<mapsto> bytes)\<rparr>)"

text \<open>\<open>delete []\<close> of a null pointer does nothing.\<close>

definition store_delete :: "nat option \<Rightarrow> store \<Rightarrow> store" where
  "store_delete ptr st =
     (case ptr of None \<Rightarrow> st | Some p \<Rightarrow> st\<lparr>st_blocks := (st_blocks st)(p := None)\<rparr>)"

definition store_ok :: "store \<Rightarrow> bool" where
  "store_ok st \<longleftrightarrow> (\<forall>p bytes. st_blocks st p = Some bytes \<longrightarrow> p < st_next st)"

section \<open>Blobs\<close>

record Blob =
  dm_size :: nat
  dm_contents :: "nat option"

definition Blob_default :: Blob where
  "Blob_default = \<lparr>dm_size = 0, dm_contents = None\<rparr>"

text \<open>The bytes \<open>memcpy\<close> reads through a pointer; reading a freed block is undefined (\<open>None\<close>).\<close>

definition read_block :: "nat option \<Rightarrow> nat \<Rightarrow> store \<Rightarrow> byte list option" where
  "read_block ptr n st =
     (case ptr of None \<Rightarrow> None
      | Some p \<Rightarrow> (case st_blocks st p of None \<Rightarrow> None
         | Some bytes \<Rightarrow> if n \<le> length bytes then Some (take n bytes) else None))"

definition Blob_copy :: "Blob \<Rightarrow> store \<Rightarrow> (Blob \<times> store) option" where
  "Blob_copy other st =
     (if dm_size other > 0 \<and> dm_contents other \<noteq> None
      then (case read_block (dm_contents other) (dm_size other) st of
              None \<Rightarrow> None
            | Some bytes \<Rightarrow>
                let (p, st') = store_new bytes st
                in Some (\<lparr>dm_size = dm_size other, dm_contents = Some p\<rparr>, st'))
      else Some (Blob_default, st))"

text \<open>The constructor from a size and a pointer; \<open>None\<close> is the null pointer.\<close>

definition Blob_make :: "nat \<Rightarrow> byte list option \<Rightarrow> store \<Rightarrow> Blob \<times> store" where
  "Blob_make n contents st =
     (case contents of
        Some bytes \<Rightarrow>
          if n > 0
          then let (p, st') = store_new (take n bytes) st
               in (\<lparr>dm_size = n, dm_contents = Some p\<rparr>, st')
          else (Blob_default, st)
      | None \<Rightarrow> (Blob_default, st))"

definition Blob_destroy :: "Blob \<Rightarrow> store \<Rightarrow> store" where
  "Blob_destroy self st = store_delete (dm_contents self) st"

definition Blob_assign :: "Blob \<Rightarrow> Blob \<Rightarrow> store \<Rightarrow> (Blob \<times> store) option" where
  "Blob_assign self other st =
     (if dm_size self \<noteq> dm_size other \<or> dm_contents self \<noteq> dm_contents other
      then
        let st1 = store_delete (dm_contents self) st
        in if dm_size other > 0 \<and> dm_contents other \<noteq> None
           then (case read_block (dm_contents other) (dm_size other) st1 of
                   None \<Rightarrow> None
                 | Some bytes \<Rightarrow>
                     let (p, st2) = store_new bytes st1
                     in Some (\<lparr>dm_size = dm_size other, dm_contents = Some p\<rparr>, st2))
           else Some (self, st1)
      else Some (self, st))"

definition Blob_isEmpty :: "Blob \<Rightarrow> bool" where
  "Blob_isEmpty self \<longleftrightarrow> dm_size self = 0 \<or> dm_contents self = None"

text \<open>
  The constructor from an XDR procedure: the buffer doubles until the encoding fits, with the
  size a 32-bit unsigned integer. \<open>fill\<close> is what the rest of a new buffer holds.
\<close>

type_synonym xdr_encoder = "32 word \<Rightarrow> byte list option"

partial_function (option) Blob_encode_loop ::
  "xdr_encoder \<Rightarrow> (nat \<Rightarrow> byte list) \<Rightarrow> 32 word \<Rightarrow> store \<Rightarrow> (Blob \<times> store) option" where
  "Blob_encode_loop xdrproc fill n st =
     (case xdrproc n of
        Some bytes \<Rightarrow>
          (let (p, st') = store_new (bytes @ fill (unat n - length bytes)) st
           in Some (\<lparr>dm_size = length bytes, dm_contents = Some p\<rparr>, st'))
      | None \<Rightarrow> Blob_encode_loop xdrproc fill (n * 2) st)"

definition Blob_encode :: "xdr_encoder \<Rightarrow> (nat \<Rightarrow> byte list) \<Rightarrow> store \<Rightarrow> (Blob \<times> store) option" where
  "Blob_encode xdrproc fill st = Blob_encode_loop xdrproc fill 1024 st"

text \<open>Decoding: the procedure returns the value and the position it stopped at.\<close>

type_synonym 'a xdr_decoder = "byte list \<Rightarrow> ('a \<times> nat) option"

definition Blob_bytes :: "store \<Rightarrow> Blob \<Rightarrow> byte list" where
  "Blob_bytes st self =
     (case read_block (dm_contents self) (dm_size self) st of None \<Rightarrow> [] | Some bytes \<Rightarrow> bytes)"

definition Blob_getXDRDecoding :: "'a xdr_decoder \<Rightarrow> 'a \<Rightarrow> byte list \<Rightarrow> ('a \<times> nat) res" where
  "Blob_getXDRDecoding xdrproc data contents =
     (case xdrproc contents of None \<Rightarrow> Abort | Some (x, pos) \<Rightarrow> Ok (x, pos))"

definition Blob_getAndVerifyXDRDecoding :: "'a xdr_decoder \<Rightarrow> 'a \<Rightarrow> byte list \<Rightarrow> ('a \<times> nat) res" where
  "Blob_getAndVerifyXDRDecoding xdrproc data contents =
     (case xdrproc contents of None \<Rightarrow> Ok (data, 0) | Some (x, pos) \<Rightarrow> Ok (x, pos))"

section \<open>String encoding\<close>

text \<open>
  \<open>char\<close> is signed on the supported targets, so the shift by four keeps the sign; the sum is
  cut back to a \<open>char\<close>.
\<close>

definition encode_byte :: "byte \<Rightarrow> byte list" where
  "encode_byte b = [48 + signed_drop_bit 4 b, 48 + (b AND 0x0F)]"

fun Blob_getStringEncoding :: "byte list \<Rightarrow> byte list" where
  "Blob_getStringEncoding [] = []"
| "Blob_getStringEncoding (b # bs) = encode_byte b @ Blob_getStringEncoding bs"

text \<open>The decoding loop of \<open>OpenSS_DecodeParameters\<close>, up to the terminating zero of the string.\<close>

definition c_string :: "byte list \<Rightarrow> byte list" where
  "c_string cs = takeWhile (\<lambda>c. c \<noteq> 0) cs"

fun decode_pairs :: "byte list \<Rightarrow> byte list" where
  "decode_pairs (c # d # cs) = (push_bit 4 (c - 48) OR (d - 48)) # decode_pairs cs"
| "decode_pairs _ = []"

definition OpenSS_DecodeParameters :: "byte list \<Rightarrow> byte list res" where
  "OpenSS_DecodeParameters argument =
     (let s = c_string argument
      in bind_res (Assert (length s mod 2 = 0)) (\<lambda>_. Ok (decode_pairs s)))"

section \<open>Ownership\<close>

definition blob_ok :: "store \<Rightarrow> Blob \<Rightarrow> bool" where
  "blob_ok st b \<longleftrightarrow>
     (case dm_contents b of
        None \<Rightarrow> dm_size b = 0
      | Some p \<Rightarrow> (\<exists>bytes. st_blocks st p = Some bytes \<and> dm_size b \<le> length bytes))"

lemma blob_ok_default: "blob_ok st Blob_default"
  by (simp add: blob_ok_def Blob_default_def)

lemma read_block_ok:
  assumes "blob_ok st b" and "dm_contents b \<noteq> None"
  shows "read_block (dm_contents b) (dm_size b) st = Some (Blob_bytes st b)"
  using assms by (auto simp: blob_ok_def read_block_def Blob_bytes_def split: option.splits)

lemma Blob_bytes_length: "blob_ok st b \<Longrightarrow> length (Blob_bytes st b) = dm_size b"
  by (auto simp: blob_ok_def read_block_def Blob_bytes_def split: option.splits)

lemma store_ok_new: "store_ok st \<Longrightarrow> store_ok (snd (store_new bytes st))"
  by (auto simp: store_ok_def store_new_def less_Suc_eq split: if_splits)

lemma store_ok_delete: "store_ok st \<Longrightarrow> store_ok (store_delete ptr st)"
  by (auto simp: store_ok_def store_delete_def split: option.splits if_splits)

lemma store_new_block:
  assumes "store_new bytes st = (p, st')"
  shows "st_blocks st' p = Some bytes" and "q \<noteq> p \<Longrightarrow> st_blocks st' q = st_blocks st q"
    and "p = st_next st"
  using assms by (auto simp: store_new_def)

text \<open>A blob reads the same bytes in two stores that agree on its block.\<close>

lemma same_block:
  assumes "\<And>p. dm_contents b = Some p \<Longrightarrow> st_blocks st' p = st_blocks st p"
  shows "blob_ok st' b = blob_ok st b" and "Blob_bytes st' b = Blob_bytes st b"
  using assms by (auto simp: blob_ok_def Blob_bytes_def read_block_def split: option.splits)

lemma Blob_copy_Some:
  assumes "store_ok st" and "blob_ok st b"
  obtains b' st' where "Blob_copy b st = Some (b', st')" and "store_ok st'" and "blob_ok st' b'"
    and "Blob_bytes st' b' = Blob_bytes st b" and "blob_ok st' b" and "Blob_bytes st' b = Blob_bytes st b"
    and "dm_contents b' \<noteq> None \<Longrightarrow> dm_contents b' \<noteq> dm_contents b"
proof (cases "dm_size b > 0 \<and> dm_contents b \<noteq> None")
  case True
  obtain p st' where new: "store_new (Blob_bytes st b) st = (p, st')" by fastforce
  let ?b = "\<lparr>dm_size = dm_size b, dm_contents = Some p\<rparr>"
  note block = store_new_block [OF new]
  have copy: "Blob_copy b st = Some (?b, st')"
    using True assms(2) new by (simp add: Blob_copy_def read_block_ok)
  have fresh: "dm_contents b \<noteq> Some p"
    using assms block(3) by (auto simp: blob_ok_def store_ok_def dest: spec [of _ "st_next st"])
  have "store_ok st'" using store_ok_new [OF assms(1)] new by (metis snd_conv)
  moreover have "blob_ok st' ?b" and "Blob_bytes st' ?b = Blob_bytes st b"
    using block(1) Blob_bytes_length [OF assms(2)]
    by (simp_all add: blob_ok_def Blob_bytes_def [of st'] read_block_def)
  moreover have "blob_ok st' b" and "Blob_bytes st' b = Blob_bytes st b"
    using same_block [of b st' st, OF block(2)] fresh assms(2) by auto
  ultimately show ?thesis using that copy fresh by simp
next
  case False
  with assms have "Blob_bytes st b = []"
    by (auto simp: blob_ok_def Blob_bytes_def read_block_def split: option.splits)
  moreover have "Blob_copy b st = Some (Blob_default, st)"
    using False by (auto simp: Blob_copy_def)
  moreover have "Blob_bytes st Blob_default = []" and "dm_contents Blob_default = None"
    by (simp_all add: Blob_default_def Blob_bytes_def read_block_def)
  ultimately show ?thesis
    using that [of Blob_default st] assms blob_ok_default by simp
qed

section \<open>The encoding loop\<close>

text \<open>A memory stream fails exactly when the encoding does not fit the buffer.\<close>

definition memory_stream :: "byte list \<Rightarrow> xdr_encoder" where
  "memory_stream bytes n = (if length bytes \<le> unat n then Some bytes else None)"

lemma unat_double:
  assumes "unat (n :: 32 word) < 2 ^ 31"
  shows "unat (n * 2) = 2 * unat n"
proof -
  have "unat n * 2 < 2 ^ 32" using assms by simp
  then show ?thesis by (simp add: unat_word_ariths)
qed

lemma encode_loop_fits:
  assumes "length bytes \<le> unat n * 2 ^ k" and "unat n * 2 ^ k < 2 ^ 32"
  shows "\<exists>b st'. Blob_encode_loop (memory_stream bytes) fill n st = Some (b, st')
    \<and> (store_ok st \<longrightarrow> store_ok st') \<and> blob_ok st' b \<and> Blob_bytes st' b = bytes"
  using assms
proof (induction k arbitrary: n)
  case 0
  then show ?case
    by (simp add: Blob_encode_loop.simps [of _ _ n] memory_stream_def store_new_def Let_def
        blob_ok_def Blob_bytes_def read_block_def store_ok_def less_SucI)
next
  case (Suc k)
  show ?case
  proof (cases "length bytes \<le> unat n")
    case True
    then show ?thesis
      by (simp add: Blob_encode_loop.simps [of _ _ n] memory_stream_def store_new_def Let_def
          blob_ok_def Blob_bytes_def read_block_def store_ok_def less_SucI)
  next
    case False
    have "unat n * 2 \<le> unat n * 2 ^ Suc k" by simp
    with Suc.prems(2) have "unat n * 2 < 2 ^ 32" by (rule le_less_trans [rotated])
    then have "unat n < 2 ^ 31" by simp
    then have "unat (n * 2) = 2 * unat n" by (rule unat_double)
    with Suc.IH [of "n * 2"] Suc.prems False show ?thesis
      by (simp add: Blob_encode_loop.simps [of _ _ n] memory_stream_def ac_simps)
  qed
qed

section \<open>The string encoding\<close>

lemma encode_byte_nonzero: "c \<in> set (encode_byte b) \<Longrightarrow> c \<noteq> 0"
proof -
  have high: "48 + signed_drop_bit 4 b \<noteq> 0"
  proof
    assume "48 + signed_drop_bit 4 b = 0"
    then have "signed_drop_bit 4 b = - 48" by (simp add: add_eq_0_iff)
    then have "sint (signed_drop_bit 4 b) = - 48" by simp
    moreover have "- 128 \<le> sint b" using sint_ge [of b] by simp
    ultimately show False by (simp add: sint_signed_drop_bit_eq drop_bit_eq_div)
  qed
  have "b AND 15 \<le> 15" by (rule word_and_le1)
  then have "48 + (b AND 15) \<noteq> 0"
    by (auto simp: add_eq_0_iff word_le_def)
  with high show "c \<in> set (encode_byte b) \<Longrightarrow> c \<noteq> 0" by (auto simp: encode_byte_def)
qed

lemma encoding_no_zero: "(0 :: byte) \<notin> set (Blob_getStringEncoding bs)"
  using encode_byte_nonzero by (induction bs) auto

lemma encoding_length: "length (Blob_getStringEncoding bs) = 2 * length bs"
  by (induction bs) (simp_all add: encode_byte_def)

lemma nibbles: "push_bit 4 (signed_drop_bit 4 b) OR (b AND 15) = (b :: byte)"
proof (rule bit_word_eqI)
  fix n assume "n < LENGTH(8)"
  then have "n \<in> {0, 1, 2, 3, 4, 5, 6, 7}" by auto
  then show "bit (push_bit 4 (signed_drop_bit 4 b) OR (b AND 15)) n = bit b n"
    by (auto simp: bit_simps)
qed

lemma decode_encoding: "decode_pairs (Blob_getStringEncoding bs) = bs"
  by (induction bs) (simp_all add: encode_byte_def nibbles)

lemma takeWhile_tail: "x \<notin> set xs \<Longrightarrow> takeWhile (\<lambda>c. c \<noteq> x) (xs @ [x]) = xs"
  by (induction xs) auto

section \<open>Properties\<close>

text \<open>A copy of a blob owns a block of its own: it has the bytes of the original, and keeps
  them after the original is destroyed.\<close>

theorem Blob_copy_is_deep:
  assumes "store_ok st" and "blob_ok st b"
  shows "\<exists>b' st'. Blob_copy b st = Some (b', st') \<and> blob_ok (Blob_destroy b st') b'
    \<and> Blob_bytes (Blob_destroy b st') b' = Blob_bytes st b"
proof -
  from Blob_copy_Some [OF assms] obtain b' st' where copy: "Blob_copy b st = Some (b', st')"
    "blob_ok st' b'" "Blob_bytes st' b' = Blob_bytes st b"
    and fresh: "dm_contents b' \<noteq> None \<Longrightarrow> dm_contents b' \<noteq> dm_contents b" by metis
  have "st_blocks (Blob_destroy b st') p = st_blocks st' p" if "dm_contents b' = Some p" for p
    using fresh that by (auto simp: Blob_destroy_def store_delete_def split: option.splits)
  from same_block [of b' "Blob_destroy b st'" st', OF this] copy show ?thesis by auto
qed

lemma Blob_copy_is_deep_witness:
  "let (b, st) = Blob_make 3 (Some [7, 8, 9]) store_empty
   in (case Blob_copy b st of None \<Rightarrow> False
       | Some (b', st') \<Rightarrow> Blob_bytes (Blob_destroy b st') b' = [7, 8, 9])"
proof -
  obtain b st where b: "Blob_make 3 (Some [7, 8, 9]) store_empty = (b, st)" by fastforce
  then have "store_ok st" and "blob_ok st b" and "Blob_bytes st b = [7, 8, 9]"
    by (auto simp: Blob_make_def store_new_def store_empty_def store_ok_def blob_ok_def
        Blob_bytes_def read_block_def split: if_splits)
  with Blob_copy_is_deep [of st b] b show ?thesis by (auto split: option.splits)
qed

text \<open>The constructor from an XDR procedure ends for every data structure whose encoding
  fits 2 GB, however often the buffer has to double, and the blob holds exactly the encoding.\<close>

theorem Blob_encode_holds_encoding:
  assumes "length bytes \<le> 2 ^ 31" and "store_ok st"
  shows "\<exists>b st'. Blob_encode (memory_stream bytes) fill st = Some (b, st')
    \<and> store_ok st' \<and> blob_ok st' b \<and> Blob_bytes st' b = bytes"
  using encode_loop_fits [of bytes 1024 21 fill st] assms by (simp add: Blob_encode_def)

lemma Blob_encode_holds_encoding_witness:
  "\<exists>b st'. Blob_encode (memory_stream (replicate 3000 1)) (\<lambda>n. replicate n 0) store_empty
     = Some (b, st') \<and> Blob_bytes st' b = replicate 3000 1"
  using Blob_encode_holds_encoding [of "replicate 3000 1" store_empty "\<lambda>n. replicate n 0"]
  by (auto simp: store_ok_def store_empty_def)

text \<open>The string encoding of a blob contains no zero byte, has two characters per byte, and
  the runtime's decoder gives the bytes back.\<close>

theorem string_encoding_roundtrip:
  "length (Blob_getStringEncoding bs) = 2 * length bs
   \<and> OpenSS_DecodeParameters (Blob_getStringEncoding bs @ [0]) = Ok bs"
proof -
  show ?thesis
    using encoding_length [of bs] encoding_no_zero [of bs] decode_encoding [of bs]
    by (simp add: OpenSS_DecodeParameters_def c_string_def takeWhile_tail)
qed

text \<open>
  The encoding is not the base 16 of RFC 3548 that the comment cites, and assigning an empty blob
  leaves the assigned blob pointing to the block it has just freed.
\<close>

lemma encoding_is_not_base16: "Blob_getStringEncoding [0xAF] = [42, 63]"
  by code_simp

lemma assign_empty_dangles:
  assumes "dm_contents b = Some p"
  shows "Blob_assign b Blob_default st = Some (b, store_delete (Some p) st)
    \<and> \<not> blob_ok (store_delete (Some p) st) b"
  using assms
  by (simp add: Blob_assign_def Blob_default_def blob_ok_def store_delete_def)

end
