(* ===== verification/AddressBitmap.thy ===== *)
theory AddressBitmap
  imports Interval Blob
begin

text \<open>
  The class \<open>AddressBitmap\<close> (AddressBitmap.hxx, AddressBitmap.cxx): one bit per address of a range,
  as the symbol tables store which addresses belong to a function, loop or statement. Main results:
  writing the bitmap to a blob and reading it back is the identity, and \<open>getContiguousRanges\<close>
  returns the maximal runs of addresses with a value.
\<close>

section \<open>Operations\<close>

record AddressBitmap =
  bm_range :: "addr interval"
  dm_bitmap :: "bool list"

definition bm_width :: "AddressBitmap \<Rightarrow> nat" where
  "bm_width self = unat (Interval_getWidth (bm_range self))"

definition AddressBitmap_make :: "addr interval \<Rightarrow> AddressBitmap" where
  "AddressBitmap_make r =
     \<lparr>bm_range = r, dm_bitmap = replicate (unat (Interval_getWidth r)) False\<rparr>"

text \<open>
  The assertion compares with the width divided by eight rounded down, so the last byte may lie
  beyond the blob's contents; \<open>beyond\<close> is what memory holds there.
\<close>

definition AddressBitmap_of_blob ::
  "(nat \<Rightarrow> byte) \<Rightarrow> addr interval \<Rightarrow> byte list \<Rightarrow> AddressBitmap res" where
  "AddressBitmap_of_blob beyond r blob =
     bind_res (Assert (length blob \<ge> unat (Interval_getWidth r div 8))) (\<lambda>_.
       let contents = (\<lambda>k. if k < length blob then blob ! k else beyond k)
       in Ok \<lparr>bm_range = r,
              dm_bitmap = map (\<lambda>i. contents (i div 8) AND push_bit (i mod 8) 1 \<noteq> 0)
                [0..<unat (Interval_getWidth r)]\<rparr>)"

definition AddressBitmap_setValue :: "addr \<Rightarrow> bool \<Rightarrow> AddressBitmap \<Rightarrow> AddressBitmap res" where
  "AddressBitmap_setValue a v self =
     bind_res (Assert (Interval_containsValue (bm_range self) a)) (\<lambda>_.
     bind_res (Address_minus a (dm_begin (bm_range self))) (\<lambda>d.
       Ok (self\<lparr>dm_bitmap := (dm_bitmap self)[unat d := v]\<rparr>)))"

definition AddressBitmap_getValue :: "AddressBitmap \<Rightarrow> addr \<Rightarrow> bool res" where
  "AddressBitmap_getValue self a =
     bind_res (Assert (Interval_containsValue (bm_range self) a)) (\<lambda>_.
     bind_res (Address_minus a (dm_begin (bm_range self))) (\<lambda>d.
       Ok (dm_bitmap self ! unat d)))"

definition AddressBitmap_getBlob :: "AddressBitmap \<Rightarrow> byte list" where
  "AddressBitmap_getBlob self =
     (let w = Interval_getWidth (bm_range self);
          size = unat (ucast ((w - 1) div 8 + 1) :: 32 word)
      in foldl (\<lambda>contents i.
           if dm_bitmap self ! i
           then contents[i div 8 := (contents ! (i div 8)) OR push_bit (i mod 8) 1]
           else contents) (replicate size 0) [0..<unat w])"

text \<open>The loop over the addresses of the bitmap, with its three local variables.\<close>

function contiguous_loop ::
  "AddressBitmap \<Rightarrow> bool \<Rightarrow> addr \<Rightarrow> bool \<Rightarrow> addr \<Rightarrow> addr interval list
    \<Rightarrow> (bool \<times> addr \<times> addr interval list) res" where
  "contiguous_loop self v i in_range range_begin ranges =
     (if i \<noteq> dm_end (bm_range self) then
        (if \<not> in_range then
           bind_res (AddressBitmap_getValue self i) (\<lambda>x.
             if x = v then contiguous_loop self v (Address_inc i) True i ranges
             else contiguous_loop self v (Address_inc i) in_range range_begin ranges)
         else
           bind_res (AddressBitmap_getValue self i) (\<lambda>x.
             if x \<noteq> v then
               bind_res (Interval_make range_begin i) (\<lambda>r.
                 contiguous_loop self v (Address_inc i) False range_begin
                   (set_insert Interval_precedes r ranges))
             else contiguous_loop self v (Address_inc i) in_range range_begin ranges))
      else Ok (in_range, range_begin, ranges))"
  by pat_completeness auto

lemma unat_to_end:
  assumes "i \<noteq> (e :: addr)"
  shows "unat (e - Address_inc i) < unat (e - i)"
proof -
  have "e - i \<noteq> 0" using assms by simp
  moreover have eq: "e - Address_inc i = e - i - 1"
    by (simp add: Address_inc_def Address_plus_diff_def)
  ultimately show ?thesis unfolding eq
    by (simp add: unat_minus_one unat_gt_0)
qed

termination contiguous_loop
  by (relation "measure (\<lambda>(self, v, i, _). unat (dm_end (bm_range self) - i))")
    (auto simp: unat_to_end)

declare contiguous_loop.simps [simp del]

definition AddressBitmap_getContiguousRanges :: "AddressBitmap \<Rightarrow> bool \<Rightarrow> addr interval list res"
  where
  "AddressBitmap_getContiguousRanges self v =
     bind_res (contiguous_loop self v (dm_begin (bm_range self)) False 0 [])
       (\<lambda>(in_range, range_begin, ranges).
          if in_range then
            bind_res (Interval_make range_begin (dm_end (bm_range self)))
              (\<lambda>r. Ok (set_insert Interval_precedes r ranges))
          else Ok ranges)"

section \<open>Well-formed bitmaps\<close>

definition bm_ok :: "AddressBitmap \<Rightarrow> bool" where
  "bm_ok self \<longleftrightarrow> proper (bm_range self) \<and> length (dm_bitmap self) = bm_width self
     \<and> bm_width self < 2 ^ 32"

definition bm_value :: "AddressBitmap \<Rightarrow> addr \<Rightarrow> bool" where
  "bm_value self a = dm_bitmap self ! unat (a - dm_begin (bm_range self))"

lemma bm_offset:
  assumes "bm_ok self" and "a \<in> points (bm_range self)"
  shows "Address_minus a (dm_begin (bm_range self)) = Ok (a - dm_begin (bm_range self))"
    and "unat (a - dm_begin (bm_range self)) < bm_width self"
proof -
  let ?b = "dm_begin (bm_range self)" and ?e = "dm_end (bm_range self)"
  have le: "?b \<le> a" and less: "a < ?e" using assms(2) by (auto simp: points_def)
  then have "unat (a - ?b) = unat a - unat ?b" and "unat (?e - ?b) = unat ?e - unat ?b"
    by (simp_all add: unat_sub)
  moreover have "unat ?b \<le> unat a" and "unat a < unat ?e"
    using le less by (simp_all add: word_le_nat_alt word_less_nat_alt)
  ultimately show idx: "unat (a - ?b) < bm_width self"
    by (simp add: bm_width_def Interval_getWidth_def)
  then have "unat (a - ?b) < 2 ^ 32" using assms(1) by (simp add: bm_ok_def)
  then have "a - ?b < 2 ^ 63" by (simp add: word_less_nat_alt)
  with le show "Address_minus a ?b = Ok (a - ?b)" by (rule Address_minus_within)
qed

lemma getValue_ok:
  assumes "bm_ok self" and "a \<in> points (bm_range self)"
  shows "AddressBitmap_getValue self a = Ok (bm_value self a)"
  using assms bm_offset(1) [OF assms]
  by (simp add: AddressBitmap_getValue_def bm_value_def)

lemma setValue_ok:
  assumes "bm_ok self" and "a \<in> points (bm_range self)"
  shows "\<exists>self'. AddressBitmap_setValue a v self = Ok self' \<and> bm_ok self' \<and>
    bm_range self' = bm_range self \<and>
    (\<forall>x \<in> points (bm_range self). bm_value self' x = (if x = a then v else bm_value self x))"
proof -
  let ?b = "dm_begin (bm_range self)"
  have "unat (a - ?b) = unat (x - ?b) \<longleftrightarrow> x = a" for x
    by (auto simp flip: word_unat_eq_iff)
  with assms bm_offset [OF assms] show ?thesis
    by (auto simp: AddressBitmap_setValue_def bm_value_def bm_ok_def bm_width_def nth_list_update
        simp del: points_iff)
      (simp add: AddressBitmap_setValue_def)
qed

section \<open>Bitmaps and blobs\<close>

definition set_bit_at :: "bool list \<Rightarrow> byte list \<Rightarrow> nat \<Rightarrow> byte list" where
  "set_bit_at bits contents i =
     (if bits ! i then contents[i div 8 := (contents ! (i div 8)) OR push_bit (i mod 8) 1]
      else contents)"

lemma set_bit_at_length [simp]: "length (foldl (set_bit_at bits) contents xs) = length contents"
  by (induction xs arbitrary: contents) (simp_all add: set_bit_at_def)

lemma set_bits:
  assumes "k < length contents" and "j < 8"
  shows "bit (foldl (set_bit_at bits) contents [0..<n] ! k) j \<longleftrightarrow>
     bit (contents ! k) j \<or> 8 * k + j < n \<and> bits ! (8 * k + j)"
proof (induction n)
  case 0
  show ?case by simp
next
  case (Suc n)
  let ?c = "foldl (set_bit_at bits) contents [0..<n]"
  have here: "8 * k + j = n \<longleftrightarrow> k = n div 8 \<and> j = n mod 8"
    using assms(2) by auto
  have "bit (set_bit_at bits ?c n ! k) j \<longleftrightarrow>
      bit (?c ! k) j \<or> 8 * k + j = n \<and> bits ! n"
    using assms here
    by (cases "k = n div 8") (auto simp: set_bit_at_def bit_simps)
  with Suc.IH show ?case by (auto simp: less_Suc_eq)
qed

lemma getBlob_size:
  assumes "bm_ok bm"
  shows "length (AddressBitmap_getBlob bm) = (bm_width bm - 1) div 8 + 1"
proof -
  let ?w = "Interval_getWidth (bm_range bm)"
  have pos: "?w \<noteq> 0"
    using assms by (auto simp: bm_ok_def proper_def Interval_getWidth_def)
  then have one: "unat (?w - 1) = bm_width bm - 1"
    by (simp add: bm_width_def unat_minus_one)
  have "(bm_width bm - 1) div 8 \<le> 4294967295 div 8"
    using assms by (intro div_le_mono) (auto simp: bm_ok_def)
  then have "(bm_width bm - 1) div 8 + 1 < 2 ^ 32" by simp
  then have "unat ((?w - 1) div 8 + 1) = (bm_width bm - 1) div 8 + 1"
    by (simp add: unat_word_ariths unat_div one)
  moreover have "foldl (\<lambda>contents i. if dm_bitmap bm ! i
      then contents[i div 8 := (contents ! (i div 8)) OR push_bit (i mod 8) 1] else contents)
      = foldl (set_bit_at (dm_bitmap bm))"
    by (simp add: set_bit_at_def [abs_def])
  ultimately show ?thesis
    using \<open>(bm_width bm - 1) div 8 + 1 < 2 ^ 32\<close>
    by (simp add: AddressBitmap_getBlob_def Let_def unsigned_ucast_eq
        take_bit_nat_eq_self)
qed

lemma getBlob_bit:
  assumes "bm_ok bm" and "i < bm_width bm"
  shows "bit (AddressBitmap_getBlob bm ! (i div 8)) (i mod 8) \<longleftrightarrow> dm_bitmap bm ! i"
proof -
  let ?size = "unat (ucast ((Interval_getWidth (bm_range bm) - 1) div 8 + 1) :: 32 word)"
  have blob: "AddressBitmap_getBlob bm
      = foldl (set_bit_at (dm_bitmap bm)) (replicate ?size 0) [0..<bm_width bm]"
    by (simp add: AddressBitmap_getBlob_def set_bit_at_def [abs_def] bm_width_def Let_def)
  have "i div 8 < ?size"
  proof -
    have "i div 8 \<le> (bm_width bm - 1) div 8" using assms(2) by (simp add: div_le_mono)
    with getBlob_size [OF assms(1)] show ?thesis by (simp add: blob)
  qed
  with set_bits [of "i div 8" "replicate ?size 0" "i mod 8" "dm_bitmap bm" "bm_width bm"] assms(2)
  show ?thesis by (simp add: blob)
qed

lemma of_getBlob:
  assumes "bm_ok bm"
  shows "AddressBitmap_of_blob beyond (bm_range bm) (AddressBitmap_getBlob bm) = Ok bm"
proof -
  let ?blob = "AddressBitmap_getBlob bm"
  have "unat (Interval_getWidth (bm_range bm) div 8) = bm_width bm div 8"
    by (simp add: bm_width_def unat_div)
  moreover have "bm_width bm div 8 \<le> (bm_width bm - 1) div 8 + 1" by presburger
  ultimately have fits: "unat (Interval_getWidth (bm_range bm) div 8) \<le> length ?blob"
    using getBlob_size [OF assms] by simp
  have "i div 8 < length ?blob" if "i < bm_width bm" for i
  proof -
    have "i div 8 \<le> (bm_width bm - 1) div 8" using that by (simp add: div_le_mono)
    with getBlob_size [OF assms] show ?thesis by simp
  qed
  then have "map (\<lambda>i. (if i div 8 < length ?blob then ?blob ! (i div 8) else beyond (i div 8))
        AND push_bit (i mod 8) 1 \<noteq> 0) [0..<bm_width bm] = dm_bitmap bm"
    using getBlob_bit [OF assms] assms
    by (intro nth_equalityI) (simp_all add: bm_ok_def and_exp_eq_0_iff_not_bit)
  with fits show ?thesis
    by (simp add: AddressBitmap_of_blob_def Let_def bm_width_def)
qed

section \<open>Contiguous ranges\<close>

text \<open>
  The ranges found so far are proper, in order and separated by at least one address; with the
  range that is open they hold exactly the scanned addresses with the value.
\<close>

definition separated :: "addr interval list \<Rightarrow> bool" where
  "separated rs \<longleftrightarrow> sorted_wrt (\<lambda>a b. dm_end a < dm_begin b) rs \<and> (\<forall>r \<in> set rs. proper r)"

definition scanned :: "AddressBitmap \<Rightarrow> bool \<Rightarrow> addr \<Rightarrow> bool \<Rightarrow> addr \<Rightarrow> addr interval list \<Rightarrow> bool" where
  "scanned bm v i in_range rb rs \<longleftrightarrow>
     dm_begin (bm_range bm) \<le> i \<and> i \<le> dm_end (bm_range bm) \<and> separated rs \<and>
     (\<forall>r \<in> set rs. if in_range then dm_end r < rb else dm_end r < i) \<and>
     (in_range \<longrightarrow> dm_begin (bm_range bm) \<le> rb \<and> rb < i) \<and>
     (\<Union>r \<in> set rs. points r) \<union> (if in_range then {rb..<i} else {})
       = {a \<in> {dm_begin (bm_range bm)..<i}. bm_value bm a = v}"

lemma inc_bounds:
  assumes "i < (e :: addr)"
  shows "i < Address_inc i" and "Address_inc i \<le> e" and "b \<le> i \<Longrightarrow> {b..<Address_inc i} = insert i {b..<i}"
proof -
  have "i + 1 \<noteq> 0"
  proof
    assume "i + 1 = 0"
    then have "i = - 1" by (simp add: eq_neg_iff_add_eq_0)
    with assms show False by (metis leD word_order.extremum)
  qed
  then have *: "unat (i + 1) = unat i + 1" using unatSuc [of i] by (simp add: add.commute)
  then show "i < Address_inc i" and "Address_inc i \<le> e"
    using assms by (simp_all add: Address_inc_def Address_plus_diff_def word_less_nat_alt word_le_nat_alt)
  have "x < i + 1 \<longleftrightarrow> x < i \<or> x = i" for x
    unfolding word_less_nat_alt word_unat_eq_iff * by linarith
  then show "b \<le> i \<Longrightarrow> {b..<Address_inc i} = insert i {b..<i}"
    unfolding Address_inc_def Address_plus_diff_def set_eq_iff atLeastLessThan_iff insert_iff
    by blast
qed

lemma separated_snoc:
  assumes "separated rs" and "\<forall>r \<in> set rs. dm_end r < b" and "b < e"
  shows "separated (rs @ [Interval b e])"
    and "set_insert Interval_precedes (Interval b e) rs = rs @ [Interval b e]"
  using assms
  by (auto simp: separated_def sorted_wrt_append proper_def intro!: range_key.set_insert_append
      less_imp_le)

lemma scanned_step:
  assumes "scanned bm v i in_range rb rs" and "i < dm_end (bm_range bm)"
  shows "\<not> in_range \<Longrightarrow> bm_value bm i = v \<Longrightarrow> scanned bm v (Address_inc i) True i rs"
    and "\<not> in_range \<Longrightarrow> bm_value bm i \<noteq> v \<Longrightarrow> scanned bm v (Address_inc i) False rb rs"
    and "in_range \<Longrightarrow> bm_value bm i = v \<Longrightarrow> scanned bm v (Address_inc i) True rb rs"
    and "in_range \<Longrightarrow> bm_value bm i \<noteq> v \<Longrightarrow>
      scanned bm v (Address_inc i) False rb (rs @ [Interval rb i])"
proof -
  let ?b = "dm_begin (bm_range bm)"
  note inc = inc_bounds(1,2) [OF assms(2)]
  have b: "?b \<le> i" using assms(1) by (simp add: scanned_def)
  have one: "{i..<Address_inc i} = {i}" using inc_bounds(3) [OF assms(2), of i] by simp
  have cover: "(\<Union>r \<in> set rs. points r) \<union> (if in_range then {rb..<i} else {})
      = {a \<in> {?b..<i}. bm_value bm a = v}"
    and sep: "separated rs"
    using assms(1) by (simp_all only: scanned_def)
  have grow: "{a \<in> {?b..<Address_inc i}. bm_value bm a = v}
      = {a \<in> {?b..<i}. bm_value bm a = v} \<union> (if bm_value bm i = v then {i} else {})"
    using inc_bounds(3) [OF assms(2) b] by auto
  show "\<not> in_range \<Longrightarrow> bm_value bm i = v \<Longrightarrow> scanned bm v (Address_inc i) True i rs"
    using assms(1) inc b cover unfolding scanned_def grow one by (auto simp del: points_iff)
  show "\<not> in_range \<Longrightarrow> bm_value bm i \<noteq> v \<Longrightarrow> scanned bm v (Address_inc i) False rb rs"
    using assms(1) inc b cover unfolding scanned_def grow by (auto simp del: points_iff)
  show "scanned bm v (Address_inc i) True rb rs" if "in_range" "bm_value bm i = v"
  proof -
    have rb: "rb < i" using assms(1) that by (simp add: scanned_def)
    show ?thesis
      using assms(1) inc b cover that inc_bounds(3) [OF assms(2) less_imp_le [OF rb]] rb
      unfolding scanned_def grow by (auto simp del: points_iff)
  qed
  show "scanned bm v (Address_inc i) False rb (rs @ [Interval rb i])"
    if "in_range" "bm_value bm i \<noteq> v"
  proof -
    have rb: "rb < i" and before: "\<forall>r \<in> set rs. dm_end r < rb"
      using assms(1) that by (simp_all add: scanned_def)
    have "points (Interval rb i) = {rb..<i}" by (simp add: points_def)
    with separated_snoc(1) [OF sep before rb] assms(1) inc b cover that rb before show ?thesis
      unfolding scanned_def grow by (auto simp del: points_iff)
  qed
qed

lemma contiguous_loop_ok:
  assumes "bm_ok bm" and "scanned bm v i in_range rb rs"
  shows "\<exists>in' rb' rs'. contiguous_loop bm v i in_range rb rs = Ok (in', rb', rs')
    \<and> scanned bm v (dm_end (bm_range bm)) in' rb' rs'"
  using assms
proof (induction bm v i in_range rb rs rule: contiguous_loop.induct)
  case (1 bm v i in_range rb rs)
  show ?case
  proof (cases "i = dm_end (bm_range bm)")
    case True
    with 1(6) show ?thesis by (simp add: contiguous_loop.simps)
  next
    case False
    with 1(6) have less: "i < dm_end (bm_range bm)" by (auto simp: scanned_def)
    with 1(6) have mem: "i \<in> points (bm_range bm)" by (simp add: scanned_def points_def del: points_iff)
    note val = getValue_ok [OF 1(5) mem]
    note step = scanned_step [OF 1(6) less]
    show ?thesis
    proof (cases in_range)
      case in_range: False
      show ?thesis
      proof (cases "bm_value bm i = v")
        case True
        from 1(1) [OF False in_range True 1(5) step(1) [OF in_range True]] False in_range True val
        show ?thesis by (simp add: contiguous_loop.simps [of bm v i])
      next
        case neq: False
        from 1(2) [OF False in_range neq 1(5)] step(2) [OF in_range neq] False in_range neq val
        show ?thesis by (simp add: contiguous_loop.simps [of bm v i])
      qed
    next
      case in_range: True
      then have rb: "rb < i" and before: "\<forall>r \<in> set rs. dm_end r < rb" and sep: "separated rs"
        using 1(6) by (simp_all add: scanned_def)
      show ?thesis
      proof (cases "bm_value bm i = v")
        case True
        from 1(4) [OF False _ _ 1(5)] step(3) [OF in_range True] False in_range True val
        show ?thesis by (simp add: contiguous_loop.simps [of bm v i])
      next
        case neq: False
        from 1(3) [OF False _ neq 1(5), of "Interval rb i"] step(4) [OF in_range neq]
          separated_snoc(2) [OF sep before rb] False in_range neq val rb
        show ?thesis by (simp add: contiguous_loop.simps [of bm v i] Interval_make_def)
      qed
    qed
  qed
qed

lemma getContiguousRanges_ok:
  assumes "bm_ok bm"
  shows "\<exists>rs. AddressBitmap_getContiguousRanges bm v = Ok rs \<and> separated rs \<and>
    (\<Union>r \<in> set rs. points r) = {a \<in> points (bm_range bm). bm_value bm a = v}"
proof -
  let ?b = "dm_begin (bm_range bm)" and ?e = "dm_end (bm_range bm)"
  have "?b \<le> ?e" using assms by (auto simp: bm_ok_def proper_def)
  then have "scanned bm v ?b False 0 []"
    by (simp add: scanned_def separated_def)
  from contiguous_loop_ok [OF assms this] obtain in' rb rs where
    loop: "contiguous_loop bm v ?b False 0 [] = Ok (in', rb, rs)"
    and fin: "scanned bm v ?e in' rb rs" by blast
  have all: "{a \<in> {?b..<?e}. bm_value bm a = v} = {a \<in> points (bm_range bm). bm_value bm a = v}"
    by (simp add: points_def)
  show ?thesis
  proof (cases in')
    case False
    with loop fin all show ?thesis
      by (auto simp: AddressBitmap_getContiguousRanges_def scanned_def)
  next
    case True
    then have rb: "rb < ?e" and before: "\<forall>r \<in> set rs. dm_end r < rb" and sep: "separated rs"
      and cover: "(\<Union>r \<in> set rs. points r) \<union> {rb..<?e} = {a \<in> points (bm_range bm). bm_value bm a = v}"
      using fin all by (simp_all add: scanned_def)
    have "points (Interval rb ?e) = {rb..<?e}" by (simp add: points_def)
    with cover have "(\<Union>r \<in> set (rs @ [Interval rb ?e]). points r)
        = {a \<in> points (bm_range bm). bm_value bm a = v}" by (simp add: Un_commute)
    with True loop rb separated_snoc [OF sep before rb] show ?thesis
      by (simp add: AddressBitmap_getContiguousRanges_def Interval_make_def)
  qed
qed

section \<open>Properties\<close>

text \<open>The bitmap that the witnesses below use: two runs in a range of ten addresses.\<close>

definition sample_bitmap :: AddressBitmap where
  "sample_bitmap = \<lparr>bm_range = Interval 100 110,
     dm_bitmap = [True, True, False, False, True, True, True, False, False, True]\<rparr>"

lemma sample_bitmap_ok: "bm_ok sample_bitmap"
  unfolding bm_ok_def proper_def bm_width_def sample_bitmap_def Interval_getWidth_def by simp

text \<open>C7: a bitmap that is written to a blob, as the symbol tables store it, and read back over
  the same address range is the same bitmap, whatever memory follows the blob.\<close>

theorem bitmap_blob_roundtrip:
  assumes "bm_ok bm"
  shows "AddressBitmap_of_blob beyond (bm_range bm) (AddressBitmap_getBlob bm) = Ok bm"
  using assms by (rule of_getBlob)

lemma bitmap_blob_roundtrip_witness:
  "AddressBitmap_of_blob (\<lambda>_. 255) (Interval 100 110) (AddressBitmap_getBlob sample_bitmap)
     = Ok sample_bitmap"
  using bitmap_blob_roundtrip [OF sample_bitmap_ok, of "\<lambda>_. 255"] by (simp add: sample_bitmap_def)

text \<open>C4: the contiguous ranges of a bitmap are non-empty, in order, separated by at least one
  address with the other value (so each is a maximal run), and together hold exactly the addresses
  with the value.\<close>

theorem getContiguousRanges_maximal_runs:
  assumes "bm_ok bm"
  shows "\<exists>rs. AddressBitmap_getContiguousRanges bm v = Ok rs \<and>
    sorted_wrt (\<lambda>a b. dm_end a < dm_begin b) rs \<and> (\<forall>r \<in> set rs. dm_begin r < dm_end r) \<and>
    (\<Union>r \<in> set rs. points r)
      = {a \<in> points (bm_range bm). AddressBitmap_getValue bm a = Ok v}"
proof -
  have "{a \<in> points (bm_range bm). AddressBitmap_getValue bm a = Ok v}
      = {a \<in> points (bm_range bm). bm_value bm a = v}"
    using getValue_ok [OF assms] by (auto simp del: points_iff)
  with getContiguousRanges_ok [OF assms, of v] show ?thesis
    by (simp add: separated_def proper_def)
qed

lemma getContiguousRanges_maximal_runs_witness:
  "\<exists>rs. AddressBitmap_getContiguousRanges sample_bitmap True = Ok rs \<and>
    (\<Union>r \<in> set rs. points r)
      = {a \<in> points (Interval 100 110). AddressBitmap_getValue sample_bitmap a = Ok True}"
  using getContiguousRanges_maximal_runs [OF sample_bitmap_ok, of True]
  by (auto simp: sample_bitmap_def)

lemma sample_bitmap_ranges:
  "AddressBitmap_getContiguousRanges sample_bitmap True
     = Ok [Interval 100 102, Interval 104 107, Interval 109 110]"
  by code_simp

text \<open>
  The assertion in the constructor from a blob admits a blob one byte too short: the last byte is
  then read from beyond its contents.
\<close>

lemma short_blob_is_accepted:
  "AddressBitmap_of_blob (\<lambda>_. b) (Interval 100 110) [0xFF]
     = Ok \<lparr>bm_range = Interval 100 110, 
         dm_bitmap = [True, True, True, True, True, True, True, True, bit b 0, bit b 1]\<rparr>"
  unfolding AddressBitmap_of_blob_def Let_def Interval_getWidth_def
  by (simp add: and_exp_eq_0_iff_not_bit upt_rec)

end
