(* ===== verification/Sqlite.thy ===== *)
theory Sqlite
  imports Interval Blob
begin

text \<open>
  What the class \<open>Database\<close> calls outside the repository: the SQLite library and the file
  operations of the operating system. They are a parameter of the model, a record of functions over
  a world \<open>'w\<close>; nothing is assumed of them here. (\<open>os_open\<close> opens for reading, or with \<open>True\<close> for writing
  with truncation.) The values that cross the interface are SQLite's
  storage classes, and 64-bit unsigned values cross it shifted into the signed range.
\<close>

datatype retval =
    SQLITE_OK | SQLITE_ERROR | SQLITE_BUSY | SQLITE_READONLY | SQLITE_CANTOPEN | SQLITE_NOTADB
  | SQLITE_ROW | SQLITE_DONE | SQLITE_OTHER

datatype sql_value =
    Null | Integer int | Real "64 word" | Text string | Bytes "byte list"

record 'w sqlite =
  os_open :: "string \<Rightarrow> bool \<Rightarrow> 'w \<Rightarrow> nat option \<times> 'w"
  os_close :: "nat \<Rightarrow> 'w \<Rightarrow> bool \<times> 'w"
  os_read :: "nat \<Rightarrow> nat \<Rightarrow> 'w \<Rightarrow> (int \<times> byte list) \<times> 'w"
  os_write :: "nat \<Rightarrow> byte list \<Rightarrow> 'w \<Rightarrow> int \<times> 'w"
  os_errno_is_EINTR :: "'w \<Rightarrow> bool"
  os_remove :: "string \<Rightarrow> 'w \<Rightarrow> bool \<times> 'w"
  sqlite3_open :: "string \<Rightarrow> 'w \<Rightarrow> (retval \<times> nat option) \<times> 'w"
  sqlite3_close :: "nat \<Rightarrow> 'w \<Rightarrow> retval \<times> 'w"
  sqlite3_busy_handler :: "nat \<Rightarrow> 'w \<Rightarrow> retval \<times> 'w"
  sqlite3_exec :: "nat \<Rightarrow> string \<Rightarrow> 'w \<Rightarrow> retval \<times> 'w"
  sqlite3_prepare_v2 :: "nat \<Rightarrow> string \<Rightarrow> 'w \<Rightarrow> (retval \<times> nat option \<times> string option) \<times> 'w"
  errmsg_is_syntax_error :: "nat \<Rightarrow> 'w \<Rightarrow> bool"
  sqlite3_errmsg :: "nat \<Rightarrow> 'w \<Rightarrow> string"
  sqlite3_bind_parameter_count :: "nat \<Rightarrow> 'w \<Rightarrow> nat"
  sqlite3_bind :: "nat \<Rightarrow> nat \<Rightarrow> sql_value \<Rightarrow> 'w \<Rightarrow> retval \<times> 'w"
  sqlite3_step :: "nat \<Rightarrow> 'w \<Rightarrow> retval \<times> 'w"
  sqlite3_reset :: "nat \<Rightarrow> 'w \<Rightarrow> retval \<times> 'w"
  sqlite3_finalize :: "nat \<Rightarrow> 'w \<Rightarrow> retval \<times> 'w"
  sqlite3_column_count :: "nat \<Rightarrow> 'w \<Rightarrow> nat"
  sqlite3_column :: "nat \<Rightarrow> nat \<Rightarrow> 'w \<Rightarrow> sql_value"
  sqlite3_last_insert_rowid :: "nat \<Rightarrow> 'w \<Rightarrow> int"

section \<open>Shifted 64-bit values\<close>

text \<open>
  \<open>signedOffset\<close> is \<open>INT64_MAX + 1\<close>, which wraps to the least signed value; the subtraction and
  the addition wrap too.
\<close>

definition signedOffset :: "64 word" where
  "signedOffset = 0x8000000000000000"

definition shift_out :: "64 word \<Rightarrow> int" where
  "shift_out value = sint (value - signedOffset)"

definition shift_in :: "int \<Rightarrow> 64 word" where
  "shift_in column = word_of_int column + signedOffset"

lemma uint_signedOffset: "uint signedOffset = 2 ^ 63"
  by (simp add: signedOffset_def)

lemma shift_out_eq: "shift_out v = uint v - 2 ^ 63"
  using uint_bounds_64 [of v]
  by (auto simp: shift_out_def sint_64 uint_minus_64 uint_signedOffset)

text \<open>
  The mapping of [0, 2^64) to [-2^63, 2^63) that the header of \<open>Database\<close> promises: it is inverted
  on reading, and it keeps the order, so that range conditions can be evaluated by SQLite.
\<close>

lemma shift_roundtrip: "shift_in (shift_out v) = v"
  by (simp add: shift_in_def shift_out_def)

lemma shift_out_range: "- (2 ^ 63) \<le> shift_out v \<and> shift_out v < 2 ^ 63"
  using uint_bounds_64 [of v] by (simp add: shift_out_eq)

lemma shift_out_less: "shift_out a < shift_out b \<longleftrightarrow> a < b"
  by (simp add: shift_out_eq word_less_def)

lemma shift_out_le: "shift_out a \<le> shift_out b \<longleftrightarrow> a \<le> b"
  by (simp add: shift_out_eq word_le_def)

lemma shift_out_inj: "shift_out a = shift_out b \<longleftrightarrow> a = b"
  by (metis shift_roundtrip)

section \<open>Values of results\<close>

text \<open>Column access coerces as SQLite does for the storage classes this program stores.\<close>

definition column_int :: "sql_value \<Rightarrow> 32 word" where
  "column_int v = (case v of Integer i \<Rightarrow> word_of_int i | _ \<Rightarrow> 0)"

definition column_int64 :: "sql_value \<Rightarrow> int" where
  "column_int64 v = (case v of Integer i \<Rightarrow> i | _ \<Rightarrow> 0)"

definition column_double :: "sql_value \<Rightarrow> 64 word" where
  "column_double v = (case v of Real r \<Rightarrow> r | _ \<Rightarrow> 0)"

definition column_blob :: "sql_value \<Rightarrow> byte list" where
  "column_blob v = (case v of Bytes b \<Rightarrow> b | _ \<Rightarrow> [])"

text \<open>\<open>std::string\<close> cannot be made from the null pointer that a null column gives.\<close>

definition column_text :: "sql_value \<Rightarrow> string option" where
  "column_text v = (case v of Text s \<Rightarrow> Some s | _ \<Rightarrow> None)"

end
