(* ===== verification/Database.thy ===== *)
theory Database
  imports Sqlite
begin

text \<open>
  The class \<open>Database\<close> (Database.hxx, Database.cxx): per-thread handles with a cache of prepared
  statements and a stack of nested transactions, over the parameter \<^typ>\<open>'w sqlite\<close>. Each member
  function is an operation of the executing thread on the database object and the world; between
  two of them other threads may run. The statistics kept under \<open>NDEBUG\<close> undefined are left out.
\<close>

section \<open>State\<close>

text \<open>
  The back of the vector \<open>dm_transaction\<close> is the head of the list here. A statement is its number,
  \<open>None\<close> is the null statement that marks the beginning of a transaction.
\<close>

record Handle =
  dm_database :: "nat option"
  dm_cache :: "(string \<times> nat) list"
  dm_transaction :: "nat option list"
  dm_is_committable :: bool

definition Handle_default :: Handle where
  "Handle_default =
     \<lparr>dm_database = None, dm_cache = [], dm_transaction = [], dm_is_committable = False\<rparr>"

text \<open>
  The transaction lock is held for reading by the transactions in progress and for writing by
  \<open>renameTo\<close> and \<open>copyTo\<close>.
\<close>

datatype rwlock = Readers nat | Writer

record Database =
  dm_name :: string
  dm_transaction_lock :: rwlock
  dm_handles :: "(nat, Handle) stdmap"

record 'w dbstate =
  the_db :: Database
  world :: 'w

type_synonym ('w, 'a) db_op = "('w dbstate, 'a) op"

definition call :: "('w \<Rightarrow> 'a \<times> 'w) \<Rightarrow> ('w, 'a) db_op" where
  "call f s = (let (x, w) = f (world s) in (Ok x, s\<lparr>world := w\<rparr>))"

definition check :: "bool \<Rightarrow> ('s, unit) op" where
  "check b = lift_res (Assert b)"

definition peek :: "('s \<Rightarrow> 'a) \<Rightarrow> ('s, 'a) op" where
  "peek f s = (Ok (f s), s)"

definition modify_db :: "(Database \<Rightarrow> Database) \<Rightarrow> ('w, unit) db_op" where
  "modify_db f s = (Ok (), s\<lparr>the_db := f (the_db s)\<rparr>)"

lemma db_prim_simps [res_simps]:
  "call f s = (Ok (fst (f (world s))), s\<lparr>world := snd (f (world s))\<rparr>)"
  "check b t = (if b then Ok () else Abort, t)"
  "peek g t = (Ok (g t), t)"
  "modify_db m s = (Ok (), s\<lparr>the_db := m (the_db s)\<rparr>)"
  by (simp_all add: call_def check_def peek_def modify_db_def Assert_def lift_res_def
      case_prod_beta)

section \<open>The transaction lock\<close>

definition set_lock :: "rwlock \<Rightarrow> ('w, unit) db_op" where
  "set_lock l = modify_db (\<lambda>db. db\<lparr>dm_transaction_lock := l\<rparr>)"

definition lock_read :: "('w, unit) db_op" where
  "lock_read = andthen (peek (\<lambda>s. dm_transaction_lock (the_db s))) (\<lambda>l.
     case l of Readers n \<Rightarrow> set_lock (Readers (Suc n)) | Writer \<Rightarrow> lift_res Blocked)"

definition lock_write :: "('w, unit) db_op" where
  "lock_write = andthen (peek (\<lambda>s. dm_transaction_lock (the_db s))) (\<lambda>l.
     if l = Readers 0 then set_lock Writer else lift_res Blocked)"

definition unlock :: "('w, unit) db_op" where
  "unlock = andthen (peek (\<lambda>s. dm_transaction_lock (the_db s))) (\<lambda>l.
     case l of
       Writer \<Rightarrow> set_lock (Readers 0)
     | Readers n \<Rightarrow> andthen (check (n > 0)) (\<lambda>_. set_lock (Readers (n - 1))))"

section \<open>Files and handles\<close>

text \<open>
  \<open>Assert(f(...) == SQLITE_OK)\<close> is a call whose result is checked.
\<close>

definition call_ok :: "('w \<Rightarrow> retval \<times> 'w) \<Rightarrow> ('w, unit) db_op" where
  "call_ok f = andthen (call f) (\<lambda>retval. check (retval = SQLITE_OK))"

definition select_master :: string where
  "select_master =
     ''SELECT * FROM sqlite_master WHERE type='' @ [CHR 0x27] @ ''table'' @ [CHR 0x27] @ '';''"

definition Database_isAccessible :: "'w sqlite \<Rightarrow> string \<Rightarrow> ('w, bool) db_op" where
  "Database_isAccessible env name =
     andthen (call (os_open env name False)) (\<lambda>fd.
     if fd = None then ret False
     else
       andthen (call (os_close env (the fd))) (\<lambda>closed. andthen (check closed) (\<lambda>_.
       andthen (call (sqlite3_open env name)) (\<lambda>(retval, handle).
       if retval = SQLITE_CANTOPEN then ret False
       else
         andthen (check (retval = SQLITE_OK)) (\<lambda>_.
         andthen (check (handle \<noteq> None)) (\<lambda>_.
         andthen (call_ok (sqlite3_busy_handler env (the handle))) (\<lambda>_.
         andthen (call (sqlite3_exec env (the handle) select_master)) (\<lambda>retval.
         if retval = SQLITE_NOTADB
         then andthen (call_ok (sqlite3_close env (the handle))) (\<lambda>_. ret False)
         else
           andthen (check (retval = SQLITE_OK)) (\<lambda>_.
           andthen (call_ok (sqlite3_close env (the handle))) (\<lambda>_. ret True))))))))))"

definition Database_create :: "'w sqlite \<Rightarrow> string \<Rightarrow> ('w, unit) db_op" where
  "Database_create env name =
     andthen (Database_isAccessible env name) (\<lambda>accessible.
     if accessible then throw (Exception DatabaseExists [name])
     else
       andthen (call (sqlite3_open env name)) (\<lambda>(retval, handle).
       if retval = SQLITE_CANTOPEN then throw (Exception DatabaseCannotCreate [name])
       else
         andthen (check (retval = SQLITE_OK)) (\<lambda>_.
         andthen (check (handle \<noteq> None)) (\<lambda>_.
         call_ok (sqlite3_close env (the handle))))))"

definition Database_remove :: "'w sqlite \<Rightarrow> string \<Rightarrow> ('w, unit) db_op" where
  "Database_remove env name =
     andthen (Database_isAccessible env name) (\<lambda>accessible.
     if \<not> accessible then throw (Exception DatabaseDoesNotExist [name])
     else
       andthen (call (os_remove env name)) (\<lambda>removed.
       if \<not> removed then throw (Exception DatabaseCannotRemove [name])
       else ret ()))"

text \<open>The constructor; the lock starts without readers.\<close>

definition Database_make :: "'w sqlite \<Rightarrow> string \<Rightarrow> ('w, unit) db_op" where
  "Database_make env name =
     andthen (modify_db (\<lambda>_. \<lparr>dm_name = name, dm_transaction_lock = Readers 0, dm_handles = []\<rparr>)) (\<lambda>_.
     andthen (Database_isAccessible env name) (\<lambda>accessible.
     if \<not> accessible then throw (Exception DatabaseDoesNotExist [name]) else ret ()))"

definition Database_getName :: "('w, string) db_op" where
  "Database_getName = peek (\<lambda>s. dm_name (the_db s))"

definition find_handle :: "nat \<Rightarrow> 'w dbstate \<Rightarrow> Handle option" where
  "find_handle t s = map_option snd (map_find (<) t (dm_handles (the_db s)))"

definition set_handle :: "nat \<Rightarrow> (Handle \<Rightarrow> Handle) \<Rightarrow> ('w, unit) db_op" where
  "set_handle t f = modify_db (\<lambda>db. db\<lparr>dm_handles := map_modify (<) t f (dm_handles db)\<rparr>)"

text \<open>
  The handle of the executing thread \<open>t\<close>. The returned reference is used to read the handle;
  assignments through it are \<^const>\<open>set_handle\<close>.
\<close>

definition open_handle :: "'w sqlite \<Rightarrow> ('w, nat option) db_op" where
  "open_handle env =
     andthen Database_getName (\<lambda>name.
     andthen (Database_isAccessible env name) (\<lambda>accessible.
     if \<not> accessible then throw (Exception DatabaseDoesNotExist [name])
     else
       andthen (call (sqlite3_open env name)) (\<lambda>(retval, handle).
       andthen (check (retval = SQLITE_OK)) (\<lambda>_.
       andthen (check (handle \<noteq> None)) (\<lambda>_.
       andthen (call_ok (sqlite3_busy_handler env (the handle))) (\<lambda>_.
       ret (Some (the handle))))))))"

definition Database_getHandle :: "'w sqlite \<Rightarrow> nat \<Rightarrow> ('w, Handle) db_op" where
  "Database_getHandle env t =
     andthen (peek (find_handle t)) (\<lambda>found.
     case found of
       Some handle \<Rightarrow> ret handle
     | None \<Rightarrow>
         andthen (open_handle env) (\<lambda>handle.
         andthen (modify_db (\<lambda>db. db\<lparr>dm_handles :=
             map_insert (<) t (Handle_default\<lparr>dm_database := handle\<rparr>) (dm_handles db)\<rparr>)) (\<lambda>_.
         ret (Handle_default\<lparr>dm_database := handle\<rparr>))))"

definition release_handle :: "'w sqlite \<Rightarrow> Handle \<Rightarrow> ('w, unit) db_op" where
  "release_handle env handle =
     andthen (check (dm_database handle \<noteq> None)) (\<lambda>_.
     andthen (check (dm_transaction handle = [])) (\<lambda>_.
     andthen (for_each (dm_cache handle)
       (\<lambda>_ (_, stmt). call_ok (sqlite3_finalize env stmt)) ()) (\<lambda>_.
     call_ok (sqlite3_close env (the (dm_database handle))))))"

definition Database_releaseAllHandles :: "'w sqlite \<Rightarrow> ('w, unit) db_op" where
  "Database_releaseAllHandles env =
     andthen (peek (\<lambda>s. dm_handles (the_db s))) (\<lambda>handles.
     andthen (for_each handles (\<lambda>_ (_, handle). release_handle env handle) ()) (\<lambda>_.
     modify_db (\<lambda>db. db\<lparr>dm_handles := []\<rparr>)))"

definition Database_vacuum :: "'w sqlite \<Rightarrow> nat \<Rightarrow> ('w, unit) db_op" where
  "Database_vacuum env t =
     andthen (Database_getHandle env t) (\<lambda>handle.
     call_ok (sqlite3_exec env (the (dm_database handle)) ''VACUUM;''))"

section \<open>Transactions\<close>

definition Database_beginTransaction :: "'w sqlite \<Rightarrow> nat \<Rightarrow> bool \<Rightarrow> ('w, unit) db_op" where
  "Database_beginTransaction env t will_modify =
     andthen lock_read (\<lambda>_.
     andthen (Database_getHandle env t) (\<lambda>handle.
     andthen (check (dm_database handle \<noteq> None)) (\<lambda>_.
     andthen
       (if dm_transaction handle = [] then
          andthen (call (sqlite3_exec env (the (dm_database handle))
            (if will_modify then ''BEGIN EXCLUSIVE TRANSACTION;''
             else ''BEGIN DEFERRED TRANSACTION;''))) (\<lambda>retval.
          andthen (if will_modify \<and> retval = SQLITE_READONLY
                   then call (sqlite3_exec env (the (dm_database handle))
                          ''BEGIN DEFERRED TRANSACTION;'')
                   else ret retval) (\<lambda>retval.
          andthen (check (retval = SQLITE_OK)) (\<lambda>_.
          set_handle t (\<lambda>h. h\<lparr>dm_is_committable := True\<rparr>))))
        else ret ()) (\<lambda>_.
     set_handle t (\<lambda>h. h\<lparr>dm_transaction := None # dm_transaction h\<rparr>)))))"

text \<open>The first cached copy of the statement that is not on the transaction stack.\<close>

definition unused_copy :: "Handle \<Rightarrow> string \<Rightarrow> nat option" where
  "unused_copy handle statement =
     map_option snd (find (\<lambda>(s, stmt). s = statement \<and> Some stmt \<notin> set (dm_transaction handle))
       (dm_cache handle))"

definition Database_prepareStatement :: "'w sqlite \<Rightarrow> nat \<Rightarrow> string \<Rightarrow> ('w, unit) db_op" where
  "Database_prepareStatement env t statement =
     andthen (Database_getHandle env t) (\<lambda>handle.
     andthen (check (dm_database handle \<noteq> None)) (\<lambda>_.
     andthen (check (dm_transaction handle \<noteq> [])) (\<lambda>_.
     andthen
       (case unused_copy handle statement of
          Some stmt \<Rightarrow> ret stmt
        | None \<Rightarrow>
            andthen (call (sqlite3_prepare_v2 env (the (dm_database handle)) statement))
              (\<lambda>(retval, stmt, tail).
            andthen (peek (\<lambda>s. (errmsg_is_syntax_error env (the (dm_database handle)) (world s),
                sqlite3_errmsg env (the (dm_database handle)) (world s), dm_name (the_db s))))
              (\<lambda>(syntax_error, errmsg, name).
            if retval = SQLITE_ERROR \<and> \<not> syntax_error
            then throw (Exception DatabaseInvalid [name, errmsg])
            else
              andthen (check (retval = SQLITE_OK)) (\<lambda>_.
              andthen (check (tail = Some [])) (\<lambda>_.
              andthen (check (stmt \<noteq> None)) (\<lambda>_.
              andthen (set_handle t (\<lambda>h. h\<lparr>dm_cache := dm_cache h @ [(statement, the stmt)]\<rparr>)) (\<lambda>_.
              ret (the stmt)))))))) (\<lambda>stmt.
     andthen (peek (\<lambda>s. sqlite3_bind_parameter_count env stmt (world s))) (\<lambda>count.
     andthen (for_each [1..<Suc count] (\<lambda>_ i. call_ok (sqlite3_bind env stmt i Null)) ()) (\<lambda>_.
     set_handle t (\<lambda>h. h\<lparr>dm_transaction := Some stmt # dm_transaction h\<rparr>)))))))"

section \<open>Statements\<close>

text \<open>The checks every access to the current statement starts with.\<close>

definition current_statement :: "'w sqlite \<Rightarrow> nat \<Rightarrow> ('w, nat) db_op" where
  "current_statement env t =
     andthen (Database_getHandle env t) (\<lambda>handle.
     andthen (check (dm_transaction handle \<noteq> [])) (\<lambda>_.
     andthen (check (hd (dm_transaction handle) \<noteq> None)) (\<lambda>_.
     ret (the (hd (dm_transaction handle))))))"

definition bind_value :: "'w sqlite \<Rightarrow> nat \<Rightarrow> nat \<Rightarrow> sql_value \<Rightarrow> ('w, unit) db_op" where
  "bind_value env t index value =
     andthen (current_statement env t) (\<lambda>stmt.
     andthen (check (index > 0)) (\<lambda>_.
     andthen (assert_op (\<lambda>s. index \<le> sqlite3_bind_parameter_count env stmt (world s))) (\<lambda>_.
     call_ok (sqlite3_bind env stmt index value))))"

definition bindArgument_string :: "'w sqlite \<Rightarrow> nat \<Rightarrow> nat \<Rightarrow> string \<Rightarrow> ('w, unit) db_op" where
  "bindArgument_string env t index value = bind_value env t index (Text value)"

definition bindArgument_int :: "'w sqlite \<Rightarrow> nat \<Rightarrow> nat \<Rightarrow> 32 word \<Rightarrow> ('w, unit) db_op" where
  "bindArgument_int env t index value = bind_value env t index (Integer (sint value))"

definition bindArgument_double :: "'w sqlite \<Rightarrow> nat \<Rightarrow> nat \<Rightarrow> 64 word \<Rightarrow> ('w, unit) db_op" where
  "bindArgument_double env t index value = bind_value env t index (Real value)"

text \<open>SQLite binds the null pointer of an empty blob as a null value.\<close>

definition bindArgument_Blob :: "'w sqlite \<Rightarrow> nat \<Rightarrow> nat \<Rightarrow> byte list \<Rightarrow> ('w, unit) db_op" where
  "bindArgument_Blob env t index value =
     bind_value env t index (if value = [] then Null else Bytes value)"

definition bindArgument_Address :: "'w sqlite \<Rightarrow> nat \<Rightarrow> nat \<Rightarrow> addr \<Rightarrow> ('w, unit) db_op" where
  "bindArgument_Address env t index value = bind_value env t index (Integer (shift_out value))"

definition bindArgument_Time :: "'w sqlite \<Rightarrow> nat \<Rightarrow> nat \<Rightarrow> time \<Rightarrow> ('w, unit) db_op" where
  "bindArgument_Time env t index value = bind_value env t index (Integer (shift_out value))"

definition bindArgument_pthread :: "'w sqlite \<Rightarrow> nat \<Rightarrow> nat \<Rightarrow> 64 word \<Rightarrow> ('w, unit) db_op" where
  "bindArgument_pthread env t index value = bind_value env t index (Integer (shift_out value))"

definition Database_executeStatement :: "'w sqlite \<Rightarrow> nat \<Rightarrow> ('w, bool) db_op" where
  "Database_executeStatement env t =
     andthen (current_statement env t) (\<lambda>stmt.
     andthen (call (sqlite3_step env stmt)) (\<lambda>retval.
     andthen Database_getName (\<lambda>name.
     if retval = SQLITE_READONLY \<or> retval = SQLITE_ERROR
     then throw (Exception DatabaseReadOnly [name])
     else if retval = SQLITE_BUSY then throw (Exception DatabaseBusy [name])
     else
       andthen (check (retval = SQLITE_ROW \<or> retval = SQLITE_DONE)) (\<lambda>_.
       andthen
         (if retval = SQLITE_DONE then
            andthen (call_ok (sqlite3_reset env stmt)) (\<lambda>_.
            set_handle t (\<lambda>h. h\<lparr>dm_transaction := tl (dm_transaction h)\<rparr>))
          else ret ()) (\<lambda>_.
       ret (retval = SQLITE_ROW))))))"

definition result_column :: "'w sqlite \<Rightarrow> nat \<Rightarrow> nat \<Rightarrow> ('w, sql_value) db_op" where
  "result_column env t index =
     andthen (current_statement env t) (\<lambda>stmt.
     andthen (check (index > 0)) (\<lambda>_.
     andthen (assert_op (\<lambda>s. index \<le> sqlite3_column_count env stmt (world s))) (\<lambda>_.
     peek (\<lambda>s. sqlite3_column env stmt (index - 1) (world s)))))"

definition Database_getResultIsNull :: "'w sqlite \<Rightarrow> nat \<Rightarrow> nat \<Rightarrow> ('w, bool) db_op" where
  "Database_getResultIsNull env t index =
     andthen (result_column env t index) (\<lambda>v. ret (v = Null))"

definition Database_getResultAsString :: "'w sqlite \<Rightarrow> nat \<Rightarrow> nat \<Rightarrow> ('w, string) db_op" where
  "Database_getResultAsString env t index =
     andthen (result_column env t index) (\<lambda>v.
     case column_text v of None \<Rightarrow> lift_res Abort | Some text \<Rightarrow> ret text)"

definition Database_getResultAsInteger :: "'w sqlite \<Rightarrow> nat \<Rightarrow> nat \<Rightarrow> ('w, 32 word) db_op" where
  "Database_getResultAsInteger env t index =
     andthen (result_column env t index) (\<lambda>v. ret (column_int v))"

definition Database_getResultAsReal :: "'w sqlite \<Rightarrow> nat \<Rightarrow> nat \<Rightarrow> ('w, 64 word) db_op" where
  "Database_getResultAsReal env t index =
     andthen (result_column env t index) (\<lambda>v. ret (column_double v))"

definition Database_getResultAsBlob :: "'w sqlite \<Rightarrow> nat \<Rightarrow> nat \<Rightarrow> ('w, byte list) db_op" where
  "Database_getResultAsBlob env t index =
     andthen (result_column env t index) (\<lambda>v. ret (column_blob v))"

definition Database_getResultAsAddress :: "'w sqlite \<Rightarrow> nat \<Rightarrow> nat \<Rightarrow> ('w, addr) db_op" where
  "Database_getResultAsAddress env t index =
     andthen (result_column env t index) (\<lambda>v. ret (shift_in (column_int64 v)))"

definition Database_getResultAsTime :: "'w sqlite \<Rightarrow> nat \<Rightarrow> nat \<Rightarrow> ('w, time) db_op" where
  "Database_getResultAsTime env t index =
     andthen (result_column env t index) (\<lambda>v. ret (shift_in (column_int64 v)))"

definition Database_getResultAsPosixThreadId ::
  "'w sqlite \<Rightarrow> nat \<Rightarrow> nat \<Rightarrow> ('w, 64 word) db_op" where
  "Database_getResultAsPosixThreadId env t index =
     andthen (result_column env t index) (\<lambda>v. ret (shift_in (column_int64 v)))"

definition Database_getLastInsertedUID :: "'w sqlite \<Rightarrow> nat \<Rightarrow> ('w, 32 word) db_op" where
  "Database_getLastInsertedUID env t =
     andthen (Database_getHandle env t) (\<lambda>handle.
     andthen (check (dm_database handle \<noteq> None)) (\<lambda>_.
     andthen (check (dm_transaction handle \<noteq> [])) (\<lambda>_.
     peek (\<lambda>s. word_of_int (sqlite3_last_insert_rowid env (the (dm_database handle)) (world s))))))"

section \<open>Ending a transaction\<close>

text \<open>
  The loop that resets and pops the statements above the innermost null statement; it is a
  recursion over the stack as it was when the loop began. \<open>sqlite3_reset\<close> may report the error of
  the last step.
\<close>

fun pop_statements :: "'w sqlite \<Rightarrow> nat \<Rightarrow> nat option list \<Rightarrow> ('w, unit) db_op" where
  "pop_statements env t (Some stmt # rest) =
     andthen (call (sqlite3_reset env stmt)) (\<lambda>retval.
     andthen (check (retval = SQLITE_OK \<or> retval = SQLITE_READONLY)) (\<lambda>_.
     andthen (set_handle t (\<lambda>h. h\<lparr>dm_transaction := tl (dm_transaction h)\<rparr>)) (\<lambda>_.
     pop_statements env t rest)))"
| "pop_statements env t _ = ret ()"

definition pop_transaction :: "'w sqlite \<Rightarrow> nat \<Rightarrow> ('w, Handle) db_op" where
  "pop_transaction env t =
     andthen (Database_getHandle env t) (\<lambda>handle.
     andthen (check (dm_database handle \<noteq> None)) (\<lambda>_.
     andthen (check (dm_transaction handle \<noteq> [])) (\<lambda>_.
     andthen (pop_statements env t (dm_transaction handle)) (\<lambda>_.
     andthen (Database_getHandle env t) (\<lambda>handle.
     andthen (check (dm_transaction handle \<noteq> [])) (\<lambda>_.
     andthen (set_handle t (\<lambda>h. h\<lparr>dm_transaction := tl (dm_transaction h)\<rparr>)) (\<lambda>_.
     ret (handle\<lparr>dm_transaction := tl (dm_transaction handle)\<rparr>))))))))"

definition Database_commitTransaction :: "'w sqlite \<Rightarrow> nat \<Rightarrow> ('w, unit) db_op" where
  "Database_commitTransaction env t =
     andthen (pop_transaction env t) (\<lambda>handle.
     andthen
       (if dm_transaction handle = []
        then call_ok (sqlite3_exec env (the (dm_database handle))
          (if dm_is_committable handle then ''COMMIT TRANSACTION;'' else ''ROLLBACK TRANSACTION;''))
        else ret ()) (\<lambda>_.
     unlock))"

definition Database_rollbackTransaction :: "'w sqlite \<Rightarrow> nat \<Rightarrow> ('w, unit) db_op" where
  "Database_rollbackTransaction env t =
     andthen (pop_transaction env t) (\<lambda>handle.
     andthen
       (if dm_transaction handle = []
        then call_ok (sqlite3_exec env (the (dm_database handle)) ''ROLLBACK TRANSACTION;'')
        else set_handle t (\<lambda>h. h\<lparr>dm_is_committable := False\<rparr>)) (\<lambda>_.
     unlock))"

text \<open>
  The macros \<open>BEGIN_TRANSACTION\<close> (or \<open>BEGIN_WRITE_TRANSACTION\<close>) and \<open>END_TRANSACTION\<close> around a
  body: begin, body and commit run inside the \<open>try\<close>, and any exception rolls back and is thrown
  again, unless rolling back throws another.
\<close>

definition transaction :: "'w sqlite \<Rightarrow> nat \<Rightarrow> bool \<Rightarrow> ('w, 'a) db_op \<Rightarrow> ('w, 'a) db_op" where
  "transaction env t will_modify body s =
     (case andthen (Database_beginTransaction env t will_modify) (\<lambda>_.
           andthen body (\<lambda>x. andthen (Database_commitTransaction env t) (\<lambda>_. ret x))) s of
        (Throw e, s') \<Rightarrow> andthen (Database_rollbackTransaction env t) (\<lambda>_. throw e) s'
      | (r, s') \<Rightarrow> (r, s'))"

section \<open>Copying and renaming\<close>

text \<open>Reads and writes may be interrupted; nothing in the loops bounds how often.\<close>

partial_function (option) copy_write ::
  "'w sqlite \<Rightarrow> nat \<Rightarrow> byte list \<Rightarrow> 'w \<Rightarrow> (unit res \<times> 'w) option" where
  "copy_write env fd buffer w =
     (if buffer = [] then Some (Ok (), w)
      else
        let (written, w') = os_write env fd buffer w
        in if \<not> (written \<ge> 0 \<or> written = -1 \<and> os_errno_is_EINTR env w') then Some (Abort, w')
           else copy_write env fd (if written > 0 then drop (nat written) buffer else buffer) w')"

partial_function (option) copy_loop ::
  "'w sqlite \<Rightarrow> nat \<Rightarrow> nat \<Rightarrow> 'w \<Rightarrow> (unit res \<times> 'w) option" where
  "copy_loop env source_fd destination_fd w =
     (let ((num, bytes), w') = os_read env source_fd 65536 w
      in if \<not> (num \<ge> 0 \<or> num = -1 \<and> os_errno_is_EINTR env w') then Some (Abort, w')
         else if num > 0 then
           (case copy_write env destination_fd (take (nat num) bytes) w' of
              None \<Rightarrow> None
            | Some (r, w'') \<Rightarrow>
                if r = Ok () then copy_loop env source_fd destination_fd w'' else Some (r, w''))
         else Some (Ok (), w'))"

definition Database_copyFile ::
  "'w sqlite \<Rightarrow> string \<Rightarrow> string \<Rightarrow> 'w \<Rightarrow> (unit res \<times> 'w) option" where
  "Database_copyFile env source destination w =
     (let (source_fd, w1) = os_open env source False w
      in if source_fd = None then Some (Abort, w1)
         else
           let (destination_fd, w2) = os_open env destination True w1
           in if destination_fd = None then Some (Abort, w2)
              else
                (case copy_loop env (the source_fd) (the destination_fd) w2 of
                   None \<Rightarrow> None
                 | Some (r, w3) \<Rightarrow>
                     if r \<noteq> Ok () then Some (r, w3)
                     else
                       let (ok1, w4) = os_close env (the source_fd) w3
                       in if \<not> ok1 then Some (Abort, w4)
                          else
                            let (ok2, w5) = os_close env (the destination_fd) w4
                            in Some (if ok2 then Ok () else Abort, w5)))"

text \<open>
  The bodies of the \<open>try\<close> blocks of \<open>copyTo\<close> and \<open>renameTo\<close>: create the new database and copy this
  one to it inside an exclusive transaction. \<open>None\<close> is a copy that never ends.
\<close>

definition copy_body ::
  "'w sqlite \<Rightarrow> nat option \<Rightarrow> string \<Rightarrow> 'w dbstate \<Rightarrow> (unit res \<times> 'w dbstate) option" where
  "copy_body env handle name s =
     (case andthen (Database_create env name) (\<lambda>_.
           call_ok (sqlite3_exec env (the handle) ''BEGIN EXCLUSIVE TRANSACTION;'')) s of
        (Ok _, s1) \<Rightarrow>
          (case Database_copyFile env (dm_name (the_db s1)) name (world s1) of
             None \<Rightarrow> None
           | Some (r, w) \<Rightarrow>
               Some (andthen (lift_res r) (\<lambda>_.
                   call_ok (sqlite3_exec env (the handle) ''COMMIT TRANSACTION;''))
                 (s1\<lparr>world := w\<rparr>)))
      | (r, s1) \<Rightarrow> Some (r, s1))"

text \<open>The handler: release the lock and throw again; an exception before the \<open>try\<close> keeps it.\<close>

definition unlock_on_throw :: "('w, unit) db_op \<Rightarrow> unit res \<times> 'w dbstate \<Rightarrow> unit res \<times> 'w dbstate"
  where
  "unlock_on_throw after = (\<lambda>(r, s).
     case r of
       Ok _ \<Rightarrow> andthen after (\<lambda>_. unlock) s
     | Throw e \<Rightarrow> andthen unlock (\<lambda>_. throw e) s
     | _ \<Rightarrow> (r, s))"

definition Database_copyTo ::
  "'w sqlite \<Rightarrow> nat \<Rightarrow> string \<Rightarrow> 'w dbstate \<Rightarrow> (unit res \<times> 'w dbstate) option" where
  "Database_copyTo env t name s =
     (case andthen lock_write (\<lambda>_. Database_getHandle env t) s of
        (Ok handle, s1) \<Rightarrow>
          map_option (unlock_on_throw (ret ())) (copy_body env (dm_database handle) name s1)
      | (r, s1) \<Rightarrow> Some (bind_res r (\<lambda>_. Ok ()), s1))"

definition Database_renameTo ::
  "'w sqlite \<Rightarrow> nat \<Rightarrow> string \<Rightarrow> 'w dbstate \<Rightarrow> (unit res \<times> 'w dbstate) option" where
  "Database_renameTo env t name s =
     (case andthen lock_write (\<lambda>_. Database_getHandle env t) s of
        (Ok handle, s1) \<Rightarrow>
          map_option
            (\<lambda>(r, s2). unlock_on_throw
               (andthen (Database_releaseAllHandles env) (\<lambda>_.
                modify_db (\<lambda>db. db\<lparr>dm_name := name\<rparr>)))
               (andthen (lift_res r) (\<lambda>_. Database_remove env (dm_name (the_db s2))) s2))
            (copy_body env (dm_database handle) name s1)
      | (r, s1) \<Rightarrow> Some (bind_res r (\<lambda>_. Ok ()), s1))"

end
