(* ===== verification/DatabaseInv.thy ===== *)
theory DatabaseInv
  imports Database Hoare
begin

text \<open>
  The invariant of a \<open>Database\<close> object shared by threads: every handle's stack begins with the null
  statement of an outermost transaction, holds no statement twice and only cached ones, and the
  transaction lock counts the transactions in progress over all threads. Every call keeps it, with
  the documented behaviour of SQLite that a newly prepared statement is not one that exists.
\<close>

section \<open>What is assumed of SQLite\<close>

definition keeps_live :: "('w \<Rightarrow> 'v) \<Rightarrow> ('w \<Rightarrow> 'a \<times> 'w) \<Rightarrow> bool" where
  "keeps_live live f \<longleftrightarrow> (\<forall>w. live (snd (f w)) = live w)"

text \<open>\<open>live\<close> gives the prepared statements that have not been finalized.\<close>

definition sqlite_contract :: "'w sqlite \<Rightarrow> ('w \<Rightarrow> nat set) \<Rightarrow> bool" where
  "sqlite_contract env live \<longleftrightarrow>
     (\<forall>n b. keeps_live live (os_open env n b)) \<and> (\<forall>fd. keeps_live live (os_close env fd)) \<and>
     (\<forall>fd n. keeps_live live (os_read env fd n)) \<and> (\<forall>fd b. keeps_live live (os_write env fd b)) \<and>
     (\<forall>n. keeps_live live (os_remove env n)) \<and>
     (\<forall>n. keeps_live live (sqlite3_open env n)) \<and> (\<forall>c. keeps_live live (sqlite3_close env c)) \<and>
     (\<forall>c. keeps_live live (sqlite3_busy_handler env c)) \<and>
     (\<forall>c q. keeps_live live (sqlite3_exec env c q)) \<and>
     (\<forall>st i v. keeps_live live (sqlite3_bind env st i v)) \<and>
     (\<forall>st. keeps_live live (sqlite3_step env st)) \<and> (\<forall>st. keeps_live live (sqlite3_reset env st)) \<and>
     (\<forall>c q w rv st tail w'. sqlite3_prepare_v2 env c q w = ((rv, st, tail), w') \<longrightarrow>
        (case st of
           None \<Rightarrow> live w' = live w
         | Some st \<Rightarrow> st \<notin> live w \<and> live w' = insert st (live w)))"

section \<open>Operations that leave the object alone\<close>

definition same :: "('w \<Rightarrow> nat set) \<Rightarrow> 'w dbstate \<Rightarrow> 'w dbstate \<Rightarrow> bool" where
  "same live s s' \<longleftrightarrow> the_db s' = the_db s \<and> live (world s') = live (world s)"

definition keeps :: "('w \<Rightarrow> nat set) \<Rightarrow> ('w, 'a) db_op \<Rightarrow> bool" where
  "keeps live m \<longleftrightarrow> (\<forall>s. same live s (snd (m s)))"

named_theorems keeps_intros "operations that keep the database object"

lemma same_refl [simp]: "same live s s"
  by (simp add: same_def)

lemma same_trans: "same live s s' \<Longrightarrow> same live s' s'' \<Longrightarrow> same live s s''"
  by (simp add: same_def)

lemma keeps_basic [keeps_intros]:
  "keeps live (ret x)" "keeps live (throw e)" "keeps live (check b)" "keeps live (peek f)"
  "keeps live (assert_op P)" "keeps live (lift_res r)"
  by (simp_all add: keeps_def res_simps)

lemma keeps_call [keeps_intros]: "keeps_live live f \<Longrightarrow> keeps live (call f)"
  by (simp add: keeps_def keeps_live_def same_def res_simps)

lemma keeps_andthen [keeps_intros]:
  "keeps live m \<Longrightarrow> (\<And>x. keeps live (f x)) \<Longrightarrow> keeps live (andthen m f)"
  unfolding keeps_def andthen_def
  by (auto split: prod.splits res.splits) (metis same_trans snd_conv)+

lemma keeps_call_ok [keeps_intros]: "keeps_live live f \<Longrightarrow> keeps live (call_ok f)"
  unfolding call_ok_def by (intro keeps_intros)

lemma keeps_for_each [keeps_intros]:
  "(\<And>a x. keeps live (body a x)) \<Longrightarrow> keeps live (for_each xs body acc)"
  by (induction xs arbitrary: acc) (auto intro: keeps_intros)

lemma keeps_if [keeps_intros]:
  "(b \<Longrightarrow> keeps live m) \<Longrightarrow> (\<not> b \<Longrightarrow> keeps live m') \<Longrightarrow> keeps live (if b then m else m')"
  by simp

lemma keeps_prod [keeps_intros]:
  "(\<And>x y. keeps live (f x y)) \<Longrightarrow> keeps live (case p of (x, y) \<Rightarrow> f x y)"
  by (cases p) simp

lemma keeps_D: "keeps live m \<Longrightarrow> m s = (r, s') \<Longrightarrow> same live s s'"
  by (metis keeps_def snd_conv)

lemma contract_keeps [keeps_intros]:
  assumes "sqlite_contract env live"
  shows "keeps_live live (os_open env n b)" and "keeps_live live (os_close env fd)"
    and "keeps_live live (sqlite3_open env n)" and "keeps_live live (sqlite3_close env c)"
    and "keeps_live live (sqlite3_busy_handler env c)" and "keeps_live live (sqlite3_exec env c q)"
    and "keeps_live live (sqlite3_bind env st i v)" and "keeps_live live (sqlite3_step env st)"
    and "keeps_live live (sqlite3_reset env st)" and "keeps_live live (os_read env fd m)"
    and "keeps_live live (os_write env fd bytes)" and "keeps_live live (os_remove env n)"
  using assms by (simp_all add: sqlite_contract_def)

lemma keeps_isAccessible [keeps_intros]:
  "sqlite_contract env live \<Longrightarrow> keeps live (Database_isAccessible env name)"
  unfolding Database_isAccessible_def by (intro keeps_intros)

lemma keeps_create [keeps_intros]:
  "sqlite_contract env live \<Longrightarrow> keeps live (Database_create env name)"
  unfolding Database_create_def by (intro keeps_intros)

section \<open>The invariant\<close>

definition depth :: "Handle \<Rightarrow> nat" where
  "depth h = length (filter (\<lambda>x. x = None) (dm_transaction h))"

definition statements :: "Handle \<Rightarrow> nat list" where
  "statements h = map the (filter (\<lambda>x. x \<noteq> None) (dm_transaction h))"

definition handle_ok :: "nat set \<Rightarrow> Handle \<Rightarrow> bool" where
  "handle_ok stmts h \<longleftrightarrow>
     dm_database h \<noteq> None \<and>
     (dm_transaction h \<noteq> [] \<longrightarrow> last (dm_transaction h) = None) \<and>
     distinct (statements h) \<and> set (statements h) \<subseteq> snd ` set (dm_cache h) \<and>
     distinct (map snd (dm_cache h)) \<and> snd ` set (dm_cache h) \<subseteq> stmts"

text \<open>\<open>n\<close> readers of the lock beyond the transactions on the stacks.\<close>

definition db_inv :: "('w \<Rightarrow> nat set) \<Rightarrow> nat \<Rightarrow> 'w dbstate \<Rightarrow> bool" where
  "db_inv live n s \<longleftrightarrow>
     linear.ordered (keys (dm_handles (the_db s))) \<and>
     (\<forall>t h. map_of (dm_handles (the_db s)) t = Some h \<longrightarrow> handle_ok (live (world s)) h) \<and>
     dm_transaction_lock (the_db s) = Readers (n + total depth (dm_handles (the_db s)))"

lemma db_inv_same: "same live s s' \<Longrightarrow> db_inv live n s \<Longrightarrow> db_inv live n s'"
  by (simp add: same_def db_inv_def)

lemma find_handle_same: "same live s s' \<Longrightarrow> find_handle t s' = find_handle t s"
  by (simp add: same_def find_handle_def)

lemma find_handle_map_of:
  "linear.ordered (keys (dm_handles (the_db s))) \<Longrightarrow>
     find_handle t s = map_of (dm_handles (the_db s)) t"
  by (simp add: find_handle_def linear_find option.map_comp comp_def option.map_ident)

lemma find_handle_ok: "db_inv live n s \<Longrightarrow> find_handle t s = Some h \<Longrightarrow> handle_ok (live (world s)) h"
  by (simp add: db_inv_def find_handle_map_of)

lemma set_handle_inv:
  assumes inv: "db_inv live n s" and h: "find_handle t s = Some h"
    and ok: "handle_ok (live (world s)) (f h)" and d: "n + depth h = n' + depth (f h)"
  shows "\<exists>s'. set_handle t f s = (Ok (), s') \<and> db_inv live n' s' \<and>
    find_handle t s' = Some (f h) \<and> world s' = world s \<and>
    dm_transaction_lock (the_db s') = dm_transaction_lock (the_db s) \<and>
    (\<forall>u. u \<noteq> t \<longrightarrow> find_handle u s' = find_handle u s)"
proof -
  let ?m = "dm_handles (the_db s)" and ?m' = "map_modify (<) t f (dm_handles (the_db s))"
  let ?s = "s\<lparr>the_db := (the_db s)\<lparr>dm_handles := ?m'\<rparr>\<rparr>"
  have sorted: "linear.ordered (keys ?m)" using inv by (simp add: db_inv_def)
  then have sorted': "linear.ordered (keys ?m')" by (simp add: linear.modify_keys)
  have th: "map_of ?m t = Some h" using h find_handle_map_of [OF sorted] by simp
  have "total depth ?m' + depth h = total depth ?m + depth (f h)"
    by (rule total_modify [OF sorted th])
  moreover have map': "map_of ?m' = (map_of ?m)(t \<mapsto> f h)"
    using linear_map_of_modify [OF sorted, of t f] th by simp
  ultimately have "db_inv live n' ?s"
    using inv ok d sorted' unfolding db_inv_def by auto
  moreover have "find_handle u ?s = map_of ?m' u" for u
    using find_handle_map_of [of ?s u] sorted' by simp
  moreover have "find_handle u s = map_of ?m u" for u
    by (rule find_handle_map_of [OF sorted])
  ultimately show ?thesis
    using map' by (simp add: set_handle_def res_simps)
qed

lemma getHandle_found: "find_handle t s = Some h \<Longrightarrow> Database_getHandle env t s = (Ok h, s)"
  by (simp add: Database_getHandle_def res_simps)

lemma keeps_open_handle: "sqlite_contract env live \<Longrightarrow> keeps live (open_handle env)"
  unfolding open_handle_def Database_getName_def by (intro keeps_intros)

lemma open_handle_Some: "open_handle env s = (Ok handle, s') \<Longrightarrow> handle \<noteq> None"
proof -
  have "returns (\<lambda>h. h \<noteq> None) (open_handle env)"
    unfolding open_handle_def by (intro returns_intros) simp
  then show "open_handle env s = (Ok handle, s') \<Longrightarrow> handle \<noteq> None" by (auto simp: returns_def)
qed

lemma new_handle_inv:
  assumes inv: "db_inv live n s" and "find_handle t s = None" and "c \<noteq> None"
    and s': "s' = s\<lparr>the_db := (the_db s)\<lparr>dm_handles :=
       map_insert (<) t (Handle_default\<lparr>dm_database := c\<rparr>) (dm_handles (the_db s))\<rparr>\<rparr>"
  shows "db_inv live n s'" and "find_handle t s' = Some (Handle_default\<lparr>dm_database := c\<rparr>)"
    and "u \<noteq> t \<Longrightarrow> find_handle u s' = find_handle u s"
proof -
  let ?m = "dm_handles (the_db s)" and ?h = "Handle_default\<lparr>dm_database := c\<rparr>"
  have sorted: "linear.ordered (keys ?m)" using inv by (simp add: db_inv_def)
  then have sorted': "linear.ordered (keys (map_insert (<) t ?h ?m))"
    by (simp add: linear.insert_ordered)
  have none: "map_of ?m t = None" using assms(2) find_handle_map_of [OF sorted] by simp
  have map': "map_of (map_insert (<) t ?h ?m) = (map_of ?m)(t \<mapsto> ?h)"
    using linear_map_of_insert [OF sorted, of t ?h] none by simp
  have "depth ?h = 0" by (simp add: depth_def Handle_default_def)
  moreover have "handle_ok X ?h" for X
    using assms(3) by (simp add: handle_ok_def Handle_default_def statements_def)
  ultimately show "db_inv live n s'"
    using inv total_insert [OF sorted none, of depth ?h] sorted' map'
    by (auto simp: db_inv_def s' split: if_splits)
  show "find_handle t s' = Some ?h"
    using find_handle_map_of [of s' t] sorted' map' by (simp add: s')
  show "u \<noteq> t \<Longrightarrow> find_handle u s' = find_handle u s"
    using find_handle_map_of [of s' u] find_handle_map_of [OF sorted, of u] sorted' map'
    by (simp add: s')
qed

lemma getHandle_cases:
  assumes con: "sqlite_contract env live" and inv: "db_inv live n s"
    and run: "Database_getHandle env t s = (r, s')"
  obtains (found) h where "r = Ok h" and "find_handle t s = Some h" and "s' = s"
    | (opened) h where "r = Ok h" and "find_handle t s = None" and "db_inv live n s'"
        and "find_handle t s' = Some h" and "dm_transaction h = []"
        and "live (world s') = live (world s)"
        and "dm_transaction_lock (the_db s') = dm_transaction_lock (the_db s)"
        and "\<And>u. u \<noteq> t \<Longrightarrow> find_handle u s' = find_handle u s"
    | (failed) "\<And>h. r \<noteq> Ok h" and "find_handle t s = None" and "same live s s'"
proof (cases "find_handle t s")
  case (Some h)
  show ?thesis
    by (rule found [of h]) (use run Some in \<open>simp_all add: getHandle_found\<close>)
next
  case None
  obtain r1 s1 where op: "open_handle env s = (r1, s1)" by fastforce
  have same1: "same live s s1" by (rule keeps_D [OF keeps_open_handle [OF con] op])
  show ?thesis
  proof (cases r1)
    case (Ok c)
    let ?h = "Handle_default\<lparr>dm_database := c\<rparr>"
    have c: "c \<noteq> None" using open_handle_Some op Ok by blast
    have inv1: "db_inv live n s1" and none1: "find_handle t s1 = None"
      using db_inv_same [OF same1 inv] find_handle_same [OF same1] None by simp_all
    have "r = Ok ?h" and s': "s' = s1\<lparr>the_db := (the_db s1)\<lparr>dm_handles :=
       map_insert (<) t ?h (dm_handles (the_db s1))\<rparr>\<rparr>"
      using run None op Ok by (simp_all add: Database_getHandle_def res_simps andthen_def)
    with new_handle_inv [OF inv1 none1 c s'] same1 None show ?thesis
      by (intro opened [of ?h]) (auto simp: same_def find_handle_def Handle_default_def)
  qed (rule failed; use run None op same1 in
      \<open>auto simp: Database_getHandle_def res_simps andthen_def\<close>)+
qed

lemma getHandle_inv:
  assumes "sqlite_contract env live" and "db_inv live n s"
    and "Database_getHandle env t s = (r, s')"
  shows "db_inv live n s'" and "r = Ok h \<Longrightarrow> find_handle t s' = Some h"
proof -
  show "db_inv live n s'"
    by (cases rule: getHandle_cases [OF assms]) (use assms(2) db_inv_same in blast)+
  show "r = Ok h \<Longrightarrow> find_handle t s' = Some h"
    by (cases rule: getHandle_cases [OF assms]) simp_all
qed

section \<open>What the steps do to a handle\<close>

lemma statements_simps [simp]:
  "statements (h\<lparr>dm_transaction := Some st # q\<rparr>) = st # statements (h\<lparr>dm_transaction := q\<rparr>)"
  "statements (h\<lparr>dm_transaction := None # q\<rparr>) = statements (h\<lparr>dm_transaction := q\<rparr>)"
  "statements (h\<lparr>dm_transaction := dm_transaction h\<rparr>) = statements h"
  "statements (h\<lparr>dm_cache := c\<rparr>) = statements h"
  "statements (h\<lparr>dm_is_committable := b\<rparr>) = statements h"
  by (simp_all add: statements_def)

lemma depth_simps [simp]:
  "depth (h\<lparr>dm_transaction := Some st # q\<rparr>) = depth (h\<lparr>dm_transaction := q\<rparr>)"
  "depth (h\<lparr>dm_transaction := None # q\<rparr>) = Suc (depth (h\<lparr>dm_transaction := q\<rparr>))"
  "depth (h\<lparr>dm_transaction := dm_transaction h\<rparr>) = depth h"
  "depth (h\<lparr>dm_cache := c\<rparr>) = depth h"
  "depth (h\<lparr>dm_is_committable := b\<rparr>) = depth h"
  by (simp_all add: depth_def)

lemma in_statements: "st \<in> set (statements h) \<longleftrightarrow> Some st \<in> set (dm_transaction h)"
  by (force simp: statements_def)

lemma handle_ok_mono: "handle_ok X h \<Longrightarrow> X \<subseteq> Y \<Longrightarrow> handle_ok Y h"
  by (auto simp: handle_ok_def)

lemma handle_ok_flag: "handle_ok X h \<Longrightarrow> handle_ok X (h\<lparr>dm_is_committable := b\<rparr>)"
  by (simp add: handle_ok_def)

lemma handle_ok_begin: "handle_ok X h \<Longrightarrow> handle_ok X (h\<lparr>dm_transaction := None # dm_transaction h\<rparr>)"
  by (simp add: handle_ok_def)

lemma handle_ok_push:
  "handle_ok X h \<Longrightarrow> st \<in> snd ` set (dm_cache h) \<Longrightarrow> Some st \<notin> set (dm_transaction h) \<Longrightarrow>
     dm_transaction h \<noteq> [] \<Longrightarrow> handle_ok X (h\<lparr>dm_transaction := Some st # dm_transaction h\<rparr>)"
  by (simp add: handle_ok_def in_statements)

lemma handle_ok_cache:
  "handle_ok X h \<Longrightarrow> st \<notin> X \<Longrightarrow> handle_ok (insert st X) (h\<lparr>dm_cache := dm_cache h @ [(q, st)]\<rparr>)"
  by (auto simp: handle_ok_def)

lemma handle_ok_pop:
  assumes "handle_ok X h" and "dm_transaction h = x # rest"
  shows "handle_ok X (h\<lparr>dm_transaction := rest\<rparr>)"
    and "depth h = (if x = None then Suc (depth (h\<lparr>dm_transaction := rest\<rparr>))
      else depth (h\<lparr>dm_transaction := rest\<rparr>))"
proof -
  have h: "h = h\<lparr>dm_transaction := x # rest\<rparr>" using assms(2) by (cases h) simp
  show "handle_ok X (h\<lparr>dm_transaction := rest\<rparr>)"
    using assms by (cases x) (auto simp: handle_ok_def statements_def split: if_splits)
  show "depth h = (if x = None then Suc (depth (h\<lparr>dm_transaction := rest\<rparr>))
      else depth (h\<lparr>dm_transaction := rest\<rparr>))"
    using assms(2) by (simp add: depth_def)
qed

section \<open>The calls keep the invariant\<close>

text \<open>The invariant with the handle of the executing thread.\<close>

definition at :: "('w \<Rightarrow> nat set) \<Rightarrow> nat \<Rightarrow> nat \<Rightarrow> Handle \<Rightarrow> 'w dbstate \<Rightarrow> bool" where
  "at live n t h s \<longleftrightarrow> db_inv live n s \<and> find_handle t s = Some h"

lemma at_ok: "at live n t h s \<Longrightarrow> handle_ok (live (world s)) h"
  by (auto simp: at_def dest: find_handle_ok)

lemma at_same: "same live s s' \<Longrightarrow> at live n t h s \<Longrightarrow> at live n t h s'"
  by (simp add: at_def db_inv_same find_handle_same)

lemma hoare_keeps:
  assumes "keeps live m"
  shows "hoare (at live n t h) m (\<lambda>_. at live n t h) (at live n t h)"
  by (rule hoare_I) (use keeps_D [OF assms] at_same in blast)

lemma hoare_keeps_inv:
  assumes "keeps live m"
  shows "hoare (db_inv live n) m (\<lambda>_. db_inv live n) (db_inv live n)"
  by (rule hoare_I) (use keeps_D [OF assms] db_inv_same in blast)

lemma hoare_check: "hoare P (check b) (\<lambda>_ s. b \<and> P s) E"
  by (auto simp: hoare_def res_simps)

lemma hoare_getHandle:
  assumes "sqlite_contract env live"
  shows "hoare (db_inv live n) (Database_getHandle env t) (\<lambda>h. at live n t h) (db_inv live n)"
  by (rule hoare_I) (use getHandle_inv [OF assms] in \<open>auto simp: at_def\<close>)

lemma hoare_getHandle_found:
  "hoare (at live n t h) (Database_getHandle env t) (\<lambda>h' s. h' = h \<and> at live n t h s) E"
  by (auto simp: hoare_def at_def getHandle_found)

lemma hoare_set_handle:
  assumes ok: "\<And>X. handle_ok X h \<Longrightarrow> handle_ok X (f h)" and d: "n + depth h = n' + depth (f h)"
  shows "hoare (at live n t h) (set_handle t f) (\<lambda>_. at live n' t (f h)) E"
proof (rule hoare_I)
  fix s r s'
  assume s: "at live n t h s" and run: "set_handle t f s = (r, s')"
  obtain s1 where "set_handle t f s = (Ok (), s1)" and "db_inv live n' s1"
    and "find_handle t s1 = Some (f h)"
    using set_handle_inv [of live n s t h f n'] s at_ok [OF s] ok d by (auto simp: at_def)
  with run show "(\<forall>x. r = Ok x \<longrightarrow> at live n' t (f h) s') \<and> (\<forall>e. r = Throw e \<longrightarrow> E s')"
    by (auto simp: at_def)
qed

lemma hoare_lock_read: "hoare (db_inv live n) lock_read (\<lambda>_. db_inv live (Suc n)) E"
  by (auto simp: hoare_def lock_read_def set_lock_def res_simps andthen_def db_inv_def
      split: rwlock.splits)

lemma hoare_unlock: "hoare (db_inv live (Suc n)) unlock (\<lambda>_. db_inv live n) E"
  by (auto simp: hoare_def unlock_def set_lock_def res_simps andthen_def db_inv_def
      split: rwlock.splits)

named_theorems at_rules "symbolic execution of a call of one thread"

lemma at_keeps [at_rules]:
  assumes "keeps live m" and "\<And>s. at live n t h s \<Longrightarrow> E s"
    and "\<And>x. hoare (at live n t h) (f x) Q E"
  shows "hoare (at live n t h) (andthen m f) Q E"
proof (rule hoare_andthen)
  show "hoare (at live n t h) m (\<lambda>_. at live n t h) E"
    by (rule hoare_conseq [OF hoare_keeps [OF assms(1)]]) (rule assms(2) | assumption)+
qed (rule assms(3))

lemma at_check [at_rules]:
  assumes "b \<Longrightarrow> hoare P (f ()) Q E"
  shows "hoare P (andthen (check b) f) Q E"
  using assms by (cases b) (auto simp: hoare_def andthen_def res_simps)

lemma at_structure [at_rules]:
  "hoare P (f x) Q E \<Longrightarrow> hoare P (andthen (ret x) f) Q E"
  "hoare P (andthen m (\<lambda>x. andthen (f' x) f)) Q E \<Longrightarrow> hoare P (andthen (andthen m f') f) Q E"
  "(b \<Longrightarrow> hoare P (andthen m' f) Q E) \<Longrightarrow> (\<not> b \<Longrightarrow> hoare P (andthen m'' f) Q E) \<Longrightarrow>
     hoare P (andthen (if b then m' else m'') f) Q E"
  by (simp_all add: andthen_assoc)

lemma at_set_handle:
  assumes "\<And>X. handle_ok X h \<Longrightarrow> handle_ok X (u h)" and "n + depth h = n' + depth (u h)"
    and "hoare (at live n' t (u h)) (f ()) Q E"
  shows "hoare (at live n t h) (andthen (set_handle t u) f) Q E"
proof (rule hoare_andthen)
  show "hoare (at live n t h) (set_handle t u) (\<lambda>_. at live n' t (u h)) E"
    using assms(1,2) by (rule hoare_set_handle)
qed (use assms(3) in simp)

lemma at_flag [at_rules]:
  "hoare (at live n t (h\<lparr>dm_is_committable := b\<rparr>)) (f ()) Q E \<Longrightarrow>
     hoare (at live n t h) (andthen (set_handle t (\<lambda>h. h\<lparr>dm_is_committable := b\<rparr>)) f) Q E"
  by (rule at_set_handle [where u = "\<lambda>h. h\<lparr>dm_is_committable := b\<rparr>"]) (auto intro: handle_ok_flag)

lemma at_getHandle [at_rules]:
  assumes "sqlite_contract env live" and "\<And>s. db_inv live n s \<Longrightarrow> E s"
    and "\<And>h. hoare (at live n t h) (f h) Q E"
  shows "hoare (db_inv live n) (andthen (Database_getHandle env t) f) Q E"
proof (rule hoare_andthen)
  show "hoare (db_inv live n) (Database_getHandle env t) (\<lambda>h. at live n t h) E"
    by (rule hoare_conseq [OF hoare_getHandle [OF assms(1)]]) (rule assms(2) | assumption)+
qed (rule assms(3))

lemma at_lock [at_rules]:
  assumes "hoare (db_inv live (Suc n)) (f ()) Q E"
  shows "hoare (db_inv live n) (andthen lock_read f) Q E"
  by (rule hoare_andthen [OF hoare_lock_read]) (simp add: assms)

lemma at_inv: "at live n t h s \<Longrightarrow> db_inv live n s"
  by (simp add: at_def)

lemma at_end:
  "(\<And>s. at live n t h s \<Longrightarrow> Q x s) \<Longrightarrow> hoare (at live n t h) (ret x) Q E"
  "(\<And>s. at live n t h s \<Longrightarrow> E s) \<Longrightarrow> hoare (at live n t h) (throw e) Q E"
  by (simp_all add: hoare_ret hoare_throw)

lemma hoare_begin_marks:
  "hoare (at live (Suc n) t h) (set_handle t (\<lambda>h. h\<lparr>dm_transaction := None # dm_transaction h\<rparr>))
     (\<lambda>_. db_inv live n) E"
  by (rule hoare_conseq [OF hoare_set_handle [where n' = n]])
    (auto intro: handle_ok_begin at_inv)

lemma begin_inv:
  assumes "sqlite_contract env live"
  shows "hoare (db_inv live n) (Database_beginTransaction env t will_modify)
    (\<lambda>_. db_inv live n) (db_inv live (Suc n))"
  unfolding Database_beginTransaction_def
  by (assumption | erule at_inv | rule assms at_lock at_getHandle at_check at_structure at_flag
      hoare_begin_marks at_keeps keeps_call contract_keeps keeps_basic)+

lemma at_found:
  "hoare (at live n t h) (f h) Q E \<Longrightarrow> hoare (at live n t h) (andthen (Database_getHandle env t) f) Q E"
  by (rule hoare_andthen [OF hoare_getHandle_found]) (auto intro: hoare_assume)

text \<open>
  What holds of a call when the thread has a handle holds when the call opens it, with the
  invariant as precondition.
\<close>

lemma from_handle:
  assumes con: "sqlite_contract env live" and E: "\<And>s. db_inv live n s \<Longrightarrow> E s"
    and m: "m = andthen (Database_getHandle env t) f"
    and at: "\<And>h. hoare (at live n t h) m Q E"
  shows "hoare (db_inv live n) m Q E"
  unfolding m
proof (rule at_getHandle [OF con E])
  show "hoare (at live n t h) (f h) Q E" for h
  proof (rule hoare_I)
    fix s r s'
    assume s: "at live n t h s" and "f h s = (r, s')"
    then have run: "m s = (r, s')"
      using getHandle_found [of t s h env] by (simp add: m at_def andthen_simps)
    show "(\<forall>x. r = Ok x \<longrightarrow> Q x s') \<and> (\<forall>e. r = Throw e \<longrightarrow> E s')"
      using hoare_Ok [OF at s] hoare_Throw [OF at s] run by simp
  qed
qed

subsection \<open>Preparing a statement\<close>

lemma at_world_mono:
  "at live n t h s \<Longrightarrow> live (world s) \<subseteq> live w \<Longrightarrow> at live n t h (s\<lparr>world := w\<rparr>)"
  unfolding at_def db_inv_def find_handle_def by (auto intro: handle_ok_mono)

lemma unused_copy_Some:
  assumes "unused_copy h q = Some st"
  shows "st \<in> snd ` set (dm_cache h)" and "Some st \<notin> set (dm_transaction h)"
  using assms by (force simp: unused_copy_def find_Some_iff in_set_conv_nth)+

definition new_copy :: "'w sqlite \<Rightarrow> nat \<Rightarrow> Handle \<Rightarrow> string \<Rightarrow> ('w, nat) db_op" where
  "new_copy env t handle statement =
     andthen (call (sqlite3_prepare_v2 env (the (dm_database handle)) statement))
       (\<lambda>(retval, stmt, tail).
     andthen (peek (\<lambda>s. (errmsg_is_syntax_error env (the (dm_database handle)) (world s),
         sqlite3_errmsg env (the (dm_database handle)) (world s), dm_name (the_db s))))
       (\<lambda>(syntax_error, errmsg, name).
     if retval = SQLITE_ERROR \<and> \<not> syntax_error
     then throw (Exception DatabaseInvalid [name, errmsg])
     else
       andthen (check (retval = SQLITE_OK)) (\<lambda>_.
       andthen (check (tail = Some [])) (\<lambda>_.
       andthen (check (stmt \<noteq> None)) (\<lambda>_.
       andthen (set_handle t (\<lambda>h. h\<lparr>dm_cache := dm_cache h @ [(statement, the stmt)]\<rparr>)) (\<lambda>_.
       ret (the stmt)))))))"

lemma prepareStatement_new_copy:
  "Database_prepareStatement env t statement =
     andthen (Database_getHandle env t) (\<lambda>handle.
     andthen (check (dm_database handle \<noteq> None)) (\<lambda>_.
     andthen (check (dm_transaction handle \<noteq> [])) (\<lambda>_.
     andthen (case unused_copy handle statement of
          Some stmt \<Rightarrow> ret stmt | None \<Rightarrow> new_copy env t handle statement) (\<lambda>stmt.
     andthen (peek (\<lambda>s. sqlite3_bind_parameter_count env stmt (world s))) (\<lambda>count.
     andthen (for_each [1..<Suc count] (\<lambda>_ i. call_ok (sqlite3_bind env stmt i Null)) ()) (\<lambda>_.
     set_handle t (\<lambda>h. h\<lparr>dm_transaction := Some stmt # dm_transaction h\<rparr>)))))))"
  unfolding Database_prepareStatement_def new_copy_def ..

definition usable :: "nat \<Rightarrow> Handle \<Rightarrow> bool" where
  "usable st h \<longleftrightarrow> st \<in> snd ` set (dm_cache h) \<and> Some st \<notin> set (dm_transaction h)
     \<and> dm_transaction h \<noteq> []"

lemma contract_prepare:
  assumes "sqlite_contract env live" and "sqlite3_prepare_v2 env c q w0 = ((rv, st, tail), w)"
  shows "case st of None \<Rightarrow> live w = live w0 | Some st \<Rightarrow> st \<notin> live w0 \<and> live w = insert st (live w0)"
  using assms unfolding sqlite_contract_def by blast

text \<open>Two handles in the same nesting of transactions.\<close>

definition alike :: "Handle \<Rightarrow> Handle \<Rightarrow> bool" where
  "alike h h' \<longleftrightarrow> depth h' = depth h \<and> dm_is_committable h' = dm_is_committable h"

definition ends :: "('w \<Rightarrow> nat set) \<Rightarrow> nat \<Rightarrow> nat \<Rightarrow> Handle \<Rightarrow> 'w dbstate \<Rightarrow> bool" where
  "ends live n t h s \<longleftrightarrow> (\<exists>h'. alike h h' \<and> at live n t h' s)"

lemma ends_I: "at live n t h' s \<Longrightarrow> alike h h' \<Longrightarrow> ends live n t h s"
  by (auto simp: ends_def)

lemma alike_simps [simp]:
  "alike h h" "alike h (h'\<lparr>dm_transaction := Some st # q\<rparr>) = alike h (h'\<lparr>dm_transaction := q\<rparr>)"
  "alike h (h'\<lparr>dm_transaction := dm_transaction h'\<rparr>) = alike h h'"
  "alike h (h'\<lparr>dm_cache := c\<rparr>) = alike h h'"
  by (simp_all add: alike_def)

lemma ends_inv: "ends live n t h s \<Longrightarrow> db_inv live n s"
  by (auto simp: ends_def at_def)

lemma hoare_new_copy:
  assumes con: "sqlite_contract env live" and "dm_transaction h \<noteq> []"
  shows "hoare (at live n t h) (new_copy env t h q)
    (\<lambda>st s. \<exists>h'. (usable st h' \<and> alike h h') \<and> at live n t h' s) (db_inv live n)"
proof (rule hoare_I)
  fix s r s'
  assume s: "at live n t h s" and run: "new_copy env t h q s = (r, s')"
  obtain rv st tail w where prep: "sqlite3_prepare_v2 env (the (dm_database h)) q (world s)
      = ((rv, st, tail), w)" by (metis prod.exhaust)
  have live: "case st of None \<Rightarrow> live w = live (world s)
      | Some st \<Rightarrow> st \<notin> live (world s) \<and> live w = insert st (live (world s))"
    using contract_prepare [OF con prep] .
  let ?s = "s\<lparr>world := w\<rparr>"
  have s1: "at live n t h ?s"
    using s live by (intro at_world_mono) (auto split: option.splits)
  show "(\<forall>x. r = Ok x \<longrightarrow> (\<exists>h'. (usable x h' \<and> alike h h') \<and> at live n t h' s')) \<and>
      (\<forall>e. r = Throw e \<longrightarrow> db_inv live n s')"
  proof (cases "rv = SQLITE_OK \<and> tail = Some [] \<and> st \<noteq> None")
    case False
    with run prep s1 show ?thesis
      by (auto simp: new_copy_def andthen_def res_simps at_def split: if_splits)
  next
    case True
    then obtain x where st: "st = Some x" and fresh: "x \<notin> live (world s)"
      and liv: "live w = insert x (live (world s))" using live by auto
    let ?u = "\<lambda>h. h\<lparr>dm_cache := dm_cache h @ [(q, x)]\<rparr>"
    have ok: "handle_ok (live (world s)) h" by (rule at_ok [OF s])
    have "handle_ok (live (world ?s)) (?u h)"
      using handle_ok_cache [OF ok fresh] liv by simp
    moreover have "usable x (?u h)"
    proof -
      have "x \<notin> set (statements h)" using ok fresh by (auto simp: handle_ok_def)
      then show ?thesis using assms(2) by (simp add: usable_def in_statements)
    qed
    moreover obtain s2 where "set_handle t ?u ?s = (Ok (), s2)" and "db_inv live n s2"
      and "find_handle t s2 = Some (?u h)"
      using set_handle_inv [of live n ?s t h ?u n] s1 calculation(1) by (auto simp: at_def)
    ultimately show ?thesis
      using run prep True st by (auto simp: new_copy_def andthen_def res_simps at_def alike_def)
  qed
qed

lemma prepare_at:
  assumes "sqlite_contract env live"
  shows "hoare (at live n t h) (Database_prepareStatement env t q) (\<lambda>_. ends live n t h) (db_inv live n)"
proof -
  have push: "hoare (at live n t h') (set_handle t (\<lambda>h. h\<lparr>dm_transaction := Some st # dm_transaction h\<rparr>))
      (\<lambda>_. ends live n t h) (db_inv live n)" if "usable st h'" and "alike h h'" for st h'
  proof (rule hoare_conseq)
    show "hoare (at live n t h') (set_handle t (\<lambda>h. h\<lparr>dm_transaction := Some st # dm_transaction h\<rparr>))
        (\<lambda>_. at live n t (h'\<lparr>dm_transaction := Some st # dm_transaction h'\<rparr>)) (db_inv live n)"
      by (rule hoare_set_handle) (use that in \<open>simp_all add: usable_def handle_ok_push\<close>)
  qed (use that in \<open>auto intro: ends_I\<close>)
  have rest: "hoare (at live n t h') (andthen (peek (\<lambda>s. sqlite3_bind_parameter_count env st (world s))) (\<lambda>count.
     andthen (for_each [1..<Suc count] (\<lambda>_ i. call_ok (sqlite3_bind env st i Null)) ()) (\<lambda>_.
     set_handle t (\<lambda>h. h\<lparr>dm_transaction := Some st # dm_transaction h\<rparr>))))
      (\<lambda>_. ends live n t h) (db_inv live n)" if "usable st h' \<and> alike h h'" for st h'
    using that
    by - (elim conjE, (assumption | erule at_inv | rule push at_keeps keeps_for_each keeps_call_ok
        contract_keeps keeps_basic assms)+)
  have copy: "hoare (at live n t h) (case unused_copy h q of Some st \<Rightarrow> ret st | None \<Rightarrow> new_copy env t h q)
      (\<lambda>st s. \<exists>h'. (usable st h' \<and> alike h h') \<and> at live n t h' s) (db_inv live n)"
    if "dm_transaction h \<noteq> []"
  proof (cases "unused_copy h q")
    case None
    with hoare_new_copy [OF assms that] show ?thesis by simp
  next
    case (Some st)
    with unused_copy_Some [OF Some] that have "usable st h" by (simp add: usable_def)
    with Some show ?thesis by (auto intro!: hoare_ret exI [of _ h])
  qed
  show ?thesis
    unfolding prepareStatement_new_copy
    by (assumption | rule at_found at_check hoare_andthen [OF copy] hoare_ex hoare_assume rest)+
qed

subsection \<open>The current statement\<close>

lemma at_current:
  assumes "\<And>st rest. dm_transaction h = Some st # rest \<Longrightarrow> hoare (at live n t h) (f st) Q E"
  shows "hoare (at live n t h) (andthen (current_statement env t) f) Q E"
  unfolding current_statement_def andthen_assoc
proof (rule at_found, rule at_check, rule at_check, simp only: andthen_ret)
  assume "dm_transaction h \<noteq> []" and "hd (dm_transaction h) \<noteq> None"
  then obtain st rest where "dm_transaction h = Some st # rest"
    by (cases "dm_transaction h") auto
  with assms [OF this] show "hoare (at live n t h) (f (the (hd (dm_transaction h)))) Q E" by simp
qed

lemma current_handle:
  "andthen (current_statement env t) f =
     andthen (Database_getHandle env t) (\<lambda>handle.
     andthen (check (dm_transaction handle \<noteq> [])) (\<lambda>_.
     andthen (check (hd (dm_transaction handle) \<noteq> None)) (\<lambda>_.
     f (the (hd (dm_transaction handle))))))"
  by (simp add: current_statement_def andthen_assoc)

lemma at_keeps_end:
  "keeps live m \<Longrightarrow> hoare (at live n t h) m (\<lambda>_. ends live n t h) (db_inv live n)"
  by (rule hoare_conseq [OF hoare_keeps]) (auto intro: at_inv ends_I)

lemma bind_at:
  assumes "sqlite_contract env live"
  shows "hoare (at live n t h) (bind_value env t i v) (\<lambda>_. ends live n t h) (db_inv live n)"
  unfolding bind_value_def
  by (assumption | erule at_inv | rule assms at_current at_check at_keeps keeps_basic at_keeps_end
      keeps_call_ok contract_keeps)+

lemma column_at:
  "hoare (at live n t h) (result_column env t i) (\<lambda>_. ends live n t h) (db_inv live n)"
  unfolding result_column_def
  by (assumption | erule at_inv | rule at_current at_check at_keeps keeps_basic at_keeps_end)+

lemma last_uid_at:
  "hoare (at live n t h) (Database_getLastInsertedUID env t) (\<lambda>_. ends live n t h) (db_inv live n)"
  unfolding Database_getLastInsertedUID_def
  by (assumption | erule at_inv | rule at_found at_check keeps_basic at_keeps_end)+

lemma hoare_pop:
  assumes "dm_transaction h = x # rest"
  shows "hoare (at live n t h) (set_handle t (\<lambda>h. h\<lparr>dm_transaction := tl (dm_transaction h)\<rparr>))
    (\<lambda>_. at live (if x = None then Suc n else n) t (h\<lparr>dm_transaction := rest\<rparr>)) E"
proof (rule hoare_conseq)
  let ?u = "\<lambda>h. h\<lparr>dm_transaction := tl (dm_transaction h)\<rparr>" and ?n = "if x = None then Suc n else n"
  have u: "?u h = h\<lparr>dm_transaction := rest\<rparr>" using assms by simp
  show "hoare (at live n t h) (set_handle t ?u) (\<lambda>_. at live ?n t (?u h)) E"
    by (rule hoare_set_handle) (use handle_ok_pop [OF _ assms] assms in \<open>auto simp: depth_def\<close>)
  show "at live ?n t (?u h) s \<Longrightarrow> at live ?n t (h\<lparr>dm_transaction := rest\<rparr>) s" for s
    using u by simp
qed simp_all

lemma execute_at:
  assumes "sqlite_contract env live"
  shows "hoare (at live n t h) (Database_executeStatement env t) (\<lambda>_. ends live n t h) (db_inv live n)"
proof -
  have pop: "hoare (at live n t h) (andthen (set_handle t (\<lambda>h. h\<lparr>dm_transaction := tl (dm_transaction h)\<rparr>))
        (\<lambda>_. ret b)) (\<lambda>_. ends live n t h) (db_inv live n)"
    if "dm_transaction h = Some st # rest" for st rest b
    by (rule hoare_andthen [OF hoare_pop [OF that]])
      (use that in \<open>auto intro!: hoare_ret ends_I simp: alike_def depth_def\<close>)
  show ?thesis
    unfolding Database_executeStatement_def Database_getName_def
    by (assumption | erule at_inv | erule pop | rule assms at_current at_check at_keeps keeps_basic
        at_structure at_end at_keeps_end keeps_call keeps_call_ok contract_keeps hoare_if)+
qed

subsection \<open>Ending a transaction\<close>

lemma pop_statements_inv:
  assumes "sqlite_contract env live"
  shows "hoare (at live n t h) (pop_statements env t (dm_transaction h))
    (\<lambda>_. at live n t (h\<lparr>dm_transaction := dropWhile (\<lambda>x. x \<noteq> None) (dm_transaction h)\<rparr>)) E"
proof (induction "dm_transaction h" arbitrary: h)
  case Nil
  then have tx: "dm_transaction h = []" by simp
  then have eq: "h\<lparr>dm_transaction := []\<rparr> = h" by (cases h) simp
  show ?case unfolding tx by (simp add: eq hoare_ret)
next
  case (Cons x rest)
  show ?case
  proof (cases x)
    case None
    with Cons.hyps(2) have tx: "dm_transaction h = None # rest" by simp
    then have eq: "h\<lparr>dm_transaction := None # rest\<rparr> = h" by (cases h) simp
    show ?thesis unfolding tx by (simp add: eq hoare_ret)
  next
    case (Some st)
    let ?h = "h\<lparr>dm_transaction := rest\<rparr>"
    have tx: "dm_transaction h = Some st # rest" using Cons.hyps(2) Some by simp
    have ih: "hoare (at live n t ?h) (pop_statements env t rest)
        (\<lambda>_. at live n t (h\<lparr>dm_transaction := dropWhile (\<lambda>x. x \<noteq> None) rest\<rparr>)) E"
      using Cons.hyps(1) [of ?h] by simp
    have pop: "hoare (at live n t h) (set_handle t (\<lambda>h. h\<lparr>dm_transaction := tl (dm_transaction h)\<rparr>))
        (\<lambda>_. at live n t ?h) E"
      using hoare_pop [OF tx, of live n t E] by simp
    have reset: "hoare (at live n t h) (call (sqlite3_reset env st)) (\<lambda>_. at live n t h) E"
      by (auto simp: hoare_def res_simps at_world_mono contract_keeps(9) [OF assms, unfolded keeps_live_def])
    show ?thesis
      unfolding tx
      by (simp only: pop_statements.simps, rule hoare_andthen [OF reset], rule at_check,
          rule hoare_andthen [OF pop]) (use ih in \<open>simp del: not_None_eq\<close>)
  qed
qed

lemma filter_dropWhile_None:
  "filter (\<lambda>x. x = None) (dropWhile (\<lambda>x. \<exists>y. x = Some y) q) = filter (\<lambda>x. x = None) q"
  by (induction q) auto

lemma pop_transaction_at:
  assumes "sqlite_contract env live"
  shows "hoare (at live n t h) (pop_transaction env t)
    (\<lambda>h' s. depth h = Suc (depth h') \<and> dm_is_committable h' = dm_is_committable h \<and>
       at live (Suc n) t h' s) (db_inv live n)"
proof -
  let ?q = "dropWhile (\<lambda>x. x \<noteq> None) (dm_transaction h)"
  let ?h = "h\<lparr>dm_transaction := ?q\<rparr>"
  have depth: "depth ?h = depth h"
    by (simp add: depth_def filter_dropWhile_None)
  have last: "hoare (at live n t ?h) (andthen (check (dm_transaction ?h \<noteq> [])) (\<lambda>_.
      andthen (set_handle t (\<lambda>h. h\<lparr>dm_transaction := tl (dm_transaction h)\<rparr>)) (\<lambda>_.
      ret (?h\<lparr>dm_transaction := tl (dm_transaction ?h)\<rparr>))))
      (\<lambda>h' s. depth h = Suc (depth h') \<and> dm_is_committable h' = dm_is_committable h \<and>
        at live (Suc n) t h' s) (db_inv live n)"
  proof (rule at_check)
    assume "dm_transaction ?h \<noteq> []"
    then have "?q \<noteq> []" by (simp del: dropWhile_eq_Nil_conv)
    then have "hd ?q = None" using hd_dropWhile [of "\<lambda>x. x \<noteq> None" "dm_transaction h"] by blast
    with \<open>?q \<noteq> []\<close> obtain rest where q: "?q = None # rest" by (metis list.exhaust_sel)
    then have tx: "dm_transaction ?h = None # rest" by simp
    have d: "depth h = Suc (depth (h\<lparr>dm_transaction := rest\<rparr>))" using depth q by simp
    have eq: "?h\<lparr>dm_transaction := tl (dm_transaction ?h)\<rparr> = h\<lparr>dm_transaction := rest\<rparr>"
      "?h\<lparr>dm_transaction := rest\<rparr> = h\<lparr>dm_transaction := rest\<rparr>" using q by simp_all
    show "hoare (at live n t ?h) (andthen (set_handle t (\<lambda>h. h\<lparr>dm_transaction := tl (dm_transaction h)\<rparr>)) (\<lambda>_.
        ret (?h\<lparr>dm_transaction := tl (dm_transaction ?h)\<rparr>)))
        (\<lambda>h' s. depth h = Suc (depth h') \<and> dm_is_committable h' = dm_is_committable h \<and>
          at live (Suc n) t h' s) (db_inv live n)"
      unfolding eq(1)
      by (rule hoare_andthen [OF hoare_pop [OF tx]], unfold eq(2)) (simp add: hoare_ret d)
  qed
  show ?thesis
    unfolding pop_transaction_def
    by (rule at_found, rule at_check, rule at_check,
        rule hoare_andthen [OF pop_statements_inv [OF assms]], rule at_found, rule last)
qed

lemma unlock_at: "hoare (at live (Suc n) t h) unlock (\<lambda>_. at live n t h) E"
  by (auto simp: hoare_def unlock_def set_lock_def res_simps andthen_def db_inv_def at_def
      find_handle_def split: rwlock.splits)

lemma exec_at:
  assumes "sqlite_contract env live"
  shows "hoare (at live n t h) (call_ok (sqlite3_exec env c q)) (\<lambda>_. at live n t h) E"
proof (rule hoare_I)
  fix s r s'
  assume "at live n t h s" and run: "call_ok (sqlite3_exec env c q) s = (r, s')"
  moreover have "same live s s'"
    by (rule keeps_D [OF keeps_call_ok run]) (rule contract_keeps [OF assms])
  ultimately show "(\<forall>x. r = Ok x \<longrightarrow> at live n t h s') \<and> (\<forall>e. r = Throw e \<longrightarrow> E s')"
    using at_same by (auto simp: call_ok_def andthen_def res_simps split: if_splits)
qed

lemma commit_at:
  assumes con: "sqlite_contract env live"
  shows "hoare (at live n t h) (Database_commitTransaction env t)
    (\<lambda>_ s. \<exists>h'. (depth h = Suc (depth h') \<and> dm_is_committable h' = dm_is_committable h) \<and> at live n t h' s)
    (db_inv live n)"
  unfolding Database_commitTransaction_def
proof (rule hoare_andthen [OF pop_transaction_at [OF con]], intro hoare_assume)
  fix h'
  assume "depth h = Suc (depth h')" and "dm_is_committable h' = dm_is_committable h"
  then show "hoare (at live (Suc n) t h') (andthen (if dm_transaction h' = []
        then call_ok (sqlite3_exec env (the (dm_database h'))
          (if dm_is_committable h' then ''COMMIT TRANSACTION;'' else ''ROLLBACK TRANSACTION;''))
        else ret ()) (\<lambda>_. unlock))
      (\<lambda>_ s. \<exists>h'. (depth h = Suc (depth h') \<and> dm_is_committable h' = dm_is_committable h) \<and> at live n t h' s)
      (db_inv live n)"
    by (intro at_structure(3) hoare_andthen [OF exec_at [OF con]] at_structure(1)
        hoare_conseq [OF unlock_at]) auto
qed

lemma rollback_at:
  assumes con: "sqlite_contract env live"
  shows "hoare (at live n t h) (Database_rollbackTransaction env t)
    (\<lambda>_ s. \<exists>h'. (depth h = Suc (depth h') \<and>
       (depth h' \<noteq> 0 \<longrightarrow> \<not> dm_is_committable h')) \<and> at live n t h' s)
    (db_inv live n)"
  unfolding Database_rollbackTransaction_def
proof (rule hoare_andthen [OF pop_transaction_at [OF con]], intro hoare_assume)
  fix h'
  assume d: "depth h = Suc (depth h')"
  have z: "dm_transaction h' = [] \<Longrightarrow> depth h' = 0" by (simp add: depth_def)
  show "hoare (at live (Suc n) t h') (andthen (if dm_transaction h' = []
        then call_ok (sqlite3_exec env (the (dm_database h')) ''ROLLBACK TRANSACTION;'')
        else set_handle t (\<lambda>h. h\<lparr>dm_is_committable := False\<rparr>)) (\<lambda>_. unlock))
      (\<lambda>_ s. \<exists>h'. (depth h = Suc (depth h') \<and>
         (depth h' \<noteq> 0 \<longrightarrow> \<not> dm_is_committable h')) \<and> at live n t h' s) (db_inv live n)"
  proof (rule at_structure(3))
    assume "dm_transaction h' = []"
    with d z show "hoare (at live (Suc n) t h')
        (andthen (call_ok (sqlite3_exec env (the (dm_database h')) ''ROLLBACK TRANSACTION;'')) (\<lambda>_. unlock))
        (\<lambda>_ s. \<exists>h'. (depth h = Suc (depth h') \<and>
           (depth h' \<noteq> 0 \<longrightarrow> \<not> dm_is_committable h')) \<and> at live n t h' s) (db_inv live n)"
      by (intro hoare_andthen [OF exec_at [OF con]] hoare_conseq [OF unlock_at])
        (auto intro!: exI [of _ h'])
  next
    show "hoare (at live (Suc n) t h')
        (andthen (set_handle t (\<lambda>h. h\<lparr>dm_is_committable := False\<rparr>)) (\<lambda>_. unlock))
        (\<lambda>_ s. \<exists>h'. (depth h = Suc (depth h') \<and>
           (depth h' \<noteq> 0 \<longrightarrow> \<not> dm_is_committable h')) \<and> at live n t h' s) (db_inv live n)"
      by (rule at_flag, rule hoare_conseq [OF unlock_at])
        (use d in \<open>auto intro!: exI [of _ "h'\<lparr>dm_is_committable := False\<rparr>"]\<close>)
  qed
qed

lemma begin_at:
  assumes con: "sqlite_contract env live"
  shows "hoare (at live n t h) (Database_beginTransaction env t will_modify)
    (\<lambda>_ s. \<exists>h'. (depth h' = Suc (depth h) \<and>
       dm_is_committable h' = (dm_transaction h = [] \<or> dm_is_committable h)) \<and> at live n t h' s)
    (db_inv live (Suc n))"
proof -
  have mark: "hoare (at live (Suc n) t h') (set_handle t (\<lambda>h. h\<lparr>dm_transaction := None # dm_transaction h\<rparr>))
     (\<lambda>_ s. \<exists>h'. (depth h' = Suc (depth h) \<and>
       dm_is_committable h' = (dm_transaction h = [] \<or> dm_is_committable h)) \<and> at live n t h' s)
     (db_inv live (Suc n))"
    if "depth h' = depth h" and "dm_is_committable h' = (dm_transaction h = [] \<or> dm_is_committable h)" for h'
    by (rule hoare_conseq [OF hoare_set_handle [where n' = n]])
      (use that in \<open>auto intro!: handle_ok_begin exI [of _ "h'\<lparr>dm_transaction := None # dm_transaction h'\<rparr>"]\<close>)
  have lock: "hoare (at live n t h) lock_read (\<lambda>_. at live (Suc n) t h) E" for E
    by (auto simp: hoare_def lock_read_def set_lock_def res_simps andthen_def db_inv_def at_def
        find_handle_def split: rwlock.splits)
  have flag: "hoare (at live (Suc n) t h) (set_handle t (\<lambda>h. h\<lparr>dm_is_committable := True\<rparr>))
      (\<lambda>_. at live (Suc n) t (h\<lparr>dm_is_committable := True\<rparr>)) E" for E
    by (rule hoare_set_handle) (auto intro: handle_ok_flag)
  have marked: "dm_transaction h = [] \<Longrightarrow> hoare (at live (Suc n) t (h\<lparr>dm_is_committable := True\<rparr>))
      (set_handle t (\<lambda>h. h\<lparr>dm_transaction := None # dm_transaction h\<rparr>))
     (\<lambda>_ s. \<exists>h'. (depth h' = Suc (depth h) \<and>
       dm_is_committable h' = (dm_transaction h = [] \<or> dm_is_committable h)) \<and> at live n t h' s)
     (db_inv live (Suc n))"
    "dm_transaction h \<noteq> [] \<Longrightarrow> hoare (at live (Suc n) t h)
      (set_handle t (\<lambda>h. h\<lparr>dm_transaction := None # dm_transaction h\<rparr>))
     (\<lambda>_ s. \<exists>h'. (depth h' = Suc (depth h) \<and>
       dm_is_committable h' = (dm_transaction h = [] \<or> dm_is_committable h)) \<and> at live n t h' s)
     (db_inv live (Suc n))"
    by (rule mark; simp)+
  show ?thesis
    unfolding Database_beginTransaction_def
    by (rule hoare_andthen [OF lock], rule at_found, rule at_check)
      (assumption | erule at_inv | erule marked | rule hoare_andthen [OF flag] at_check at_structure
       at_keeps keeps_call contract_keeps keeps_basic con)+
qed

section \<open>Every call keeps the invariant\<close>

lemma statement_inv:
  assumes "sqlite_contract env live"
  shows "hoare (db_inv live n) (Database_prepareStatement env t q) (\<lambda>_. db_inv live n) (db_inv live n)"
    and "hoare (db_inv live n) (bind_value env t i v) (\<lambda>_. db_inv live n) (db_inv live n)"
    and "hoare (db_inv live n) (Database_executeStatement env t) (\<lambda>_. db_inv live n) (db_inv live n)"
    and "hoare (db_inv live n) (result_column env t i) (\<lambda>_. db_inv live n) (db_inv live n)"
    and "hoare (db_inv live n) (Database_getLastInsertedUID env t) (\<lambda>_. db_inv live n) (db_inv live n)"
  by (rule from_handle [OF assms _ Database_prepareStatement_def] from_handle [OF assms]
      bind_value_def [unfolded current_handle] Database_executeStatement_def [unfolded current_handle]
      result_column_def [unfolded current_handle] Database_getLastInsertedUID_def
      hoare_conseq [OF prepare_at [OF assms]] hoare_conseq [OF bind_at [OF assms]]
      hoare_conseq [OF execute_at [OF assms]] hoare_conseq [OF column_at]
      hoare_conseq [OF last_uid_at] | assumption | erule ends_inv)+

lemma end_inv:
  assumes "sqlite_contract env live"
  shows commit_inv: "hoare (db_inv live n) (Database_commitTransaction env t) (\<lambda>_. db_inv live n) (db_inv live n)"
    and rollback_inv: "hoare (db_inv live n) (Database_rollbackTransaction env t) (\<lambda>_. db_inv live n) (db_inv live n)"
proof -
  have ends: "(\<exists>h'. P h' \<and> at live n t h' s) \<Longrightarrow> db_inv live n s" for P s
    by (auto simp: at_def)
  show "hoare (db_inv live n) (Database_commitTransaction env t) (\<lambda>_. db_inv live n) (db_inv live n)"
    by (rule from_handle [OF assms _ Database_commitTransaction_def [unfolded pop_transaction_def andthen_assoc]])
      (assumption | rule hoare_conseq [OF commit_at [OF assms]] | erule ends)+
  show "hoare (db_inv live n) (Database_rollbackTransaction env t) (\<lambda>_. db_inv live n) (db_inv live n)"
    by (rule from_handle [OF assms _ Database_rollbackTransaction_def [unfolded pop_transaction_def andthen_assoc]])
      (assumption | rule hoare_conseq [OF rollback_at [OF assms]] | erule ends)+
qed

end
