(* ===== verification/Transactions.thy ===== *)
theory Transactions
  imports DatabaseInv
begin

text \<open>
  What the class \<open>Database\<close> promises its clients, over the calls threads may make in any order, those
  that throw included: in the states that threads can reach the lock counts the transactions and the
  lock holds lost by exceptions (so that renaming finds every transaction stack empty), and the nested
  transactions of a thread refine an abstract machine with a depth and a flag, issuing one \<open>BEGIN\<close> and
  one \<open>COMMIT\<close> or \<open>ROLLBACK\<close> per outermost transaction.
\<close>

section \<open>Calls\<close>

datatype db_call =
    Begin bool | Prepare string | Bind nat sql_value | Execute | Column nat | LastUID
  | Commit | Rollback

definition ignore :: "('s, 'a) op \<Rightarrow> ('s, unit) op" where
  "ignore m = andthen m (\<lambda>_. ret ())"

fun run_call :: "'w sqlite \<Rightarrow> nat \<Rightarrow> db_call \<Rightarrow> ('w, unit) db_op" where
  "run_call env t (Begin will_modify) = Database_beginTransaction env t will_modify"
| "run_call env t (Prepare q) = Database_prepareStatement env t q"
| "run_call env t (Bind i v) = bind_value env t i v"
| "run_call env t Execute = ignore (Database_executeStatement env t)"
| "run_call env t (Column i) = ignore (result_column env t i)"
| "run_call env t LastUID = ignore (Database_getLastInsertedUID env t)"
| "run_call env t Commit = Database_commitTransaction env t"
| "run_call env t Rollback = Database_rollbackTransaction env t"

lemma hoare_ignore:
  "hoare P m (\<lambda>_. Q) E \<Longrightarrow> hoare P (ignore m) (\<lambda>_. Q) E"
  unfolding ignore_def by (rule hoare_andthen) (auto intro: hoare_ret)

lemma call_triple:
  assumes "sqlite_contract env live"
  shows "hoare (db_inv live n) (run_call env t c) (\<lambda>_. db_inv live n)
    (if \<exists>b. c = Begin b then db_inv live (Suc n) else db_inv live n)"
  by (cases c)
    (auto intro: begin_inv statement_inv end_inv hoare_ignore assms)

lemma make_inv:
  assumes "sqlite_contract env live" and "Database_make env name s = (Ok (), s')"
  shows "db_inv live 0 s'"
proof -
  let ?s = "s\<lparr>the_db := \<lparr>dm_name = name, dm_transaction_lock = Readers 0, dm_handles = []\<rparr>\<rparr>"
  have "db_inv live 0 ?s" by (simp add: db_inv_def total_def)
  moreover obtain b s1 where "Database_isAccessible env name ?s = (Ok b, s1)"
    and "s' = s1"
    using assms(2) by (auto simp: Database_make_def andthen_Ok_iff res_simps split: if_splits)
  ultimately show ?thesis
    using db_inv_same keeps_D [OF keeps_isAccessible [OF assms(1)]] by metis
qed

lemma bottom: "handle_ok X h \<Longrightarrow> dm_transaction h \<noteq> [] \<Longrightarrow> None \<in> set (dm_transaction h)"
  by (metis handle_ok_def last_in_set)

lemma idle_stacks:
  assumes "db_inv live 0 s" and "dm_transaction_lock (the_db s) = Readers 0"
    and "(t, h) \<in> set (dm_handles (the_db s))"
  shows "dm_transaction h = []"
proof -
  have sorted: "linear.ordered (keys (dm_handles (the_db s)))" using assms(1) by (simp add: db_inv_def)
  have "map_of (dm_handles (the_db s)) t = Some h"
    using linear.find_present [OF sorted assms(3)] linear_find [OF sorted] by simp
  then have ok: "handle_ok (live (world s)) h" using assms(1) by (simp add: db_inv_def)
  have "total depth (dm_handles (the_db s)) = 0" using assms(1,2) by (simp add: db_inv_def)
  then have "depth h = 0" using assms(3) by (force simp: total_def)
  then have "None \<notin> set (dm_transaction h)" by (auto simp: depth_def filter_empty_conv)
  moreover have "None \<in> set (dm_transaction h)" if "dm_transaction h \<noteq> []"
    by (rule bottom [OF ok that])
  ultimately show ?thesis by blast
qed

section \<open>Renaming and copying\<close>

lemma keeps_remove [keeps_intros]:
  "sqlite_contract env live \<Longrightarrow> keeps live (Database_remove env name)"
  unfolding Database_remove_def by (intro keeps_intros)

lemma copy_write_live:
  assumes "copy_write env fd buffer w = Some (r, w')" and "sqlite_contract env live"
  shows "live w' = live w"
proof -
  have "sqlite_contract env live \<longrightarrow> live (snd (r, w')) = live w"
  proof (rule copy_write.raw_induct [OF _ assms(1)])
    fix f env fd buffer w y
    assume ih: "\<And>env fd buffer w y. f env fd buffer w = Some y \<Longrightarrow>
        sqlite_contract env live \<longrightarrow> live (snd y) = live w"
      and y: "(if buffer = [] then Some (Ok (), w)
        else let (written, w') = os_write env fd buffer w
          in if \<not> (written \<ge> 0 \<or> written = -1 \<and> os_errno_is_EINTR env w') then Some (Abort, w')
             else f env fd (if written > 0 then drop (nat written) buffer else buffer) w') = Some y"
    obtain written w1 where wrote: "os_write env fd buffer w = (written, w1)" by fastforce
    have "snd y = w \<or> snd y = w1 \<or> (\<exists>b. f env fd b w1 = Some y)"
      using y wrote by (auto split: if_splits)
    moreover have "live w1 = live w" if "sqlite_contract env live"
      using contract_keeps(11) [OF that] wrote unfolding keeps_live_def by (metis snd_conv)
    ultimately show "sqlite_contract env live \<longrightarrow> live (snd y) = live w" using ih by metis
  qed
  with assms(2) show ?thesis by simp
qed

lemma copy_loop_live:
  assumes "copy_loop env fd fd' w = Some (r, w')" and "sqlite_contract env live"
  shows "live w' = live w"
proof -
  have "sqlite_contract env live \<longrightarrow> live (snd (r, w')) = live w"
  proof (rule copy_loop.raw_induct [OF _ assms(1)])
    fix f env fd fd' w y
    assume ih: "\<And>env fd fd' w y. f env fd fd' w = Some y \<Longrightarrow>
        sqlite_contract env live \<longrightarrow> live (snd y) = live w"
      and y: "(let ((num, bytes), w') = os_read env fd 65536 w
        in if \<not> (num \<ge> 0 \<or> num = -1 \<and> os_errno_is_EINTR env w') then Some (Abort, w')
           else if num > 0 then
             (case copy_write env fd' (take (nat num) bytes) w' of
                None \<Rightarrow> None
              | Some (r, w'') \<Rightarrow> if r = Ok () then f env fd fd' w'' else Some (r, w''))
           else Some (Ok (), w')) = Some y"
    obtain num bytes w1 where read: "os_read env fd 65536 w = ((num, bytes), w1)" by (metis surj_pair)
    have "snd y = w1 \<or> (\<exists>b r w2. copy_write env fd' b w1 = Some (r, w2)
        \<and> (snd y = w2 \<or> f env fd fd' w2 = Some y))"
      using y read by (auto split: if_splits option.splits; blast)
    moreover have "live w1 = live w" if "sqlite_contract env live"
      using contract_keeps(10) [OF that] read unfolding keeps_live_def by (metis snd_conv)
    ultimately show "sqlite_contract env live \<longrightarrow> live (snd y) = live w"
      using ih copy_write_live by metis
  qed
  with assms(2) show ?thesis by simp
qed

lemma copyFile_live:
  assumes "Database_copyFile env source destination w = Some (r, w')" and "sqlite_contract env live"
  shows "live w' = live w"
  using assms contract_keeps(1,2) [OF assms(2)]
  by (auto simp: Database_copyFile_def keeps_live_def case_prod_beta Let_def
      split: if_splits option.splits dest!: copy_loop_live [OF _ assms(2)])

lemma copy_body_same:
  assumes con: "sqlite_contract env live" and run: "copy_body env handle name s = Some (r, s')"
  shows "same live s s'"
proof -
  let ?before = "andthen (Database_create env name) (\<lambda>_.
      call_ok (sqlite3_exec env (the handle) ''BEGIN EXCLUSIVE TRANSACTION;''))"
  obtain r1 s1 where before: "?before s = (r1, s1)" by fastforce
  have "keeps live ?before" by (intro keeps_intros con)
  from keeps_D [OF this before] have s1: "same live s s1" .
  show ?thesis
  proof (cases "r1 = Ok ()")
    case True
    with run before obtain r2 w where copy: "Database_copyFile env (dm_name (the_db s1)) name (world s1)
        = Some (r2, w)"
      and after: "andthen (lift_res r2) (\<lambda>_.
        call_ok (sqlite3_exec env (the handle) ''COMMIT TRANSACTION;'')) (s1\<lparr>world := w\<rparr>) = (r, s')"
      by (auto simp: copy_body_def split: option.splits)
    have "same live s1 (s1\<lparr>world := w\<rparr>)" using copyFile_live [OF copy con] by (simp add: same_def)
    moreover have commit: "keeps live (andthen (lift_res r2) (\<lambda>_.
        call_ok (sqlite3_exec env (the handle) ''COMMIT TRANSACTION;'')))"
      by (intro keeps_intros con)
    ultimately show ?thesis using keeps_D [OF commit after] s1 same_trans by blast
  next
    case False
    with run before have "s' = s1" by (auto simp: copy_body_def split: res.splits)
    with s1 show ?thesis by simp
  qed
qed

text \<open>The state with the lock replaced, and the operations that do not look at the lock.\<close>

definition relock :: "rwlock \<Rightarrow> 'w dbstate \<Rightarrow> 'w dbstate" where
  "relock l s = s\<lparr>the_db := (the_db s)\<lparr>dm_transaction_lock := l\<rparr>\<rparr>"

lemma relock_simps [simp]:
  "world (relock l s) = world s" "dm_name (the_db (relock l s)) = dm_name (the_db s)"
  "dm_handles (the_db (relock l s)) = dm_handles (the_db s)"
  "dm_transaction_lock (the_db (relock l s)) = l" "find_handle t (relock l s) = find_handle t s"
  "relock l (s\<lparr>world := w\<rparr>) = (relock l s)\<lparr>world := w\<rparr>"
  by (simp_all add: relock_def find_handle_def)

definition lockless :: "('w, 'a) db_op \<Rightarrow> bool" where
  "lockless m \<longleftrightarrow> (\<forall>l s. m (relock l s) = (fst (m s), relock l (snd (m s))))"

named_theorems lockless_intros "operations that do not look at the lock"

lemma lockless_basic [lockless_intros]:
  "lockless (ret x)" "lockless (throw e)" "lockless (check b)" "lockless (lift_res r)"
  "lockless (call f)" "lockless (peek (\<lambda>s. dm_name (the_db s)))" "lockless (peek (find_handle t))"
  "lockless (modify_db (\<lambda>db. db\<lparr>dm_handles := u (dm_handles db)\<rparr>))"
  by (simp_all add: lockless_def res_simps relock_def find_handle_def)

lemma lockless_andthen [lockless_intros]:
  assumes "lockless m" and "\<And>x. lockless (f x)"
  shows "lockless (andthen m f)"
proof -
  have "andthen m f (relock l s) = (fst (andthen m f s), relock l (snd (andthen m f s)))" for l s
    using assms by (cases "m s") (auto simp: lockless_def andthen_def split: res.splits)
  then show ?thesis by (simp add: lockless_def)
qed

lemma lockless_control [lockless_intros]:
  "lockless m \<Longrightarrow> lockless m' \<Longrightarrow> lockless (if b then m else m')"
  "(\<And>x y. lockless (g x y)) \<Longrightarrow> lockless (case p of (x, y) \<Rightarrow> g x y)"
  "lockless m \<Longrightarrow> (\<And>x. lockless (k x)) \<Longrightarrow> lockless (case z of None \<Rightarrow> m | Some x \<Rightarrow> k x)"
  by (auto split: prod.splits option.splits)

lemma lockless_getHandle: "lockless (Database_getHandle env t)"
  unfolding Database_getHandle_def open_handle_def Database_getName_def Database_isAccessible_def
    call_ok_def
  by (intro lockless_intros)

text \<open>
  A state in which the lock is held for writing: within \<open>renameTo\<close> and \<open>copyTo\<close>, and for good after
  \<open>getHandle\<close> has thrown in one of them.
\<close>

definition held :: "('w \<Rightarrow> nat set) \<Rightarrow> 'w dbstate \<Rightarrow> bool" where
  "held live s \<longleftrightarrow> dm_transaction_lock (the_db s) = Writer \<and> db_inv live 0 (relock (Readers 0) s)"

lemma held_same: "same live s s' \<Longrightarrow> held live s \<Longrightarrow> held live s'"
  by (simp add: held_def same_def db_inv_def)

lemma lock_write_held:
  assumes "db_inv live n s" and "lock_write s = (Ok (), s')"
  shows "n = 0" and "held live s'"
  using assms
  by (auto simp: lock_write_def set_lock_def res_simps andthen_def held_def db_inv_def relock_def
      split: if_splits)

lemma held_idle:
  assumes "held live s" and "find_handle t s = Some h"
  shows "dm_transaction h = []"
proof -
  let ?s = "relock (Readers 0) s"
  have "find_handle t ?s = Some h" using assms(2) by simp
  then have "map_of (dm_handles (the_db ?s)) t = Some h"
    using assms(1) find_handle_map_of [of ?s t] by (simp add: held_def db_inv_def)
  with assms(1) show ?thesis
    using idle_stacks [of live ?s t h] by (simp add: held_def map_of_SomeD)
qed

lemma held_getHandle:
  assumes con: "sqlite_contract env live" and s: "held live s"
    and run: "Database_getHandle env t s = (r, s')"
  shows "held live s'" and "r = Ok h \<Longrightarrow> dm_transaction h = []"
proof -
  let ?u = "relock (Readers 0) s" and ?u' = "relock (Readers 0) s'"
  have run': "Database_getHandle env t ?u = (r, ?u')"
    using lockless_getHandle [of env t] run by (simp add: lockless_def)
  have "s = relock Writer ?u" using s by (simp add: held_def relock_def)
  then have "s' = relock Writer ?u'"
    using lockless_getHandle [of env t] run run' by (metis fst_conv lockless_def snd_conv)
  then have "dm_transaction_lock (the_db s') = Writer" by (metis relock_simps(4))
  moreover have inv': "db_inv live 0 ?u'"
    using getHandle_inv(1) [OF con _ run', of 0] s by (simp add: held_def)
  ultimately show s': "held live s'" by (simp add: held_def)
  assume "r = Ok h"
  then have "find_handle t ?u' = Some h"
    using getHandle_inv(2) [OF con _ run', of 0 h] s by (simp add: held_def)
  then show "dm_transaction h = []" using held_idle [OF s'] by simp
qed

text \<open>While the lock is held for writing, no call of a transaction gets through.\<close>

lemma blocked_calls:
  assumes con: "sqlite_contract env live" and s: "held live s"
    and run: "run_call env t c s = (r, s')"
  shows "r = Abort \<or> r = Blocked \<or> (\<exists>e. r = Throw e) \<and> (\<forall>b. c \<noteq> Begin b) \<and> held live s'"
proof (cases "\<exists>b. c = Begin b")
  case True
  with run s show ?thesis
    by (auto simp: Database_beginTransaction_def lock_read_def andthen_def res_simps held_def)
next
  case False
  obtain r1 s1 where get: "Database_getHandle env t s = (r1, s1)" by fastforce
  note defs = Database_prepareStatement_def bind_value_def current_statement_def
    Database_executeStatement_def result_column_def Database_getLastInsertedUID_def
    Database_commitTransaction_def Database_rollbackTransaction_def pop_transaction_def ignore_def
  show ?thesis
  proof (cases r1)
    case (Ok h)
    with held_getHandle(2) [OF con s get] have "dm_transaction h = []" by simp
    with False run get Ok show ?thesis
      by (cases c) (auto simp: defs andthen_def res_simps split: if_splits)
  qed (use False run get held_getHandle(1) [OF con s get] in \<open>cases c; auto simp: defs andthen_def\<close>)+
qed

lemma vacuum_held:
  assumes con: "sqlite_contract env live" and "held live s" and "Database_vacuum env t s = (r, s')"
  shows "held live s'"
proof -
  obtain r1 s1 where get: "Database_getHandle env t s = (r1, s1)" by fastforce
  have s1: "held live s1" by (rule held_getHandle(1) [OF con assms(2) get])
  show ?thesis
  proof (cases r1)
    case (Ok h)
    then have "call_ok (sqlite3_exec env (the (dm_database h)) ''VACUUM;'') s1 = (r, s')"
      using assms(3) get by (simp add: Database_vacuum_def andthen_def)
    then show ?thesis
      using keeps_D [OF keeps_call_ok [OF contract_keeps(6) [OF con]]] held_same s1 by blast
  qed (use assms(3) get s1 in \<open>auto simp: Database_vacuum_def andthen_def\<close>)
qed

lemma vacuum_inv:
  assumes con: "sqlite_contract env live" and "db_inv live n s" and "Database_vacuum env t s = (r, s')"
  shows "db_inv live n s'"
proof -
  obtain r1 s1 where get: "Database_getHandle env t s = (r1, s1)" by fastforce
  have s1: "db_inv live n s1" by (rule getHandle_inv(1) [OF con assms(2) get])
  show ?thesis
  proof (cases r1)
    case (Ok h)
    then have "call_ok (sqlite3_exec env (the (dm_database h)) ''VACUUM;'') s1 = (r, s')"
      using assms(3) get by (simp add: Database_vacuum_def andthen_def)
    then show ?thesis
      using keeps_D [OF keeps_call_ok [OF contract_keeps(6) [OF con]]] db_inv_same s1 by blast
  qed (use assms(3) get s1 in \<open>auto simp: Database_vacuum_def andthen_def\<close>)
qed

section \<open>Reachable states\<close>

text \<open>
  One step of the program: some thread makes some call of the class, which returns or throws. The
  number counts what the step takes of the lock and never gives back: an exception out of
  \<open>beginTransaction\<close> comes after the lock was acquired.
\<close>

definition ended :: "'a res \<Rightarrow> bool" where
  "ended r \<longleftrightarrow> r \<noteq> Abort \<and> r \<noteq> Blocked"

fun lost :: "db_call \<Rightarrow> unit res \<Rightarrow> nat" where
  "lost (Begin _) (Throw _) = 1"
| "lost _ _ = 0"

inductive db_step :: "'w sqlite \<Rightarrow> nat \<Rightarrow> 'w dbstate \<Rightarrow> 'w dbstate \<Rightarrow> bool" for env where
  step_call: "run_call env t c s = (r, s') \<Longrightarrow> ended r \<Longrightarrow> db_step env (lost c r) s s'"
| step_vacuum: "Database_vacuum env t s = (r, s') \<Longrightarrow> ended r \<Longrightarrow> db_step env 0 s s'"
| step_copyTo: "Database_copyTo env t name s = Some (r, s') \<Longrightarrow> ended r \<Longrightarrow> db_step env 0 s s'"
| step_renameTo: "Database_renameTo env t name s = Some (r, s') \<Longrightarrow> ended r \<Longrightarrow> db_step env 0 s s'"

inductive db_reachable :: "'w sqlite \<Rightarrow> nat \<Rightarrow> 'w dbstate \<Rightarrow> bool" for env where
  db_created: "Database_make env name s = (Ok (), s') \<Longrightarrow> db_reachable env 0 s'"
| db_stepped: "db_reachable env n s \<Longrightarrow> db_step env k s s' \<Longrightarrow> db_reachable env (n + k) s'"

lemma reachable_call:
  "db_reachable env n s \<Longrightarrow> run_call env t c s = (Ok (), s') \<Longrightarrow> db_reachable env n s'"
  using db_stepped [OF _ step_call [of env t c s "Ok ()" s'], of n] by (cases c) (simp_all add: ended_def)

text \<open>The lock counts the transactions and what was lost, or is held for writing for good.\<close>

definition db_state :: "('w \<Rightarrow> nat set) \<Rightarrow> nat \<Rightarrow> 'w dbstate \<Rightarrow> bool" where
  "db_state live n s \<longleftrightarrow> db_inv live n s \<or> n = 0 \<and> held live s"

lemma held_unlock:
  assumes "held live s"
  shows "unlock s = (Ok (), relock (Readers 0) s)" and "db_inv live 0 (relock (Readers 0) s)"
  using assms by (simp_all add: unlock_def set_lock_def andthen_def res_simps held_def relock_def)

lemma unlock_on_throw_state:
  assumes "held live s" and "unlock_on_throw after (r, s) = (r', s')" and "ended r'"
    and "\<And>x s1. r = Ok () \<Longrightarrow> after s = (x, s1) \<Longrightarrow> x = Abort \<or> x = Ok () \<and> held live s1"
  shows "db_inv live 0 s'"
proof (cases r)
  case (Ok u)
  obtain x s1 where after: "after s = (x, s1)" by fastforce
  with assms(4) [OF _ after] Ok assms(2,3) have "x = Ok ()" and s1: "held live s1"
    by (auto simp: unlock_on_throw_def andthen_def ended_def)
  with assms(2) Ok after held_unlock [OF s1] show ?thesis
    by (simp add: unlock_on_throw_def andthen_def)
next
  case (Throw e)
  with assms(2) held_unlock [OF assms(1)] show ?thesis
    by (simp add: unlock_on_throw_def andthen_def res_simps)
qed (use assms(2,3) in \<open>simp_all add: unlock_on_throw_def ended_def\<close>)

text \<open>What both operations do before their \<open>try\<close>.\<close>

lemma locked_handle:
  assumes con: "sqlite_contract env live" and s: "db_state live n s"
    and run: "andthen lock_write (\<lambda>_. Database_getHandle env t) s = (r, s')" and "r \<noteq> Blocked"
  shows "n = 0" and "held live s'"
proof -
  obtain x s1 where lock: "lock_write s = (x, s1)" by fastforce
  then have x: "x = Ok ()"
    using run assms(4) by (auto simp: lock_write_def set_lock_def andthen_def res_simps split: if_splits)
  with lock have inv: "db_inv live n s"
    using s by (auto simp: db_state_def held_def lock_write_def set_lock_def andthen_def res_simps
        split: if_splits)
  show "n = 0" by (rule lock_write_held(1) [OF inv]) (use lock x in simp)
  have "held live s1" by (rule lock_write_held(2) [OF inv]) (use lock x in simp)
  moreover have "Database_getHandle env t s1 = (r, s')" using run lock x by (simp add: andthen_def)
  ultimately show "held live s'" by (rule held_getHandle(1) [OF con])
qed

lemma copyTo_state:
  assumes con: "sqlite_contract env live" and s: "db_state live n s"
    and run: "Database_copyTo env t name s = Some (r, s')" and "ended r"
  shows "db_state live n s'"
proof -
  obtain x s1 where first: "andthen lock_write (\<lambda>_. Database_getHandle env t) s = (x, s1)" by fastforce
  then have "x \<noteq> Blocked" using run \<open>ended r\<close> by (auto simp: Database_copyTo_def ended_def)
  note s1 = locked_handle [OF con s first this]
  show ?thesis
  proof (cases x)
    case (Ok h)
    with run first obtain r2 s2 where copy: "copy_body env (dm_database h) name s1 = Some (r2, s2)"
      and "unlock_on_throw (ret ()) (r2, s2) = (r, s')"
      by (auto simp: Database_copyTo_def)
    moreover have "held live s2" by (rule held_same [OF copy_body_same [OF con copy] s1(2)])
    ultimately have "db_inv live 0 s'"
      using unlock_on_throw_state \<open>ended r\<close> by (fastforce simp: res_simps)
    with s1(1) show ?thesis by (simp add: db_state_def)
  qed (use run first s1 \<open>ended r\<close> in \<open>auto simp: Database_copyTo_def db_state_def ended_def\<close>)
qed

section \<open>Releasing the handles\<close>

text \<open>
  The calls that releasing the handles makes, in order: for every thread \<open>sqlite3_finalize\<close> for
  each cached statement, then \<open>sqlite3_close\<close>. The first answer other than \<open>SQLITE_OK\<close> ends the
  program.
\<close>

definition release_calls :: "'w sqlite \<Rightarrow> (nat \<times> Handle) list \<Rightarrow> ('w \<Rightarrow> retval \<times> 'w) list" where
  "release_calls env handles = concat (map (\<lambda>(_, h).
     map (\<lambda>(_, stmt). sqlite3_finalize env stmt) (dm_cache h) @
     [sqlite3_close env (the (dm_database h))]) handles)"

fun issue :: "('w \<Rightarrow> retval \<times> 'w) list \<Rightarrow> 'w \<Rightarrow> bool \<times> 'w" where
  "issue [] w = (True, w)"
| "issue (f # fs) w = (let (retval, w') = f w in if retval = SQLITE_OK then issue fs w' else (False, w'))"

definition outcome :: "'w dbstate \<Rightarrow> bool \<times> 'w \<Rightarrow> unit res \<times> 'w dbstate" where
  "outcome s = (\<lambda>(ok, w). (if ok then Ok () else Abort, s\<lparr>world := w\<rparr>))"

lemma issue_append: "issue (fs @ gs) w = (case issue fs w of (True, w') \<Rightarrow> issue gs w' | x \<Rightarrow> x)"
  by (induction fs arbitrary: w) (auto simp: Let_def split: prod.splits)

lemma call_ok_issue: "call_ok f s = outcome s (issue [f] (world s))"
  by (auto simp: call_ok_def andthen_def res_simps outcome_def split: prod.splits)

lemma finalize_issue:
  "for_each cache (\<lambda>_ (_, stmt). call_ok (sqlite3_finalize env stmt)) () s
    = outcome s (issue (map (\<lambda>(_, stmt). sqlite3_finalize env stmt) cache) (world s))"
  by (induction cache arbitrary: s)
    (auto simp: andthen_def res_simps call_ok_issue outcome_def split: prod.splits)

lemma release_issue:
  assumes "dm_database h \<noteq> None" and "dm_transaction h = []"
  shows "release_handle env h s = outcome s (issue (release_calls env [(t, h)]) (world s))"
  using assms
  by (auto simp: release_handle_def release_calls_def andthen_def res_simps finalize_issue issue_append
      call_ok_issue outcome_def split: prod.splits bool.splits)

lemma releases_issue:
  assumes "\<And>t h. (t, h) \<in> set handles \<Longrightarrow> dm_database h \<noteq> None \<and> dm_transaction h = []"
  shows "for_each handles (\<lambda>_ (_, handle). release_handle env handle) () s
    = outcome s (issue (release_calls env handles) (world s))"
  using assms
proof (induction handles arbitrary: s)
  case Nil
  then show ?case by (simp add: release_calls_def outcome_def res_simps)
next
  case (Cons p handles)
  obtain t h where p: "p = (t, h)" by fastforce
  have h: "release_handle env h s = outcome s (issue (release_calls env [(t, h)]) (world s))" for s
    by (rule release_issue) (use Cons.prems [of t h] p in auto)
  have "release_calls env (p # handles) = release_calls env [(t, h)] @ release_calls env handles"
    by (simp add: release_calls_def p)
  moreover have "for_each handles (\<lambda>_ (_, handle). release_handle env handle) () s
      = outcome s (issue (release_calls env handles) (world s))" for s
    by (rule Cons.IH) (use Cons.prems in auto)
  ultimately show ?case
    by (simp add: p h andthen_def issue_append outcome_def split: prod.splits bool.splits)
qed

definition released :: "'w dbstate \<Rightarrow> bool \<times> 'w \<Rightarrow> unit res \<times> 'w dbstate" where
  "released s = (\<lambda>(ok, w).
     if ok then (Ok (), s\<lparr>the_db := (the_db s)\<lparr>dm_handles := []\<rparr>, world := w\<rparr>)
     else (Abort, s\<lparr>world := w\<rparr>))"

lemma releaseAllHandles_issue:
  assumes "\<And>t h. (t, h) \<in> set (dm_handles (the_db s)) \<Longrightarrow>
      dm_database h \<noteq> None \<and> dm_transaction h = []"
  shows "Database_releaseAllHandles env s
    = released s (issue (release_calls env (dm_handles (the_db s))) (world s))"
  using releases_issue [of "dm_handles (the_db s)" env s] assms
  by (auto simp: Database_releaseAllHandles_def andthen_def res_simps outcome_def released_def
      split: prod.splits)

lemma idle_releases:
  assumes inv: "db_inv live 0 (relock (Readers 0) s)"
  shows "Database_releaseAllHandles env s
    = released s (issue (release_calls env (dm_handles (the_db s))) (world s))"
proof (rule releaseAllHandles_issue)
  fix t h
  assume th: "(t, h) \<in> set (dm_handles (the_db s))"
  have sorted: "linear.ordered (keys (dm_handles (the_db s)))" using inv by (simp add: db_inv_def)
  have "map_of (dm_handles (the_db s)) t = Some h"
    using linear.find_present [OF sorted th] linear_find [OF sorted] by simp
  then have "handle_ok (live (world s)) h" using inv by (simp add: db_inv_def)
  then show "dm_database h \<noteq> None \<and> dm_transaction h = []"
    using idle_stacks [OF inv, of t h] th by (simp add: handle_ok_def)
qed

lemma renameTo_state:
  assumes con: "sqlite_contract env live" and s: "db_state live n s"
    and run: "Database_renameTo env t name s = Some (r, s')" and "ended r"
  shows "db_state live n s'"
proof -
  obtain x s1 where first: "andthen lock_write (\<lambda>_. Database_getHandle env t) s = (x, s1)" by fastforce
  then have "x \<noteq> Blocked" using run \<open>ended r\<close> by (auto simp: Database_renameTo_def ended_def)
  note s1 = locked_handle [OF con s first this]
  let ?after = "andthen (Database_releaseAllHandles env) (\<lambda>_. modify_db (\<lambda>db. db\<lparr>dm_name := name\<rparr>))"
  have after: "x = Abort \<or> x = Ok () \<and> held live u'" if "held live u" and "?after u = (x, u')" for u x u'
    using that idle_releases [of live u env]
    by (auto simp: held_def released_def andthen_def res_simps relock_def db_inv_def total_def
        split: prod.splits if_splits)
  show ?thesis
  proof (cases x)
    case (Ok h)
    with run first obtain r2 s2 r3 s3 where copy: "copy_body env (dm_database h) name s1 = Some (r2, s2)"
      and remove: "andthen (lift_res r2) (\<lambda>_. Database_remove env (dm_name (the_db s2))) s2 = (r3, s3)"
      and last: "unlock_on_throw ?after (r3, s3) = (r, s')"
      by (auto simp: Database_renameTo_def) (metis surj_pair)
    have body: "keeps live (andthen (lift_res r2) (\<lambda>_. Database_remove env (dm_name (the_db s2))))"
      by (intro keeps_intros con)
    have s3: "held live s3"
      by (rule held_same [OF keeps_D [OF body remove] held_same [OF copy_body_same [OF con copy] s1(2)]])
    have "db_inv live 0 s'"
      by (rule unlock_on_throw_state [OF s3 last \<open>ended r\<close>]) (use after [OF s3] in blast)
    with s1(1) show ?thesis by (simp add: db_state_def)
  qed (use run first s1 \<open>ended r\<close> in \<open>auto simp: Database_renameTo_def db_state_def ended_def\<close>)
qed

lemma call_state:
  assumes con: "sqlite_contract env live" and s: "db_state live n s"
    and run: "run_call env t c s = (r, s')" and "ended r"
  shows "db_state live (n + lost c r) s'"
proof (cases "db_inv live n s")
  case inv: True
  show ?thesis
  proof (cases r)
    case (Ok u)
    with hoare_Ok [OF call_triple [OF con] inv] run show ?thesis by (auto simp: db_state_def)
  next
    case (Throw e)
    with hoare_Throw [OF call_triple [OF con] inv, of t c e s'] run show ?thesis
      by (cases c) (auto simp: db_state_def)
  qed (use \<open>ended r\<close> in \<open>simp_all add: ended_def\<close>)
next
  case False
  with s have "n = 0" and "held live s" by (simp_all add: db_state_def)
  with blocked_calls [OF con _ run] \<open>ended r\<close> show ?thesis
    by (cases c) (auto simp: db_state_def ended_def)
qed

lemma reachable_state:
  assumes con: "sqlite_contract env live" and "db_reachable env n s"
  shows "db_state live n s"
  using assms(2)
proof induction
  case (db_created name s s')
  then show ?case using make_inv [OF con] by (simp add: db_state_def)
next
  case (db_stepped n s k s')
  from db_stepped.hyps(2) db_stepped.IH show ?case
  proof cases
    case (step_call t c r)
    with call_state [OF con db_stepped.IH] show ?thesis by simp
  next
    case (step_vacuum t r)
    with db_stepped.IH vacuum_inv [OF con] vacuum_held [OF con] show ?thesis
      unfolding db_state_def by auto
  next
    case (step_copyTo t name r)
    with copyTo_state [OF con db_stepped.IH] show ?thesis by simp
  next
    case (step_renameTo t name r)
    with renameTo_state [OF con db_stepped.IH] show ?thesis by simp
  qed
qed

lemma state_inv:
  assumes "db_state live n s"
  shows "linear.ordered (keys (dm_handles (the_db s)))"
    and "map_of (dm_handles (the_db s)) t = Some h \<Longrightarrow> handle_ok (live (world s)) h"
    and "dm_transaction_lock (the_db s) = Readers (n + total depth (dm_handles (the_db s))) \<or>
      dm_transaction_lock (the_db s) = Writer \<and> n = 0 \<and> total depth (dm_handles (the_db s)) = 0"
    and "dm_transaction_lock (the_db s) = Readers 0 \<or> dm_transaction_lock (the_db s) = Writer \<Longrightarrow>
      db_inv live 0 (relock (Readers 0) s)"
  using assms by (auto simp: db_state_def held_def db_inv_def)

section \<open>The transaction commands SQLite sees\<close>

datatype tx_command = TxBegin | TxCommit | TxRollback

definition tx_command :: "string \<Rightarrow> tx_command option" where
  "tx_command q =
     (if q = ''BEGIN EXCLUSIVE TRANSACTION;'' \<or> q = ''BEGIN DEFERRED TRANSACTION;'' then Some TxBegin
      else if q = ''COMMIT TRANSACTION;'' then Some TxCommit
      else if q = ''ROLLBACK TRANSACTION;'' then Some TxRollback else None)"

text \<open>\<open>lg\<close> observes the transaction commands that SQLite executed successfully.\<close>

definition logs :: "'w sqlite \<Rightarrow> ('w \<Rightarrow> tx_command list) \<Rightarrow> bool" where
  "logs env lg \<longleftrightarrow>
     (\<forall>n b. keeps_live lg (os_open env n b)) \<and> (\<forall>fd. keeps_live lg (os_close env fd)) \<and>
     (\<forall>n. keeps_live lg (sqlite3_open env n)) \<and> (\<forall>c. keeps_live lg (sqlite3_close env c)) \<and>
     (\<forall>c. keeps_live lg (sqlite3_busy_handler env c)) \<and>
     (\<forall>c q. keeps_live lg (sqlite3_prepare_v2 env c q)) \<and>
     (\<forall>st i v. keeps_live lg (sqlite3_bind env st i v)) \<and>
     (\<forall>st. keeps_live lg (sqlite3_step env st)) \<and> (\<forall>st. keeps_live lg (sqlite3_reset env st)) \<and>
     (\<forall>c q w. lg (snd (sqlite3_exec env c q w)) = lg w @
        (case tx_command q of None \<Rightarrow> [] | Some cmd \<Rightarrow>
           if fst (sqlite3_exec env c q w) = SQLITE_OK then [cmd] else []))"

definition quiet :: "('w \<Rightarrow> 'v) \<Rightarrow> ('w, 'a) db_op \<Rightarrow> bool" where
  "quiet lg m \<longleftrightarrow> (\<forall>s. lg (world (snd (m s))) = lg (world s))"

named_theorems quiet_intros "operations that issue no transaction command"

lemma quiet_basic [quiet_intros]:
  "quiet lg (ret x)" "quiet lg (throw e)" "quiet lg (check b)" "quiet lg (peek f)"
  "quiet lg (assert_op P)" "quiet lg (lift_res r)" "quiet lg (modify_db u)" "quiet lg (set_handle t v)"
  by (simp_all add: quiet_def res_simps set_handle_def)

lemma quiet_call [quiet_intros]: "keeps_live lg f \<Longrightarrow> quiet lg (call f)"
  by (simp add: quiet_def keeps_live_def res_simps)

lemma quiet_andthen [quiet_intros]:
  "quiet lg m \<Longrightarrow> (\<And>x. quiet lg (f x)) \<Longrightarrow> quiet lg (andthen m f)"
  unfolding quiet_def andthen_def
  by (auto split: prod.splits res.splits) (metis snd_conv)+

lemma quiet_control [quiet_intros]:
  "(b \<Longrightarrow> quiet lg m) \<Longrightarrow> (\<not> b \<Longrightarrow> quiet lg m') \<Longrightarrow> quiet lg (if b then m else m')"
  "(\<And>x y. quiet lg (g x y)) \<Longrightarrow> quiet lg (case p of (x, y) \<Rightarrow> g x y)"
  "quiet lg m \<Longrightarrow> (\<And>x. quiet lg (k x)) \<Longrightarrow> quiet lg (case z of None \<Rightarrow> m | Some x \<Rightarrow> k x)"
  by (auto split: prod.splits option.splits)

lemma quiet_for_each [quiet_intros]:
  "(\<And>a x. quiet lg (body a x)) \<Longrightarrow> quiet lg (for_each xs body acc)"
  by (induction xs arbitrary: acc) (auto intro: quiet_intros)

lemma quiet_call_ok [quiet_intros]: "keeps_live lg f \<Longrightarrow> quiet lg (call_ok f)"
  unfolding call_ok_def by (intro quiet_intros)

lemma quiet_D: "quiet lg m \<Longrightarrow> m s = (r, s') \<Longrightarrow> lg (world s') = lg (world s)"
  by (metis quiet_def snd_conv)

lemma logs_keeps [quiet_intros]:
  assumes "logs env lg"
  shows "keeps_live lg (os_open env n b)" and "keeps_live lg (os_close env fd)"
    and "keeps_live lg (sqlite3_open env n)" and "keeps_live lg (sqlite3_close env c)"
    and "keeps_live lg (sqlite3_busy_handler env c)" and "keeps_live lg (sqlite3_prepare_v2 env c q)"
    and "keeps_live lg (sqlite3_bind env st i v)" and "keeps_live lg (sqlite3_step env st)"
    and "keeps_live lg (sqlite3_reset env st)"
  using assms by (simp_all add: logs_def)

lemma logs_exec:
  assumes "logs env lg"
  shows "lg (snd (sqlite3_exec env c q w)) = lg w @
    (case tx_command q of None \<Rightarrow> [] | Some cmd \<Rightarrow>
       if fst (sqlite3_exec env c q w) = SQLITE_OK then [cmd] else [])"
  using assms by (simp add: logs_def)

lemma select_master_quiet [quiet_intros]:
  "logs env lg \<Longrightarrow> keeps_live lg (sqlite3_exec env c select_master)"
  unfolding keeps_live_def
  by (simp add: logs_exec) (simp add: tx_command_def select_master_def)

lemma quiet_handle [quiet_intros]:
  assumes "logs env lg"
  shows "quiet lg (Database_isAccessible env name)" and "quiet lg (Database_getHandle env t)"
    and "quiet lg (current_statement env t)"
  unfolding Database_isAccessible_def Database_getHandle_def open_handle_def Database_getName_def
    current_statement_def
  by (intro quiet_intros assms)+

lemma quiet_statements [quiet_intros]:
  assumes "logs env lg"
  shows "quiet lg (Database_prepareStatement env t q)" and "quiet lg (bind_value env t i v)"
    and "quiet lg (Database_executeStatement env t)" and "quiet lg (result_column env t i)"
    and "quiet lg (Database_getLastInsertedUID env t)" and "quiet lg lock_read" and "quiet lg unlock"
  unfolding Database_prepareStatement_def bind_value_def Database_executeStatement_def
    result_column_def Database_getLastInsertedUID_def Database_getName_def lock_read_def unlock_def
    set_lock_def
  by (intro quiet_intros assms | (split rwlock.split, intro conjI allI impI))+

lemma quiet_pop [quiet_intros]:
  assumes "logs env lg"
  shows "quiet lg (pop_statements env t q)" and "quiet lg (pop_transaction env t)"
proof -
  show pop: "quiet lg (pop_statements env t q)" for q
  proof (induction q)
    case (Cons x q)
    then show ?case by (cases x) (auto intro!: quiet_intros assms)
  qed (simp add: quiet_intros)
  show "quiet lg (pop_transaction env t)"
    unfolding pop_transaction_def by (intro quiet_intros assms pop)
qed

section \<open>The abstract machine of nested transactions\<close>

text \<open>The nesting depth, and whether the outermost transaction may still be committed.\<close>

type_synonym nesting = "nat \<times> bool"

fun nest :: "db_call \<Rightarrow> nesting \<Rightarrow> nesting" where
  "nest (Begin _) (d, ok) = (Suc d, d = 0 \<or> ok)"
| "nest Commit (d, ok) = (d - 1, ok)"
| "nest Rollback (d, ok) = (d - 1, False)"
| "nest _ a = a"

fun issued :: "db_call \<Rightarrow> nesting \<Rightarrow> tx_command list" where
  "issued (Begin _) (d, ok) = (if d = 0 then [TxBegin] else [])"
| "issued Commit (d, ok) = (if d = 1 then [if ok then TxCommit else TxRollback] else [])"
| "issued Rollback (d, ok) = (if d = 1 then [TxRollback] else [])"
| "issued _ _ = []"

fun issued_by :: "db_call list \<Rightarrow> nesting \<Rightarrow> tx_command list" where
  "issued_by [] a = []"
| "issued_by (c # cs) a = issued c a @ issued_by cs (nest c a)"

fun run_calls :: "'w sqlite \<Rightarrow> nat \<Rightarrow> db_call list \<Rightarrow> ('w, unit) db_op" where
  "run_calls env t [] = ret ()"
| "run_calls env t (c # cs) = andthen (run_call env t c) (\<lambda>_. run_calls env t cs)"

definition nested :: "Handle \<Rightarrow> nesting \<Rightarrow> bool" where
  "nested h a \<longleftrightarrow> depth h = fst a \<and> (fst a \<noteq> 0 \<longrightarrow> dm_is_committable h = snd a)"

lemma depth_zero: "handle_ok X h \<Longrightarrow> depth h = 0 \<longleftrightarrow> dm_transaction h = []"
  using bottom by (fastforce simp: depth_def filter_empty_conv)

lemma nest_statement:
  assumes "sqlite_contract env live" and "\<And>b. c \<noteq> Begin b" and "c \<noteq> Commit" and "c \<noteq> Rollback"
  shows "hoare (at live n t h) (run_call env t c) (\<lambda>_. ends live n t h) (db_inv live n)"
  using assms(2-4)
  by (cases c) (auto intro!: hoare_ignore prepare_at bind_at execute_at column_at last_uid_at assms(1))

lemma nest_call:
  assumes con: "sqlite_contract env live" and s: "at live n t h s" and a: "nested h a"
    and run: "run_call env t c s = (Ok (), s')"
  shows "\<exists>h'. at live n t h' s' \<and> nested h' (nest c a)"
proof -
  obtain d ok where "a = (d, ok)" by fastforce
  with a have d: "depth h = d" and ok: "d \<noteq> 0 \<Longrightarrow> dm_is_committable h = ok" by (auto simp: nested_def)
  have z: "dm_transaction h = [] \<longleftrightarrow> d = 0" using depth_zero [OF at_ok [OF s]] d by simp
  consider b where "c = Begin b" | "c = Commit" | "c = Rollback"
    | "\<And>b. c \<noteq> Begin b" "c \<noteq> Commit" "c \<noteq> Rollback" by (cases c) auto
  then show ?thesis
  proof cases
    case 1
    with hoare_Ok [OF begin_at [OF con] s] run obtain h' where "at live n t h' s'"
      and "depth h' = Suc d" and "dm_is_committable h' = (d = 0 \<or> dm_is_committable h)"
      using d z by auto
    then show ?thesis using 1 \<open>a = (d, ok)\<close> ok by (auto simp: nested_def)
  next
    case 2
    with hoare_Ok [OF commit_at [OF con] s] run obtain h' where "at live n t h' s'"
      and "d = Suc (depth h')" and "dm_is_committable h' = dm_is_committable h"
      using d by auto
    then show ?thesis using 2 \<open>a = (d, ok)\<close> ok by (auto simp: nested_def)
  next
    case 3
    with hoare_Ok [OF rollback_at [OF con] s] run obtain h' where "at live n t h' s'"
      and "d = Suc (depth h')" and "depth h' \<noteq> 0 \<longrightarrow> \<not> dm_is_committable h'"
      using d by auto
    then show ?thesis using 3 \<open>a = (d, ok)\<close> by (auto simp: nested_def)
  next
    case 4
    from hoare_Ok [OF nest_statement [OF con 4] s run] obtain h' where "at live n t h' s'"
      and "alike h h'" by (auto simp: ends_def)
    moreover have "nest c a = a" using 4 by (cases c) auto
    ultimately show ?thesis using a by (auto simp: nested_def alike_def)
  qed
qed

lemma commit_issues:
  assumes lg: "logs env lg" and con: "sqlite_contract env live" and s: "at live n t h s"
    and run: "Database_commitTransaction env t s = (Ok (), s')"
  shows "lg (world s') = lg (world s) @
    (if depth h = 1 then [if dm_is_committable h then TxCommit else TxRollback] else [])"
proof -
  from run obtain h' s1 u s2 where pop: "pop_transaction env t s = (Ok h', s1)"
    and mid: "(if dm_transaction h' = [] then call_ok (sqlite3_exec env (the (dm_database h'))
          (if dm_is_committable h' then ''COMMIT TRANSACTION;'' else ''ROLLBACK TRANSACTION;''))
        else ret ()) s1 = (Ok u, s2)"
    and fin: "unlock s2 = (Ok (), s')"
    unfolding Database_commitTransaction_def andthen_Ok_iff by blast
  from hoare_Ok [OF pop_transaction_at [OF con] s pop] have d: "depth h = Suc (depth h')"
    and flag: "dm_is_committable h' = dm_is_committable h" and s1: "at live (Suc n) t h' s1" by auto
  have z: "dm_transaction h' = [] \<longleftrightarrow> depth h' = 0" using depth_zero [OF at_ok [OF s1]] by simp
  have "lg (world s1) = lg (world s)" by (rule quiet_D [OF quiet_pop(2) [OF lg] pop])
  moreover have "lg (world s') = lg (world s2)" by (rule quiet_D [OF quiet_statements(7) [OF lg] fin])
  moreover have "lg (world s2) = lg (world s1) @
      (if depth h = 1 then [if dm_is_committable h then TxCommit else TxRollback] else [])"
    using mid d flag z
    by (auto simp: call_ok_def andthen_Ok_iff res_simps logs_exec [OF lg] tx_command_def split: if_splits)
  ultimately show ?thesis by simp
qed

lemma rollback_issues:
  assumes lg: "logs env lg" and con: "sqlite_contract env live" and s: "at live n t h s"
    and run: "Database_rollbackTransaction env t s = (Ok (), s')"
  shows "lg (world s') = lg (world s) @ (if depth h = 1 then [TxRollback] else [])"
proof -
  from run obtain h' s1 u s2 where pop: "pop_transaction env t s = (Ok h', s1)"
    and mid: "(if dm_transaction h' = []
        then call_ok (sqlite3_exec env (the (dm_database h')) ''ROLLBACK TRANSACTION;'')
        else set_handle t (\<lambda>h. h\<lparr>dm_is_committable := False\<rparr>)) s1 = (Ok u, s2)"
    and fin: "unlock s2 = (Ok (), s')"
    unfolding Database_rollbackTransaction_def andthen_Ok_iff by blast
  from hoare_Ok [OF pop_transaction_at [OF con] s pop] have d: "depth h = Suc (depth h')"
    and s1: "at live (Suc n) t h' s1" by auto
  have z: "dm_transaction h' = [] \<longleftrightarrow> depth h' = 0" using depth_zero [OF at_ok [OF s1]] by simp
  have "lg (world s1) = lg (world s)" by (rule quiet_D [OF quiet_pop(2) [OF lg] pop])
  moreover have "lg (world s') = lg (world s2)" by (rule quiet_D [OF quiet_statements(7) [OF lg] fin])
  moreover have "lg (world s2) = lg (world s1) @ (if depth h = 1 then [TxRollback] else [])"
    using mid d z quiet_basic(8) [of lg t]
    by (auto simp: call_ok_def andthen_Ok_iff res_simps logs_exec [OF lg] tx_command_def set_handle_def
        split: if_splits)
  ultimately show ?thesis by simp
qed

lemma begin_issues:
  assumes lg: "logs env lg" and s: "find_handle t s = Some h"
    and run: "Database_beginTransaction env t w s = (Ok (), s')"
  shows "lg (world s') = lg (world s) @ (if dm_transaction h = [] then [TxBegin] else [])"
proof -
  from run obtain u s1 h' s2 where l: "lock_read s = (Ok u, s1)"
    and h: "Database_getHandle env t s1 = (Ok h', s2)"
    and rest: "andthen (check (dm_database h' \<noteq> None)) (\<lambda>_. andthen (if dm_transaction h' = [] then
          andthen (call (sqlite3_exec env (the (dm_database h'))
            (if w then ''BEGIN EXCLUSIVE TRANSACTION;''
             else ''BEGIN DEFERRED TRANSACTION;''))) (\<lambda>retval.
          andthen (if w \<and> retval = SQLITE_READONLY
                   then call (sqlite3_exec env (the (dm_database h')) ''BEGIN DEFERRED TRANSACTION;'')
                   else ret retval) (\<lambda>retval.
          andthen (check (retval = SQLITE_OK)) (\<lambda>_.
          set_handle t (\<lambda>h. h\<lparr>dm_is_committable := True\<rparr>))))
        else ret ()) (\<lambda>_.
     set_handle t (\<lambda>h. h\<lparr>dm_transaction := None # dm_transaction h\<rparr>))) s2 = (Ok (), s')"
    unfolding Database_beginTransaction_def andthen_Ok_iff by blast
  have "find_handle t s1 = Some h" and w1: "lg (world s1) = lg (world s)"
    using l s by (auto simp: lock_read_def set_lock_def andthen_Ok_iff res_simps find_handle_def
        split: rwlock.splits)
  then have "h' = h" and "s2 = s1" using h by (simp_all add: getHandle_found)
  with rest w1 show ?thesis
    by (auto simp: andthen_Ok_iff res_simps logs_exec [OF lg] tx_command_def set_handle_def
        split: if_splits)
qed

lemma call_issues:
  assumes lg: "logs env lg" and con: "sqlite_contract env live" and s: "at live n t h s"
    and a: "nested h a" and run: "run_call env t c s = (Ok (), s')"
  shows "lg (world s') = lg (world s) @ issued c a"
proof -
  obtain d ok where "a = (d, ok)" by fastforce
  with a have d: "depth h = d" and ok: "d \<noteq> 0 \<Longrightarrow> dm_is_committable h = ok" by (auto simp: nested_def)
  have z: "dm_transaction h = [] \<longleftrightarrow> d = 0" using depth_zero [OF at_ok [OF s]] d by simp
  have found: "find_handle t s = Some h" using s by (simp add: at_def)
  have ign: "quiet lg m \<Longrightarrow> quiet lg (ignore m)" for m :: "('a, 'b) db_op"
    unfolding ignore_def by (intro quiet_intros)
  show ?thesis
  proof (cases c)
    case (Begin b)
    with begin_issues [OF lg found] run z \<open>a = (d, ok)\<close> show ?thesis by simp
  next
    case Commit
    with commit_issues [OF lg con s] run d ok \<open>a = (d, ok)\<close> show ?thesis by simp
  next
    case Rollback
    with rollback_issues [OF lg con s] run d \<open>a = (d, ok)\<close> show ?thesis by simp
  qed (use run quiet_D [OF quiet_statements(1) [OF lg]] quiet_D [OF quiet_statements(2) [OF lg]]
      quiet_D [OF ign [OF quiet_statements(3) [OF lg]]] \<open>a = (d, ok)\<close> in \<open>auto simp: ignore_def andthen_Ok_iff
      res_simps dest!: quiet_D [OF quiet_statements(3) [OF lg]] quiet_D [OF quiet_statements(4) [OF lg]]
      quiet_D [OF quiet_statements(5) [OF lg]]\<close>)
qed

lemma calls_issue:
  assumes "logs env lg" and "sqlite_contract env live"
  shows "at live n t h s \<Longrightarrow> nested h a \<Longrightarrow> run_calls env t cs s = (Ok (), s') \<Longrightarrow>
    lg (world s') = lg (world s) @ issued_by cs a"
proof (induction cs arbitrary: s h a)
  case Nil
  then show ?case by (simp add: res_simps)
next
  case (Cons c cs)
  from Cons.prems(3) obtain s1 where c: "run_call env t c s = (Ok (), s1)"
    and cs: "run_calls env t cs s1 = (Ok (), s')" by (auto simp: andthen_Ok_iff)
  from nest_call [OF assms(2) Cons.prems(1,2) c] obtain h' where "at live n t h' s1"
    and "nested h' (nest c a)" by blast
  from Cons.IH [OF this cs] call_issues [OF assms Cons.prems(1,2) c] show ?case by simp
qed

section \<open>A library that satisfies the assumptions\<close>

text \<open>
  A world that numbers its statements and records the transaction commands, in which every call
  succeeds. It is used only to show that the assumptions of the properties can hold.
\<close>

definition plain :: "'a \<Rightarrow> nat \<times> tx_command list \<Rightarrow> 'a \<times> nat \<times> tx_command list" where
  "plain x w = (x, w)"

definition plain_sqlite :: "(nat \<times> tx_command list) sqlite" where
  "plain_sqlite =
     \<lparr>os_open = \<lambda>_ _. plain (Some 3), os_close = \<lambda>_. plain True,
      os_read = \<lambda>_ _. plain (0, []), os_write = \<lambda>_ bytes. plain (int (length bytes)),
      os_errno_is_EINTR = \<lambda>_. False, os_remove = \<lambda>_. plain True,
      sqlite3_open = \<lambda>_. plain (SQLITE_OK, Some 7), sqlite3_close = \<lambda>_. plain SQLITE_OK,
      sqlite3_busy_handler = \<lambda>_. plain SQLITE_OK,
      sqlite3_exec = \<lambda>_ q (n, l). (SQLITE_OK, n,
         l @ (case tx_command q of None \<Rightarrow> [] | Some cmd \<Rightarrow> [cmd])),
      sqlite3_prepare_v2 = \<lambda>_ _ (n, l). ((SQLITE_OK, Some n, Some []), Suc n, l),
      errmsg_is_syntax_error = \<lambda>_ _. False, sqlite3_errmsg = \<lambda>_ _. [],
      sqlite3_bind_parameter_count = \<lambda>_ _. 2, sqlite3_bind = \<lambda>_ _ _. plain SQLITE_OK,
      sqlite3_step = \<lambda>_. plain SQLITE_DONE, sqlite3_reset = \<lambda>_. plain SQLITE_OK,
      sqlite3_finalize = \<lambda>_. plain SQLITE_OK, sqlite3_column_count = \<lambda>_ _. 1,
      sqlite3_column = \<lambda>_ _ _. Null, sqlite3_last_insert_rowid = \<lambda>_ _. 1\<rparr>"

lemma plain_contract:
  "sqlite_contract plain_sqlite (\<lambda>w. {..<fst w})" "logs plain_sqlite snd"
  by (auto simp: sqlite_contract_def logs_def plain_sqlite_def keeps_live_def plain_def
      split: option.splits)

text \<open>A thread that has run one empty transaction.\<close>

definition plain_created :: "(nat \<times> tx_command list) dbstate" where
  "plain_created = snd (Database_make plain_sqlite ''db''
     \<lparr>the_db = \<lparr>dm_name = [], dm_transaction_lock = Readers 0, dm_handles = []\<rparr>, world = (0, [])\<rparr>)"

definition plain_state :: "(nat \<times> tx_command list) dbstate" where
  "plain_state = snd (run_call plain_sqlite 1 Commit
     (snd (run_call plain_sqlite 1 (Begin False) plain_created)))"

lemma plain_state_reachable: "db_reachable plain_sqlite 0 plain_state"
proof -
  let ?s0 = "\<lparr>the_db = \<lparr>dm_name = [], dm_transaction_lock = Readers 0, dm_handles = []\<rparr>, world = (0, [])\<rparr>"
  let ?s2 = "snd (run_call plain_sqlite 1 (Begin False) plain_created)"
  have "Database_make plain_sqlite ''db'' ?s0 = (Ok (), plain_created)" by code_simp
  then have "db_reachable plain_sqlite 0 plain_created" by (rule db_created)
  moreover have "run_call plain_sqlite 1 (Begin False) plain_created = (Ok (), ?s2)" by code_simp
  moreover have "run_call plain_sqlite 1 Commit ?s2 = (Ok (), plain_state)" by code_simp
  ultimately show ?thesis by (blast intro: reachable_call)
qed

lemma plain_state_inv: "db_inv (\<lambda>w. {..<fst w}) 0 plain_state"
proof -
  have "dm_transaction_lock (the_db plain_state) \<noteq> Writer" by code_simp
  with reachable_state [OF plain_contract(1) plain_state_reachable] show ?thesis
    by (simp add: db_state_def held_def)
qed

text \<open>The same thread after another transaction in which it has run one statement twice at a time.\<close>

definition cached_calls :: "db_call list" where
  "cached_calls = [Begin True, Prepare ''q'', Prepare ''q'', Execute, Execute, Commit]"

definition cached_state :: "(nat \<times> tx_command list) dbstate" where
  "cached_state = snd (run_calls plain_sqlite 1 cached_calls plain_state)"

lemma reachable_calls:
  "db_reachable env n s \<Longrightarrow> run_calls env t cs s = (Ok (), s') \<Longrightarrow> db_reachable env n s'"
  by (induction cs arbitrary: s) (auto simp: andthen_Ok_iff res_simps intro: reachable_call)

lemma cached_state_reachable: "db_reachable plain_sqlite 0 cached_state"
proof (rule reachable_calls [OF plain_state_reachable])
  show "run_calls plain_sqlite 1 cached_calls plain_state = (Ok (), cached_state)" by code_simp
qed

text \<open>A file system in which the database file is gone once a transaction has begun: the second
  thread's \<open>beginTransaction\<close> throws.\<close>

definition gone_sqlite :: "(nat \<times> tx_command list) sqlite" where
  "gone_sqlite = plain_sqlite\<lparr>os_open := \<lambda>_ _ w. (if snd w = [] then Some 3 else None, w)\<rparr>"

lemma gone_contract: "sqlite_contract gone_sqlite (\<lambda>w. {..<fst w})"
  using plain_contract(1) by (simp add: sqlite_contract_def gone_sqlite_def keeps_live_def)

definition gone_state :: "(nat \<times> tx_command list) dbstate" where
  "gone_state = snd (run_call gone_sqlite 2 (Begin False)
     (snd (run_call gone_sqlite 1 (Begin False) plain_created)))"

lemma gone_state_reachable: "db_reachable gone_sqlite 1 gone_state"
proof -
  let ?s0 = "\<lparr>the_db = \<lparr>dm_name = [], dm_transaction_lock = Readers 0, dm_handles = []\<rparr>, world = (0, [])\<rparr>"
  let ?s1 = "snd (run_call gone_sqlite 1 (Begin False) plain_created)"
  let ?r = "Throw (Exception DatabaseDoesNotExist [''db''])"
  have "Database_make gone_sqlite ''db'' ?s0 = (Ok (), plain_created)" by code_simp
  then have "db_reachable gone_sqlite 0 plain_created" by (rule db_created)
  moreover have "run_call gone_sqlite 1 (Begin False) plain_created = (Ok (), ?s1)" by code_simp
  ultimately have "db_reachable gone_sqlite 0 ?s1" by (rule reachable_call)
  moreover have "run_call gone_sqlite 2 (Begin False) ?s1 = (?r, gone_state)" by code_simp
  ultimately show ?thesis
    using db_stepped [OF _ step_call [of gone_sqlite 2 "Begin False" ?s1 ?r gone_state]]
    by (fastforce simp: ended_def)
qed

section \<open>Properties\<close>

text \<open>The 64-bit codec of the database: a value bound as a shifted signed integer is read back
  unchanged, and the shift keeps the order, so that SQL range conditions on addresses and times
  select what they select in the program.\<close>

theorem shifted_values:
  "column_int64 (Integer (shift_out v)) = shift_out v \<and> shift_in (shift_out v) = v
    \<and> - (2 ^ 63) \<le> shift_out v \<and> shift_out v < 2 ^ 63
    \<and> (shift_out v < shift_out w \<longleftrightarrow> v < w)"
  by (simp add: column_int64_def shift_roundtrip shift_out_less) (use shift_out_range in simp)

text \<open>C3: over all the calls of threads that return or throw, renaming, copying and vacuuming among them: in
  every state reached, a handle's transaction stack never holds a prepared statement twice and all
  its statements come from its own cache. The transaction lock counts the transactions in progress
  over all threads and the \<open>n\<close> calls of \<open>beginTransaction\<close> that threw, which never give the lock
  back; only after an exception of \<open>getHandle\<close> in \<open>renameTo\<close> or \<open>copyTo\<close> it stays held for writing,
  and then no transaction is in progress. So whenever the lock is free or held for writing no
  thread has a transaction.\<close>

theorem reachable_transactions:
  assumes "sqlite_contract env live" and "db_reachable env n s"
    and "(t, h) \<in> set (dm_handles (the_db s))"
  shows "distinct (statements h) \<and> set (statements h) \<subseteq> snd ` set (dm_cache h)
    \<and> (dm_transaction_lock (the_db s) = Readers (n + total depth (dm_handles (the_db s)))
       \<or> dm_transaction_lock (the_db s) = Writer \<and> n = 0 \<and> total depth (dm_handles (the_db s)) = 0)
    \<and> (dm_transaction_lock (the_db s) \<in> {Readers 0, Writer} \<longrightarrow> dm_transaction h = [])"
proof -
  note inv = state_inv [OF reachable_state [OF assms(1,2)]]
  have "map_of (dm_handles (the_db s)) t = Some h"
    using linear.find_present [OF inv(1) assms(3)] linear_find [OF inv(1)] by simp
  then have "handle_ok (live (world s)) h" by (rule inv(2))
  moreover have "dm_transaction h = []" if "dm_transaction_lock (the_db s) \<in> {Readers 0, Writer}"
    using idle_stacks [OF inv(4), of t h] that assms(3) by auto
  ultimately show ?thesis using inv(3) by (simp add: handle_ok_def)
qed

lemma reachable_transactions_witness:
  "(\<exists>h. (1, h) \<in> set (dm_handles (the_db plain_state)) \<and> dm_transaction h = [])
    \<and> (\<exists>h. (1, h) \<in> set (dm_handles (the_db gone_state)) \<and> distinct (statements h)
        \<and> dm_transaction_lock (the_db gone_state) = Readers (1 + 1))"
proof
  have "dm_handles (the_db plain_state) = [(1, Handle_default\<lparr>dm_database := Some 7,
      dm_is_committable := True\<rparr>)]" and "dm_transaction_lock (the_db plain_state) = Readers 0"
    by code_simp+
  with reachable_transactions [OF plain_contract(1) plain_state_reachable,
      of 1 "Handle_default\<lparr>dm_database := Some 7, dm_is_committable := True\<rparr>"]
  show "\<exists>h. (1, h) \<in> set (dm_handles (the_db plain_state)) \<and> dm_transaction h = []" by auto
  let ?h = "Handle_default\<lparr>dm_database := Some 7, dm_transaction := [None], dm_is_committable := True\<rparr>"
  have h: "dm_handles (the_db gone_state) = [(1, ?h)]" and "dm_transaction_lock (the_db gone_state) \<noteq> Writer"
    and total: "total depth (dm_handles (the_db gone_state)) = 1" by code_simp+
  with reachable_transactions [OF gone_contract gone_state_reachable, of 1 ?h]
  have "distinct (statements ?h) \<and> dm_transaction_lock (the_db gone_state) = Readers (1 + 1)"
    by (simp only: total) auto
  with h show "\<exists>h. (1, h) \<in> set (dm_handles (the_db gone_state)) \<and> distinct (statements h)
      \<and> dm_transaction_lock (the_db gone_state) = Readers (1 + 1)" by auto
qed

text \<open>C8: in every state reached in which no transaction is in progress, releasing the handles of all
  threads, as renaming and the destructor do, makes exactly these calls in order: for each thread
  \<open>sqlite3_finalize\<close> for each of its cached statements, then \<open>sqlite3_close\<close>. If SQLite answers all
  of them with \<open>SQLITE_OK\<close> the operation returns with no handle left; the first other answer ends the
  program. None of the assertions about the handles themselves fails.\<close>

theorem idle_database_releases_handles:
  assumes "sqlite_contract env live" and "db_reachable env n s"
    and "dm_transaction_lock (the_db s) \<in> {Readers 0, Writer}"
  shows "Database_releaseAllHandles env s =
    (case issue (release_calls env (dm_handles (the_db s))) (world s) of
       (True, w) \<Rightarrow> (Ok (), s\<lparr>the_db := (the_db s)\<lparr>dm_handles := []\<rparr>, world := w\<rparr>)
     | (False, w) \<Rightarrow> (Abort, s\<lparr>world := w\<rparr>))"
proof -
  have "db_inv live 0 (relock (Readers 0) s)"
    using state_inv(4) [OF reachable_state [OF assms(1,2)]] assms(3) by blast
  from idle_releases [OF this] show ?thesis by (simp add: released_def split: prod.splits bool.splits)
qed

lemma idle_database_releases_handles_witness:
  "\<exists>w. Database_releaseAllHandles plain_sqlite cached_state
      = (Ok (), cached_state\<lparr>the_db := (the_db cached_state)\<lparr>dm_handles := []\<rparr>, world := w\<rparr>)"
proof -
  have "dm_transaction_lock (the_db cached_state) \<in> {Readers 0, Writer}"
    and "fst (issue (release_calls plain_sqlite (dm_handles (the_db cached_state))) (world cached_state))"
    by code_simp+
  with idle_database_releases_handles [OF plain_contract(1) cached_state_reachable]
  show ?thesis by (auto split: prod.splits)
qed

text \<open>C1: the nested transactions of a thread refine the abstract machine: over any sequence of
  calls that return, SQLite is given a \<open>BEGIN\<close> when the outermost transaction begins, and when it
  ends a \<open>COMMIT\<close> exactly if neither it nor a transaction nested in it was rolled back, else a
  \<open>ROLLBACK\<close>.\<close>

theorem nested_transactions_refine:
  assumes "sqlite_contract env live" and "logs env lg" and "db_inv live 0 s"
    and "find_handle t s = Some h" and "dm_transaction h = []"
    and "run_calls env t cs s = (Ok (), s')"
  shows "lg (world s') = lg (world s) @ issued_by cs (0, False)"
proof -
  have "at live 0 t h s" using assms(3,4) by (simp add: at_def)
  moreover have "nested h (0, False)" using assms(5) by (simp add: nested_def depth_def)
  ultimately show ?thesis by (rule calls_issue [OF assms(2,1) _ _ assms(6)])
qed

definition sample_calls :: "db_call list" where
  "sample_calls = [Begin True, Prepare ''q'', Bind 1 (Integer 5), Begin False, Prepare ''q'', Execute,
     Rollback, Commit, Begin False, Begin False, Commit, Commit]"

lemma nested_transactions_refine_witness:
  "snd (world (snd (run_calls plain_sqlite 1 sample_calls plain_state)))
     = snd (world plain_state) @ [TxBegin, TxRollback, TxBegin, TxCommit]"
proof -
  let ?h = "Handle_default\<lparr>dm_database := Some 7, dm_is_committable := True\<rparr>"
  let ?s = "snd (run_calls plain_sqlite 1 sample_calls plain_state)"
  have "run_calls plain_sqlite 1 sample_calls plain_state = (Ok (), ?s)" by code_simp
  moreover have "find_handle 1 plain_state = Some ?h" by code_simp
  moreover have "dm_transaction ?h = []" by code_simp
  moreover have "issued_by sample_calls (0, False) = [TxBegin, TxRollback, TxBegin, TxCommit]"
    by code_simp
  ultimately show ?thesis
    using nested_transactions_refine [OF plain_contract(1,2)
        plain_state_inv] by metis
qed

text \<open>
  Defects in error paths. The documentation of \<open>sqlite3_reset\<close> says that it reports the error of
  the last step, so after the \<open>DatabaseBusy\<close> exception the rollback's own assertion ends the program
  before a handler can retry. And when \<open>beginTransaction\<close>, \<open>renameTo\<close> or \<open>copyTo\<close> throws because the
  database file is gone, the lock it has taken is not released.
\<close>

lemma rollback_after_busy_aborts:
  assumes "find_handle t s = Some h" and "dm_database h \<noteq> None"
    and "dm_transaction h = Some st # rest" and "fst (sqlite3_reset env st (world s)) = SQLITE_BUSY"
  shows "fst (Database_rollbackTransaction env t s) = Abort"
  using assms
  by (simp add: Database_rollbackTransaction_def pop_transaction_def andthen_def res_simps getHandle_found)

lemma failed_rename_keeps_the_lock:
  assumes "sqlite_contract env live" and "db_inv live n s" and "lock_write s = (Ok (), s1)"
    and "Database_getHandle env t s1 = (Throw e, s2)"
  shows "Database_renameTo env t name s = Some (Throw e, s2)
    \<and> Database_copyTo env t name s = Some (Throw e, s2)
    \<and> dm_transaction_lock (the_db s2) = Writer"
  using held_getHandle(1) [OF assms(1) lock_write_held(2) [OF assms(2,3)] assms(4)] assms(3,4)
  by (simp add: Database_renameTo_def Database_copyTo_def andthen_def held_def)

lemma failed_begin_keeps_the_lock:
  assumes "sqlite_contract env live" and "db_inv live 0 s"
    and "Database_beginTransaction env t w s = (Throw e, s')"
  shows "dm_transaction_lock (the_db s') = Readers (Suc (total depth (dm_handles (the_db s'))))"
  using hoare_Throw [OF begin_inv [OF assms(1)] assms(2,3)] by (simp add: db_inv_def)

end
