(* ===== verification/SymbolTable.thy ===== *)
theory SymbolTable
  imports AddressBitmap StdMap "HOL-Library.List_Lexorder" "HOL-Library.Char_ord"
    "HOL-Library.Multiset"
begin

text \<open>
  The class \<open>SymbolTable\<close> (SymbolTable.hxx, SymbolTable.cxx) as the readers of debugging information
  fill it: functions keyed by their address range, loops by their head, statements by their source
  position, and the partitioning of the addresses of a loop or statement into clusters that are
  stored as separate bitmaps. Storing the table into a database is in SymbolStore.
\<close>

section \<open>The table\<close>

text \<open>A \<open>Path\<close> is a \<open>std::string\<close>; its order is the library's, by unsigned characters.\<close>

datatype StatementEntry = StatementEntry (dm_path: string) (dm_line: int) (dm_column: int)

definition StatementEntry_less :: "StatementEntry \<Rightarrow> StatementEntry \<Rightarrow> bool" where
  "StatementEntry_less self other =
     (if dm_path self < dm_path other then True
      else if dm_path self > dm_path other then False
      else if dm_line self < dm_line other then True
      else if dm_line self > dm_line other then False
      else dm_column self < dm_column other)"

instantiation StatementEntry :: linorder
begin

definition less_StatementEntry :: "StatementEntry \<Rightarrow> StatementEntry \<Rightarrow> bool" where
  "less_StatementEntry = StatementEntry_less"

definition less_eq_StatementEntry :: "StatementEntry \<Rightarrow> StatementEntry \<Rightarrow> bool" where
  "less_eq_StatementEntry a b \<longleftrightarrow> a = b \<or> StatementEntry_less a b"

instance
  by standard
    (auto simp: less_StatementEntry_def less_eq_StatementEntry_def StatementEntry_less_def
      StatementEntry.expand split: if_splits)

end

record SymbolTable =
  st_range :: "addr interval"
  dm_functions :: "(addr interval, string) stdmap"
  dm_loops :: "(addr, addr interval list) stdmap"
  dm_statements :: "(StatementEntry, addr interval list) stdmap"

definition SymbolTable_make :: "addr interval \<Rightarrow> SymbolTable" where
  "SymbolTable_make r = \<lparr>st_range = r, dm_functions = [], dm_loops = [], dm_statements = []\<rparr>"

definition addFunction :: "addr \<Rightarrow> addr \<Rightarrow> string \<Rightarrow> SymbolTable \<Rightarrow> SymbolTable res" where
  "addFunction b e name self =
     (if e \<le> b then Ok self
      else
        bind_res (Interval_make b e) (\<lambda>range.
        bind_res (Interval_containsRange (st_range self) range) (\<lambda>contained.
          if \<not> contained then Ok self
          else if map_find Interval_precedes range (dm_functions self) \<noteq> None then Ok self
          else Ok (self\<lparr>dm_functions :=
                 map_insert Interval_precedes range name (dm_functions self)\<rparr>))))"

definition addLoop :: "addr \<Rightarrow> addr \<Rightarrow> addr \<Rightarrow> SymbolTable \<Rightarrow> SymbolTable res" where
  "addLoop b e head self =
     (if e \<le> b then Ok self
      else
        bind_res (Interval_make b e) (\<lambda>range.
        bind_res (Interval_containsRange (st_range self) range) (\<lambda>contained.
          if \<not> contained then Ok self
          else Ok (self\<lparr>dm_loops :=
                 map_modify (<) head (\<lambda>rs. rs @ [range])
                   (map_insert (<) head [] (dm_loops self))\<rparr>))))"

definition addStatement ::
  "addr \<Rightarrow> addr \<Rightarrow> string \<Rightarrow> int \<Rightarrow> int \<Rightarrow> SymbolTable \<Rightarrow> SymbolTable res" where
  "addStatement b e path line column self =
     (if e \<le> b then Ok self
      else
        bind_res (Interval_make b e) (\<lambda>range.
        bind_res (Interval_containsRange (st_range self) range) (\<lambda>contained.
          if \<not> contained then Ok self
          else
            let entry = StatementEntry path line column
            in Ok (self\<lparr>dm_statements :=
                 map_modify StatementEntry_less entry (\<lambda>rs. rs @ [range])
                   (map_insert StatementEntry_less entry [] (dm_statements self))\<rparr>))))"

definition removeFunctions :: "(addr interval, string) stdmap \<Rightarrow> SymbolTable \<Rightarrow> SymbolTable" where
  "removeFunctions other self =
     self\<lparr>dm_functions :=
       foldl (\<lambda>m (range, _).
           if map_find Interval_precedes range m = None then m
           else map_erase Interval_precedes range m)
         (dm_functions self) other\<rparr>"

section \<open>Partitioning a set of addresses\<close>

text \<open>
  A \<open>std::set<Address>\<close> is the increasing list of its elements. The widest gap is kept with the
  position of the address after it; the gap is an unsigned width, less one, converted to a signed
  64-bit integer.
\<close>

definition PartitioningCriteria :: diff where
  "PartitioningCriteria = 8 * (4 + 2 * 8)"

fun widest_gap :: "addr list \<Rightarrow> nat \<Rightarrow> nat \<times> diff \<Rightarrow> (nat \<times> diff) res" where
  "widest_gap (prev # current # rest) k widest =
     bind_res (Interval_make prev current) (\<lambda>range.
       let gap = Interval_getWidth range - 1
       in widest_gap (current # rest) (Suc k) (if snd widest <s gap then (k, gap) else widest))"
| "widest_gap xs k widest = Ok widest"

lemma widest_gap_bounds:
  assumes "widest_gap xs k widest = Ok (p, g)"
  shows "(p, g) = widest \<or> (k \<le> p \<and> p < k + (length xs - 1))"
  using assms
proof (induction xs k widest rule: widest_gap.induct)
  case (1 prev current rest k widest)
  let ?gap = "Interval_getWidth (Interval prev current) - 1"
  let ?widest = "if snd widest <s ?gap then (k, ?gap) else widest"
  from 1(2) have "prev < current" and rec: "widest_gap (current # rest) (Suc k) ?widest = Ok (p, g)"
    by (auto simp: bind_res_Ok_iff Let_def Interval_make_Ok)
  then have "(p, g) = ?widest \<or> (Suc k \<le> p \<and> p < Suc k + (length (current # rest) - 1))"
    by (intro "1.IH") (simp_all add: Interval_make_Ok)
  then show ?case by (auto split: if_splits)
qed auto

definition set_weight :: "addr list \<Rightarrow> nat" where
  "set_weight xs = (if xs = [] then 1 else 2 * length xs - 1)"

function partition_loop :: "addr list list \<Rightarrow> addr list list \<Rightarrow> addr list list res" where
  "partition_loop [] result = Ok result"
| "partition_loop (i # queue) result =
     (if length i = 0 then partition_loop queue result
      else if length i = 1 then partition_loop queue (result @ [i])
      else
        case widest_gap i 1 (0, 0) of
          Ok (p, gap) \<Rightarrow>
            if PartitioningCriteria <s gap
            then partition_loop (queue @ [take p i, drop p i]) result
            else partition_loop queue (result @ [i])
        | Throw e \<Rightarrow> Throw e
        | Abort \<Rightarrow> Abort
        | Blocked \<Rightarrow> Blocked)"
  by pat_completeness auto

lemma split_weight:
  assumes "widest_gap i 1 (0, 0) = Ok (p, g)" and "PartitioningCriteria <s g"
  shows "0 < p" and "p < length i"
    and "set_weight (take p i) + set_weight (drop p i) < set_weight i"
proof -
  have "\<not> PartitioningCriteria <s 0" by code_simp
  with assms(2) have "(p, g) \<noteq> (0, 0)" by auto
  with widest_gap_bounds [OF assms(1)] show "0 < p" and "p < length i" by auto
  then show "set_weight (take p i) + set_weight (drop p i) < set_weight i"
    by (auto simp: set_weight_def)
qed

termination partition_loop
proof (relation "measure (\<lambda>(queue, _). sum_list (map set_weight queue))", goal_cases)
  case 1
  show ?case by simp
next
  case (2 i queue result)
  then show ?case by (simp add: set_weight_def)
next
  case (3 i queue result)
  then show ?case by (auto simp: set_weight_def)
next
  case (4 i queue result x p gap)
  with split_weight(3) [of i p gap] show ?case by simp
next
  case (5 i queue result x p gap)
  then show ?case by (cases i) (auto simp: set_weight_def)
qed

definition partitionAddressSet :: "addr list \<Rightarrow> addr list list res" where
  "partitionAddressSet address_set = partition_loop [address_set] []"

section \<open>What the partitioning computes\<close>

text \<open>Two addresses are far apart if more than \<open>PartitioningCriteria\<close> addresses lie between them.\<close>

definition far :: "addr \<Rightarrow> addr \<Rightarrow> bool" where
  "far a b \<longleftrightarrow> uint b - uint a - 1 > 160"

definition low_set :: "addr list \<Rightarrow> bool" where
  "low_set xs \<longleftrightarrow> sorted_wrt (<) xs \<and> (\<forall>x \<in> set xs. x < 2 ^ 63)"

lemma sint_criteria: "sint PartitioningCriteria = 160"
  by code_simp

lemma sint_gap:
  assumes "a < b" and "b < (2 :: addr) ^ 63"
  shows "sint (Interval_getWidth (Interval a b) - 1) = uint b - uint a - 1"
proof -
  have ab: "uint a < uint b" and b: "uint b < 2 ^ 63"
    using assms by (simp_all add: word_less_def)
  have "uint (b - a) = uint b - uint a" using ab by (simp add: uint_minus_64)
  moreover from this ab have "uint (b - a - 1) = uint b - uint a - 1"
    by (subst uint_minus_64) simp
  moreover have "uint b - uint a - 1 < 2 ^ 63" using b uint_ge_0 [of a] by linarith
  ultimately show ?thesis by (simp add: Interval_getWidth_def sint_64)
qed

text \<open>The search for the widest gap returns the first gap that is wider than all others.\<close>

lemma widest_gap_correct:
  assumes "low_set xs"
  shows "\<exists>p g. widest_gap xs k (q, w) = Ok (p, g) \<and> sint w \<le> sint g \<and>
    (\<forall>i. Suc i < length xs \<longrightarrow> uint (xs ! Suc i) - uint (xs ! i) - 1 \<le> sint g) \<and>
    ((p, g) = (q, w) \<or> (\<exists>i. p = k + i \<and> Suc i < length xs \<and>
       sint g = uint (xs ! Suc i) - uint (xs ! i) - 1))"
  using assms
proof (induction xs arbitrary: k q w rule: induct_list012)
  case (3 a b xs)
  let ?g = "Interval_getWidth (Interval a b) - 1"
  have ab: "a < b" "b < 2 ^ 63" and low: "low_set (b # xs)"
    using "3.prems" by (auto simp: low_set_def)
  note sg = sint_gap [OF ab]
  obtain q' w' where qw: "(q', w') = (if w <s ?g then (k, ?g) else (q, w))"
    by (cases "if w <s ?g then (k, ?g) else (q, w)") auto
  from "3.IH"(2) [OF low, of "Suc k" q' w'] obtain p g where
    run: "widest_gap (b # xs) (Suc k) (q', w') = Ok (p, g)" and up: "sint w' \<le> sint g" and
    all: "\<And>i. Suc i < length (b # xs) \<Longrightarrow>
      uint ((b # xs) ! Suc i) - uint ((b # xs) ! i) - 1 \<le> sint g" and
    gap: "(p, g) = (q', w') \<or> (\<exists>i. p = Suc k + i \<and> Suc i < length (b # xs) \<and>
       sint g = uint ((b # xs) ! Suc i) - uint ((b # xs) ! i) - 1)"
    by auto
  have w': "sint w \<le> sint w'" "uint b - uint a - 1 \<le> sint w'"
    using qw sg by (auto simp: word_sless_alt split: if_splits)
  have "widest_gap (a # b # xs) k (q, w) = Ok (p, g)"
    using run qw ab(1) by (simp add: Interval_make_def Let_def)
  moreover have "sint w \<le> sint g" using w'(1) up by simp
  moreover have "uint ((a # b # xs) ! Suc i) - uint ((a # b # xs) ! i) - 1 \<le> sint g"
    if "Suc i < length (a # b # xs)" for i
    using that all [of "i - 1"] w'(2) up by (cases i) auto
  moreover have "(p, g) = (q, w) \<or> (\<exists>i. p = k + i \<and> Suc i < length (a # b # xs) \<and>
      sint g = uint ((a # b # xs) ! Suc i) - uint ((a # b # xs) ! i) - 1)"
    using gap
  proof
    assume "(p, g) = (q', w')"
    with qw sg show ?thesis by (auto split: if_splits intro: exI [of _ 0])
  next
    assume "\<exists>i. p = Suc k + i \<and> Suc i < length (b # xs) \<and>
      sint g = uint ((b # xs) ! Suc i) - uint ((b # xs) ! i) - 1"
    then obtain i where "p = Suc k + i" "Suc i < length (b # xs)"
      "sint g = uint ((b # xs) ! Suc i) - uint ((b # xs) ! i) - 1" by auto
    then have "p = k + Suc i \<and> Suc (Suc i) < length (a # b # xs) \<and>
      sint g = uint ((a # b # xs) ! Suc (Suc i)) - uint ((a # b # xs) ! Suc i) - 1" by simp
    then show ?thesis by blast
  qed
  ultimately show ?case by blast
qed auto

lemma widest_gap_cases:
  assumes "low_set xs" and "2 \<le> length xs"
  obtains (split) p g where "widest_gap xs 1 (0, 0) = Ok (p, g)" and "PartitioningCriteria <s g"
      and "0 < p" and "p < length xs" and "far (xs ! (p - 1)) (xs ! p)"
  | (keep) p g where "widest_gap xs 1 (0, 0) = Ok (p, g)" and "\<not> PartitioningCriteria <s g"
      and "\<And>i. Suc i < length xs \<Longrightarrow> \<not> far (xs ! i) (xs ! Suc i)"
proof -
  from widest_gap_correct [OF assms(1), of 1 0 0] obtain p g where
    run: "widest_gap xs 1 (0, 0) = Ok (p, g)" and
    all: "\<And>i. Suc i < length xs \<Longrightarrow> uint (xs ! Suc i) - uint (xs ! i) - 1 \<le> sint g" and
    gap: "(p, g) = (0, 0) \<or> (\<exists>i. p = 1 + i \<and> Suc i < length xs \<and>
       sint g = uint (xs ! Suc i) - uint (xs ! i) - 1)"
    by auto
  show ?thesis
  proof (cases "PartitioningCriteria <s g")
    case True
    then have g: "160 < sint g" by (simp add: word_sless_alt sint_criteria)
    with gap obtain i where "p = Suc i" "Suc i < length xs"
      "sint g = uint (xs ! Suc i) - uint (xs ! i) - 1" by auto
    with split [OF run True] g show ?thesis by (simp add: far_def)
  next
    case False
    then have "sint g \<le> 160" by (simp add: word_sless_alt sint_criteria)
    with keep [OF run False] all show ?thesis by (fastforce simp: far_def)
  qed
qed

text \<open>The clusters of a set of addresses: its maximal runs without a far neighbour.\<close>

fun clusters :: "addr list \<Rightarrow> addr list list" where
  "clusters [] = []"
| "clusters [a] = [[a]]"
| "clusters (a # b # xs) =
     (if far a b then [a] # clusters (b # xs)
      else (a # hd (clusters (b # xs))) # tl (clusters (b # xs)))"

lemma clusters_nonempty: "clusters (b # xs) \<noteq> []"
  by (cases xs) auto

lemma clusters_split:
  assumes "0 < p" and "p < length xs" and "far (xs ! (p - 1)) (xs ! p)"
  shows "clusters xs = clusters (take p xs) @ clusters (drop p xs)"
  using assms
proof (induction xs arbitrary: p rule: induct_list012)
  case (3 a b xs)
  show ?case
  proof (cases "p = 1")
    case True
    with "3.prems" show ?thesis by simp
  next
    case False
    then obtain q where p: "p = Suc (Suc q)" using "3.prems"(1) by (cases p; cases "p - 1") auto
    have "clusters (b # xs) = clusters (b # take q xs) @ clusters (drop q xs)"
      using "3.IH"(2) [of "Suc q"] "3.prems" p by simp
    with p clusters_nonempty show ?thesis by (cases "clusters (b # take q xs)") auto
  qed
qed auto

lemma clusters_keep:
  assumes "xs \<noteq> []" and "\<And>i. Suc i < length xs \<Longrightarrow> \<not> far (xs ! i) (xs ! Suc i)"
  shows "clusters xs = [xs]"
  using assms
proof (induction xs rule: induct_list012)
  case (3 a b xs)
  have "\<not> far ((b # xs) ! i) ((b # xs) ! Suc i)" if "Suc i < length (b # xs)" for i
    using "3.prems"(2) [of "Suc i"] that by simp
  with "3.IH"(2) have "clusters (b # xs) = [b # xs]" by simp
  with "3.prems"(2) [of 0] show ?case by simp
qed auto

lemma low_set_parts: "low_set xs \<Longrightarrow> low_set (take p xs) \<and> low_set (drop p xs)"
  by (auto simp: low_set_def sorted_wrt_take sorted_wrt_drop dest: in_set_takeD in_set_dropD)

definition clusters_of :: "addr list list \<Rightarrow> addr list multiset" where
  "clusters_of queue = mset (concat (map clusters queue))"

lemma clusters_of_simps [simp]:
  "clusters_of [] = {#}"
  "clusters_of (xs # queue) = mset (clusters xs) + clusters_of queue"
  "clusters_of (queue @ queue') = clusters_of queue + clusters_of queue'"
  by (simp_all add: clusters_of_def)

lemma partition_loop_clusters:
  assumes "\<forall>xs \<in> set queue. low_set xs"
  shows "\<exists>parts. partition_loop queue result = Ok parts \<and>
    mset parts = mset result + clusters_of queue"
  using assms
proof (induction queue result rule: partition_loop.induct)
  case (1 result)
  show ?case by simp
next
  case (2 i queue result)
  have low: "low_set i" and queue: "\<forall>xs \<in> set queue. low_set xs" using "2.prems" by auto
  consider "i = []" | a where "i = [a]" | "2 \<le> length i"
    by (cases i; cases "tl i") auto
  then show ?case
  proof cases
    case 1
    then show ?thesis using "2.IH"(1) [OF _ queue] by simp
  next
    case (2 a)
    then show ?thesis using "2.IH"(2) [OF _ _ queue] by simp
  next
    case 3
    then have len: "length i \<noteq> 0" "length i \<noteq> 1" by auto
    from low 3 show ?thesis
    proof (cases rule: widest_gap_cases)
      case (split p g)
      have "\<forall>xs \<in> set (queue @ [take p i, drop p i]). low_set xs"
        using queue low_set_parts [OF low] by simp
      from "2.IH"(3) [OF len split(1) refl split(2) this]
      show ?thesis using len split(1,2) clusters_split [OF split(3-5)] by (simp add: ac_simps)
    next
      case (keep p g)
      have "i \<noteq> []" using 3 by auto
      then have "clusters i = [i]" by (rule clusters_keep) (rule keep(3))
      with "2.IH"(4) [OF len keep(1) refl keep(2) queue] show ?thesis
        using len keep(1,2) by (simp add: ac_simps)
    qed
  qed
qed

lemma partitionAddressSet_clusters:
  assumes "low_set xs"
  shows "\<exists>parts. partitionAddressSet xs = Ok parts \<and> mset parts = mset (clusters xs)"
  using partition_loop_clusters [of "[xs]" "[]"] assms by (simp add: partitionAddressSet_def)

lemma clusters_cover: "concat (clusters xs) = xs"
proof (induction xs rule: clusters.induct)
  case (3 a b xs)
  then show ?case using clusters_nonempty [of b xs] by (cases "clusters (b # xs)") auto
qed auto

lemma clusters_first: "hd (hd (clusters (b # xs))) = b" "hd (clusters (b # xs)) \<noteq> []"
  by (induction xs arbitrary: b) (auto split: if_splits list.splits elim: clusters.elims)

lemma clusters_parts: "[] \<notin> set (clusters xs)"
proof (induction xs rule: clusters.induct)
  case (3 a b xs)
  then show ?case by (cases "clusters (b # xs)") (auto split: if_splits)
qed auto

lemma clusters_members: "p \<in> set (clusters xs) \<Longrightarrow> p \<noteq> [] \<and> set p \<subseteq> set xs"
  using clusters_parts [of xs] by (subst (2) clusters_cover [symmetric]) auto

lemma clusters_near: "p \<in> set (clusters xs) \<Longrightarrow> successively (\<lambda>a b. \<not> far a b) p"
proof (induction xs arbitrary: p rule: clusters.induct)
  case (3 a b xs)
  obtain c cs where cs: "clusters (b # xs) = c # cs"
    using clusters_nonempty [of b xs] by (cases "clusters (b # xs)") auto
  then have c: "c \<noteq> []" "hd c = b" using clusters_first [of b xs] by auto
  have "successively (\<lambda>a b. \<not> far a b) q" if "q \<in> set (c # cs)" for q
    using "3.IH" that cs by (cases "far a b") auto
  with "3.prems" cs c show ?case by (auto simp: successively_Cons split: if_splits)
qed auto

lemma far_mono: "far a b \<Longrightarrow> x \<le> a \<Longrightarrow> b \<le> y \<Longrightarrow> far x y"
  by (auto simp: far_def word_le_def)

lemma clusters_far:
  assumes "sorted_wrt (<) xs"
  shows "sorted_wrt (\<lambda>p q. \<forall>x \<in> set p. \<forall>y \<in> set q. far x y) (clusters xs)"
  using assms
proof (induction xs rule: clusters.induct)
  case (3 a b xs)
  obtain c cs where cs: "clusters (b # xs) = c # cs"
    using clusters_nonempty [of b xs] by (cases "clusters (b # xs)") auto
  have ab: "a < b" and rest: "\<forall>y \<in> set (b # xs). b \<le> y" using "3.prems" by auto
  have IH: "sorted_wrt (\<lambda>p q. \<forall>x \<in> set p. \<forall>y \<in> set q. far x y) (c # cs)"
    using "3.IH" "3.prems" cs by (cases "far a b") auto
  have b: "b \<in> set c" using clusters_first [of b xs] cs by (cases c) auto
  show ?case
  proof (cases "far a b")
    case True
    have "far a y" if "q \<in> set (clusters (b # xs))" "y \<in> set q" for q y
      using far_mono [OF True] clusters_members [OF that(1)] that(2) rest by auto
    with True cs IH show ?thesis by auto
  next
    case False
    have "far a y" if "q \<in> set cs" "y \<in> set q" for q y
      using IH b that ab far_mono [of b y a y] by auto
    with False cs IH show ?thesis by auto
  qed
qed auto

text \<open>Near neighbours bound the width of a cluster by its number of addresses.\<close>

lemma near_width:
  assumes "successively (\<lambda>a b. \<not> far a b) (a # xs)"
  shows "uint (last (a # xs)) - uint a \<le> 161 * int (length xs)"
  using assms
proof (induction xs arbitrary: a)
  case (Cons b xs)
  then have "uint (last (b # xs)) - uint b \<le> 161 * int (length xs)" and "uint b - uint a \<le> 161"
    by (auto simp: far_def)
  then show ?case by simp
qed simp

section \<open>The invariant of the table\<close>

lemma containsRange_subset:
  assumes "Interval_containsRange self r = Ok b" and "proper r"
  shows "b \<longleftrightarrow> points r \<subseteq> points self"
proof -
  have r: "uint (dm_begin r) < uint (dm_end r)" using assms(2) by (simp add: proper_def word_less_def)
  then have "1 \<le> uint (dm_end r)" using uint_ge_0 [of "dm_begin r"] by linarith
  then have "uint (dm_end r - 1) = uint (dm_end r) - 1" by (subst uint_minus_64) simp
  then have inside: "dm_begin self \<le> dm_end r - 1 \<and> dm_end r - 1 < dm_end self \<longleftrightarrow>
      uint (dm_begin self) < uint (dm_end r) \<and> uint (dm_end r) \<le> uint (dm_end self)"
    by (auto simp: word_less_def word_le_def)
  have "points r \<subseteq> points self \<longleftrightarrow> dm_begin self \<le> dm_begin r \<and> dm_end r \<le> dm_end self"
    using r by (auto simp: points_def ivl_subset word_less_def word_le_def)
  with assms(1) inside r show ?thesis
    by (auto simp: Interval_containsRange_def Interval_containsValue_def bind_res_Ok_iff
        Address_minus_eq word_less_def word_le_def split: if_splits)
qed

definition within :: "SymbolTable \<Rightarrow> addr interval \<Rightarrow> bool" where
  "within st r \<longleftrightarrow> proper r \<and> points r \<subseteq> points (st_range st)"

definition entries_ok :: "('v \<Rightarrow> bool) \<Rightarrow> ('k, 'v list) stdmap \<Rightarrow> bool" where
  "entries_ok P m \<longleftrightarrow> (\<forall>(k, vs) \<in> set m. vs \<noteq> [] \<and> list_all P vs)"

definition table_ok :: "SymbolTable \<Rightarrow> bool" where
  "table_ok st \<longleftrightarrow>
     range_key.ordered (keys (dm_functions st)) \<and> (\<forall>r \<in> set (keys (dm_functions st)). within st r) \<and>
     linear.ordered (keys (dm_loops st)) \<and>
     entries_ok (within st) (dm_loops st) \<and>
     linear.ordered (keys (dm_statements st)) \<and>
     entries_ok (within st) (dm_statements st)"

lemma within_fields [simp]:
  "within (st\<lparr>dm_functions := fs\<rparr>) = within st"
  "within (st\<lparr>dm_loops := ls\<rparr>) = within st"
  "within (st\<lparr>dm_statements := ss\<rparr>) = within st"
  by (simp_all add: within_def fun_eq_iff)

lemma table_ok_make: "table_ok (SymbolTable_make r)"
  by (simp add: table_ok_def SymbolTable_make_def entries_ok_def)

text \<open>What the checks at the head of the three operations come to.\<close>

definition accepts :: "SymbolTable \<Rightarrow> addr \<Rightarrow> addr \<Rightarrow> bool" where
  "accepts st b e \<longleftrightarrow> b < e \<and> {b..<e} \<subseteq> points (st_range st)"

lemma accepts_within: "accepts st b e \<longleftrightarrow> within st (Interval b e)"
  by (auto simp: accepts_def within_def proper_def points_def)

lemma checked_add:
  assumes "(if e \<le> b then Ok self
      else bind_res (Interval_make b e) (\<lambda>range.
        bind_res (Interval_containsRange (st_range self) range) (\<lambda>contained.
          if \<not> contained then Ok self else f range))) = Ok st'"
  shows "if accepts self b e then f (Interval b e) = Ok st' else st' = self"
proof (cases "b < e")
  case True
  then have "\<not> e \<le> b" by simp
  with assms True obtain c where c: "Interval_containsRange (st_range self) (Interval b e) = Ok c"
    and st': "(if \<not> c then Ok self else f (Interval b e)) = Ok st'"
    by (auto simp: bind_res_Ok_iff Interval_make_Ok)
  have "c \<longleftrightarrow> accepts self b e"
    using containsRange_subset [OF c] True by (simp add: accepts_def proper_def points_def)
  with st' show ?thesis by (auto split: if_splits)
next
  case False
  then have "e \<le> b" by simp
  with assms False show ?thesis by (simp add: accepts_def)
qed

definition clear_of :: "SymbolTable \<Rightarrow> addr interval \<Rightarrow> bool" where
  "clear_of st r \<longleftrightarrow> (\<forall>(r', _) \<in> set (dm_functions st). points r' \<inter> points r = {})"

lemma find_clear:
  assumes "table_ok st" and "proper r"
  shows "map_find Interval_precedes r (dm_functions st) = None \<longleftrightarrow> clear_of st r"
proof -
  have ord: "range_key.ordered (keys (dm_functions st))" using assms(1) by (simp add: table_ok_def)
  then have proper: "proper r'" if "(r', n) \<in> set (dm_functions st)" for r' n
    using that by (force simp: range_key.ordered_def keys_def)
  show ?thesis
  proof
    assume none: "map_find Interval_precedes r (dm_functions st) = None"
    have "points r' \<inter> points r = {}" if "(r', n) \<in> set (dm_functions st)" for r' n
      using range_key.find_None [OF ord assms(2) none, of r'] that
        range_key_equivalent [OF proper [OF that] assms(2)] by (force simp: keys_def)
    then show "clear_of st r" by (auto simp: clear_of_def)
  next
    assume clear: "clear_of st r"
    show "map_find Interval_precedes r (dm_functions st) = None"
    proof (rule ccontr)
      assume "\<not> ?thesis"
      then obtain r' n where f: "map_find Interval_precedes r (dm_functions st) = Some (r', n)"
        by (cases "map_find Interval_precedes r (dm_functions st)") auto
      note range_key.find_Some [OF f]
      with clear show False
        using range_key_equivalent [OF proper assms(2)] by (fastforce simp: clear_of_def)
    qed
  qed
qed

lemma addFunction_ok:
  assumes ok: "table_ok st" and run: "addFunction b e name st = Ok st'"
  shows "table_ok st'" and "st' = st\<lparr>dm_functions := dm_functions st'\<rparr>"
    and "set (dm_functions st') = (if accepts st b e \<and> clear_of st (Interval b e)
      then insert (Interval b e, name) (set (dm_functions st)) else set (dm_functions st))"
proof -
  let ?r = "Interval b e" and ?m = "map_insert Interval_precedes (Interval b e) name (dm_functions st)"
  have ord: "range_key.ordered (keys (dm_functions st))" using ok by (simp add: table_ok_def)
  have "table_ok st' \<and> st' = st\<lparr>dm_functions := dm_functions st'\<rparr> \<and>
    set (dm_functions st') = (if accepts st b e \<and> clear_of st ?r
      then insert (?r, name) (set (dm_functions st)) else set (dm_functions st))"
  proof (cases "accepts st b e")
    case False
    with checked_add [OF run [unfolded addFunction_def]] ok show ?thesis by simp
  next
    case True
    then have r: "within st ?r" and proper: "proper ?r"
      by (simp_all add: accepts_within) (simp add: within_def)
    note find = find_clear [OF ok proper]
    from checked_add [OF run [unfolded addFunction_def]] True
    have st': "st' = (if clear_of st ?r then st\<lparr>dm_functions := ?m\<rparr> else st)"
      using find by (auto split: if_splits)
    show ?thesis
    proof (cases "clear_of st ?r")
      case clear: True
      have "set ?m = insert (?r, name) (set (dm_functions st))"
        using range_key.insert_absent [OF ord proper] find clear by simp
      moreover have "range_key.ordered (keys ?m)"
        by (rule range_key.insert_ordered [OF ord proper])
      moreover have "set (keys ?m) \<subseteq> insert ?r (set (keys (dm_functions st)))"
        by (rule range_key.insert_keys_subset)
      ultimately show ?thesis using ok r True clear st' by (auto simp: table_ok_def)
    next
      case False
      with ok st' show ?thesis by simp
    qed
  qed
  then show "table_ok st'" "st' = st\<lparr>dm_functions := dm_functions st'\<rparr>"
    "set (dm_functions st') = (if accepts st b e \<and> clear_of st ?r
      then insert (?r, name) (set (dm_functions st)) else set (dm_functions st))"
    by simp_all
qed

text \<open>Appending a range to the entry of a key, which is created if it is missing.\<close>

definition entry_of :: "('k, 'v list) stdmap \<Rightarrow> 'k \<Rightarrow> 'v list" where
  "entry_of m k = (case map_of m k of None \<Rightarrow> [] | Some vs \<Rightarrow> vs)"

lemma append_entry:
  fixes m :: "('k::linorder, 'v list) stdmap" and k :: 'k and v :: 'v
  assumes ord: "linear.ordered (keys m)"
    and all: "entries_ok P m" and "P v"
  defines "m' \<equiv> map_modify (<) k (\<lambda>vs. vs @ [v]) (map_insert (<) k [] m)"
  shows "linear.ordered (keys m')"
    and "entry_of m' = (entry_of m)(k := entry_of m k @ [v])"
    and "entries_ok P m'"
proof -
  have ord1: "linear.ordered (keys (map_insert (<) k [] m))"
    by (rule linear.insert_ordered [OF ord]) simp
  then show ord': "linear.ordered (keys m')" by (simp add: m'_def)
  have of: "map_of m' = (map_of m)(k \<mapsto> entry_of m k @ [v])"
    using linear_map_of_modify [OF ord1] linear_map_of_insert [OF ord]
    by (auto simp: m'_def fun_eq_iff entry_of_def split: option.splits)
  then show "entry_of m' = (entry_of m)(k := entry_of m k @ [v])"
    by (auto simp: fun_eq_iff entry_of_def)
  have "vs \<noteq> [] \<and> list_all P vs" if "(k', vs) \<in> set m'" for k' vs
  proof -
    have "map_of m' k' = Some vs"
      using linear.ordered_distinct [OF ord'] that by (simp add: keys_def)
    with of have vs: "(if k' = k then Some (entry_of m k @ [v]) else map_of m k') = Some vs"
      by simp
    have "list_all P (entry_of m k)"
      using all by (auto simp: entries_ok_def entry_of_def dest!: map_of_SomeD split: option.splits)
    with vs all assms(3) show ?thesis
      by (auto simp: entries_ok_def dest!: map_of_SomeD split: if_splits)
  qed
  then show "entries_ok P m'" by (auto simp: entries_ok_def)
qed

lemma addLoop_ok:
  assumes ok: "table_ok st" and run: "addLoop b e head st = Ok st'"
  shows "table_ok st'" and "st' = st\<lparr>dm_loops := dm_loops st'\<rparr>"
    and "entry_of (dm_loops st') = (if accepts st b e
      then (entry_of (dm_loops st))(head := entry_of (dm_loops st) head @ [Interval b e])
      else entry_of (dm_loops st))"
  using checked_add [OF run [unfolded addLoop_def]] ok
    append_entry [of "dm_loops st" "within st" "Interval b e" head]
  by (auto simp: table_ok_def accepts_within split: if_splits)

lemma addStatement_ok:
  assumes ok: "table_ok st" and run: "addStatement b e path line column st = Ok st'"
  shows "table_ok st'" and "st' = st\<lparr>dm_statements := dm_statements st'\<rparr>"
    and "entry_of (dm_statements st') = (if accepts st b e
      then (entry_of (dm_statements st))(StatementEntry path line column :=
        entry_of (dm_statements st) (StatementEntry path line column) @ [Interval b e])
      else entry_of (dm_statements st))"
  using checked_add [OF run [unfolded addStatement_def Let_def, folded less_StatementEntry_def]] ok
    append_entry [of "dm_statements st" "within st" "Interval b e" "StatementEntry path line column"]
  by (auto simp: table_ok_def accepts_within split: if_splits)

lemma removeFunctions_ok:
  assumes "table_ok st"
  shows "table_ok (removeFunctions other st)"
    and "set (dm_functions (removeFunctions other st)) \<subseteq> set (dm_functions st)"
proof -
  define f where "f = (\<lambda>m (range :: addr interval, _ :: string).
    if map_find Interval_precedes range m = None then m
    else map_erase Interval_precedes range (m :: (addr interval, string) stdmap))"
  have "range_key.ordered (keys (foldl f m other)) \<and> set (foldl f m other) \<subseteq> set m"
    if "range_key.ordered (keys m)" for m
    using that
  proof (induction other arbitrary: m)
    case (Cons x other)
    have "range_key.ordered (keys (f m x)) \<and> set (f m x) \<subseteq> set m"
      using range_key.erase_ordered [OF Cons.prems] range_key.erase_subset [of "fst x" m] Cons.prems
      by (cases x) (simp add: f_def del: precedes_iff)
    with Cons.IH [of "f m x"] show ?case by (auto simp del: precedes_iff)
  qed simp
  with assms show "table_ok (removeFunctions other st)"
    "set (dm_functions (removeFunctions other st)) \<subseteq> set (dm_functions st)"
    unfolding removeFunctions_def f_def [symmetric] table_ok_def
    by (auto simp: keys_def entries_ok_def simp del: precedes_iff)
qed

section \<open>Filling a table\<close>

datatype addition =
    AddFunction addr addr string | AddLoop addr addr addr | AddStatement addr addr string int int

fun add_symbol :: "addition \<Rightarrow> SymbolTable \<Rightarrow> SymbolTable res" where
  "add_symbol (AddFunction b e name) st = addFunction b e name st"
| "add_symbol (AddLoop b e head) st = addLoop b e head st"
| "add_symbol (AddStatement b e path line column) st = addStatement b e path line column st"

definition fill :: "addition list \<Rightarrow> SymbolTable \<Rightarrow> SymbolTable res" where
  "fill adds st = foldl (\<lambda>r a. bind_res r (add_symbol a)) (Ok st) adds"

text \<open>The accepted ranges of a loop or statement, in the order of their addition.\<close>

definition accepted :: "addr interval \<Rightarrow> addr \<Rightarrow> addr \<Rightarrow> addr interval list" where
  "accepted r b e = (if b < e \<and> dm_begin r \<le> b \<and> e \<le> dm_end r then [Interval b e] else [])"

definition loop_ranges :: "addr interval \<Rightarrow> addition list \<Rightarrow> addr \<Rightarrow> addr interval list" where
  "loop_ranges r adds head =
     concat (map (\<lambda>a. case a of AddLoop b e h \<Rightarrow> if h = head then accepted r b e else [] | _ \<Rightarrow> [])
       adds)"

definition statement_ranges ::
  "addr interval \<Rightarrow> addition list \<Rightarrow> StatementEntry \<Rightarrow> addr interval list" where
  "statement_ranges r adds entry =
     concat (map (\<lambda>a. case a of
         AddStatement b e path line column \<Rightarrow>
           if StatementEntry path line column = entry then accepted r b e else []
       | _ \<Rightarrow> []) adds)"

definition recorded :: "addr interval \<Rightarrow> addition list \<Rightarrow> SymbolTable \<Rightarrow> bool" where
  "recorded r adds st \<longleftrightarrow>
     table_ok st \<and> st_range st = r \<and>
     (\<forall>(f, name) \<in> set (dm_functions st). AddFunction (dm_begin f) (dm_end f) name \<in> set adds) \<and>
     (\<forall>b e name. AddFunction b e name \<in> set adds \<and> accepts st b e \<longrightarrow>
        \<not> clear_of st (Interval b e)) \<and>
     entry_of (dm_loops st) = loop_ranges r adds \<and>
     entry_of (dm_statements st) = statement_ranges r adds"

lemma accepts_bounds:
  "accepts st b e \<longleftrightarrow> b < e \<and> dm_begin (st_range st) \<le> b \<and> e \<le> dm_end (st_range st)"
  by (auto simp: accepts_def points_def ivl_subset)

lemma fill_simps:
  "fill [] st = Ok st"
  "fill (adds @ [a]) st = bind_res (fill adds st) (add_symbol a)"
  by (simp_all add: fill_def)

lemma recorded_add:
  assumes rec: "recorded r adds st" and run: "add_symbol a st = Ok st'"
  shows "recorded r (adds @ [a]) st'"
proof (cases a)
  case (AddFunction b e name)
  with run have add: "addFunction b e name st = Ok st'" by simp
  have "table_ok st" using rec by (simp add: recorded_def)
  note ok = addFunction_ok [OF this add]
  have same: "accepts st' = accepts st" "st_range st' = st_range st" "dm_loops st' = dm_loops st"
    "dm_statements st' = dm_statements st"
    by (subst ok(2), simp add: accepts_def fun_eq_iff)+
  have more: "\<not> clear_of st x \<Longrightarrow> \<not> clear_of st' x" for x
    using ok(3) by (auto simp: clear_of_def split: if_splits)
  have here: "\<not> clear_of st' (Interval b e)" if "accepts st b e"
    using ok(3) that by (auto simp: clear_of_def accepts_def points_def split: if_splits)
  have "\<not> clear_of st' (Interval b' e')"
    if "AddFunction b' e' n \<in> set (adds @ [a])" and "accepts st b' e'" for b' e' n
  proof -
    from that(1) AddFunction consider "AddFunction b' e' n \<in> set adds" | "b' = b" "e' = e" by auto
    then show ?thesis
    proof cases
      case 1
      with rec that(2) have "\<not> clear_of st (Interval b' e')" unfolding recorded_def by blast
      then show ?thesis by (rule more)
    qed (use that(2) here in simp)
  qed
  moreover have "\<forall>(f, n) \<in> set (dm_functions st').
      AddFunction (dm_begin f) (dm_end f) n \<in> set (adds @ [a])"
    using rec ok(3) by (auto simp: recorded_def AddFunction split: if_splits)
  moreover have "loop_ranges r (adds @ [a]) = loop_ranges r adds"
    "statement_ranges r (adds @ [a]) = statement_ranges r adds"
    by (simp_all add: AddFunction loop_ranges_def statement_ranges_def fun_eq_iff)
  ultimately show ?thesis using rec ok(1) unfolding recorded_def same by auto
next
  case (AddLoop b e head)
  with run have add: "addLoop b e head st = Ok st'" by simp
  have "table_ok st" using rec by (simp add: recorded_def)
  note ok = addLoop_ok [OF this add]
  have same: "accepts st' = accepts st" "st_range st' = st_range st"
    "dm_functions st' = dm_functions st" "dm_statements st' = dm_statements st"
    by (subst ok(2), simp add: accepts_def fun_eq_iff)+
  show ?thesis using rec ok(1,3) unfolding recorded_def same clear_of_def
    by (auto simp: AddLoop loop_ranges_def statement_ranges_def accepted_def accepts_bounds fun_eq_iff)
next
  case (AddStatement b e path line column)
  with run have add: "addStatement b e path line column st = Ok st'" by simp
  have "table_ok st" using rec by (simp add: recorded_def)
  note ok = addStatement_ok [OF this add]
  have same: "accepts st' = accepts st" "st_range st' = st_range st"
    "dm_functions st' = dm_functions st" "dm_loops st' = dm_loops st"
    by (subst ok(2), simp add: accepts_def fun_eq_iff)+
  show ?thesis using rec ok(1,3) unfolding recorded_def same clear_of_def
    by (auto simp: AddStatement loop_ranges_def statement_ranges_def accepted_def accepts_bounds
        fun_eq_iff)
qed

lemma fill_recorded: "fill adds (SymbolTable_make r) = Ok st \<Longrightarrow> recorded r adds st"
proof (induction adds arbitrary: st rule: rev_induct)
  case Nil
  then show ?case
    by (auto simp: fill_simps recorded_def SymbolTable_make_def table_ok_def entries_ok_def
        loop_ranges_def statement_ranges_def entry_of_def fun_eq_iff)
next
  case (snoc a adds)
  then show ?case by (auto simp: fill_simps bind_res_Ok_iff intro: recorded_add)
qed

section \<open>Properties\<close>

lemma sorted_part: "sorted_wrt P (concat ps) \<Longrightarrow> p \<in> set ps \<Longrightarrow> sorted_wrt P p"
  by (induction ps) (auto simp: sorted_wrt_append)

lemma sorted_wrt_pairs:
  "sorted_wrt P ps \<Longrightarrow> p \<in> set ps \<Longrightarrow> q \<in> set ps \<Longrightarrow> p \<noteq> q \<Longrightarrow> P p q \<or> P q p"
  by (induction ps) auto

text \<open>C10: the partitioning of a set of addresses ends and splits the set exactly where more than
  160 addresses are missing between two neighbours: the parts together hold the addresses of the
  set, neighbours in a part are near, and addresses in different parts are far apart.\<close>

theorem partitionAddressSet_splits_at_gaps:
  assumes "sorted_wrt (<) xs" and "\<forall>x \<in> set xs. x < 2 ^ 63"
  shows "\<exists>parts. partitionAddressSet xs = Ok parts \<and> mset (concat parts) = mset xs \<and>
    (\<forall>p \<in> set parts. p \<noteq> [] \<and> sorted_wrt (<) p \<and> successively (\<lambda>a b. \<not> far a b) p) \<and>
    (\<forall>p \<in> set parts. \<forall>q \<in> set parts. p \<noteq> q \<longrightarrow> (\<forall>x \<in> set p. \<forall>y \<in> set q. far x y \<or> far y x))"
proof -
  from partitionAddressSet_clusters [of xs] assms obtain parts where
    run: "partitionAddressSet xs = Ok parts" and mset: "mset parts = mset (clusters xs)"
    by (auto simp: low_set_def)
  have parts: "set parts = set (clusters xs)" using mset by (rule mset_eq_setD)
  have flat: "mset (concat ps) = sum_mset (image_mset mset (mset ps))" for ps :: "addr list list"
    by (induction ps) auto
  have "mset (concat parts) = mset xs"
    using flat [of parts] flat [of "clusters xs"] by (simp add: mset clusters_cover)
  moreover have "sorted_wrt (<) p" if "p \<in> set parts" for p
    using sorted_part [of "(<)" "clusters xs" p] that assms(1) by (simp add: clusters_cover parts)
  ultimately show ?thesis
    using run clusters_members [of _ xs] clusters_near [of _ xs]
      sorted_wrt_pairs [OF clusters_far [OF assms(1)]] unfolding parts [symmetric] by blast
qed

lemma partitionAddressSet_splits_at_gaps_witness:
  "\<exists>parts. partitionAddressSet [10, 11, 171, 400, 401, 562] = Ok parts \<and>
    mset (concat parts) = mset [10, 11, 171, 400, 401, 562] \<and>
    set parts = {[10, 11, 171], [400, 401, 562]}"
proof -
  have "partitionAddressSet [10, 11, 171, 400, 401, 562] = Ok [[10, 11, 171], [400, 401, 562]]"
    by code_simp
  with partitionAddressSet_splits_at_gaps [of "[10, 11, 171, 400, 401, 562]"] show ?thesis by simp
qed

text \<open>C11: however a symbol table is filled, its functions are disjoint ranges within the table's
  own, each as it was added, and every valid function that is missing overlaps one that is present;
  the ranges kept for a loop or a statement are exactly its valid ones, in order.\<close>

theorem filled_symbol_table:
  assumes "fill adds (SymbolTable_make r) = Ok st"
  shows "sorted_wrt (\<lambda>f g. dm_end (fst f) \<le> dm_begin (fst g)) (dm_functions st) \<and>
    (\<forall>(f, name) \<in> set (dm_functions st).
       proper f \<and> points f \<subseteq> points r \<and> AddFunction (dm_begin f) (dm_end f) name \<in> set adds) \<and>
    (\<forall>b e name. AddFunction b e name \<in> set adds \<and> b < e \<and> {b..<e} \<subseteq> points r \<longrightarrow>
       (\<exists>(f, _) \<in> set (dm_functions st). points f \<inter> {b..<e} \<noteq> {})) \<and>
    entry_of (dm_loops st) = loop_ranges r adds \<and>
    entry_of (dm_statements st) = statement_ranges r adds"
proof -
  have rec: "recorded r adds st" by (rule fill_recorded [OF assms])
  then have ok: "table_ok st" and r: "st_range st = r" by (simp_all add: recorded_def)
  have "sorted_wrt Interval_precedes (map fst (dm_functions st))"
    using ok by (simp add: table_ok_def range_key.ordered_def keys_def)
  then have "sorted_wrt (\<lambda>f g. dm_end f \<le> dm_begin g) (map fst (dm_functions st))"
    by (rule sorted_wrt_mono_rel [rotated]) simp
  moreover have "within st f" if "(f, name) \<in> set (dm_functions st)" for f name
    using ok that by (force simp: table_ok_def keys_def)
  moreover have "\<exists>(f, _) \<in> set (dm_functions st). points f \<inter> {b..<e} \<noteq> {}"
    if "AddFunction b e name \<in> set adds" "b < e" "{b..<e} \<subseteq> points r" for b e name
  proof -
    have "accepts st b e" using that r by (simp add: accepts_def)
    with rec that(1) have "\<not> clear_of st (Interval b e)" unfolding recorded_def by blast
    then show ?thesis by (auto simp: clear_of_def points_def)
  qed
  ultimately show ?thesis
    using rec r unfolding recorded_def within_def sorted_wrt_map by auto
qed

definition sample_additions :: "addition list" where
  "sample_additions = [AddFunction 16 64 ''f'', AddFunction 32 80 ''g'', AddFunction 64 72 ''h'',
     AddFunction 90 300 ''out'', AddLoop 20 28 20, AddStatement 16 24 ''/a.c'' 3 1,
     AddStatement 40 44 ''/a.c'' 3 1, AddLoop 30 36 20, AddFunction 8 8 ''empty'']"

lemma filled_symbol_table_witness:
  "\<exists>st. fill sample_additions (SymbolTable_make (Interval 0 128)) = Ok st \<and>
    dm_functions st = [(Interval 16 64, ''f''), (Interval 64 72, ''h'')] \<and>
    entry_of (dm_loops st) 20 = [Interval 20 28, Interval 30 36]"
proof -
  have "case fill sample_additions (SymbolTable_make (Interval 0 128)) of
      Ok _ \<Rightarrow> True | _ \<Rightarrow> False"
    by code_simp
  then obtain st where run: "fill sample_additions (SymbolTable_make (Interval 0 128)) = Ok st"
    by (auto split: res.splits)
  have "dm_functions (the_Ok (fill sample_additions (SymbolTable_make (Interval 0 128))))
      = [(Interval 16 64, ''f''), (Interval 64 72, ''h'')]"
    by code_simp
  moreover have "loop_ranges (Interval 0 128) sample_additions 20
      = [Interval 20 28, Interval 30 36]"
    by code_simp
  ultimately show ?thesis using filled_symbol_table [OF run] run by simp
qed

end
