(* ===== verification/Session.thy ===== *)
theory Session
  imports Transactions AddressBitmap
begin

text \<open>
  An experiment database as the classes above \<open>Database\<close> see it: the tables of the schema that
  \<open>Experiment::create\<close> lays down (Experiment.cxx), and a session that reads and writes them inside
  the transaction macros. A session composes the abstract machine that \<open>Database\<close> was shown to
  implement (Transactions) with tables that can be saved and restored. A \<open>SELECT\<close> is the list of its
  rows in scan order. Addresses and times are kept as the words they encode; the encoding keeps
  their order, so that comparisons in a query are comparisons of words.
\<close>

section \<open>The tables\<close>

record ThreadRow =
  thread_id :: int
  command :: "string option"
  host :: string
  pid :: "int option"
  posix_tid :: "64 word option"
  openmp_tid :: "int option"
  mpi_rank :: "int option"
  mpi_impl :: "string option"

record AddressSpaceRow =
  as_id :: int
  as_thread :: int
  time_begin :: time
  time_end :: time
  addr_begin :: addr
  addr_end :: addr
  as_linked_object :: int

record LinkedObjectRow =
  lo_id :: int
  lo_begin :: addr
  lo_end :: addr
  lo_file :: int
  is_executable :: int

datatype FunctionRow = FunctionRow (fn_id: int) (fn_linked_object: int) (fn_name: string)

datatype LoopRow = LoopRow (lp_id: int) (lp_linked_object: int) (lp_head: addr)

datatype StatementRow =
  StatementRow (sm_id: int) (sm_linked_object: int) (sm_file: int) (sm_line: int) (sm_column: int)

text \<open>The tables \<open>FunctionRanges\<close>, \<open>LoopRanges\<close> and \<open>StatementRanges\<close> share their layout.\<close>

datatype RangeRow =
  RangeRow (rg_owner: int) (rg_begin: addr) (rg_end: addr) (valid_bitmap: "byte list")

datatype FileRow = FileRow (fl_id: int) (fl_path: string)

datatype CollectingRow = CollectingRow (cg_collector: int) (cg_thread: int) (is_postponed: int)

datatype CollectorRow =
  CollectorRow (cl_id: int) (unique_id: string) (parameter_data: "byte list option")

record DataRow =
  da_id :: int
  da_collector :: int
  da_thread :: int
  da_time_begin :: time
  da_time_end :: time
  da_addr_begin :: addr
  da_addr_end :: addr
  da_blob :: "byte list"

datatype ViewRow = ViewRow (vw_id: int) (view_cmd: "string option") (view_data: "string option")

record tables =
  Threads :: "ThreadRow list"
  AddressSpaces :: "AddressSpaceRow list"
  LinkedObjects :: "LinkedObjectRow list"
  Functions :: "FunctionRow list"
  FunctionRanges :: "RangeRow list"
  Loops :: "LoopRow list"
  LoopRanges :: "RangeRow list"
  Statements :: "StatementRow list"
  StatementRanges :: "RangeRow list"
  Files :: "FileRow list"
  Collecting :: "CollectingRow list"
  Collectors :: "CollectorRow list"
  Data :: "DataRow list"
  Views :: "ViewRow list"

definition no_tables :: tables where
  "no_tables = \<lparr>Threads = [], AddressSpaces = [], LinkedObjects = [], Functions = [],
     FunctionRanges = [], Loops = [], LoopRanges = [], Statements = [], StatementRanges = [],
     Files = [], Collecting = [], Collectors = [], Data = [], Views = []\<rparr>"

text \<open>The rowid that an \<open>INSERT\<close> gives to a new row: one more than the largest in use.\<close>

definition new_id :: "int list \<Rightarrow> int" where
  "new_id ids = foldr max ids 0 + 1"

lemma new_id_greater: "i \<in> set ids \<Longrightarrow> i < new_id ids"
proof -
  have "i \<le> foldr max ids 0" if "i \<in> set ids" for i using that by (induction ids) auto
  then show "i \<in> set ids \<Longrightarrow> i < new_id ids" by (force simp: new_id_def)
qed

lemma new_id_fresh: "new_id ids \<notin> set ids"
  using new_id_greater by blast

lemma new_id_row: "row \<in> set rows \<Longrightarrow> the_id row \<noteq> new_id (map the_id rows)"
  using new_id_greater [of "the_id row" "map the_id rows"] by auto

lemma new_id_positive: "0 < new_id ids"
proof -
  have "0 \<le> foldr max ids 0" by (induction ids) auto
  then show ?thesis by (simp add: new_id_def)
qed

section \<open>Sessions\<close>

record session =
  stored :: tables
  saved :: tables
  nesting :: nesting

fun apply_tx :: "tx_command \<Rightarrow> session \<Rightarrow> session" where
  "apply_tx TxBegin s = s\<lparr>saved := stored s\<rparr>"
| "apply_tx TxCommit s = s"
| "apply_tx TxRollback s = s\<lparr>stored := saved s\<rparr>"

definition tx_call :: "db_call \<Rightarrow> session \<Rightarrow> session" where
  "tx_call c s = (fold apply_tx (issued c (nesting s)) s)\<lparr>nesting := nest c (nesting s)\<rparr>"

text \<open>\<open>BEGIN_TRANSACTION\<close> or \<open>BEGIN_WRITE_TRANSACTION\<close>, a body and \<open>END_TRANSACTION\<close>.\<close>

definition in_transaction :: "bool \<Rightarrow> (session, 'a) op \<Rightarrow> (session, 'a) op" where
  "in_transaction will_modify body s =
     (case body (tx_call (Begin will_modify) s) of
        (Ok x, s') \<Rightarrow> (Ok x, tx_call Commit s')
      | (Throw e, s') \<Rightarrow> (Throw e, tx_call Rollback s')
      | (Abort, s') \<Rightarrow> (Abort, s')
      | (Blocked, s') \<Rightarrow> (Blocked, s'))"

text \<open>A body that only reads is a function of the tables.\<close>

definition reading :: "(tables \<Rightarrow> 'a res) \<Rightarrow> (session, 'a) op" where
  "reading q = in_transaction False (\<lambda>s. (q (stored s), s))"

definition update_tables :: "(tables \<Rightarrow> tables) \<Rightarrow> (session, unit) op" where
  "update_tables f s = (Ok (), s\<lparr>stored := f (stored s)\<rparr>)"

definition query :: "(tables \<Rightarrow> 'a) \<Rightarrow> (session, 'a) op" where
  "query f s = (Ok (f (stored s)), s)"

text \<open>A loop over the rows of a \<open>SELECT\<close> whose body may throw or abort.\<close>

fun fold_res :: "('b \<Rightarrow> 'a \<Rightarrow> 'b res) \<Rightarrow> 'a list \<Rightarrow> 'b \<Rightarrow> 'b res" where
  "fold_res f [] acc = Ok acc"
| "fold_res f (x # xs) acc = bind_res (f acc x) (fold_res f xs)"

lemma fold_res_append: "fold_res f (xs @ ys) acc = bind_res (fold_res f xs acc) (fold_res f ys)"
proof -
  have "fold_res f (xs @ ys) = (\<lambda>acc. bind_res (fold_res f xs acc) (fold_res f ys))"
    by (induction xs) (simp_all add: bind_res_assoc)
  then show ?thesis by simp
qed

lemma fold_res_Ok:
  "(\<And>acc x. x \<in> set xs \<Longrightarrow> f acc x = Ok (g acc x)) \<Longrightarrow> fold_res f xs acc = Ok (foldl g acc xs)"
  by (induction xs arbitrary: acc) simp_all

section \<open>What a transaction guarantees\<close>

lemma tx_call_simps [simp]:
  "saved (tx_call (Begin w) s) = (if fst (nesting s) = 0 then stored s else saved s)"
  "stored (tx_call (Begin w) s) = stored s"
  "nesting (tx_call (Begin w) s) = (Suc (fst (nesting s)), fst (nesting s) = 0 \<or> snd (nesting s))"
  "stored (tx_call Commit s) =
     (if fst (nesting s) = 1 \<and> \<not> snd (nesting s) then saved s else stored s)"
  "saved (tx_call Commit s) = saved s"
  "nesting (tx_call Commit s) = (fst (nesting s) - 1, snd (nesting s))"
  "stored (tx_call Rollback s) = (if fst (nesting s) = 1 then saved s else stored s)"
  "saved (tx_call Rollback s) = saved s"
  "nesting (tx_call Rollback s) = (fst (nesting s) - 1, False)"
  by (cases "nesting s"; simp add: tx_call_def)+

text \<open>
  What a body may do to its session: it keeps the depth and the saved tables, and it may doom the
  transaction but not revive it.
\<close>

definition disciplined :: "(session, 'a) op \<Rightarrow> bool" where
  "disciplined m \<longleftrightarrow> (\<forall>s r s'. m s = (r, s') \<longrightarrow> (\<exists>x. r = Ok x) \<or> (\<exists>e. r = Throw e) \<longrightarrow>
     fst (nesting s') = fst (nesting s) \<and>
     (0 < fst (nesting s) \<longrightarrow> saved s' = saved s \<and> (snd (nesting s') \<longrightarrow> snd (nesting s))))"

named_theorems disciplined_intros "operations that keep the discipline of transactions"

lemma disciplined_basic [disciplined_intros]:
  "disciplined (ret x)"
  "disciplined (throw e)"
  "disciplined (lift_res r)"
  "disciplined (update_tables f)"
  "disciplined (query q)"
  "disciplined (\<lambda>s. (p (stored s), s))"
  by (auto simp: disciplined_def ret_def throw_def lift_res_def update_tables_def query_def)

lemma disciplined_D:
  assumes "disciplined m" and "m s = (r, s')" and "(\<exists>x. r = Ok x) \<or> (\<exists>e. r = Throw e)"
  shows "fst (nesting s') = fst (nesting s)"
    and "0 < fst (nesting s) \<Longrightarrow> saved s' = saved s"
    and "0 < fst (nesting s) \<Longrightarrow> snd (nesting s') \<Longrightarrow> snd (nesting s)"
  using assms unfolding disciplined_def by blast+

lemma disciplined_andthen [disciplined_intros]:
  assumes m: "disciplined m" and f: "\<And>x. disciplined (f x)"
  shows "disciplined (andthen m f)"
  unfolding disciplined_def
proof (intro allI impI)
  fix s r s'
  assume run: "andthen m f s = (r, s')" and ok: "(\<exists>x. r = Ok x) \<or> (\<exists>e. r = Throw e)"
  obtain r1 s1 where m1: "m s = (r1, s1)" by fastforce
  with run ok have r1: "(\<exists>x. r1 = Ok x) \<or> (\<exists>e. r1 = Throw e)"
    by (cases r1) (auto simp: andthen_simps)
  note one = disciplined_D [OF m m1 r1]
  show "fst (nesting s') = fst (nesting s) \<and>
      (0 < fst (nesting s) \<longrightarrow> saved s' = saved s \<and> (snd (nesting s') \<longrightarrow> snd (nesting s)))"
  proof (cases r1)
    case (Ok x)
    with run m1 have "f x s1 = (r, s')" by (simp add: andthen_simps)
    note two = disciplined_D [OF f this ok]
    show ?thesis using one two by auto
  next
    case (Throw e)
    with run m1 have "s' = s1" by (simp add: andthen_simps)
    then show ?thesis using one by simp
  qed (use r1 in simp_all)
qed

lemma disciplined_for_each [disciplined_intros]:
  "(\<And>acc x. disciplined (body acc x)) \<Longrightarrow> disciplined (for_each xs body acc)"
  by (induction xs arbitrary: acc) (simp_all add: disciplined_intros)

lemma disciplined_control [disciplined_intros]:
  "disciplined m \<Longrightarrow> disciplined m' \<Longrightarrow> disciplined (if b then m else m')"
  "(\<And>x y. disciplined (f x y)) \<Longrightarrow> disciplined (case p of (x, y) \<Rightarrow> f x y)"
  "disciplined m \<Longrightarrow> (\<And>x. disciplined (g x)) \<Longrightarrow> disciplined (case z of None \<Rightarrow> m | Some x \<Rightarrow> g x)"
  by simp (cases p, simp, cases z, simp_all)

lemma in_transaction_cases:
  assumes "disciplined body" and "in_transaction w body s = (r, s')"
  obtains (committed) x t where "r = Ok x" and "body (tx_call (Begin w) s) = (Ok x, t)"
      and "s' = tx_call Commit t" and "fst (nesting t) = Suc (fst (nesting s))"
      and "saved t = saved (tx_call (Begin w) s)"
      and "snd (nesting t) \<Longrightarrow> fst (nesting s) = 0 \<or> snd (nesting s)"
  | (rolled) e t where "r = Throw e" and "body (tx_call (Begin w) s) = (Throw e, t)"
      and "s' = tx_call Rollback t" and "fst (nesting t) = Suc (fst (nesting s))"
      and "saved t = saved (tx_call (Begin w) s)"
  | (ended) "r = Abort \<or> r = Blocked"
proof -
  obtain r1 t where body: "body (tx_call (Begin w) s) = (r1, t)" by fastforce
  note d = disciplined_D [OF assms(1) body]
  show ?thesis
  proof (cases r1)
    case (Ok x)
    show ?thesis by (rule committed [of x t]) (use assms(2) body d Ok in \<open>auto simp: in_transaction_def\<close>)
  next
    case (Throw e)
    show ?thesis by (rule rolled [of e t]) (use assms(2) body d Throw in \<open>auto simp: in_transaction_def\<close>)
  qed (use assms(2) body ended in \<open>simp_all add: in_transaction_def\<close>)
qed

lemma disciplined_in_transaction [disciplined_intros]:
  assumes "disciplined body"
  shows "disciplined (in_transaction w body)"
  unfolding disciplined_def
proof (intro allI impI)
  fix s r s'
  assume run: "in_transaction w body s = (r, s')" and ok: "(\<exists>x. r = Ok x) \<or> (\<exists>e. r = Throw e)"
  show "fst (nesting s') = fst (nesting s) \<and>
      (0 < fst (nesting s) \<longrightarrow> saved s' = saved s \<and> (snd (nesting s') \<longrightarrow> snd (nesting s)))"
    by (rule in_transaction_cases [OF assms run]) (use ok in auto)
qed

lemma disciplined_reading [disciplined_intros]: "disciplined (reading q)"
  unfolding reading_def by (intro disciplined_intros)

text \<open>An outermost transaction takes effect as a whole or not at all.\<close>

lemma outermost_atomic:
  assumes "disciplined body" and "fst (nesting s) = 0" and "in_transaction w body s = (r, s')"
  shows "r = Ok x \<Longrightarrow> \<exists>t. body (tx_call (Begin w) s) = (Ok x, t) \<and> fst (nesting s') = 0 \<and>
      stored s' = (if snd (nesting t) then stored t else stored s)"
    and "r = Throw e \<Longrightarrow> stored s' = stored s \<and> fst (nesting s') = 0"
  by (rule in_transaction_cases [OF assms(1,3)]; use assms(2) in auto)+

text \<open>Reading leaves the tables alone and always returns what the query returns.\<close>

lemma reading_fst: "fst (reading q s) = q (stored s)"
  by (auto simp: reading_def in_transaction_def split: res.splits)

lemma reading_stored:
  assumes "reading q s = (r, s')" and "fst (nesting s) = 0"
  shows "stored s' = stored s"
  using assms by (auto simp: reading_def in_transaction_def split: res.splits)

lemma reading_Ok:
  assumes "q (stored s) = Ok x"
  shows "reading q s = (Ok x, tx_call Commit (tx_call (Begin False) s))"
  using assms by (simp add: reading_def in_transaction_def)

end
