(* ===== verification/SymbolStore.thy ===== *)
theory SymbolStore
  imports Session SymbolTable
begin

text \<open>
  \<open>SymbolTable::processAndStore\<close> (SymbolTable.cxx): a filled symbol table is written to the tables
  of an experiment database for one linked object. The main results say what the tables then mean:
  every function, loop and statement of the symbol table is present with exactly its addresses,
  relative to the linked object, and the rest of the database is as before.
\<close>

section \<open>Storing\<close>

text \<open>The addresses that a loop \<open>for(k = r.getBegin(); k != r.getEnd(); ++k)\<close> visits.\<close>

definition address_list :: "addr interval \<Rightarrow> addr list" where
  "address_list r = map (\<lambda>i. dm_begin r + of_nat i) [0..<unat (Interval_getWidth r)]"

definition set_all :: "addr list \<Rightarrow> AddressBitmap \<Rightarrow> AddressBitmap res" where
  "set_all = fold_res (\<lambda>bm a. AddressBitmap_setValue a True bm)"

definition unique_addresses :: "addr \<Rightarrow> addr interval list \<Rightarrow> addr list res" where
  "unique_addresses base ranges =
     fold_res (\<lambda>addresses r.
         fold_res (\<lambda>addresses k.
             bind_res (Address_minus k base) (\<lambda>d. Ok (set_insert (<) d addresses)))
           (address_list r) addresses)
       ranges []"

definition bitmap_of_set :: "addr list \<Rightarrow> AddressBitmap res" where
  "bitmap_of_set p =
     bind_res (Interval_make (hd p) (Address_plus_diff (last p) 1)) (\<lambda>r.
       set_all p (AddressBitmap_make r))"

definition insert_row :: "(tables \<Rightarrow> int) \<Rightarrow> (int \<Rightarrow> tables \<Rightarrow> tables) \<Rightarrow> (session, int) op" where
  "insert_row next_id add =
     andthen (query next_id) (\<lambda>i. andthen (update_tables (add i)) (\<lambda>_. ret i))"

definition range_row :: "int \<Rightarrow> AddressBitmap \<Rightarrow> RangeRow" where
  "range_row owner bm =
     RangeRow owner (dm_begin (bm_range bm)) (dm_end (bm_range bm)) (AddressBitmap_getBlob bm)"

type_synonym range_table = "(RangeRow list \<Rightarrow> RangeRow list) \<Rightarrow> tables \<Rightarrow> tables"

definition insert_range :: "range_table \<Rightarrow> int \<Rightarrow> AddressBitmap \<Rightarrow> (session, unit) op" where
  "insert_range table owner bm = update_tables (table (\<lambda>rows. rows @ [range_row owner bm]))"

text \<open>The addresses of a loop or a statement, as one row for every part of the partition.\<close>

definition store_ranges ::
  "range_table \<Rightarrow> addr \<Rightarrow> int \<Rightarrow> addr interval list \<Rightarrow> (session, unit) op" where
  "store_ranges table base owner ranges =
     andthen (lift_res (bind_res (unique_addresses base ranges) partitionAddressSet)) (\<lambda>parts.
       for_each parts (\<lambda>_ p.
         andthen (lift_res (bitmap_of_set p)) (insert_range table owner)) ())"

definition store_function :: "addr \<Rightarrow> int \<Rightarrow> addr interval \<times> string \<Rightarrow> (session, unit) op" where
  "store_function base linked_object f =
     andthen (lift_res (Address_minus (dm_begin (fst f)) base)) (\<lambda>begin.
     andthen (lift_res (Address_minus (dm_end (fst f)) base)) (\<lambda>end.
     andthen (lift_res (bind_res (Interval_make begin end) (\<lambda>r.
         set_all (address_list r) (AddressBitmap_make r)))) (\<lambda>bm.
     andthen (insert_row (\<lambda>db. new_id (map fn_id (Functions db)))
         (\<lambda>i. Functions_update (\<lambda>rows. rows @ [FunctionRow i linked_object (snd f)]))) (\<lambda>i.
       insert_range FunctionRanges_update i bm))))"

definition store_loop :: "addr \<Rightarrow> int \<Rightarrow> addr \<times> addr interval list \<Rightarrow> (session, unit) op" where
  "store_loop base linked_object l =
     andthen (lift_res (Address_minus (fst l) base)) (\<lambda>head.
     andthen (insert_row (\<lambda>db. new_id (map lp_id (Loops db)))
         (\<lambda>i. Loops_update (\<lambda>rows. rows @ [LoopRow i linked_object head]))) (\<lambda>i.
       store_ranges LoopRanges_update base i (snd l)))"

definition find_file :: "string \<Rightarrow> tables \<Rightarrow> int" where
  "find_file path db =
     foldl (\<lambda>_ row. fl_id row) (- 1) (filter (\<lambda>row. fl_path row = path) (Files db))"

definition store_statement ::
  "addr \<Rightarrow> int \<Rightarrow> StatementEntry \<times> addr interval list \<Rightarrow> (session, unit) op" where
  "store_statement base linked_object s =
     andthen (query (find_file (dm_path (fst s)))) (\<lambda>found.
     andthen
       (if found = - 1
        then insert_row (\<lambda>db. new_id (map fl_id (Files db)))
               (\<lambda>i. Files_update (\<lambda>rows. rows @ [FileRow i (dm_path (fst s))]))
        else ret found) (\<lambda>file.
     andthen (insert_row (\<lambda>db. new_id (map sm_id (Statements db)))
         (\<lambda>i. Statements_update (\<lambda>rows. rows @
            [StatementRow i linked_object file (dm_line (fst s)) (dm_column (fst s))]))) (\<lambda>i.
       store_ranges StatementRanges_update base i (snd s))))"

definition processAndStore :: "SymbolTable \<Rightarrow> int \<Rightarrow> (session, unit) op" where
  "processAndStore self linked_object =
     in_transaction True
       (let base = dm_begin (st_range self) in
        andthen (for_each (dm_functions self) (\<lambda>_. store_function base linked_object) ()) (\<lambda>_.
        andthen (for_each (dm_loops self) (\<lambda>_. store_loop base linked_object) ()) (\<lambda>_.
          for_each (dm_statements self) (\<lambda>_. store_statement base linked_object) ())))"

section \<open>What the rows of a range table mean\<close>

definition row_bitmap :: "(nat \<Rightarrow> byte) \<Rightarrow> RangeRow \<Rightarrow> AddressBitmap res" where
  "row_bitmap beyond row =
     bind_res (Interval_make (rg_begin row) (rg_end row)) (\<lambda>r.
       AddressBitmap_of_blob beyond r (valid_bitmap row))"

definition row_ok :: "RangeRow \<Rightarrow> bool" where
  "row_ok row \<longleftrightarrow> (\<exists>owner bm. bm_ok bm \<and> row = range_row owner bm)"

definition row_addresses :: "RangeRow \<Rightarrow> addr set" where
  "row_addresses row =
     {a. \<exists>bm. row_bitmap (\<lambda>_. 0) row = Ok bm \<and> a \<in> points (bm_range bm) \<and> bm_value bm a}"

definition owned :: "RangeRow list \<Rightarrow> int \<Rightarrow> addr set" where
  "owned rows i = (\<Union>row \<in> {row \<in> set rows. rg_owner row = i}. row_addresses row)"

lemma owned_simps [simp]:
  "owned [] i = {}"
  "owned (rows @ rows') i = owned rows i \<union> owned rows' i"
  "owned [row] i = (if rg_owner row = i then row_addresses row else {})"
  by (auto simp: owned_def)

lemma owned_none: "i \<notin> rg_owner ` set rows \<Longrightarrow> owned rows i = {}"
  by (auto simp: owned_def)

lemma row_bitmap_range_row:
  assumes "bm_ok bm"
  shows "row_bitmap beyond (range_row owner bm) = Ok bm"
proof -
  have "Interval_make (dm_begin (bm_range bm)) (dm_end (bm_range bm)) = Ok (bm_range bm)"
    using assms by (simp add: Interval_make_Ok bm_ok_def proper_def)
  then show ?thesis by (simp add: row_bitmap_def range_row_def of_getBlob [OF assms])
qed

lemma row_addresses_range_row:
  "bm_ok bm \<Longrightarrow> row_addresses (range_row owner bm) = {a \<in> points (bm_range bm). bm_value bm a}"
  by (simp add: row_addresses_def row_bitmap_range_row del: points_iff)

lemma row_ok_range_row: "bm_ok bm \<Longrightarrow> row_ok (range_row owner bm)"
  by (auto simp: row_ok_def)

lemma range_row_owner [simp]: "rg_owner (range_row owner bm) = owner"
  by (simp add: range_row_def)

section \<open>Bitmaps\<close>

lemma address_list_set:
  assumes "proper r"
  shows "set (address_list r) = points r"
proof -
  have be: "dm_begin r \<le> dm_end r" using assms by (simp add: proper_def)
  have "a \<in> set (address_list r) \<longleftrightarrow> a \<in> points r" for a
  proof
    assume "a \<in> set (address_list r)"
    then obtain i where a: "a = dm_begin r + of_nat i" and i: "i < unat (dm_end r - dm_begin r)"
      by (auto simp: address_list_def Interval_getWidth_def)
    have "unat (dm_end r) < 2 ^ 64"
      by (rule order_less_le_trans [OF unsigned_less]) simp
    moreover have "i < unat (dm_end r) - unat (dm_begin r)" using i be by (simp add: unat_sub)
    moreover from calculation have "unat (dm_begin r + of_nat i) = unat (dm_begin r) + i"
      by (simp add: unat_word_ariths unat_of_nat take_bit_nat_eq_self)
    ultimately show "a \<in> points r"
      by (simp add: a points_def word_le_nat_alt word_less_nat_alt del: points_iff)
  next
    assume a: "a \<in> points r"
    then have le: "dm_begin r \<le> a" and less: "a < dm_end r" by (auto simp: points_def)
    then have "unat (a - dm_begin r) < unat (dm_end r - dm_begin r)"
      using be by (simp add: unat_sub word_le_nat_alt word_less_nat_alt diff_less_mono)
    then show "a \<in> set (address_list r)"
      unfolding address_list_def Interval_getWidth_def
      by (auto simp: image_iff intro!: bexI [of _ "unat (a - dm_begin r)"])
  qed
  then show ?thesis by blast
qed

lemma set_all_ok:
  assumes "bm_ok bm" and "set as \<subseteq> points (bm_range bm)"
  shows "\<exists>bm'. set_all as bm = Ok bm' \<and> bm_ok bm' \<and> bm_range bm' = bm_range bm \<and>
    (\<forall>x \<in> points (bm_range bm). bm_value bm' x \<longleftrightarrow> x \<in> set as \<or> bm_value bm x)"
  using assms
proof (induction as arbitrary: bm)
  case Nil
  then show ?case by (simp add: set_all_def)
next
  case (Cons a as)
  from Cons.prems setValue_ok [of bm a True] obtain bm1 where
    one: "AddressBitmap_setValue a True bm = Ok bm1" "bm_ok bm1" "bm_range bm1 = bm_range bm"
      "\<forall>x \<in> points (bm_range bm). bm_value bm1 x = (if x = a then True else bm_value bm x)"
    by auto
  from Cons.IH [OF one(2)] Cons.prems(2) one(3) obtain bm2 where
    two: "set_all as bm1 = Ok bm2" "bm_ok bm2" "bm_range bm2 = bm_range bm1"
      "\<forall>x \<in> points (bm_range bm1). bm_value bm2 x \<longleftrightarrow> x \<in> set as \<or> bm_value bm1 x"
    by auto
  have "set_all (a # as) bm = Ok bm2" using one(1) two(1) by (simp add: set_all_def)
  with one two show ?case by auto
qed

lemma make_ok:
  assumes "proper r" and "unat (Interval_getWidth r) < 2 ^ 32"
  shows "bm_ok (AddressBitmap_make r)" and "a \<in> points r \<Longrightarrow> \<not> bm_value (AddressBitmap_make r) a"
proof -
  show ok: "bm_ok (AddressBitmap_make r)"
    using assms by (simp add: bm_ok_def AddressBitmap_make_def bm_width_def)
  assume a: "a \<in> points r"
  then have "unat (a - dm_begin r) < unat (Interval_getWidth r)"
    using bm_offset(2) [OF ok, of a] by (simp add: AddressBitmap_make_def bm_width_def)
  then show "\<not> bm_value (AddressBitmap_make r) a"
    by (simp add: bm_value_def AddressBitmap_make_def)
qed

lemma filled_bitmap:
  assumes "proper r" and "unat (Interval_getWidth r) < 2 ^ 32" and "set as \<subseteq> points r"
  obtains bm where "set_all as (AddressBitmap_make r) = Ok bm" and "bm_ok bm"
    and "bm_range bm = r" and "{a \<in> points r. bm_value bm a} = set as"
proof -
  have r: "bm_range (AddressBitmap_make r) = r" by (simp add: AddressBitmap_make_def)
  from set_all_ok [OF make_ok(1) [OF assms(1,2)], of as] assms(3) r obtain bm where
    bm: "set_all as (AddressBitmap_make r) = Ok bm" "bm_ok bm" "bm_range bm = r"
    and v: "\<forall>x \<in> points r. bm_value bm x \<longleftrightarrow> x \<in> set as \<or> bm_value (AddressBitmap_make r) x"
    by auto
  have "{a \<in> points r. bm_value bm a} = set as"
    using v make_ok(2) [OF assms(1,2)] assms(3) by blast
  with bm that show ?thesis by blast
qed

definition bits :: "AddressBitmap \<Rightarrow> addr set" where
  "bits bm = {a \<in> points (bm_range bm). bm_value bm a}"

text \<open>Addresses relative to the beginning of the symbol table's range.\<close>

definition relative :: "addr interval \<Rightarrow> addr interval \<Rightarrow> addr set" where
  "relative R r = (\<lambda>a. a - dm_begin R) ` points r"

definition small :: "addr interval \<Rightarrow> bool" where
  "small R \<longleftrightarrow> proper R \<and> unat (Interval_getWidth R) < 2 ^ 32"

lemma relative_ok:
  assumes "small R" and "a \<in> points R"
  shows "Address_minus a (dm_begin R) = Ok (a - dm_begin R)"
    and "a - dm_begin R < Interval_getWidth R" and "Interval_getWidth R < 2 ^ 32"
proof -
  have ok: "bm_ok (AddressBitmap_make R)" using assms(1) make_ok(1) by (simp add: small_def)
  note offset = bm_offset [OF ok, of a]
  show "Address_minus a (dm_begin R) = Ok (a - dm_begin R)"
    using offset(1) assms(2) by (simp add: AddressBitmap_make_def)
  show "a - dm_begin R < Interval_getWidth R"
    using offset(2) assms(2) by (simp add: AddressBitmap_make_def bm_width_def word_less_nat_alt)
  show "Interval_getWidth R < 2 ^ 32" using assms(1) by (simp add: small_def word_less_nat_alt)
qed

lemma unique_addresses_ok:
  assumes R: "small R" and ranges: "\<forall>r \<in> set ranges. proper r \<and> points r \<subseteq> points R"
  shows "\<exists>as. unique_addresses (dm_begin R) ranges = Ok as \<and> linear.ordered as \<and>
    set as = (\<Union>r \<in> set ranges. relative R r)"
proof -
  let ?b = "dm_begin R"
  have inner: "fold_res (\<lambda>addresses k. bind_res (Address_minus k ?b) (\<lambda>d. Ok (set_insert (<) d addresses)))
      ks addresses = Ok (foldl (\<lambda>addresses k. set_insert (<) (k - ?b) addresses) addresses ks)"
    if "set ks \<subseteq> points R" for ks addresses
    by (rule fold_res_Ok) (use relative_ok(1) [OF R] that in auto)
  have "unique_addresses ?b ranges = Ok (foldl (\<lambda>addresses r.
      foldl (\<lambda>addresses k. set_insert (<) (k - ?b) addresses) addresses (address_list r)) [] ranges)"
    unfolding unique_addresses_def
    by (rule fold_res_Ok, rule inner) (use ranges address_list_set in auto)
  moreover have "linear.ordered (foldl (\<lambda>addresses k. set_insert (<) (k - ?b) addresses) xs ks)"
    if "linear.ordered xs" for xs ks
    using that by (induction ks arbitrary: xs) (simp_all add: linear.set_insert_ordered)
  then have "linear.ordered (foldl (\<lambda>addresses r.
      foldl (\<lambda>addresses k. set_insert (<) (k - ?b) addresses) addresses (address_list r)) xs rs)"
    if "linear.ordered xs" for xs rs
    using that by (induction rs arbitrary: xs) simp_all
  moreover have "set (foldl (\<lambda>addresses k. set_insert (<) (k - ?b) addresses) xs ks)
      = set xs \<union> (\<lambda>k. k - ?b) ` set ks" for xs ks
    by (induction ks arbitrary: xs) (auto simp: linear_set_insert)
  then have "set (foldl (\<lambda>addresses r.
      foldl (\<lambda>addresses k. set_insert (<) (k - ?b) addresses) addresses (address_list r)) xs rs)
      = set xs \<union> (\<Union>r \<in> set rs. (\<lambda>k. k - ?b) ` set (address_list r))" for xs rs
    by (induction rs arbitrary: xs) auto
  ultimately show ?thesis using ranges by (simp add: relative_def address_list_set)
qed

lemma sorted_hd_last:
  assumes "sorted_wrt (<) p" and "x \<in> set (p :: 'a::linorder list)"
  shows "hd p \<le> x" and "x \<le> last p"
proof -
  show "hd p \<le> x" using assms by (cases p) auto
  show "x \<le> last p" using assms by (induction p) (auto intro: less_imp_le)
qed

lemma bitmap_of_set_ok:
  assumes "p \<noteq> []" and "sorted_wrt (<) p" and "\<forall>a \<in> set p. a < W" and "W < 2 ^ 32"
  obtains bm where "bitmap_of_set p = Ok bm" and "bm_ok bm" and "bits bm = set p"
proof -
  let ?r = "Interval (hd p) (last p + 1)"
  have last: "last p < W" using assms(1,3) by simp
  then have "unat (last p) < unat W" and W: "unat W < 2 ^ 32"
    using assms(4) by (simp_all add: word_less_nat_alt)
  then have one: "unat (last p + 1) = unat (last p) + 1"
    by (simp add: unat_word_ariths take_bit_nat_eq_self)
  have ends: "hd p \<le> last p" using sorted_hd_last [OF assms(2), of "last p"] assms(1) by simp
  then have proper: "proper ?r" by (simp add: proper_def word_less_nat_alt word_le_nat_alt one)
  have "unat (Interval_getWidth ?r) = unat (last p + 1) - unat (hd p)"
    using proper by (simp add: Interval_getWidth_def unat_sub proper_def)
  with one W \<open>unat (last p) < unat W\<close> have width: "unat (Interval_getWidth ?r) < 2 ^ 32" by simp
  have sub: "set p \<subseteq> points ?r"
    using sorted_hd_last [OF assms(2)] one by (auto simp: Interval_containsValue_def
        word_less_nat_alt word_le_nat_alt less_Suc_eq_le)
  from filled_bitmap [OF proper width sub] obtain bm where
    bm: "set_all p (AddressBitmap_make ?r) = Ok bm" "bm_ok bm" "bm_range bm = ?r"
      "{a \<in> points ?r. bm_value bm a} = set p" .
  have "Interval_make (hd p) (Address_plus_diff (last p) 1) = Ok ?r"
    using proper by (simp add: Interval_make_def Address_plus_diff_def proper_def)
  with bm that show ?thesis by (simp add: bitmap_of_set_def bits_def)
qed

section \<open>The tables of ranges\<close>

text \<open>
  The three tables of ranges are used through one interface: the rows of a table and the update of
  the table by a function of its rows.
\<close>

locale table_of_ranges =
  fixes rows_of :: "tables \<Rightarrow> RangeRow list" and update :: range_table
  assumes rows_update: "rows_of (update f db) = f (rows_of db)"
    and update_update: "update f (update g db) = update (\<lambda>rows. f (g rows)) db"
    and update_same: "update (\<lambda>rows. rows) db = db"
begin

lemma insert_ranges:
  assumes "\<And>p. p \<in> set ps \<Longrightarrow> bitmap_of_set p = Ok (bm p)"
  shows "for_each ps (\<lambda>_ p. andthen (lift_res (bitmap_of_set p)) (insert_range update owner)) () s
    = (Ok (), s\<lparr>stored := update (\<lambda>rows. rows @ map (\<lambda>p. range_row owner (bm p)) ps) (stored s)\<rparr>)"
  using assms
proof (induction ps arbitrary: s)
  case Nil
  then show ?case by (simp add: res_simps update_same)
next
  case (Cons p ps)
  then show ?case
    by (simp add: res_simps andthen_def insert_range_def update_tables_def update_update)
qed

lemma store_ranges_ok:
  assumes R: "small R" and ranges: "\<forall>r \<in> set ranges. proper r \<and> points r \<subseteq> points R"
    and "ranges \<noteq> []"
  shows "\<exists>bms. store_ranges update (dm_begin R) owner ranges s = (Ok (),
      s\<lparr>stored := update (\<lambda>rows. rows @ map (range_row owner) bms) (stored s)\<rparr>) \<and>
    (\<forall>bm \<in> set bms. bm_ok bm) \<and> (\<Union>bm \<in> set bms. bits bm) = (\<Union>r \<in> set ranges. relative R r)"
proof -
  let ?W = "Interval_getWidth R"
  from unique_addresses_ok [OF R ranges] obtain as where
    as: "unique_addresses (dm_begin R) ranges = Ok as" "linear.ordered as"
    and set: "set as = (\<Union>r \<in> set ranges. relative R r)" by auto
  have sorted: "sorted_wrt (<) as" using as(2) by (simp add: linear.ordered_def)
  have W: "?W < 2 ^ 32" using R by (simp add: small_def word_less_nat_alt)
  have below: "a < ?W" if "a \<in> set as" for a
    using that set ranges relative_ok(2) [OF R]
    by (auto simp: relative_def subset_iff simp del: points_iff)
  have "low_set as"
    using sorted below W by (fastforce simp: low_set_def intro: order.strict_trans)
  from partitionAddressSet_clusters [OF this] obtain parts where
    parts: "partitionAddressSet as = Ok parts" and "mset parts = mset (clusters as)" by auto
  then have same: "set parts = set (clusters as)" by (auto dest: mset_eq_setD)
  have "\<exists>bm. bitmap_of_set p = Ok bm \<and> bm_ok bm \<and> bits bm = set p" if "p \<in> set parts" for p
  proof -
    have p: "p \<noteq> []" "set p \<subseteq> set as" using clusters_members that same by auto
    have "sorted_wrt (<) p"
      using sorted_part [of "(<)" "clusters as" p] that same sorted by (simp add: clusters_cover)
    moreover have "\<forall>a \<in> set p. a < ?W" using p(2) below by blast
    ultimately obtain bm where "bitmap_of_set p = Ok bm" "bm_ok bm" "bits bm = set p"
      using bitmap_of_set_ok [OF p(1) _ _ W] by blast
    then show ?thesis by blast
  qed
  then obtain f where f: "\<And>p. p \<in> set parts \<Longrightarrow> bitmap_of_set p = Ok (f p) \<and> bm_ok (f p) \<and> bits (f p) = set p"
    by metis
  have "(\<Union>p \<in> set parts. set p) = set as"
    using arg_cong [OF clusters_cover [of as], of set] same by simp
  with f set have "(\<Union>bm \<in> set (map f parts). bits bm) = (\<Union>r \<in> set ranges. relative R r)" by simp
  moreover have "store_ranges update (dm_begin R) owner ranges s = (Ok (),
      s\<lparr>stored := update (\<lambda>rows. rows @ map (range_row owner) (map f parts)) (stored s)\<rparr>)"
    using insert_ranges [of parts f owner s] f as(1) parts
    by (simp add: store_ranges_def res_simps andthen_def comp_def)
  moreover have "\<forall>bm \<in> set (map f parts). bm_ok bm" using f by simp
  ultimately show ?thesis by blast
qed

end

interpretation function_ranges: table_of_ranges FunctionRanges FunctionRanges_update
  by unfold_locales (simp_all add: comp_def)

interpretation loop_ranges: table_of_ranges LoopRanges LoopRanges_update
  by unfold_locales (simp_all add: comp_def)

interpretation statement_ranges: table_of_ranges StatementRanges StatementRanges_update
  by unfold_locales (simp_all add: comp_def)

section \<open>What the tables of symbols mean\<close>

text \<open>Every symbol with its key and its addresses, for each linked object.\<close>

definition contents ::
  "('r \<Rightarrow> int) \<Rightarrow> ('r \<Rightarrow> int) \<Rightarrow> ('r \<Rightarrow> 'k) \<Rightarrow> 'r list \<Rightarrow> RangeRow list \<Rightarrow> int \<Rightarrow> ('k \<times> addr set) set"
  where
  "contents the_id object key rows ranges lo =
     (\<lambda>x. (key x, owned ranges (the_id x))) ` {x \<in> set rows. object x = lo}"

definition owners_ok :: "int list \<Rightarrow> RangeRow list \<Rightarrow> bool" where
  "owners_ok ids ranges \<longleftrightarrow> distinct ids \<and> rg_owner ` set ranges \<subseteq> set ids \<and> list_all row_ok ranges"

lemma owned_bitmaps:
  "\<forall>bm \<in> set bms. bm_ok bm \<Longrightarrow>
     owned (map (range_row i) bms) j = (if i = j then \<Union>bm \<in> set bms. bits bm else {})"
proof (induction bms)
  case (Cons bm bms)
  then show ?case using owned_simps(2) [of "[range_row i bm]"]
    by (auto simp: row_addresses_range_row bits_def simp del: points_iff)
qed simp

lemma owners_ok_add:
  "owners_ok ids ranges \<Longrightarrow> \<forall>bm \<in> set bms. bm_ok bm \<Longrightarrow> i = new_id ids \<Longrightarrow>
     owners_ok (ids @ [i]) (ranges @ map (range_row i) bms)"
  using new_id_fresh [of ids] by (auto simp: owners_ok_def list_all_iff row_ok_range_row)

lemma contents_add:
  assumes ok: "owners_ok (map the_id rows) ranges" and bms: "\<forall>bm \<in> set bms. bm_ok bm"
    and x: "the_id x = new_id (map the_id rows)"
  shows "contents the_id object key (rows @ [x]) (ranges @ map (range_row (the_id x)) bms)
    = (contents the_id object key rows ranges)(object x :=
         insert (key x, \<Union>bm \<in> set bms. bits bm) (contents the_id object key rows ranges (object x)))"
proof -
  have fresh: "the_id x \<notin> set (map the_id rows)" unfolding x by (rule new_id_fresh)
  then have none: "owned ranges (the_id x) = {}"
    using ok by (intro owned_none) (auto simp: owners_ok_def)
  let ?ranges = "ranges @ map (range_row (the_id x)) bms"
  have old: "owned ?ranges (the_id y) = owned ranges (the_id y)" if "y \<in> set rows" for y
  proof -
    have "the_id y \<noteq> the_id x" using fresh that by (metis imageI list.set_map)
    then show ?thesis by (simp add: owned_bitmaps [OF bms])
  qed
  have new: "owned ?ranges (the_id x) = (\<Union>bm \<in> set bms. bits bm)"
    by (simp add: owned_bitmaps [OF bms] none)
  have "contents the_id object key (rows @ [x]) ?ranges lo =
      (\<lambda>y. (key y, owned ?ranges (the_id y))) ` {y \<in> set rows. object y = lo} \<union>
      (if object x = lo then {(key x, owned ?ranges (the_id x))} else {})" for lo
    by (auto simp: contents_def)
  moreover have "(\<lambda>y. (key y, owned ?ranges (the_id y))) ` {y \<in> set rows. object y = lo}
      = contents the_id object key rows ranges lo" for lo
    unfolding contents_def by (rule image_cong) (use old in \<open>simp_all del: owned_simps\<close>)
  ultimately show ?thesis by (auto simp: fun_eq_iff new simp del: owned_simps)
qed

lemma contents_cong:
  "(\<And>x. x \<in> set rows \<Longrightarrow> key x = key' x) \<Longrightarrow>
     contents the_id object key rows ranges = contents the_id object key' rows ranges"
  by (auto simp: contents_def fun_eq_iff)

definition path_of :: "FileRow list \<Rightarrow> int \<Rightarrow> string" where
  "path_of files i = (case find (\<lambda>f. fl_id f = i) files of Some f \<Rightarrow> fl_path f | None \<Rightarrow> [])"

definition functions_in :: "tables \<Rightarrow> int \<Rightarrow> (string \<times> addr set) set" where
  "functions_in db = contents fn_id fn_linked_object fn_name (Functions db) (FunctionRanges db)"

definition loops_in :: "tables \<Rightarrow> int \<Rightarrow> (addr \<times> addr set) set" where
  "loops_in db = contents lp_id lp_linked_object lp_head (Loops db) (LoopRanges db)"

definition statement_key :: "FileRow list \<Rightarrow> StatementRow \<Rightarrow> StatementEntry" where
  "statement_key files x = StatementEntry (path_of files (sm_file x)) (sm_line x) (sm_column x)"

definition statements_in :: "tables \<Rightarrow> int \<Rightarrow> (StatementEntry \<times> addr set) set" where
  "statements_in db =
     contents sm_id sm_linked_object (statement_key (Files db)) (Statements db) (StatementRanges db)"

text \<open>The integrity of the tables of symbols.\<close>

definition files_ok :: "tables \<Rightarrow> bool" where
  "files_ok db \<longleftrightarrow> distinct (map fl_id (Files db)) \<and> distinct (map fl_path (Files db)) \<and>
     (\<forall>f \<in> set (Files db). 0 < fl_id f) \<and> sm_file ` set (Statements db) \<subseteq> fl_id ` set (Files db)"

definition symbols_ok :: "tables \<Rightarrow> bool" where
  "symbols_ok db \<longleftrightarrow>
     owners_ok (map fn_id (Functions db)) (FunctionRanges db) \<and>
     owners_ok (map lp_id (Loops db)) (LoopRanges db) \<and>
     owners_ok (map sm_id (Statements db)) (StatementRanges db) \<and> files_ok db"

lemma symbols_ok_empty: "symbols_ok no_tables"
  by (simp add: symbols_ok_def owners_ok_def files_ok_def no_tables_def)

section \<open>Storing one symbol\<close>

definition frame :: "tables \<Rightarrow> ThreadRow list \<times> AddressSpaceRow list \<times> LinkedObjectRow list
    \<times> CollectingRow list \<times> CollectorRow list \<times> DataRow list \<times> ViewRow list" where
  "frame db =
     (Threads db, AddressSpaces db, LinkedObjects db, Collecting db, Collectors db, Data db, Views db)"

lemma relative_end:
  assumes "small R" and "proper r" and "points r \<subseteq> points R"
  shows "Address_minus (dm_begin r) (dm_begin R) = Ok (dm_begin r - dm_begin R)"
    and "Address_minus (dm_end r) (dm_begin R) = Ok (dm_end r - dm_begin R)"
    and "proper (Interval (dm_begin r - dm_begin R) (dm_end r - dm_begin R))"
    and "unat (Interval_getWidth (Interval (dm_begin r - dm_begin R) (dm_end r - dm_begin R))) < 2 ^ 32"
    and "points (Interval (dm_begin r - dm_begin R) (dm_end r - dm_begin R)) = relative R r"
proof -
  let ?b = "dm_begin R"
  have le: "?b \<le> dm_begin r" "dm_end r \<le> dm_end R" and less: "dm_begin r < dm_end r"
    using assms(2,3) by (auto simp: proper_def points_def ivl_subset)
  have W: "unat (dm_end R - ?b) < 2 ^ 32"
    using assms(1) by (simp add: small_def Interval_getWidth_def)
  have nat: "unat (x - ?b) = unat x - unat ?b" if "?b \<le> x" for x using that by (rule unat_sub)
  have ends: "unat ?b \<le> unat (dm_begin r)" "unat (dm_begin r) < unat (dm_end r)"
    "unat (dm_end r) \<le> unat (dm_end R)"
    using le less by (simp_all add: word_le_nat_alt word_less_nat_alt)
  have be: "?b \<le> dm_end r" "?b \<le> dm_end R" using le less by auto
  have w: "unat (dm_end r - ?b) < 2 ^ 32"
    using W ends be by (simp add: nat)
  then have "dm_end r - ?b < 2 ^ 63" "dm_begin r - ?b < 2 ^ 63"
    using ends be le(1) by (simp_all add: word_less_nat_alt nat)
  then show "Address_minus (dm_begin r) ?b = Ok (dm_begin r - ?b)"
    and "Address_minus (dm_end r) ?b = Ok (dm_end r - ?b)"
    using le be by (simp_all add: Address_minus_within)
  show proper: "proper (Interval (dm_begin r - ?b) (dm_end r - ?b))"
    using ends le be by (simp add: proper_def word_less_nat_alt nat)
  have "dm_end r - ?b - (dm_begin r - ?b) = dm_end r - dm_begin r" by simp
  moreover have "unat (dm_end r - dm_begin r) = unat (dm_end r) - unat (dm_begin r)"
    using less by (simp add: unat_sub)
  ultimately show "unat (Interval_getWidth (Interval (dm_begin r - ?b) (dm_end r - ?b))) < 2 ^ 32"
    using w ends be by (simp add: Interval_getWidth_def nat)
  show "points (Interval (dm_begin r - ?b) (dm_end r - ?b)) = relative R r"
  proof (intro equalityI subsetI)
    fix x assume "x \<in> points (Interval (dm_begin r - ?b) (dm_end r - ?b))"
    then have x: "unat (dm_begin r) - unat ?b \<le> unat x" "unat x < unat (dm_end r) - unat ?b"
      using le(1) be by (auto simp: points_def word_le_nat_alt word_less_nat_alt nat simp del: points_iff)
    have "unat (dm_end r) < 2 ^ 64" by (rule order_less_le_trans [OF unsigned_less]) simp
    with x have "unat (x + ?b) = unat x + unat ?b"
      by (simp add: unat_word_ariths take_bit_nat_eq_self)
    moreover have "unat (dm_begin r) \<le> unat x + unat ?b" "unat x + unat ?b < unat (dm_end r)"
      using x ends by linarith+
    ultimately have "x + ?b \<in> points r"
      by (simp add: points_def word_le_nat_alt word_less_nat_alt del: points_iff)
    then have "(x + ?b) - ?b \<in> relative R r" unfolding relative_def by (rule imageI)
    then show "x \<in> relative R r" by simp
  next
    fix x assume "x \<in> relative R r"
    then obtain a where x: "x = a - ?b" and a: "dm_begin r \<le> a" "a < dm_end r"
      by (auto simp: relative_def points_def simp del: points_iff)
    moreover from a have "unat (dm_begin r) - unat ?b \<le> unat a - unat ?b"
        "unat a - unat ?b < unat (dm_end r) - unat ?b"
      using ends by (simp_all add: word_le_nat_alt word_less_nat_alt diff_le_mono diff_less_mono)
    ultimately show "x \<in> points (Interval (dm_begin r - ?b) (dm_end r - ?b))"
      using le(1) be by (simp add: points_def word_le_nat_alt word_less_nat_alt nat del: points_iff)
  qed
qed

text \<open>The tables after storing symbols of one kind.\<close>

definition gains ::
  "(string \<times> addr set) set \<Rightarrow> (addr \<times> addr set) set \<Rightarrow> (StatementEntry \<times> addr set) set
    \<Rightarrow> int \<Rightarrow> tables \<Rightarrow> tables \<Rightarrow> bool" where
  "gains fs ls ss lo db db' \<longleftrightarrow>
     symbols_ok db' \<and> frame db' = frame db \<and>
     functions_in db' = (functions_in db)(lo := functions_in db lo \<union> fs) \<and>
     loops_in db' = (loops_in db)(lo := loops_in db lo \<union> ls) \<and>
     statements_in db' = (statements_in db)(lo := statements_in db lo \<union> ss)"

lemma gains_refl: "symbols_ok db \<Longrightarrow> gains {} {} {} lo db db"
  by (simp add: gains_def)

lemma gains_trans:
  "gains fs ls ss lo db db1 \<Longrightarrow> gains fs' ls' ss' lo db1 db2 \<Longrightarrow>
     gains (fs \<union> fs') (ls \<union> ls') (ss \<union> ss') lo db db2"
  by (auto simp: gains_def fun_eq_iff)

lemma insert_row_run:
  "insert_row next_id add s =
     (Ok (next_id (stored s)), s\<lparr>stored := add (next_id (stored s)) (stored s)\<rparr>)"
  by (simp add: insert_row_def query_def update_tables_def res_simps andthen_def)

lemma store_function_ok:
  assumes R: "small R" and r: "proper r" "points r \<subseteq> points R" and ok: "symbols_ok (stored s)"
  shows "\<exists>db'. store_function (dm_begin R) lo (r, name) s = (Ok (), s\<lparr>stored := db'\<rparr>) \<and>
    gains {(name, relative R r)} {} {} lo (stored s) db'"
proof -
  note rel = relative_end [OF R r]
  let ?r = "Interval (dm_begin r - dm_begin R) (dm_end r - dm_begin R)" and ?db = "stored s"
  have "set (address_list ?r) = points ?r" by (rule address_list_set [OF rel(3)])
  with filled_bitmap [OF rel(3,4), of "address_list ?r"] obtain bm where
    bm: "set_all (address_list ?r) (AddressBitmap_make ?r) = Ok bm" "bm_ok bm" "bm_range bm = ?r"
      "{a \<in> points ?r. bm_value bm a} = points ?r" by auto
  then have bits: "bits bm = relative R r" by (simp add: bits_def rel(5) del: points_iff)
  let ?i = "new_id (map fn_id (Functions ?db))"
  let ?db' = "FunctionRanges_update (\<lambda>rows. rows @ map (range_row ?i) [bm])
    (Functions_update (\<lambda>rows. rows @ [FunctionRow ?i lo name]) ?db)"
  have "Interval_make (dm_begin r - dm_begin R) (dm_end r - dm_begin R) = Ok ?r"
    using rel(3) by (simp add: Interval_make_Ok proper_def)
  then have "store_function (dm_begin R) lo (r, name) s = (Ok (), s\<lparr>stored := ?db'\<rparr>)"
    using rel(1,2) bm(1)
    by (simp add: store_function_def res_simps andthen_def insert_row_run insert_range_def
        update_tables_def)
  moreover have own: "owners_ok (map fn_id (Functions ?db)) (FunctionRanges ?db)"
    using ok by (simp add: symbols_ok_def)
  have "gains {(name, relative R r)} {} {} lo ?db ?db'"
    using ok owners_ok_add [OF own, of "[bm]" ?i]
      contents_add [OF own, of "[bm]" "FunctionRow ?i lo name" fn_linked_object fn_name] bm(2) bits
    by (simp add: gains_def frame_def symbols_ok_def files_ok_def functions_in_def loops_in_def
        statements_in_def)
  ultimately show ?thesis by blast
qed

lemma store_loop_ok:
  assumes R: "small R" and rs: "\<forall>r \<in> set rs. proper r \<and> points r \<subseteq> points R" "rs \<noteq> []"
    and head: "Address_minus head (dm_begin R) = Ok d" and ok: "symbols_ok (stored s)"
  shows "\<exists>db'. store_loop (dm_begin R) lo (head, rs) s = (Ok (), s\<lparr>stored := db'\<rparr>) \<and>
    gains {} {(d, \<Union>r \<in> set rs. relative R r)} {} lo (stored s) db'"
proof -
  let ?db = "stored s"
  let ?i = "new_id (map lp_id (Loops ?db))"
  let ?db1 = "Loops_update (\<lambda>rows. rows @ [LoopRow ?i lo d]) ?db"
  from loop_ranges.store_ranges_ok [OF R rs, of ?i "s\<lparr>stored := ?db1\<rparr>"] obtain bms where
    run: "store_ranges LoopRanges_update (dm_begin R) ?i rs (s\<lparr>stored := ?db1\<rparr>) = (Ok (),
      s\<lparr>stored := LoopRanges_update (\<lambda>rows. rows @ map (range_row ?i) bms) ?db1\<rparr>)"
    and bms: "\<forall>bm \<in> set bms. bm_ok bm" "(\<Union>bm \<in> set bms. bits bm) = (\<Union>r \<in> set rs. relative R r)"
    by auto
  let ?db' = "LoopRanges_update (\<lambda>rows. rows @ map (range_row ?i) bms) ?db1"
  have "store_loop (dm_begin R) lo (head, rs) s = (Ok (), s\<lparr>stored := ?db'\<rparr>)"
    using head run by (simp add: store_loop_def res_simps andthen_def insert_row_run)
  moreover have own: "owners_ok (map lp_id (Loops ?db)) (LoopRanges ?db)"
    using ok by (simp add: symbols_ok_def)
  have "gains {} {(d, \<Union>r \<in> set rs. relative R r)} {} lo ?db ?db'"
    using ok owners_ok_add [OF own bms(1) refl]
      contents_add [OF own bms(1), of "LoopRow ?i lo d" lp_linked_object lp_head] bms(2)
    by (simp add: gains_def frame_def symbols_ok_def files_ok_def functions_in_def loops_in_def
        statements_in_def)
  ultimately show ?thesis by blast
qed

lemma find_unique:
  "distinct (map key xs) \<Longrightarrow> x \<in> set xs \<Longrightarrow> find (\<lambda>y. key y = key x) xs = Some x"
  by (induction xs) (force+)

lemma find_file_cases:
  assumes "files_ok db"
  obtains (present) f where "f \<in> set (Files db)" and "fl_path f = path" and "find_file path db = fl_id f"
      and "find_file path db \<noteq> - 1" and "path_of (Files db) (find_file path db) = path"
  | (absent) "path \<notin> fl_path ` set (Files db)" and "find_file path db = - 1"
proof (cases "filter (\<lambda>row. fl_path row = path) (Files db) = []")
  case True
  show ?thesis by (rule absent) (use True in \<open>auto simp: find_file_def filter_empty_conv\<close>)
next
  case False
  let ?fs = "filter (\<lambda>row. fl_path row = path) (Files db)"
  have f: "last ?fs \<in> set (Files db)" "fl_path (last ?fs) = path"
    using last_in_set [OF False] by auto
  have id: "find_file path db = fl_id (last ?fs)"
    using False by (simp add: find_file_def foldl_last)
  have "0 < fl_id (last ?fs)" using assms f(1) by (simp add: files_ok_def)
  then have pos: "find_file path db \<noteq> - 1" by (simp add: id)
  have "find (\<lambda>g. fl_id g = fl_id (last ?fs)) (Files db) = Some (last ?fs)"
    using assms f(1) by (intro find_unique) (auto simp: files_ok_def)
  then have "path_of (Files db) (find_file path db) = path" by (simp add: path_of_def id f(2))
  with present [OF f id pos] show ?thesis .
qed

lemma path_of_append:
  "i \<in> fl_id ` set files \<Longrightarrow> path_of (files @ files') i = path_of files i"
  "i \<notin> fl_id ` set files \<Longrightarrow> path_of (files @ [FileRow i path]) i = path"
  by (induction files) (auto simp: path_of_def)

text \<open>Making sure that the source file of a statement has a row.\<close>

definition file_for :: "string \<Rightarrow> (session, int) op" where
  "file_for path =
     andthen (query (find_file path)) (\<lambda>found.
       if found = - 1
       then insert_row (\<lambda>db. new_id (map fl_id (Files db)))
              (\<lambda>i. Files_update (\<lambda>rows. rows @ [FileRow i path]))
       else ret found)"

lemma file_for_ok:
  assumes ok: "symbols_ok (stored s)"
  shows "\<exists>i db'. file_for path s = (Ok i, s\<lparr>stored := db'\<rparr>) \<and>
    gains {} {} {} lo (stored s) db' \<and> i \<in> fl_id ` set (Files db') \<and> path_of (Files db') i = path \<and>
    Statements db' = Statements (stored s)"
proof -
  let ?db = "stored s"
  have files: "files_ok ?db" using ok by (simp add: symbols_ok_def)
  then show ?thesis
  proof (cases rule: find_file_cases [of _ path])
    case (present f)
    then have "file_for path s = (Ok (fl_id f), s\<lparr>stored := ?db\<rparr>)"
      by (simp add: file_for_def query_def res_simps andthen_def)
    then show ?thesis using present gains_refl [OF ok] by force
  next
    case absent
    let ?i = "new_id (map fl_id (Files ?db))"
    let ?db' = "Files_update (\<lambda>rows. rows @ [FileRow ?i path]) ?db"
    have run: "file_for path s = (Ok ?i, s\<lparr>stored := ?db'\<rparr>)"
      using absent(2) by (simp add: file_for_def query_def res_simps andthen_def insert_row_run)
    have fresh: "?i \<notin> fl_id ` set (Files ?db)" using new_id_fresh [of "map fl_id (Files ?db)"] by simp
    have "statement_key (Files ?db') x = statement_key (Files ?db) x" if "x \<in> set (Statements ?db)" for x
      using files that by (auto simp: statement_key_def files_ok_def intro!: path_of_append(1))
    then have "statements_in ?db' = statements_in ?db"
      using contents_cong [of "Statements ?db" "statement_key (Files ?db')" "statement_key (Files ?db)"]
      unfolding statements_in_def by simp
    moreover have "files_ok ?db'"
      using files absent(1) fresh new_id_positive by (auto simp: files_ok_def)
    ultimately have "gains {} {} {} lo ?db ?db'"
      using ok by (simp add: gains_def symbols_ok_def frame_def functions_in_def loops_in_def)
    with run path_of_append(2) [OF fresh] show ?thesis by force
  qed
qed

lemma store_statement_file:
  "store_statement base lo s =
     andthen (file_for (dm_path (fst s))) (\<lambda>file.
     andthen (insert_row (\<lambda>db. new_id (map sm_id (Statements db)))
         (\<lambda>i. Statements_update (\<lambda>rows. rows @
            [StatementRow i lo file (dm_line (fst s)) (dm_column (fst s))]))) (\<lambda>i.
       store_ranges StatementRanges_update base i (snd s)))"
  by (simp add: store_statement_def file_for_def andthen_assoc)

lemma store_statement_ok:
  assumes R: "small R" and rs: "\<forall>r \<in> set rs. proper r \<and> points r \<subseteq> points R" "rs \<noteq> []"
    and ok: "symbols_ok (stored s)"
  shows "\<exists>db'. store_statement (dm_begin R) lo (entry, rs) s = (Ok (), s\<lparr>stored := db'\<rparr>) \<and>
    gains {} {} {(entry, \<Union>r \<in> set rs. relative R r)} lo (stored s) db'"
proof -
  from file_for_ok [OF ok, of "dm_path entry" lo] obtain f db where
    found: "file_for (dm_path entry) s = (Ok f, s\<lparr>stored := db\<rparr>)" and
    gain: "gains {} {} {} lo (stored s) db" and
    f: "f \<in> fl_id ` set (Files db)" "path_of (Files db) f = dm_path entry" by blast
  then have ok': "symbols_ok db" by (simp add: gains_def)
  let ?i = "new_id (map sm_id (Statements db))"
  let ?x = "StatementRow ?i lo f (dm_line entry) (dm_column entry)"
  let ?db1 = "Statements_update (\<lambda>rows. rows @ [?x]) db"
  from statement_ranges.store_ranges_ok [OF R rs, of ?i "s\<lparr>stored := ?db1\<rparr>"] obtain bms where
    run: "store_ranges StatementRanges_update (dm_begin R) ?i rs (s\<lparr>stored := ?db1\<rparr>) = (Ok (),
      s\<lparr>stored := StatementRanges_update (\<lambda>rows. rows @ map (range_row ?i) bms) ?db1\<rparr>)"
    and bms: "\<forall>bm \<in> set bms. bm_ok bm" "(\<Union>bm \<in> set bms. bits bm) = (\<Union>r \<in> set rs. relative R r)"
    by auto
  let ?db' = "StatementRanges_update (\<lambda>rows. rows @ map (range_row ?i) bms) ?db1"
  have "store_statement (dm_begin R) lo (entry, rs) s = (Ok (), s\<lparr>stored := ?db'\<rparr>)"
    using found run by (simp add: store_statement_file res_simps andthen_def insert_row_run)
  moreover have own: "owners_ok (map sm_id (Statements db)) (StatementRanges db)"
    using ok' by (simp add: symbols_ok_def)
  have key: "statement_key (Files db) ?x = entry" by (simp add: statement_key_def f(2))
  have "gains {} {} {(entry, \<Union>r \<in> set rs. relative R r)} lo db ?db'"
    using ok' owners_ok_add [OF own bms(1) refl]
      contents_add [OF own bms(1), of ?x sm_linked_object "statement_key (Files db)"] bms(2) key f(1)
    by (simp add: gains_def frame_def symbols_ok_def files_ok_def functions_in_def loops_in_def
        statements_in_def)
  with gain have "gains ({} \<union> {}) ({} \<union> {}) ({} \<union> {(entry, \<Union>r \<in> set rs. relative R r)}) lo (stored s) ?db'"
    by (rule gains_trans)
  ultimately show ?thesis by auto
qed

section \<open>Storing a symbol table\<close>

lemma for_each_gains:
  assumes step: "\<And>x s. x \<in> set xs \<Longrightarrow> symbols_ok (stored s) \<Longrightarrow>
      \<exists>db'. store x s = (Ok (), s\<lparr>stored := db'\<rparr>) \<and> gains (fs x) (ls x) (ss x) lo (stored s) db'"
    and ok: "symbols_ok (stored s)"
  shows "\<exists>db'. for_each xs (\<lambda>_. store) () s = (Ok (), s\<lparr>stored := db'\<rparr>) \<and>
    gains (\<Union>x \<in> set xs. fs x) (\<Union>x \<in> set xs. ls x) (\<Union>x \<in> set xs. ss x) lo (stored s) db'"
  using assms
proof (induction xs arbitrary: s)
  case Nil
  have "for_each [] (\<lambda>_. store) () s = (Ok (), s\<lparr>stored := stored s\<rparr>)" by (simp add: res_simps)
  then show ?case using gains_refl [OF Nil.prems(2)] by fastforce
next
  case (Cons x xs)
  from Cons.prems(1) [of x s] Cons.prems(2) obtain db1 where
    one: "store x s = (Ok (), s\<lparr>stored := db1\<rparr>)" "gains (fs x) (ls x) (ss x) lo (stored s) db1"
    by auto
  then have ok1: "symbols_ok (stored (s\<lparr>stored := db1\<rparr>))" by (simp add: gains_def)
  have "\<exists>db'. for_each xs (\<lambda>_. store) () (s\<lparr>stored := db1\<rparr>) = (Ok (), s\<lparr>stored := db1\<rparr>\<lparr>stored := db'\<rparr>) \<and>
    gains (\<Union>x \<in> set xs. fs x) (\<Union>x \<in> set xs. ls x) (\<Union>x \<in> set xs. ss x) lo (stored (s\<lparr>stored := db1\<rparr>)) db'"
    by (rule Cons.IH [OF _ ok1]) (rule Cons.prems(1), simp_all)
  then obtain db2 where two: "for_each xs (\<lambda>_. store) () (s\<lparr>stored := db1\<rparr>) = (Ok (), s\<lparr>stored := db2\<rparr>)"
    "gains (\<Union>x \<in> set xs. fs x) (\<Union>x \<in> set xs. ls x) (\<Union>x \<in> set xs. ss x) lo db1 db2" by auto
  have "for_each (x # xs) (\<lambda>_. store) () s = (Ok (), s\<lparr>stored := db2\<rparr>)"
    using one(1) two(1) by (simp add: andthen_def)
  with gains_trans [OF one(2) two(2)] show ?case by auto
qed

definition storable :: "SymbolTable \<Rightarrow> bool" where
  "storable st \<longleftrightarrow> table_ok st \<and> small (st_range st) \<and>
     (\<forall>(head, _) \<in> set (dm_loops st). Address_minus head (dm_begin (st_range st)) \<noteq> Abort)"

definition functions_of :: "SymbolTable \<Rightarrow> (string \<times> addr set) set" where
  "functions_of st = (\<lambda>(r, name). (name, relative (st_range st) r)) ` set (dm_functions st)"

definition loops_of :: "SymbolTable \<Rightarrow> (addr \<times> addr set) set" where
  "loops_of st = (\<lambda>(head, rs). (head - dm_begin (st_range st),
     \<Union>r \<in> set rs. relative (st_range st) r)) ` set (dm_loops st)"

definition statements_of :: "SymbolTable \<Rightarrow> (StatementEntry \<times> addr set) set" where
  "statements_of st =
     (\<lambda>(entry, rs). (entry, \<Union>r \<in> set rs. relative (st_range st) r)) ` set (dm_statements st)"

lemma ranges_within:
  assumes "entries_ok (within st) m" and "(k, rs) \<in> set m"
  shows "\<forall>r \<in> set rs. proper r \<and> points r \<subseteq> points (st_range st)" and "rs \<noteq> []"
  using assms by (fastforce simp: entries_ok_def list_all_iff within_def simp del: points_iff)+

lemma store_all_ok:
  assumes st: "storable st" and ok: "symbols_ok (stored s)"
  defines "base \<equiv> dm_begin (st_range st)"
  shows "\<exists>db'. andthen (for_each (dm_functions st) (\<lambda>_. store_function base lo) ()) (\<lambda>_.
        andthen (for_each (dm_loops st) (\<lambda>_. store_loop base lo) ()) (\<lambda>_.
          for_each (dm_statements st) (\<lambda>_. store_statement base lo) ())) s
      = (Ok (), s\<lparr>stored := db'\<rparr>) \<and>
    gains (functions_of st) (loops_of st) (statements_of st) lo (stored s) db'"
proof -
  let ?R = "st_range st"
  have R: "small ?R" and table: "table_ok st" using st by (simp_all add: storable_def)
  have fs: "\<exists>db'. store_function base lo x s = (Ok (), s\<lparr>stored := db'\<rparr>) \<and>
      gains {case x of (r, name) \<Rightarrow> (name, relative ?R r)} {} {} lo (stored s) db'"
    if "x \<in> set (dm_functions st)" "symbols_ok (stored s)" for x s
  proof -
    obtain r name where x: "x = (r, name)" by (cases x)
    have "within st r" using table that(1) x by (force simp: table_ok_def keys_def)
    with store_function_ok [OF R _ _ that(2), of r] show ?thesis by (simp add: x base_def within_def)
  qed
  have ls: "\<exists>db'. store_loop base lo x s = (Ok (), s\<lparr>stored := db'\<rparr>) \<and>
      gains {} {case x of (head, rs) \<Rightarrow> (head - base, \<Union>r \<in> set rs. relative ?R r)} {} lo (stored s) db'"
    if "x \<in> set (dm_loops st)" "symbols_ok (stored s)" for x s
  proof -
    obtain head rs where x: "x = (head, rs)" by (cases x)
    have "Address_minus head base = Ok (head - base)"
      using st that(1) x by (auto simp: storable_def base_def Address_minus_eq split: if_splits)
    moreover have "entries_ok (within st) (dm_loops st)" using table by (simp add: table_ok_def)
    ultimately show ?thesis
      using store_loop_ok [OF R ranges_within [of st "dm_loops st" head rs] _ that(2)] that(1) x
      by (simp add: base_def)
  qed
  have ss: "\<exists>db'. store_statement base lo x s = (Ok (), s\<lparr>stored := db'\<rparr>) \<and>
      gains {} {} {case x of (entry, rs) \<Rightarrow> (entry, \<Union>r \<in> set rs. relative ?R r)} lo (stored s) db'"
    if "x \<in> set (dm_statements st)" "symbols_ok (stored s)" for x s
  proof -
    obtain entry rs where x: "x = (entry, rs)" by (cases x)
    moreover have "entries_ok (within st) (dm_statements st)" using table by (simp add: table_ok_def)
    ultimately show ?thesis
      using store_statement_ok [OF R ranges_within [of st "dm_statements st" entry rs] that(2)] that(1)
      by (simp add: base_def)
  qed
  from for_each_gains [of "dm_functions st" "store_function base lo"
      "\<lambda>x. {case x of (r, name) \<Rightarrow> (name, relative ?R r)}" "\<lambda>_. {}" "\<lambda>_. {}" lo s, OF fs ok] obtain db1 where
    1: "for_each (dm_functions st) (\<lambda>_. store_function base lo) () s = (Ok (), s\<lparr>stored := db1\<rparr>)"
      "gains (functions_of st) {} {} lo (stored s) db1"
    by (auto simp: functions_of_def UNION_singleton_eq_range)
  then have ok1: "symbols_ok (stored (s\<lparr>stored := db1\<rparr>))" by (simp add: gains_def)
  from for_each_gains [of "dm_loops st" "store_loop base lo" "\<lambda>_. {}"
      "\<lambda>x. {case x of (head, rs) \<Rightarrow> (head - base, \<Union>r \<in> set rs. relative ?R r)}" "\<lambda>_. {}" lo, OF ls ok1] obtain db2 where
    2: "for_each (dm_loops st) (\<lambda>_. store_loop base lo) () (s\<lparr>stored := db1\<rparr>)
        = (Ok (), s\<lparr>stored := db2\<rparr>)" "gains {} (loops_of st) {} lo db1 db2"
    by (auto simp: loops_of_def base_def UNION_singleton_eq_range)
  then have ok2: "symbols_ok (stored (s\<lparr>stored := db2\<rparr>))" by (simp add: gains_def)
  from for_each_gains [of "dm_statements st" "store_statement base lo" "\<lambda>_. {}" "\<lambda>_. {}"
      "\<lambda>x. {case x of (entry, rs) \<Rightarrow> (entry, \<Union>r \<in> set rs. relative ?R r)}" lo, OF ss ok2] obtain db3 where
    3: "for_each (dm_statements st) (\<lambda>_. store_statement base lo) () (s\<lparr>stored := db2\<rparr>)
        = (Ok (), s\<lparr>stored := db3\<rparr>)" "gains {} {} (statements_of st) lo db2 db3"
    by (auto simp: statements_of_def UNION_singleton_eq_range)
  from gains_trans [OF gains_trans [OF 1(2) 2(2)] 3(2)]
  have "gains (functions_of st) (loops_of st) (statements_of st) lo (stored s) db3" by simp
  with 1(1) 2(1) 3(1) show ?thesis by (auto simp: andthen_def)
qed

lemma store_run:
  assumes "storable st" and "symbols_ok (stored s)" and "fst (nesting s) = 0"
  shows "\<exists>s'. processAndStore st lo s = (Ok (), s') \<and> fst (nesting s') = 0 \<and>
    symbols_ok (stored s') \<and> frame (stored s') = frame (stored s) \<and>
    functions_in (stored s') =
      (functions_in (stored s))(lo := functions_in (stored s) lo \<union> functions_of st) \<and>
    loops_in (stored s') = (loops_in (stored s))(lo := loops_in (stored s) lo \<union> loops_of st) \<and>
    statements_in (stored s') =
      (statements_in (stored s))(lo := statements_in (stored s) lo \<union> statements_of st)"
proof -
  let ?s = "tx_call (Begin True) s"
  have "symbols_ok (stored ?s)" using assms(2) by simp
  from store_all_ok [OF assms(1) this, of lo] obtain db' where
    run: "andthen (for_each (dm_functions st) (\<lambda>_. store_function (dm_begin (st_range st)) lo) ()) (\<lambda>_.
        andthen (for_each (dm_loops st) (\<lambda>_. store_loop (dm_begin (st_range st)) lo) ()) (\<lambda>_.
          for_each (dm_statements st) (\<lambda>_. store_statement (dm_begin (st_range st)) lo) ())) ?s
      = (Ok (), ?s\<lparr>stored := db'\<rparr>)"
    and gain: "gains (functions_of st) (loops_of st) (statements_of st) lo (stored s) db'"
    by auto
  have "processAndStore st lo s = (Ok (), tx_call Commit (?s\<lparr>stored := db'\<rparr>))"
    unfolding processAndStore_def in_transaction_def Let_def run by simp
  then show ?thesis using gain assms(3) by (simp add: gains_def)
qed

section \<open>Properties\<close>

text \<open>A filled symbol table with two functions and a loop.\<close>

lemma sample_filled:
  "\<exists>st. fill sample_additions (SymbolTable_make (Interval 0 128)) = Ok st \<and> storable st \<and>
     functions_of st = {(''f'', {16..<64}), (''h'', {64..<72})}"
proof -
  have "case fill sample_additions (SymbolTable_make (Interval 0 128)) of
      Ok _ \<Rightarrow> True | _ \<Rightarrow> False"
    by code_simp
  then obtain st where run: "fill sample_additions (SymbolTable_make (Interval 0 128)) = Ok st"
    by (auto split: res.splits)
  have "dm_functions (the_Ok (fill sample_additions (SymbolTable_make (Interval 0 128))))
      = [(Interval 16 64, ''f''), (Interval 64 72, ''h'')]"
    by code_simp
  then have fs: "dm_functions st = [(Interval 16 64, ''f''), (Interval 64 72, ''h'')]" by (simp add: run)
  have "map fst (dm_loops (the_Ok (fill sample_additions (SymbolTable_make (Interval 0 128))))) = [20]"
    by code_simp
  then have ls: "map fst (dm_loops st) = [20]" by (simp add: run)
  have r: "table_ok st" "st_range st = Interval 0 128"
    using fill_recorded [OF run] by (simp_all add: recorded_def)
  have head: "head = 20" if "(head, rs) \<in> set (dm_loops st)" for head rs
  proof -
    have "fst (head, rs) \<in> fst ` set (dm_loops st)" using that by (rule imageI)
    then show ?thesis using arg_cong [OF ls, of set] by simp
  qed
  have "storable st"
    using r head by (force simp: storable_def small_def proper_def Interval_getWidth_def Address_minus_eq)
  moreover have "functions_of st = {(''f'', {16..<64}), (''h'', {64..<72})}"
    by (simp add: functions_of_def fs r(2) relative_def points_def)
  ultimately show ?thesis using run by blast
qed

definition empty_session :: session where
  "empty_session = \<lparr>stored = no_tables, saved = no_tables, nesting = (0, True)\<rparr>"

lemma empty_session_ok:
  "symbols_ok (stored empty_session)" "fst (nesting empty_session) = 0"
  "functions_in (stored empty_session) lo = {}"
  by (simp_all add: empty_session_def symbols_ok_empty)
    (simp add: functions_in_def contents_def no_tables_def)

text \<open>C9: storing a filled symbol table for a linked object succeeds, keeps the integrity of the
  tables, adds exactly the functions, loops and statements of the symbol table with their addresses
  relative to the linked object, and changes nothing that belongs to another linked object.\<close>

theorem processAndStore_stores_symbols:
  assumes "storable st" and "symbols_ok (stored s)" and "fst (nesting s) = 0"
  shows "\<exists>s'. processAndStore st lo s = (Ok (), s') \<and> fst (nesting s') = 0 \<and>
    symbols_ok (stored s') \<and> frame (stored s') = frame (stored s) \<and>
    functions_in (stored s') =
      (functions_in (stored s))(lo := functions_in (stored s) lo \<union> functions_of st) \<and>
    loops_in (stored s') = (loops_in (stored s))(lo := loops_in (stored s) lo \<union> loops_of st) \<and>
    statements_in (stored s') =
      (statements_in (stored s))(lo := statements_in (stored s) lo \<union> statements_of st)"
  using assms by (rule store_run)

lemma processAndStore_stores_symbols_witness:
  "\<exists>st s'. fill sample_additions (SymbolTable_make (Interval 0 128)) = Ok st \<and>
     processAndStore st 1 empty_session = (Ok (), s') \<and>
     functions_in (stored s') 1 = {(''f'', {16..<64}), (''h'', {64..<72})} \<and>
     functions_in (stored s') 2 = {}"
proof -
  from sample_filled obtain st where
    st: "fill sample_additions (SymbolTable_make (Interval 0 128)) = Ok st" "storable st"
      "functions_of st = {(''f'', {16..<64}), (''h'', {64..<72})}" by blast
  from processAndStore_stores_symbols [OF st(2) empty_session_ok(1,2), of 1] obtain s' where
    "processAndStore st 1 empty_session = (Ok (), s')" and
    "functions_in (stored s') = (functions_in (stored empty_session))
      (1 := functions_in (stored empty_session) 1 \<union> functions_of st)" by blast
  then show ?thesis using st by (auto simp: empty_session_ok(3))
qed

end
