(* ===== verification/ThreadQueries.thy ===== *)
theory ThreadQueries
  imports SymbolStore
begin

text \<open>
  The class \<open>Thread\<close> (Thread.hxx, Thread.cxx) over the tables of an experiment database: its
  attributes, the linked objects of its address space, and the functions, loops and statements at an
  address. \<open>validate()\<close> is compiled to nothing in the program as it is built. Objects of one
  database are their entry numbers; \<open>beyond\<close> is what memory holds after the contents of a blob.
\<close>

section \<open>Attributes\<close>

definition thread_rows :: "int \<Rightarrow> tables \<Rightarrow> ThreadRow list" where
  "thread_rows t db = filter (\<lambda>row. thread_id row = t) (Threads db)"

text \<open>A nullable column: the last row whose column is not null.\<close>

definition nullable :: "(ThreadRow \<Rightarrow> 'a option) \<Rightarrow> ThreadRow list \<Rightarrow> 'a option" where
  "nullable column rows =
     foldl (\<lambda>acc row. case column row of None \<Rightarrow> acc | Some x \<Rightarrow> Some x) None rows"

definition Thread_getMPIImplementation :: "int \<Rightarrow> (session, string option) op" where
  "Thread_getMPIImplementation self = reading (\<lambda>db. Ok (nullable mpi_impl (thread_rows self db)))"

definition Thread_getCommand :: "int \<Rightarrow> (session, string option) op" where
  "Thread_getCommand self = reading (\<lambda>db. Ok (nullable command (thread_rows self db)))"

definition Thread_getHost :: "int \<Rightarrow> (session, string) op" where
  "Thread_getHost self = reading (\<lambda>db. Ok (foldl (\<lambda>_ row. host row) [] (thread_rows self db)))"

text \<open>The variable is not initialised; \<open>garbage\<close> is what it holds. A null column reads as zero.\<close>

definition Thread_getProcessId :: "int \<Rightarrow> int \<Rightarrow> (session, int) op" where
  "Thread_getProcessId garbage self = reading (\<lambda>db.
     Ok (foldl (\<lambda>_ row. case pid row of None \<Rightarrow> 0 | Some p \<Rightarrow> p) garbage (thread_rows self db)))"

definition Thread_getPosixThreadId :: "int \<Rightarrow> (session, 64 word option) op" where
  "Thread_getPosixThreadId self = reading (\<lambda>db. Ok (nullable posix_tid (thread_rows self db)))"

definition Thread_getOpenMPThreadId :: "int \<Rightarrow> (session, int option) op" where
  "Thread_getOpenMPThreadId self = reading (\<lambda>db. Ok (nullable openmp_tid (thread_rows self db)))"

definition Thread_getMPIRank :: "int \<Rightarrow> (session, int option) op" where
  "Thread_getMPIRank self = reading (\<lambda>db. Ok (nullable mpi_rank (thread_rows self db)))"

section \<open>The symbols of a thread\<close>

definition thread_spaces :: "int \<Rightarrow> tables \<Rightarrow> AddressSpaceRow list" where
  "thread_spaces t db = filter (\<lambda>row. as_thread row = t) (AddressSpaces db)"

text \<open>A \<open>std::set\<close> filled from the rows of a query.\<close>

definition collect :: "('r \<Rightarrow> int) \<Rightarrow> 'r list \<Rightarrow> int set \<Rightarrow> int set" where
  "collect the_id rows acc = foldl (\<lambda>acc row. insert (the_id row) acc) acc rows"

definition Thread_getLinkedObjects :: "int \<Rightarrow> (session, int set) op" where
  "Thread_getLinkedObjects self = reading (\<lambda>db.
     Ok (collect as_linked_object (thread_spaces self db) {}))"

definition Thread_getFunctions :: "int \<Rightarrow> (session, int set) op" where
  "Thread_getFunctions self = reading (\<lambda>db.
     Ok (foldl (\<lambda>functions space.
         collect fn_id (filter (\<lambda>row. fn_linked_object row = as_linked_object space) (Functions db))
           functions) {} (thread_spaces self db)))"

definition Thread_getLoops :: "int \<Rightarrow> (session, int set) op" where
  "Thread_getLoops self = reading (\<lambda>db.
     Ok (foldl (\<lambda>loops space.
         collect lp_id (filter (\<lambda>row. lp_linked_object row = as_linked_object space) (Loops db))
           loops) {} (thread_spaces self db)))"

definition Thread_getStatements :: "int \<Rightarrow> (session, int set) op" where
  "Thread_getStatements self = reading (\<lambda>db.
     Ok (foldl (\<lambda>statements space.
         collect sm_id (filter (\<lambda>row. sm_linked_object row = as_linked_object space) (Statements db))
           statements) {} (thread_spaces self db)))"

section \<open>What is at an address\<close>

definition spaces_at :: "int \<Rightarrow> addr \<Rightarrow> time \<Rightarrow> tables \<Rightarrow> AddressSpaceRow list" where
  "spaces_at t address tm db =
     filter (\<lambda>row. tm \<ge> time_begin row \<and> tm < time_end row \<and>
         address \<ge> addr_begin row \<and> address < addr_end row) (thread_spaces t db)"

definition overlapping :: "string \<Rightarrow> exception" where
  "overlapping table = Exception EntryOverlapping [table]"

text \<open>The loops that find the linked object: one takes the first row, the other insists on it.\<close>

fun first_space :: "AddressSpaceRow list \<Rightarrow> (int \<times> addr) option" where
  "first_space [] = None"
| "first_space (row # rows) = Some (as_linked_object row, addr_begin row)"

definition only_space :: "AddressSpaceRow list \<Rightarrow> (int \<times> addr) option res" where
  "only_space rows =
     fold_res (\<lambda>found row.
         if found \<noteq> None then Throw (overlapping ''AddressSpaces'')
         else Ok (Some (as_linked_object row, addr_begin row))) rows None"

definition Thread_getLinkedObjectAt :: "int \<Rightarrow> addr \<Rightarrow> time \<Rightarrow> (session, int option) op" where
  "Thread_getLinkedObjectAt self address tm = reading (\<lambda>db.
     fold_res (\<lambda>linked_object row.
         if linked_object \<noteq> None then Throw (overlapping ''AddressSpaces'')
         else Ok (Some (as_linked_object row)))
       (spaces_at self address tm db) None)"

text \<open>The join of a table of ranges with its table of symbols, restricted to one address.\<close>

definition rows_at ::
  "('r \<Rightarrow> int) \<Rightarrow> ('r \<Rightarrow> int) \<Rightarrow> 'r list \<Rightarrow> RangeRow list \<Rightarrow> int \<Rightarrow> addr \<Rightarrow> (int \<times> RangeRow) list" where
  "rows_at the_id object rows ranges lo a =
     concat (map (\<lambda>row. map (\<lambda>x. (the_id x, row))
         (filter (\<lambda>x. rg_owner row = the_id x \<and> object x = lo \<and>
              a \<ge> rg_begin row \<and> a < rg_end row) rows)) ranges)"

definition range_contains :: "(nat \<Rightarrow> byte) \<Rightarrow> RangeRow \<Rightarrow> addr \<Rightarrow> bool res" where
  "range_contains beyond row a =
     bind_res (row_bitmap beyond row) (\<lambda>bitmap. AddressBitmap_getValue bitmap a)"

definition collect_at :: "(nat \<Rightarrow> byte) \<Rightarrow> addr \<Rightarrow> (int \<times> RangeRow) list \<Rightarrow> int set res" where
  "collect_at beyond a rows =
     fold_res (\<lambda>found (i, row).
         bind_res (range_contains beyond row a) (\<lambda>b. Ok (if b then insert i found else found)))
       rows {}"

definition functions_at :: "tables \<Rightarrow> int \<Rightarrow> addr \<Rightarrow> (int \<times> RangeRow) list" where
  "functions_at db = rows_at fn_id fn_linked_object (Functions db) (FunctionRanges db)"

definition loops_at :: "tables \<Rightarrow> int \<Rightarrow> addr \<Rightarrow> (int \<times> RangeRow) list" where
  "loops_at db = rows_at lp_id lp_linked_object (Loops db) (LoopRanges db)"

definition statements_at :: "tables \<Rightarrow> int \<Rightarrow> addr \<Rightarrow> (int \<times> RangeRow) list" where
  "statements_at db = rows_at sm_id sm_linked_object (Statements db) (StatementRanges db)"

definition Thread_getFunctionAt ::
  "(nat \<Rightarrow> byte) \<Rightarrow> int \<Rightarrow> addr \<Rightarrow> time \<Rightarrow> (session, int option) op" where
  "Thread_getFunctionAt beyond self address tm = reading (\<lambda>db.
     case first_space (spaces_at self address tm db) of
       None \<Rightarrow> Ok None
     | Some (linked_object, begin) \<Rightarrow>
         bind_res (Address_minus address begin) (\<lambda>a.
         fold_res (\<lambda>function (i, row).
             bind_res (range_contains beyond row a) (\<lambda>b. Ok (if b then Some i else function)))
           (functions_at db linked_object a) None))"

definition Thread_getLoopsAt ::
  "(nat \<Rightarrow> byte) \<Rightarrow> int \<Rightarrow> addr \<Rightarrow> time \<Rightarrow> (session, int set) op" where
  "Thread_getLoopsAt beyond self address tm = reading (\<lambda>db.
     bind_res (only_space (spaces_at self address tm db)) (\<lambda>found.
       case found of
         None \<Rightarrow> Ok {}
       | Some (linked_object, begin) \<Rightarrow>
           bind_res (Address_minus address begin) (\<lambda>a.
             collect_at beyond a (loops_at db linked_object a))))"

definition Thread_getStatementsAt ::
  "(nat \<Rightarrow> byte) \<Rightarrow> int \<Rightarrow> addr \<Rightarrow> time \<Rightarrow> (session, int set) op" where
  "Thread_getStatementsAt beyond self address tm = reading (\<lambda>db.
     case first_space (spaces_at self address tm db) of
       None \<Rightarrow> Ok {}
     | Some (linked_object, begin) \<Rightarrow>
         bind_res (Address_minus address begin) (\<lambda>a.
           collect_at beyond a (statements_at db linked_object a)))"

text \<open>Without a time, every row of the address space counts, and functions may not overlap.\<close>

definition Thread_getFunctionAndStatementsAt ::
  "(nat \<Rightarrow> byte) \<Rightarrow> int \<Rightarrow> addr \<Rightarrow> (session, int option \<times> int set) op" where
  "Thread_getFunctionAndStatementsAt beyond self address = reading (\<lambda>db.
     bind_res (only_space (filter (\<lambda>row. address \<ge> addr_begin row \<and> address < addr_end row)
         (thread_spaces self db))) (\<lambda>found.
       case found of
         None \<Rightarrow> Ok (None, {})
       | Some (linked_object, begin) \<Rightarrow>
           bind_res (Address_minus address begin) (\<lambda>a.
           bind_res (fold_res (\<lambda>function (i, row).
               bind_res (range_contains beyond row a) (\<lambda>b.
                 if b then if function \<noteq> None then Throw (overlapping ''Functions'') else Ok (Some i)
                 else Ok function))
               (functions_at db linked_object a) None) (\<lambda>function.
           bind_res (collect_at beyond a (statements_at db linked_object a)) (\<lambda>statements.
             Ok (function, statements))))))"

section \<open>By name and by source file\<close>

text \<open>A second row ends the loop with the first executable kept.\<close>

definition Thread_getExecutable :: "int \<Rightarrow> time \<Rightarrow> (session, int option) op" where
  "Thread_getExecutable self tm = reading (\<lambda>db.
     Ok (case concat (map (\<lambda>space. map lo_id (filter (\<lambda>lo.
               as_linked_object space = lo_id lo \<and> as_thread space = self \<and>
               tm \<ge> time_begin space \<and> tm < time_end space \<and> is_executable lo = 1)
             (LinkedObjects db))) (AddressSpaces db)) of
           [] \<Rightarrow> None
         | i # _ \<Rightarrow> Some i))"

definition Thread_getFunctionByName :: "int \<Rightarrow> string \<Rightarrow> (session, int option) op" where
  "Thread_getFunctionByName self name = reading (\<lambda>db.
     Ok (foldl (\<lambda>function i. if function = None then Some i else function) None
       (concat (map (\<lambda>f. map (\<lambda>_. fn_id f) (filter (\<lambda>space.
             fn_linked_object f = as_linked_object space \<and> as_thread space = self \<and>
             fn_name f = name) (AddressSpaces db))) (Functions db)))))"

text \<open>
  The text of the innermost \<open>SELECT\<close> has no blank between \<open>Files.id\<close> and \<open>WHERE\<close>. SQLite reports
  a syntax error, and \<open>prepareStatement\<close> aborts.
\<close>

definition Thread_getLoopsBySourceFile :: "int \<Rightarrow> string \<Rightarrow> (session, int set) op" where
  "Thread_getLoopsBySourceFile self file_name = reading (\<lambda>db.
     fold_res (\<lambda>loops space.
         fold_res (\<lambda>loops loop. Abort)
           (filter (\<lambda>row. lp_linked_object row = as_linked_object space) (Loops db)) loops)
       (thread_spaces self db) {})"

definition Thread_getStatementsBySourceFile :: "int \<Rightarrow> string \<Rightarrow> (session, int set) op" where
  "Thread_getStatementsBySourceFile self file_name = reading (\<lambda>db.
     Ok (foldl (\<lambda>acc i. insert i acc) {}
       (concat (map (\<lambda>f. concat (map (\<lambda>x. map (\<lambda>_. sm_id x) (filter (\<lambda>space.
             fl_id f = sm_file x \<and> sm_linked_object x = as_linked_object space \<and>
             as_thread space = self \<and> fl_path f = file_name) (AddressSpaces db)))
           (Statements db))) (Files db)))))"

definition Thread_getCollectors :: "int \<Rightarrow> (session, int set) op" where
  "Thread_getCollectors self = reading (\<lambda>db.
     Ok (collect cg_collector (filter (\<lambda>row. cg_thread row = self \<and> is_postponed row = 0)
       (Collecting db)) {}))"

definition Thread_getPostponedCollectors :: "int \<Rightarrow> (session, int set) op" where
  "Thread_getPostponedCollectors self = reading (\<lambda>db.
     Ok (collect cg_collector (filter (\<lambda>row. cg_thread row = self \<and> is_postponed row = 1)
       (Collecting db)) {}))"

section \<open>Changes\<close>

text \<open>\<open>=\<close> in a query is not satisfied by a null column.\<close>

definition Thread_doesSiblingExist :: "int \<Rightarrow> int \<Rightarrow> 64 word \<Rightarrow> (session, bool) op" where
  "Thread_doesSiblingExist garbage self tid = reading (\<lambda>db.
     let (h, p) = foldl (\<lambda>_ row. (host row, case pid row of None \<Rightarrow> 0 | Some p \<Rightarrow> p)) ([], garbage)
           (thread_rows self db)
     in Ok (foldl (\<lambda>_ _. True) False
          (filter (\<lambda>row. host row = h \<and> pid row = Some p \<and> posix_tid row = Some tid) (Threads db))))"

definition update_thread :: "(ThreadRow \<Rightarrow> ThreadRow) \<Rightarrow> int \<Rightarrow> (session, unit) op" where
  "update_thread f t =
     update_tables (Threads_update (map (\<lambda>row. if thread_id row = t then f row else row)))"

definition Thread_setPosixThreadId :: "64 word \<Rightarrow> int \<Rightarrow> (session, unit) op" where
  "Thread_setPosixThreadId tid self =
     in_transaction True (update_thread (\<lambda>row. row\<lparr>posix_tid := Some tid\<rparr>) self)"

definition Thread_setCommand :: "string \<Rightarrow> int \<Rightarrow> (session, unit) op" where
  "Thread_setCommand text self =
     in_transaction True (update_thread (\<lambda>row. row\<lparr>command := Some text\<rparr>) self)"

definition Thread_setMPIImplementation :: "string \<Rightarrow> int \<Rightarrow> (session, unit) op" where
  "Thread_setMPIImplementation impl self =
     in_transaction True (update_thread (\<lambda>row. row\<lparr>mpi_impl := Some impl\<rparr>) self)"

definition new_thread :: "int \<Rightarrow> string \<Rightarrow> int \<Rightarrow> ThreadRow" where
  "new_thread i h p = \<lparr>thread_id = i, command = None, host = h, pid = Some p, posix_tid = None,
     openmp_tid = None, mpi_rank = None, mpi_impl = None\<rparr>"

definition when_some :: "('a \<Rightarrow> (session, unit) op) \<Rightarrow> 'a option \<Rightarrow> (session, unit) op" where
  "when_some f z = (case z of None \<Rightarrow> ret () | Some x \<Rightarrow> f x)"

definition Thread_createCopy :: "int \<Rightarrow> (session, int) op" where
  "Thread_createCopy self =
     in_transaction True
       (andthen (query (thread_rows self)) (\<lambda>rows.
        let h = foldl (\<lambda>_ row. host row) [] rows;
            p = foldl (\<lambda>_ row. case pid row of None \<Rightarrow> 0 | Some p \<Rightarrow> p) 0 rows
        in
        andthen (insert_row (\<lambda>db. new_id (map thread_id (Threads db)))
            (\<lambda>i. Threads_update (\<lambda>rows. rows @ [new_thread i h p]))) (\<lambda>copy.
        andthen (when_some (\<lambda>x. update_thread (\<lambda>row. row\<lparr>posix_tid := Some x\<rparr>) copy)
            (nullable posix_tid rows)) (\<lambda>_.
        andthen (when_some (\<lambda>x. update_thread (\<lambda>row. row\<lparr>openmp_tid := Some x\<rparr>) copy)
            (nullable openmp_tid rows)) (\<lambda>_.
        andthen (when_some (\<lambda>x. update_thread (\<lambda>row. row\<lparr>mpi_rank := Some x\<rparr>) copy)
            (nullable mpi_rank rows)) (\<lambda>_.
          ret copy))))))"

end
