(* ===== verification/ThreadCorrect.thy ===== *)
theory ThreadCorrect
  imports ThreadQueries
begin

text \<open>
  The queries of \<open>Thread\<close> against the meaning of the tables: what is found at an address is exactly
  what the ranges of the linked object loaded there contain; a symbol table that has been stored is
  found again by address; and what happens when rows overlap or a query is malformed.
\<close>

section \<open>The rows at an address\<close>

text \<open>The symbols of a linked object whose ranges contain an address.\<close>

definition covering ::
  "('r \<Rightarrow> int) \<Rightarrow> ('r \<Rightarrow> int) \<Rightarrow> 'r list \<Rightarrow> RangeRow list \<Rightarrow> int \<Rightarrow> addr \<Rightarrow> int set" where
  "covering the_id object rows ranges lo a =
     {the_id x | x. x \<in> set rows \<and> object x = lo \<and> a \<in> owned ranges (the_id x)}"

abbreviation functions_covering :: "tables \<Rightarrow> int \<Rightarrow> addr \<Rightarrow> int set" where
  "functions_covering db \<equiv> covering fn_id fn_linked_object (Functions db) (FunctionRanges db)"

abbreviation loops_covering :: "tables \<Rightarrow> int \<Rightarrow> addr \<Rightarrow> int set" where
  "loops_covering db \<equiv> covering lp_id lp_linked_object (Loops db) (LoopRanges db)"

abbreviation statements_covering :: "tables \<Rightarrow> int \<Rightarrow> addr \<Rightarrow> int set" where
  "statements_covering db \<equiv> covering sm_id sm_linked_object (Statements db) (StatementRanges db)"

lemma covering_iff:
  "i \<in> covering the_id object rows ranges lo a \<longleftrightarrow>
     (\<exists>row \<in> set ranges. rg_owner row = i \<and> a \<in> row_addresses row) \<and>
     (\<exists>x \<in> set rows. the_id x = i \<and> object x = lo)"
  unfolding covering_def owned_def by (simp add: set_eq_iff) metis

lemma range_contains_ok:
  assumes "row_ok row" and "rg_begin row \<le> a" and "a < rg_end row"
  shows "range_contains beyond row a = Ok (a \<in> row_addresses row)"
proof -
  obtain owner bm where bm: "bm_ok bm" and row: "row = range_row owner bm"
    using assms(1) by (auto simp: row_ok_def)
  then have "a \<in> points (bm_range bm)"
    using assms(2,3) by (simp add: range_row_def Interval_containsValue_def)
  then show ?thesis
    unfolding range_contains_def row row_bitmap_range_row [OF bm] row_addresses_range_row [OF bm]
    by (simp add: getValue_ok [OF bm] del: points_iff)
qed

lemma row_addresses_bounds:
  assumes "row_ok row" and "a \<in> row_addresses row"
  shows "rg_begin row \<le> a" and "a < rg_end row"
proof -
  obtain owner bm where bm: "bm_ok bm" and row: "row = range_row owner bm"
    using assms(1) by (auto simp: row_ok_def)
  then have "a \<in> points (bm_range bm)"
    using assms(2) unfolding row row_addresses_range_row [OF bm] by simp
  then show "rg_begin row \<le> a" and "a < rg_end row"
    by (simp_all add: row range_row_def Interval_containsValue_def)
qed

lemma rows_at_iff:
  "(i, row) \<in> set (rows_at the_id object rows ranges lo a) \<longleftrightarrow>
     row \<in> set ranges \<and> rg_owner row = i \<and> (\<exists>x \<in> set rows. the_id x = i \<and> object x = lo) \<and>
     rg_begin row \<le> a \<and> a < rg_end row"
  by (fastforce simp: rows_at_def image_iff)

definition hits_at :: "addr \<Rightarrow> (int \<times> RangeRow) list \<Rightarrow> (int \<times> RangeRow) list" where
  "hits_at a xs = filter (\<lambda>(_, row). a \<in> row_addresses row) xs"

lemma hits_at_simps [simp]:
  "hits_at a [] = []"
  "hits_at a ((i, row) # xs) =
     (if a \<in> row_addresses row then (i, row) # hits_at a xs else hits_at a xs)"
  by (simp_all add: hits_at_def)

lemma rows_at_contains:
  assumes "owners_ok ids ranges" and "(i, row) \<in> set (rows_at the_id object rows ranges lo a)"
  shows "range_contains beyond row a = Ok (a \<in> row_addresses row)"
  using assms by (intro range_contains_ok) (auto simp: rows_at_iff owners_ok_def list_all_iff)

lemma rows_at_covering:
  assumes "owners_ok ids ranges"
  shows "fst ` set (hits_at a (rows_at the_id object rows ranges lo a))
    = covering the_id object rows ranges lo a"
proof (intro equalityI subsetI)
  fix i assume "i \<in> fst ` set (hits_at a (rows_at the_id object rows ranges lo a))"
  then obtain row x where "row \<in> set ranges" "rg_owner row = i" "a \<in> row_addresses row"
    "x \<in> set rows" "the_id x = i" "object x = lo"
    by (auto simp: hits_at_def rows_at_iff)
  then show "i \<in> covering the_id object rows ranges lo a"
    unfolding covering_def owned_def by (intro CollectI exI [of _ x]) auto
next
  fix i assume "i \<in> covering the_id object rows ranges lo a"
  then obtain x row where "x \<in> set rows" "object x = lo" "the_id x = i"
    and row: "row \<in> set ranges" "rg_owner row = i" "a \<in> row_addresses row"
    by (auto simp: covering_def owned_def)
  moreover have "row_ok row" using assms row(1) by (simp add: owners_ok_def list_all_iff)
  ultimately have "(i, row) \<in> set (hits_at a (rows_at the_id object rows ranges lo a))"
    using row_addresses_bounds [of row a] by (auto simp: hits_at_def rows_at_iff)
  then show "i \<in> fst ` set (hits_at a (rows_at the_id object rows ranges lo a))" by force
qed

lemma collect_at_ok:
  assumes "owners_ok ids ranges"
  shows "collect_at beyond a (rows_at the_id object rows ranges lo a)
    = Ok (covering the_id object rows ranges lo a)"
proof -
  let ?g = "\<lambda>found (i, row). if a \<in> row_addresses row then insert i found else found"
  have "collect_at beyond a (rows_at the_id object rows ranges lo a)
      = Ok (foldl ?g {} (rows_at the_id object rows ranges lo a))"
    unfolding collect_at_def
    by (rule fold_res_Ok) (auto simp: rows_at_contains [OF assms])
  moreover have "foldl ?g S xs = S \<union> fst ` set (hits_at a xs)" for S xs
    by (induction xs arbitrary: S) (auto split: prod.splits)
  ultimately show ?thesis by (simp add: rows_at_covering [OF assms])
qed

lemma last_at_ok:
  assumes "owners_ok ids ranges"
  shows "\<exists>r. fold_res (\<lambda>function (i, row).
      bind_res (range_contains beyond row a) (\<lambda>b. Ok (if b then Some i else function)))
      (rows_at the_id object rows ranges lo a) None = Ok r \<and>
    set_option r \<subseteq> covering the_id object rows ranges lo a \<and>
    (r = None \<longleftrightarrow> covering the_id object rows ranges lo a = {})"
proof -
  let ?g = "\<lambda>function (i, row). if a \<in> row_addresses row then Some i else function"
  let ?xs = "rows_at the_id object rows ranges lo a"
  have run: "fold_res (\<lambda>function (i, row).
      bind_res (range_contains beyond row a) (\<lambda>b. Ok (if b then Some i else function))) ?xs None
      = Ok (foldl ?g None ?xs)"
    by (rule fold_res_Ok) (auto simp: rows_at_contains [OF assms])
  have "set_option (foldl ?g r xs) \<subseteq> set_option r \<union> fst ` set (hits_at a xs) \<and>
      (foldl ?g r xs = None \<longleftrightarrow> r = None \<and> hits_at a xs = [])" for r xs
  proof (induction xs arbitrary: r)
    case (Cons x xs)
    obtain i row where x: "x = (i, row)" by (cases x)
    show ?case using Cons.IH [of "?g r x"] unfolding x by (cases "a \<in> row_addresses row") auto
  qed simp
  from this [of None ?xs] have
    "set_option (foldl ?g None ?xs) \<subseteq> fst ` set (hits_at a ?xs) \<and>
      (foldl ?g None ?xs = None \<longleftrightarrow> fst ` set (hits_at a ?xs) = {})"
    by simp
  with run show ?thesis
    unfolding rows_at_covering [OF assms] by (intro exI [of _ "foldl ?g None ?xs"] conjI) blast+
qed

text \<open>The linked object at an address; a space may not be wider than half of all addresses.\<close>

definition spaces_ok :: "tables \<Rightarrow> bool" where
  "spaces_ok db \<longleftrightarrow>
     (\<forall>space \<in> set (AddressSpaces db). addr_end space - addr_begin space \<le> 2 ^ 63)"

lemma first_space_minus:
  assumes "spaces_ok db" and "first_space (spaces_at t address tm db) = Some (lo, b)"
  shows "Address_minus address b = Ok (address - b)"
proof -
  obtain space rest where rows: "spaces_at t address tm db = space # rest" and b: "b = addr_begin space"
    using assms(2) by (cases "spaces_at t address tm db") auto
  then have "space \<in> set (spaces_at t address tm db)" by simp
  then have in_space: "space \<in> set (AddressSpaces db)" "addr_begin space \<le> address"
      "address < addr_end space"
    by (auto simp: spaces_at_def thread_spaces_def)
  then have "addr_end space - addr_begin space \<le> 2 ^ 63" using assms(1) by (simp add: spaces_ok_def)
  moreover have "address - addr_begin space < addr_end space - addr_begin space"
    using in_space(2,3)
    by (simp add: word_less_nat_alt word_le_nat_alt unat_sub diff_less_mono)
  ultimately show ?thesis unfolding b using in_space(2) by (intro Address_minus_within) auto
qed

lemma only_space_cases:
  "only_space rows = (case rows of [] \<Rightarrow> Ok None
     | [row] \<Rightarrow> Ok (Some (as_linked_object row, addr_begin row))
     | _ \<Rightarrow> Throw (overlapping ''AddressSpaces''))"
  by (auto simp: only_space_def split: list.splits)

lemma function_at_ok:
  assumes "symbols_ok (stored s)" and "spaces_ok (stored s)"
  shows "\<exists>r. fst (Thread_getFunctionAt beyond t address tm s) = Ok r \<and>
    (case spaces_at t address tm (stored s) of
       [] \<Rightarrow> r = None
     | space # _ \<Rightarrow>
         set_option r \<subseteq> functions_covering (stored s) (as_linked_object space)
             (address - addr_begin space) \<and>
         (r = None \<longleftrightarrow> functions_covering (stored s) (as_linked_object space)
             (address - addr_begin space) = {}))"
proof (cases "spaces_at t address tm (stored s)")
  case Nil
  then show ?thesis by (simp add: Thread_getFunctionAt_def reading_fst)
next
  case (Cons space rest)
  have "owners_ok (map fn_id (Functions (stored s))) (FunctionRanges (stored s))"
    using assms(1) by (simp add: symbols_ok_def)
  from last_at_ok [OF this, of beyond "address - addr_begin space" fn_id fn_linked_object
      "Functions (stored s)" "as_linked_object space"]
  show ?thesis
    using first_space_minus [OF assms(2), of t address tm "as_linked_object space"] Cons
    by (simp add: Thread_getFunctionAt_def reading_fst functions_at_def)
qed

section \<open>A copy of a thread\<close>

lemma update_thread_run:
  "update_thread f t s = (Ok (), s\<lparr>stored := Threads_update
     (map (\<lambda>row. if thread_id row = t then f row else row)) (stored s)\<rparr>)"
  by (simp add: update_thread_def update_tables_def)

lemma update_last_thread:
  assumes "\<forall>row \<in> set rows. thread_id row \<noteq> i" and "thread_id x = i"
  shows "map (\<lambda>row. if thread_id row = i then f row else row) (rows @ [x]) = rows @ [f x]"
  using assms by (simp add: map_idI)

lemma when_some_thread:
  assumes "\<forall>row \<in> set (Threads db). thread_id row \<noteq> i" and "thread_id x = i"
  shows "when_some (\<lambda>y. update_thread (g y) i) z
      (s\<lparr>stored := Threads_update (\<lambda>rows. rows @ [x]) db\<rparr>) = (Ok (), s\<lparr>stored :=
        Threads_update (\<lambda>rows. rows @ [case z of None \<Rightarrow> x | Some y \<Rightarrow> g y x]) db\<rparr>)"
proof (cases z)
  case (Some y)
  have "Threads_update f db = db\<lparr>Threads := f (Threads db)\<rparr>" for f by (cases db) simp
  with Some update_last_thread [OF assms, of "g y"] show ?thesis
    by (simp add: when_some_def update_thread_run)
qed (simp add: when_some_def ret_def)

lemma nullable_single [simp]: "nullable column [row] = column row"
  by (simp add: nullable_def split: option.splits)

lemma createCopy_run:
  assumes "thread_rows t (stored s) = [row]"
  shows "\<exists>s'. Thread_createCopy t s = (Ok (new_id (map thread_id (Threads (stored s)))), s') \<and>
    fst (nesting s') = fst (nesting s) \<and> (fst (nesting s) = 0 \<or> snd (nesting s) \<longrightarrow> stored s' = (stored s)\<lparr>Threads := Threads (stored s) @
      [row\<lparr>thread_id := new_id (map thread_id (Threads (stored s))), command := None,
         pid := Some (case pid row of None \<Rightarrow> 0 | Some p \<Rightarrow> p), mpi_impl := None\<rparr>]\<rparr>)"
proof -
  let ?i = "new_id (map thread_id (Threads (stored s)))" and ?s = "tx_call (Begin True) s"
  let ?p = "case pid row of None \<Rightarrow> 0 | Some p \<Rightarrow> p"
  define x where "x = new_thread ?i (host row) ?p"
  define x1 where "x1 = (case posix_tid row of None \<Rightarrow> x | Some y \<Rightarrow> x\<lparr>posix_tid := Some y\<rparr>)"
  define x2 where "x2 = (case openmp_tid row of None \<Rightarrow> x1 | Some y \<Rightarrow> x1\<lparr>openmp_tid := Some y\<rparr>)"
  define x3 where "x3 = (case mpi_rank row of None \<Rightarrow> x2 | Some y \<Rightarrow> x2\<lparr>mpi_rank := Some y\<rparr>)"
  have fresh: "\<forall>row \<in> set (Threads (stored s)). thread_id row \<noteq> ?i"
    by (simp add: new_id_row)
  have ids: "thread_id x = ?i" "thread_id x1 = ?i" "thread_id x2 = ?i"
    by (auto simp: x_def x1_def x2_def new_thread_def split: option.splits)
  note steps = when_some_thread [OF fresh ids(1), where z = "posix_tid row" and
      g = "\<lambda>y row. row\<lparr>posix_tid := Some y\<rparr>", folded x1_def]
    when_some_thread [OF fresh ids(2), where z = "openmp_tid row" and
      g = "\<lambda>y row. row\<lparr>openmp_tid := Some y\<rparr>", folded x2_def]
    when_some_thread [OF fresh ids(3), where z = "mpi_rank row" and
      g = "\<lambda>y row. row\<lparr>mpi_rank := Some y\<rparr>", folded x3_def]
  have run: "Thread_createCopy t s = (Ok ?i, tx_call Commit
      (?s\<lparr>stored := Threads_update (\<lambda>rows. rows @ [x3]) (stored s)\<rparr>))"
    using assms steps
    by (simp add: Thread_createCopy_def in_transaction_def andthen_def query_def insert_row_run
        ret_def flip: x_def cong: option.case_cong)
  moreover have "x3 = row\<lparr>thread_id := ?i, command := None, pid := Some ?p, mpi_impl := None\<rparr>"
    by (cases row) (simp add: x3_def x2_def x1_def x_def new_thread_def split: option.splits)
  moreover have "Threads_update (\<lambda>rows. rows @ [x3]) (stored s)
      = (stored s)\<lparr>Threads := Threads (stored s) @ [x3]\<rparr>"
    by (cases "stored s") simp
  ultimately show ?thesis by auto
qed

section \<open>Properties\<close>

text \<open>A small experiment: one thread, one linked object, one symbol of each kind.\<close>

definition sample_thread :: ThreadRow where
  "sample_thread = \<lparr>thread_id = 1, command = Some ''a.out'', host = ''node0'', pid = Some 42,
     posix_tid = Some 7, openmp_tid = None, mpi_rank = Some 3, mpi_impl = Some ''openmpi''\<rparr>"

definition sample_space :: AddressSpaceRow where
  "sample_space = \<lparr>as_id = 1, as_thread = 1, time_begin = 0, time_end = 1000, addr_begin = 4096,
     addr_end = 8192, as_linked_object = 1\<rparr>"

definition sample_tables :: tables where
  "sample_tables = \<lparr>Threads = [sample_thread], AddressSpaces = [sample_space],
     LinkedObjects = [\<lparr>lo_id = 1, lo_begin = 0, lo_end = 4096, lo_file = 1, is_executable = 1\<rparr>],
     Functions = [FunctionRow 1 1 ''main''], FunctionRanges = [range_row 1 sample_bitmap],
     Loops = [LoopRow 1 1 100], LoopRanges = [range_row 1 sample_bitmap],
     Statements = [StatementRow 1 1 1 10 0], StatementRanges = [range_row 1 sample_bitmap],
     Files = [FileRow 1 ''main.c''], Collecting = [], Collectors = [], Data = [], Views = []\<rparr>"

definition sample_session :: session where
  "sample_session = \<lparr>stored = sample_tables, saved = sample_tables, nesting = (0, True)\<rparr>"

lemma sample_session_simps:
  "stored sample_session = sample_tables" "fst (nesting sample_session) = 0"
  by (simp_all add: sample_session_def)

lemma sample_ok: "symbols_ok sample_tables" "spaces_ok sample_tables"
  using sample_bitmap_ok
  by (auto simp: symbols_ok_def owners_ok_def files_ok_def sample_tables_def row_ok_def
      range_row_def spaces_ok_def sample_space_def)

lemma sample_spaces: "spaces_at 1 4196 5 sample_tables = [sample_space]"
  by (simp add: spaces_at_def thread_spaces_def sample_tables_def sample_space_def)

lemma sample_covering:
  "functions_covering sample_tables 1 100 = {1}" "loops_covering sample_tables 1 100 = {1}"
  "statements_covering sample_tables 1 100 = {1}"
  using row_addresses_range_row [OF sample_bitmap_ok, of 1]
  by (auto simp: covering_iff sample_tables_def range_row_def)
    (auto simp: sample_bitmap_def bm_value_def Interval_containsValue_def)

text \<open>A thread finds a function at an address exactly when a function of the linked object
  loaded there contains the address relative to the start of the linked object, and what it finds
  is such a function.\<close>

theorem getFunctionAt_finds_covering:
  assumes "symbols_ok (stored s)" and "spaces_ok (stored s)"
  shows "\<exists>r. fst (Thread_getFunctionAt beyond t address tm s) = Ok r \<and>
    (case spaces_at t address tm (stored s) of
       [] \<Rightarrow> r = None
     | space # _ \<Rightarrow>
         set_option r \<subseteq> functions_covering (stored s) (as_linked_object space)
             (address - addr_begin space) \<and>
         (r = None \<longleftrightarrow> functions_covering (stored s) (as_linked_object space)
             (address - addr_begin space) = {}))"
  using assms by (rule function_at_ok)

lemma getFunctionAt_finds_covering_witness:
  "fst (Thread_getFunctionAt (\<lambda>_. 0) 1 4196 5 sample_session) = Ok (Some 1)"
proof -
  from getFunctionAt_finds_covering [of sample_session "\<lambda>_. 0" 1 4196 5] obtain r where
    "fst (Thread_getFunctionAt (\<lambda>_. 0) 1 4196 5 sample_session) = Ok r"
    "set_option r \<subseteq> {1}" "r \<noteq> None"
    using sample_ok by (auto simp: sample_session_simps sample_spaces sample_space_def sample_covering)
  then show ?thesis by (cases r) auto
qed

text \<open>The statements of a thread at an address are exactly those of the linked object loaded
  there that contain the relative address; the first row of the address space decides.\<close>

theorem getStatementsAt_exact:
  assumes "symbols_ok (stored s)" and "spaces_ok (stored s)"
  shows "fst (Thread_getStatementsAt beyond t address tm s) =
    (case spaces_at t address tm (stored s) of
       [] \<Rightarrow> Ok {}
     | space # _ \<Rightarrow> Ok (statements_covering (stored s) (as_linked_object space)
         (address - addr_begin space)))"
proof (cases "spaces_at t address tm (stored s)")
  case (Cons space rest)
  have "owners_ok (map sm_id (Statements (stored s))) (StatementRanges (stored s))"
    using assms(1) by (simp add: symbols_ok_def)
  from collect_at_ok [OF this] show ?thesis
    using first_space_minus [OF assms(2), of t address tm "as_linked_object space"] Cons
    by (simp add: Thread_getStatementsAt_def reading_fst statements_at_def)
qed (simp add: Thread_getStatementsAt_def reading_fst)

lemma getStatementsAt_exact_witness:
  "fst (Thread_getStatementsAt (\<lambda>_. 0) 1 4196 5 sample_session) = Ok {1}"
  using getStatementsAt_exact [of sample_session "\<lambda>_. 0" 1 4196 5] sample_ok
  by (simp add: sample_session_simps sample_spaces sample_space_def sample_covering)

text \<open>C14: the loops at an address are exactly those that contain the relative address when one row of
  the address space covers the address; with two such rows this query and the query for the linked
  object throw \<open>EntryOverlapping\<close>.\<close>

theorem getLoopsAt_exact_or_overlapping:
  assumes "symbols_ok (stored s)" and "spaces_ok (stored s)"
  shows "fst (Thread_getLoopsAt beyond t address tm s) =
    (case spaces_at t address tm (stored s) of
       [] \<Rightarrow> Ok {}
     | [space] \<Rightarrow> Ok (loops_covering (stored s) (as_linked_object space) (address - addr_begin space))
     | _ \<Rightarrow> Throw (overlapping ''AddressSpaces''))
   \<and> fst (Thread_getLinkedObjectAt t address tm s) =
    (case spaces_at t address tm (stored s) of
       [] \<Rightarrow> Ok None
     | [space] \<Rightarrow> Ok (Some (as_linked_object space))
     | _ \<Rightarrow> Throw (overlapping ''AddressSpaces''))"
proof
  have "owners_ok (map lp_id (Loops (stored s))) (LoopRanges (stored s))"
    using assms(1) by (simp add: symbols_ok_def)
  from collect_at_ok [OF this]
  show "fst (Thread_getLoopsAt beyond t address tm s) =
    (case spaces_at t address tm (stored s) of
       [] \<Rightarrow> Ok {}
     | [space] \<Rightarrow> Ok (loops_covering (stored s) (as_linked_object space) (address - addr_begin space))
     | _ \<Rightarrow> Throw (overlapping ''AddressSpaces''))"
    using first_space_minus [OF assms(2), of t address tm]
    by (auto simp: Thread_getLoopsAt_def reading_fst loops_at_def only_space_cases split: list.splits)
  show "fst (Thread_getLinkedObjectAt t address tm s) =
    (case spaces_at t address tm (stored s) of
       [] \<Rightarrow> Ok None
     | [space] \<Rightarrow> Ok (Some (as_linked_object space))
     | _ \<Rightarrow> Throw (overlapping ''AddressSpaces''))"
    by (auto simp: Thread_getLinkedObjectAt_def reading_fst split: list.splits)
qed

lemma getLoopsAt_exact_or_overlapping_witness:
  "fst (Thread_getLoopsAt (\<lambda>_. 0) 1 4196 5 sample_session) = Ok {1} \<and>
   fst (Thread_getLinkedObjectAt 1 4196 5 sample_session) = Ok (Some 1)"
  using getLoopsAt_exact_or_overlapping [of sample_session "\<lambda>_. 0" 1 4196 5] sample_ok
  by (simp add: sample_session_simps sample_spaces sample_space_def sample_covering)

text \<open>C15: a copy of a thread is a new row of the same host, process, threads and rank, but without
  the command and the MPI implementation; no other row changes.\<close>

theorem createCopy_adds_thread:
  assumes "thread_rows t (stored s) = [row]" and "fst (nesting s) = 0"
  shows "\<exists>i s'. Thread_createCopy t s = (Ok i, s') \<and> fst (nesting s') = 0 \<and>
    i \<notin> thread_id ` set (Threads (stored s)) \<and>
    stored s' = (stored s)\<lparr>Threads := Threads (stored s) @
      [row\<lparr>thread_id := i, command := None, pid := Some (case pid row of None \<Rightarrow> 0 | Some p \<Rightarrow> p),
         mpi_impl := None\<rparr>]\<rparr>"
proof -
  from createCopy_run [OF assms(1)] obtain s' where
    "Thread_createCopy t s = (Ok (new_id (map thread_id (Threads (stored s)))), s')"
    "fst (nesting s') = 0" "stored s' = (stored s)\<lparr>Threads := Threads (stored s) @
      [row\<lparr>thread_id := new_id (map thread_id (Threads (stored s))), command := None,
         pid := Some (case pid row of None \<Rightarrow> 0 | Some p \<Rightarrow> p), mpi_impl := None\<rparr>]\<rparr>"
    using assms(2) by auto
  then show ?thesis
    using new_id_fresh [of "map thread_id (Threads (stored s))"] by auto
qed

lemma createCopy_adds_thread_witness:
  "\<exists>s'. Thread_createCopy 1 sample_session = (Ok 2, s') \<and>
     Threads (stored s') = [sample_thread, sample_thread\<lparr>thread_id := 2, command := None, mpi_impl := None\<rparr>]"
proof -
  have "thread_rows 1 (stored sample_session) = [sample_thread]"
    by (simp add: sample_session_simps thread_rows_def sample_tables_def sample_thread_def)
  from createCopy_adds_thread [OF this sample_session_simps(2)] obtain i s' where
    run: "Thread_createCopy 1 sample_session = (Ok i, s')" and
    "Threads (stored s') = [sample_thread, sample_thread\<lparr>thread_id := i, command := None,
       pid := Some 42, mpi_impl := None\<rparr>]"
    by (auto simp: sample_session_simps sample_tables_def sample_thread_def)
  moreover have "fst (Thread_createCopy 1 sample_session) = Ok 2" by code_simp
  ultimately show ?thesis by (auto simp: sample_thread_def)
qed

text \<open>The loops of a source file cannot be found: the query of the innermost loop is malformed,
  so that the call aborts as soon as the thread has a loop, and returns nothing otherwise.\<close>

theorem getLoopsBySourceFile_aborts:
  "fst (Thread_getLoopsBySourceFile t name s) =
    (if \<exists>space loop. space \<in> set (thread_spaces t (stored s)) \<and> loop \<in> set (Loops (stored s)) \<and>
        lp_linked_object loop = as_linked_object space
     then Abort else Ok {})"
proof -
  have inner: "fold_res (\<lambda>loops loop. Abort) xs acc = (if xs = [] then Ok acc else Abort)"
    for xs :: "LoopRow list" and acc :: "int set"
    by (cases xs) simp_all
  have "fold_res (\<lambda>loops space. fold_res (\<lambda>loops loop. Abort) (f space) loops) spaces acc
      = (if \<exists>space \<in> set spaces. f space \<noteq> [] then Abort else Ok acc)"
    for f :: "AddressSpaceRow \<Rightarrow> LoopRow list" and spaces and acc :: "int set"
    by (induction spaces) (simp_all add: inner)
  then show ?thesis
    by (auto simp: Thread_getLoopsBySourceFile_def reading_fst filter_empty_conv)
qed

text \<open>C12: a symbol table that has been stored is found again: at an address of a linked object that
  had no functions, a thread then finds a function exactly when the symbol table has one there, under
  a name that the symbol table gives to that address.\<close>

theorem stored_functions_are_found:
  assumes "storable st" and "symbols_ok (stored s)" and "spaces_ok (stored s)"
    and "fst (nesting s) = 0" and "functions_in (stored s) lo = {}"
    and "spaces_at t address tm (stored s) = space # rest" and "as_linked_object space = lo"
  shows "\<exists>s' r. processAndStore st lo s = (Ok (), s') \<and>
    fst (Thread_getFunctionAt beyond t address tm s') = Ok r \<and>
    (case r of
       None \<Rightarrow> \<not> (\<exists>name A. (name, A) \<in> functions_of st \<and> address - addr_begin space \<in> A)
     | Some f \<Rightarrow> \<exists>row A. row \<in> set (Functions (stored s')) \<and> fn_id row = f \<and>
         (fn_name row, A) \<in> functions_of st \<and> address - addr_begin space \<in> A)"
proof -
  let ?a = "address - addr_begin space"
  from store_run [OF assms(1,2,4), of lo] obtain s' where run: "processAndStore st lo s = (Ok (), s')"
    and ok: "symbols_ok (stored s')" and frame: "frame (stored s') = frame (stored s)"
    and fns: "functions_in (stored s') = (functions_in (stored s))
      (lo := functions_in (stored s) lo \<union> functions_of st)" by blast
  have spaces: "AddressSpaces (stored s') = AddressSpaces (stored s)"
    using frame by (simp add: frame_def)
  then have at: "spaces_at t address tm (stored s') = space # rest"
    using assms(6) by (simp add: spaces_at_def thread_spaces_def)
  have "spaces_ok (stored s')" using assms(3) spaces by (simp add: spaces_ok_def)
  from function_at_ok [OF ok this, of beyond t address tm] obtain r where
    r: "fst (Thread_getFunctionAt beyond t address tm s') = Ok r"
      "set_option r \<subseteq> functions_covering (stored s') lo ?a"
      "r = None \<longleftrightarrow> functions_covering (stored s') lo ?a = {}"
    by (auto simp: at assms(7))
  have covering: "f \<in> functions_covering (stored s') lo ?a \<longleftrightarrow>
      (\<exists>row \<in> set (Functions (stored s')). fn_id row = f \<and> fn_linked_object row = lo \<and>
         ?a \<in> owned (FunctionRanges (stored s')) f)" for f
    by (auto simp: covering_def)
  have stored_fns: "(name, A) \<in> functions_of st \<longleftrightarrow>
      (\<exists>row \<in> set (Functions (stored s')). fn_name row = name \<and> fn_linked_object row = lo \<and>
         A = owned (FunctionRanges (stored s')) (fn_id row))" for name A
    using arg_cong [OF fns, of "\<lambda>f. (name, A) \<in> f lo"] assms(5)
    by (auto simp: functions_in_def contents_def image_iff)
  show ?thesis
  proof (cases r)
    case None
    then show ?thesis using run r(1,3) covering stored_fns by auto
  next
    case (Some f)
    then have "f \<in> functions_covering (stored s') lo ?a" using r(2) by simp
    then obtain row where "row \<in> set (Functions (stored s'))" "fn_id row = f"
      "fn_linked_object row = lo" "?a \<in> owned (FunctionRanges (stored s')) f" by (auto simp: covering)
    with run r(1) Some stored_fns show ?thesis by auto
  qed
qed

lemma stored_functions_are_found_witness:
  "\<exists>st s' f row. fill sample_additions (SymbolTable_make (Interval 0 128)) = Ok st \<and>
     processAndStore st 1 (empty_session\<lparr>stored := no_tables\<lparr>AddressSpaces := [sample_space]\<rparr>\<rparr>)
       = (Ok (), s') \<and>
     fst (Thread_getFunctionAt (\<lambda>_. 0) 1 4116 5 s') = Ok (Some f) \<and>
     row \<in> set (Functions (stored s')) \<and> fn_id row = f \<and> fn_name row = ''f''"
proof -
  let ?s = "empty_session\<lparr>stored := no_tables\<lparr>AddressSpaces := [sample_space]\<rparr>\<rparr>"
  from sample_filled obtain st where
    st: "fill sample_additions (SymbolTable_make (Interval 0 128)) = Ok st" "storable st"
      "functions_of st = {(''f'', {16..<64}), (''h'', {64..<72})}" by blast
  have "symbols_ok (stored ?s)" "spaces_ok (stored ?s)" "fst (nesting ?s) = 0"
    "functions_in (stored ?s) 1 = {}" "spaces_at 1 4116 5 (stored ?s) = [sample_space]"
    "as_linked_object sample_space = 1"
    by (simp_all add: symbols_ok_def owners_ok_def files_ok_def no_tables_def spaces_ok_def
        sample_space_def empty_session_def functions_in_def contents_def spaces_at_def
        thread_spaces_def)
  from stored_functions_are_found [OF st(2) this, of "\<lambda>_. 0"] obtain s' r where
    run: "processAndStore st 1 ?s = (Ok (), s')" "fst (Thread_getFunctionAt (\<lambda>_. 0) 1 4116 5 s') = Ok r"
    and found: "case r of
       None \<Rightarrow> \<not> (\<exists>name A. (name, A) \<in> functions_of st \<and> 4116 - addr_begin sample_space \<in> A)
     | Some f \<Rightarrow> \<exists>row A. row \<in> set (Functions (stored s')) \<and> fn_id row = f \<and>
         (fn_name row, A) \<in> functions_of st \<and> 4116 - addr_begin sample_space \<in> A" by blast
  have "4116 - addr_begin sample_space = 20" by (simp add: sample_space_def)
  moreover have "(''f'', {16..<64}) \<in> functions_of st \<and> (20::addr) \<in> {16..<64}" by (simp add: st(3))
  ultimately have "r \<noteq> None"
    using found by (metis (no_types, lifting) option.case(1))
  then obtain f where f: "r = Some f" by blast
  with found \<open>4116 - addr_begin sample_space = 20\<close> obtain row where "row \<in> set (Functions (stored s'))" "fn_id row = f"
    "fn_name row = ''f''"
    by (auto simp: st(3))
  with run f st(1) show ?thesis by blast
qed

end
