(* ===== verification/ExtentTable.thy ===== *)
theory ExtentTable
  imports KdSearch StdMap
begin

text \<open>
  The class template \<open>ExtentTable\<close> (ExtentTable.hxx): for every group a searchable \<open>ExtentGroup\<close> and,
  in parallel, the objects that own its extents. The caches of symbols and of performance data are
  built on it. The abstract view of a table is the list of the object and extent pairs of a group.
\<close>

section \<open>Operations\<close>

record ('g, 'o) ExtentTable =
  et_extents :: "('g, ExtentGroup) stdmap"
  et_objects :: "('g, 'o list) stdmap"

definition ExtentTable_make :: "('g, 'o) ExtentTable" where
  "ExtentTable_make = \<lparr>et_extents = [], et_objects = []\<rparr>"

text \<open>\<open>find\<close>, followed by \<open>insert\<close> of a default value if nothing was found.\<close>

definition find_or_insert :: "'g::linorder \<Rightarrow> 'v \<Rightarrow> ('g, 'v) stdmap \<Rightarrow> ('g, 'v) stdmap" where
  "find_or_insert key initial m =
     (if map_find (<) key m = None then map_insert (<) key initial m else m)"

definition addExtent ::
  "'g::linorder \<Rightarrow> 'o \<Rightarrow> extent \<Rightarrow> ('g, 'o) ExtentTable \<Rightarrow> ('g, 'o) ExtentTable res" where
  "addExtent key object extent self =
     (let extents = find_or_insert key ExtentGroup_empty (et_extents self);
          objects = find_or_insert key [] (et_objects self)
      in
      bind_res (Assert (map_find (<) key extents \<noteq> None)) (\<lambda>_.
      bind_res (Assert (map_find (<) key objects \<noteq> None)) (\<lambda>_.
        Ok (self\<lparr>et_extents := map_modify (<) key (ExtentGroup_push_back extent) extents,
                 et_objects := map_modify (<) key (\<lambda>os. os @ [object]) objects\<rparr>))))"

definition removeExtents :: "'g::linorder \<Rightarrow> ('g, 'o) ExtentTable \<Rightarrow> ('g, 'o) ExtentTable" where
  "removeExtents key self =
     self\<lparr>et_extents := map_erase (<) key (et_extents self),
          et_objects := map_erase (<) key (et_objects self)\<rparr>"

text \<open>The reference that is returned is read here and written back by \<open>putExtents\<close>.\<close>

definition getExtents ::
  "'g::linorder \<Rightarrow> ('g, 'o) ExtentTable \<Rightarrow> (ExtentGroup \<times> ('g, 'o) ExtentTable) res" where
  "getExtents key self =
     (let extents = find_or_insert key ExtentGroup_empty (et_extents self) in
      case map_find (<) key extents of
        None \<Rightarrow> Abort
      | Some (_, g) \<Rightarrow> Ok (g, self\<lparr>et_extents := extents\<rparr>))"

definition putExtents ::
  "'g::linorder \<Rightarrow> ExtentGroup \<Rightarrow> ('g, 'o) ExtentTable \<Rightarrow> ('g, 'o) ExtentTable" where
  "putExtents key g self = self\<lparr>et_extents := map_modify (<) key (\<lambda>_. g) (et_extents self)\<rparr>"

definition getObject :: "'g::linorder \<Rightarrow> nat \<Rightarrow> ('g, 'o) ExtentTable \<Rightarrow> 'o res" where
  "getObject key index self =
     (case map_find (<) key (et_objects self) of
        None \<Rightarrow> Abort
      | Some (_, objects) \<Rightarrow>
          bind_res (Assert (index < length objects)) (\<lambda>_. Ok (objects ! index)))"

section \<open>The abstract view\<close>

definition group_of :: "('g, 'o) ExtentTable \<Rightarrow> 'g \<Rightarrow> ExtentGroup" where
  "group_of t g = (case map_of (et_extents t) g of None \<Rightarrow> ExtentGroup_empty | Some x \<Rightarrow> x)"

definition objects_of :: "('g, 'o) ExtentTable \<Rightarrow> 'g \<Rightarrow> 'o list" where
  "objects_of t g = (case map_of (et_objects t) g of None \<Rightarrow> [] | Some x \<Rightarrow> x)"

definition entries :: "('g, 'o) ExtentTable \<Rightarrow> 'g \<Rightarrow> ('o \<times> extent) list" where
  "entries t g = zip (objects_of t g) (dm_extents (group_of t g))"

definition et_ok :: "('g::linorder, 'o) ExtentTable \<Rightarrow> bool" where
  "et_ok t \<longleftrightarrow> linear.ordered (keys (et_extents t)) \<and> linear.ordered (keys (et_objects t)) \<and>
     (\<forall>g. length (objects_of t g) = length (dm_extents (group_of t g)) \<and> group_ok (group_of t g))"

lemma entries_empty: "et_ok t \<Longrightarrow> entries t g = [] \<longleftrightarrow> dm_extents (group_of t g) = []"
  by (simp add: entries_def et_ok_def flip: length_0_conv)

lemma group_ok_empty: "group_ok ExtentGroup_empty"
  by (simp add: group_ok_def tree_ok_empty) (simp add: ExtentGroup_empty_def)

lemma group_ok_push:
  assumes "group_ok g"
  shows "group_ok (ExtentGroup_push_back e g)"
proof -
  have "length (dm_map g) \<noteq> Suc (length (dm_extents g))" using assms by (simp add: group_ok_def)
  with assms show ?thesis by (simp add: group_ok_def tree_ok_def ExtentGroup_push_back_def)
qed

lemma et_ok_make: "et_ok ExtentTable_make"
  by (simp add: et_ok_def ExtentTable_make_def objects_of_def group_of_def group_ok_empty)
    (simp add: ExtentGroup_empty_def)

lemma find_or_insert_ok:
  assumes "linear.ordered (keys m)"
  shows "linear.ordered (keys (find_or_insert g x m))"
    and "map_of (find_or_insert g x m) = (map_of m)(g \<mapsto> case map_of m g of None \<Rightarrow> x | Some y \<Rightarrow> y)"
    and "map_find (<) g (find_or_insert g x m) = Some (g, case map_of m g of None \<Rightarrow> x | Some y \<Rightarrow> y)"
proof -
  show ord: "linear.ordered (keys (find_or_insert g x m))"
    using assms linear.insert_ordered [of m g x] by (simp add: find_or_insert_def)
  show of: "map_of (find_or_insert g x m)
      = (map_of m)(g \<mapsto> case map_of m g of None \<Rightarrow> x | Some y \<Rightarrow> y)"
    using linear_find [OF assms, of g] linear_map_of_insert [OF assms, of g x]
    by (auto simp: find_or_insert_def fun_eq_iff split: option.splits)
  show "map_find (<) g (find_or_insert g x m)
      = Some (g, case map_of m g of None \<Rightarrow> x | Some y \<Rightarrow> y)"
    by (simp add: linear_find [OF ord] of)
qed

lemma addExtent_ok:
  assumes ok: "et_ok t"
  shows "\<exists>t'. addExtent g obj e t = Ok t' \<and> et_ok t' \<and>
    entries t' = (entries t)(g := entries t g @ [(obj, e)])"
proof -
  have ord: "linear.ordered (keys (et_extents t))" "linear.ordered (keys (et_objects t))"
    and len: "\<And>h. length (objects_of t h) = length (dm_extents (group_of t h))"
    and group: "\<And>h. group_ok (group_of t h)"
    using ok by (simp_all add: et_ok_def)
  note es = find_or_insert_ok [OF ord(1), of g ExtentGroup_empty]
  note os = find_or_insert_ok [OF ord(2), of g "[]"]
  define t' where "t' = t\<lparr>et_extents := map_modify (<) g (ExtentGroup_push_back e)
      (find_or_insert g ExtentGroup_empty (et_extents t)),
    et_objects := map_modify (<) g (\<lambda>os. os @ [obj]) (find_or_insert g [] (et_objects t))\<rparr>"
  have run: "addExtent g obj e t = Ok t'"
    using es(3) os(3) by (simp add: addExtent_def t'_def Let_def)
  have groups: "group_of t' = (group_of t)(g := ExtentGroup_push_back e (group_of t g))"
    using linear_map_of_modify [OF es(1)] es(2)
    by (auto simp: t'_def group_of_def fun_eq_iff split: option.splits)
  have objects: "objects_of t' = (objects_of t)(g := objects_of t g @ [obj])"
    using linear_map_of_modify [OF os(1)] os(2)
    by (auto simp: t'_def objects_of_def fun_eq_iff split: option.splits)
  have "et_ok t'"
    using es(1) os(1) len group group_ok_push
    by (simp add: et_ok_def groups objects) (simp add: t'_def ExtentGroup_push_back_def)
  moreover have "entries t' = (entries t)(g := entries t g @ [(obj, e)])"
    using len by (auto simp: entries_def groups objects fun_eq_iff ExtentGroup_push_back_def)
  ultimately show ?thesis using run by blast
qed

lemma getExtents_ok:
  assumes ok: "et_ok t"
  shows "\<exists>t'. getExtents g t = Ok (group_of t g, t') \<and> et_ok t' \<and> group_of t' = group_of t \<and>
    objects_of t' = objects_of t \<and> map_of (et_extents t') g \<noteq> None"
proof -
  have ord: "linear.ordered (keys (et_extents t))" using ok by (simp add: et_ok_def)
  note es = find_or_insert_ok [OF ord, of g ExtentGroup_empty]
  define t' where "t' = t\<lparr>et_extents := find_or_insert g ExtentGroup_empty (et_extents t)\<rparr>"
  have "getExtents g t = Ok (group_of t g, t')"
    using es(3) by (simp add: getExtents_def Let_def t'_def group_of_def)
  moreover have same: "group_of t' = group_of t" "objects_of t' = objects_of t"
    using es(2) by (auto simp: t'_def group_of_def objects_of_def fun_eq_iff split: option.splits)
  moreover have "et_ok t'"
    using ok es(1) unfolding et_ok_def same by (simp add: t'_def)
  moreover have "map_of (et_extents t') g \<noteq> None" using es(2) by (simp add: t'_def)
  ultimately show ?thesis by blast
qed

lemma putExtents_ok:
  assumes ok: "et_ok t" and "map_of (et_extents t) g \<noteq> None" and "group_ok x"
    and "dm_extents x = dm_extents (group_of t g)"
  shows "et_ok (putExtents g x t)" and "entries (putExtents g x t) = entries t"
    and "objects_of (putExtents g x t) = objects_of t"
proof -
  have ord: "linear.ordered (keys (et_extents t))" using ok by (simp add: et_ok_def)
  have groups: "group_of (putExtents g x t) = (group_of t)(g := x)"
    using linear_map_of_modify [OF ord] assms(2)
    by (auto simp: putExtents_def group_of_def fun_eq_iff split: option.splits)
  show objects: "objects_of (putExtents g x t) = objects_of t"
    by (simp add: putExtents_def objects_of_def fun_eq_iff)
  show "et_ok (putExtents g x t)"
    using ok assms(3,4) unfolding et_ok_def groups objects by (simp add: putExtents_def)
  show "entries (putExtents g x t) = entries t"
    using assms(4) by (auto simp: entries_def groups objects fun_eq_iff)
qed

lemma erase_map_of:
  assumes "linear.ordered (keys m)"
  shows "map_of (map_erase (<) g m) = (map_of m)(g := None)"
  using assms
proof (induction m)
  case (Cons e m)
  have "g \<le> fst e \<Longrightarrow> map_of m g = None"
    using Cons.prems by (force simp: map_of_eq_None_iff keys_def)
  with Cons show ?case by (cases e) (auto simp: fun_eq_iff)
qed (simp add: fun_eq_iff)

lemma removeExtents_ok:
  assumes ok: "et_ok t"
  shows "et_ok (removeExtents g t)" and "entries (removeExtents g t) = (entries t)(g := [])"
proof -
  have ord: "linear.ordered (keys (et_extents t))" "linear.ordered (keys (et_objects t))"
    using ok by (simp_all add: et_ok_def)
  have groups: "group_of (removeExtents g t) = (group_of t)(g := ExtentGroup_empty)"
    and objects: "objects_of (removeExtents g t) = (objects_of t)(g := [])"
    using erase_map_of [OF ord(1)] erase_map_of [OF ord(2)]
    by (auto simp: removeExtents_def group_of_def objects_of_def fun_eq_iff)
  show "et_ok (removeExtents g t)"
    using ok linear.erase_ordered [OF ord(1)] linear.erase_ordered [OF ord(2)] group_ok_empty
    unfolding et_ok_def groups objects
    by (simp add: removeExtents_def) (simp add: ExtentGroup_empty_def)
  show "entries (removeExtents g t) = (entries t)(g := [])"
    by (auto simp: entries_def groups objects fun_eq_iff)
qed

lemma getObject_ok:
  assumes "et_ok t" and "i < length (entries t g)"
  shows "getObject g i t = Ok (fst (entries t g ! i))"
proof -
  have "linear.ordered (keys (et_objects t))" using assms(1) by (simp add: et_ok_def)
  moreover have len: "i < length (objects_of t g)" using assms(2) by (simp add: entries_def)
  moreover from len obtain os where "map_of (et_objects t) g = Some os" "os = objects_of t g"
    by (auto simp: objects_of_def split: option.splits)
  ultimately show ?thesis
    using assms(2) by (simp add: getObject_def linear_find entries_def)
qed

end
