(* ===== verification/ExtentCaches.thy ===== *)
theory ExtentCaches
  imports Session ExtentTable "HOL-Library.Product_Lexorder"
begin

text \<open>
  What the four caches of the framework have in common (FunctionCache.cxx, LoopCache.cxx,
  StatementCache.cxx, DataCache.cxx): a table of extents that is filled for a group by a query on the
  database, the first time that the group is asked for, and searched with extents. The code of the
  four classes is the same but for the query; it is modelled once over the field of the state that
  holds the cache. The locale \<open>extent_cache\<close> states what the field and the query must satisfy and
  proves that a search returns exactly the objects whose extents intersect.
\<close>

section \<open>State\<close>

type_synonym cache = "(int, int) ExtentTable"

text \<open>
  What the framework asks of the collector plugins and of the instrumentors is a log of calls.
\<close>

datatype call = StartCollecting int "int list" | StopCollecting int "int list" | Retain int | Release int

record framework =
  the_session :: session
  function_cache :: cache
  loop_cache :: cache
  statement_cache :: cache
  data_cache :: "(int \<times> int, int) ExtentTable"
  calls :: "call list"

definition on_session :: "(session, 'a) op \<Rightarrow> (framework, 'a) op" where
  "on_session m s = (case m (the_session s) of (r, x) \<Rightarrow> (r, s\<lparr>the_session := x\<rparr>))"

definition abort :: "(framework, 'a) op" where
  "abort s = (Abort, s)"

type_synonym 'c cache_update = "('c \<Rightarrow> 'c) \<Rightarrow> framework \<Rightarrow> framework"

definition cache_call ::
  "(framework \<Rightarrow> 'c) \<Rightarrow> 'c cache_update \<Rightarrow> ('c \<Rightarrow> ('a \<times> 'c) res) \<Rightarrow> (framework, 'a) op" where
  "cache_call the_cache upd f s =
     (case f (the_cache s) of
        Ok (x, c) \<Rightarrow> (Ok x, upd (\<lambda>_. c) s)
      | Throw e \<Rightarrow> (Throw e, s)
      | Abort \<Rightarrow> (Abort, s)
      | Blocked \<Rightarrow> (Blocked, s))"

section \<open>Operations\<close>

definition add_extents ::
  "(framework \<Rightarrow> ('g::linorder, int) ExtentTable) \<Rightarrow> ('g, int) ExtentTable cache_update \<Rightarrow> 'g
    \<Rightarrow> (int \<times> extent) list \<Rightarrow> (framework, unit) op" where
  "add_extents the_cache upd key xs =
     for_each xs (\<lambda>_ (i, e). cache_call the_cache upd (\<lambda>c.
         bind_res (addExtent key i e c) (\<lambda>c'. Ok ((), c')))) ()"

text \<open>The extents are added while the rows are read; nothing but an abort comes between.\<close>

definition load_cache ::
  "(framework \<Rightarrow> ('g::linorder, int) ExtentTable) \<Rightarrow> ('g, int) ExtentTable cache_update
    \<Rightarrow> (tables \<Rightarrow> (int \<times> extent) list res) \<Rightarrow> 'g \<Rightarrow> (framework, unit) op" where
  "load_cache the_cache upd select key =
     andthen (on_session (reading select)) (add_extents the_cache upd key)"

text \<open>
  The search of the Kd-tree builds nodes in the group that the reference designates. A search
  that did not end would be a call that never returns.
\<close>

definition query_cache ::
  "(framework \<Rightarrow> ('g::linorder, int) ExtentTable) \<Rightarrow> ('g, int) ExtentTable cache_update
    \<Rightarrow> (ExtentGroup \<Rightarrow> (nat set \<times> ExtentGroup) option) \<Rightarrow> (framework, unit) op \<Rightarrow> 'g
    \<Rightarrow> (framework, int set) op" where
  "query_cache the_cache upd search add key =
     andthen (cache_call the_cache upd (getExtents key)) (\<lambda>cached.
     andthen (if dm_extents cached = [] then add else ret ()) (\<lambda>_.
     andthen (cache_call the_cache upd (getExtents key)) (\<lambda>cached.
     andthen (lift_res (case search cached of None \<Rightarrow> Blocked | Some result \<Rightarrow> Ok result))
       (\<lambda>(intersection, cached').
     andthen (cache_call the_cache upd (\<lambda>c. Ok ((), putExtents key cached' c))) (\<lambda>_.
       for_each (sorted_list_of_set intersection) (\<lambda>objects i.
         andthen (cache_call the_cache upd (\<lambda>c. bind_res (getObject key i c) (\<lambda>obj. Ok (obj, c))))
           (\<lambda>obj. ret (insert obj objects))) {})))))"

definition remove_groups ::
  "(framework \<Rightarrow> ('g::linorder, int) ExtentTable) \<Rightarrow> ('g, int) ExtentTable cache_update
    \<Rightarrow> 'g list \<Rightarrow> (framework, unit) op" where
  "remove_groups the_cache upd gs =
     for_each gs (\<lambda>_ key. cache_call the_cache upd (\<lambda>c. Ok ((), removeExtents key c))) ()"

section \<open>The contract of a cache\<close>

text \<open>Reading, seen from the whole state.\<close>

definition unchanged :: "framework \<Rightarrow> framework \<Rightarrow> bool" where
  "unchanged s s' \<longleftrightarrow> stored (the_session s') = stored (the_session s) \<and>
     fst (nesting (the_session s')) = fst (nesting (the_session s)) \<and>
     (0 < fst (nesting (the_session s)) \<longrightarrow>
        nesting (the_session s') = nesting (the_session s) \<and> saved (the_session s') = saved (the_session s)) \<and>
     calls s' = calls s"

lemma reading_unchanged:
  assumes "q (stored (the_session s)) = Ok x"
  shows "\<exists>t. on_session (reading q) s = (Ok x, s\<lparr>the_session := t\<rparr>) \<and>
    unchanged s (s\<lparr>the_session := t\<rparr>)"
  by (intro exI [of _ "tx_call Commit (tx_call (Begin False) (the_session s))"])
    (auto simp: on_session_def unchanged_def reading_Ok [of q, OF assms] prod_eq_iff)

text \<open>A cache holds nothing of a group, or all that the tables say.\<close>

definition cache_agrees ::
  "(framework \<Rightarrow> ('g::linorder, int) ExtentTable) \<Rightarrow> ('g \<Rightarrow> tables \<Rightarrow> (int \<times> extent) list res)
    \<Rightarrow> framework \<Rightarrow> bool" where
  "cache_agrees the_cache select s \<longleftrightarrow> et_ok (the_cache s) \<and>
     (\<forall>key. entries (the_cache s) key = [] \<or>
        (\<exists>list. select key (stored (the_session s)) = Ok list \<and>
           set (entries (the_cache s) key) = set list))"


text \<open>A search that finds the extents with a property and leaves a tree for the next search.\<close>

definition searches :: "(ExtentGroup \<Rightarrow> (nat set \<times> ExtentGroup) option) \<Rightarrow> (extent \<Rightarrow> bool) \<Rightarrow> bool" where
  "searches search P \<longleftrightarrow> (\<forall>g. group_ok g \<longrightarrow> (\<exists>g'. search g =
     Some ({i. i < length (dm_extents g) \<and> P (dm_extents g ! i)}, g') \<and>
     dm_extents g' = dm_extents g \<and> group_ok g'))"

locale extent_cache =
  fixes the_cache :: "framework \<Rightarrow> ('g::linorder, int) ExtentTable"
    and upd :: "('g, int) ExtentTable cache_update"
    and select :: "'g \<Rightarrow> tables \<Rightarrow> (int \<times> extent) list res"
    and valid :: "tables \<Rightarrow> bool"
  assumes cache_upd: "the_cache (upd f s) = f (the_cache s)"
    and session_upd: "the_session (upd f s) = the_session s"
    and calls_upd: "calls (upd f s) = calls s"
    and upd_same: "upd (\<lambda>_. the_cache s) s = s"
    and cache_session: "the_cache (s\<lparr>the_session := x\<rparr>) = the_cache s"
    and select_valid: "valid db \<Longrightarrow> \<exists>list. select key db = Ok list"
begin

lemma cache_call_ok:
  "f (the_cache s) = Ok (x, c) \<Longrightarrow> cache_call the_cache upd f s = (Ok x, upd (\<lambda>_. c) s)"
  by (simp add: cache_call_def)

lemma add_extents_ok:
  assumes "et_ok (the_cache s)"
  shows "\<exists>s'. add_extents the_cache upd key list s = (Ok (), s') \<and>
    et_ok (the_cache s') \<and> the_session s' = the_session s \<and> calls s' = calls s \<and>
    entries (the_cache s') = (entries (the_cache s))(key := entries (the_cache s) key @ list)"
  using assms
proof (induction list arbitrary: s)
  case Nil
  then show ?case by (simp add: add_extents_def ret_def)
next
  case (Cons x list)
  obtain i e where x: "x = (i, e)" by (cases x)
  from addExtent_ok [OF Cons.prems, of key i e] obtain c where
    add: "addExtent key i e (the_cache s) = Ok c" and c: "et_ok c"
      "entries c = (entries (the_cache s))(key := entries (the_cache s) key @ [(i, e)])"
    by blast
  have "et_ok (the_cache (upd (\<lambda>_. c) s))" using c(1) by (simp add: cache_upd)
  from Cons.IH [OF this] obtain s' where
    rest: "add_extents the_cache upd key list (upd (\<lambda>_. c) s) = (Ok (), s')"
    and s': "et_ok (the_cache s')" "the_session s' = the_session s" "calls s' = calls s"
      "entries (the_cache s') = (entries c)(key := entries c key @ list)"
    unfolding cache_upd session_upd calls_upd by blast
  have "add_extents the_cache upd key (x # list) s = (Ok (), s')"
    using rest by (simp add: add_extents_def x andthen_def cache_call_ok [of _ s "()" c] add)
  with s' c(2) show ?case by (auto simp: x)
qed

lemma load_ok:
  assumes ok: "valid (stored (the_session s))" and c: "et_ok (the_cache s)"
    and none: "entries (the_cache s) key = []"
  shows "\<exists>s' list. load_cache the_cache upd (select key) key s = (Ok (), s') \<and> unchanged s s' \<and>
    et_ok (the_cache s') \<and> select key (stored (the_session s)) = Ok list \<and>
    entries (the_cache s') = (entries (the_cache s))(key := list)"
proof -
  from select_valid [OF ok] obtain list where sel: "select key (stored (the_session s)) = Ok list" by blast
  from reading_unchanged [of "select key", OF sel] obtain t where
    t: "on_session (reading (select key)) s = (Ok list, s\<lparr>the_session := t\<rparr>)"
      "unchanged s (s\<lparr>the_session := t\<rparr>)" by blast
  have "et_ok (the_cache (s\<lparr>the_session := t\<rparr>))" using c by (simp add: cache_session)
  from add_extents_ok [OF this, of key list, unfolded cache_session] obtain s' where
    run: "add_extents the_cache upd key list (s\<lparr>the_session := t\<rparr>) = (Ok (), s')"
    and s': "et_ok (the_cache s')" "the_session s' = the_session (s\<lparr>the_session := t\<rparr>)"
      "calls s' = calls (s\<lparr>the_session := t\<rparr>)"
      "entries (the_cache s') = (entries (the_cache s))(key := entries (the_cache s) key @ list)"
    by (elim exE conjE) (rule that)
  have "load_cache the_cache upd (select key) key s = (Ok (), s')"
    using t(1) run by (simp add: load_cache_def andthen_def)
  moreover have "unchanged s s'" using t(2) s'(2,3) by (simp add: unchanged_def)
  moreover have "entries (the_cache s') = (entries (the_cache s))(key := list)"
    using s'(4) unfolding none append_Nil .
  ultimately show ?thesis using s'(1) sel by blast
qed

text \<open>Reading the objects of the extents that were found.\<close>

lemma objects_ok:
  assumes "et_ok (the_cache s)" and "\<forall>i \<in> set is. i < length (entries (the_cache s) key)"
  shows "for_each is (\<lambda>objects i.
      andthen (cache_call the_cache upd (\<lambda>c. bind_res (getObject key i c) (\<lambda>obj. Ok (obj, c))))
        (\<lambda>obj. ret (insert obj objects))) acc s
    = (Ok (acc \<union> (\<lambda>i. fst (entries (the_cache s) key ! i)) ` set is), s)"
  using assms(2)
proof (induction "is" arbitrary: acc)
  case Nil
  then show ?case by (simp add: ret_def)
next
  case (Cons i "is")
  have "getObject key i (the_cache s) = Ok (fst (entries (the_cache s) key ! i))"
    using getObject_ok [OF assms(1)] Cons.prems by simp
  then have "cache_call the_cache upd (\<lambda>c. bind_res (getObject key i c) (\<lambda>obj. Ok (obj, c))) s
      = (Ok (fst (entries (the_cache s) key ! i)), s)"
    by (simp add: cache_call_def upd_same)
  with Cons show ?case by (simp add: andthen_def ret_def)
qed

lemma found_objects:
  assumes "length (objects_of c key) = length (dm_extents (group_of c key))"
  shows "(\<lambda>i. fst (entries c key ! i)) ` {i. i < length (dm_extents (group_of c key)) \<and>
      P (dm_extents (group_of c key) ! i)} = {i. \<exists>e. (i, e) \<in> set (entries c key) \<and> P e}"
    (is "?A = ?B")
proof -
  let ?n = "length (dm_extents (group_of c key))"
  have nth: "entries c key ! k = (objects_of c key ! k, dm_extents (group_of c key) ! k)"
    and len: "length (entries c key) = ?n" if "k < ?n" for k
    using assms that by (simp_all add: entries_def)
  show ?thesis
  proof (intro equalityI subsetI)
    fix i assume "i \<in> ?A"
    then obtain k where "k < ?n" "P (dm_extents (group_of c key) ! k)" "i = fst (entries c key ! k)" by auto
    moreover from this have "entries c key ! k \<in> set (entries c key)" using len by simp
    ultimately show "i \<in> ?B" using nth by auto
  next
    fix i assume "i \<in> ?B"
    then obtain e k where "k < length (entries c key)" "entries c key ! k = (i, e)" "P e"
      by (auto simp: in_set_conv_nth)
    moreover from this have "k < ?n" by (simp add: entries_def)
    ultimately show "i \<in> ?A" using nth by force
  qed
qed

lemma query_exact:
  assumes search: "searches search P" and ok: "valid (stored (the_session s))"
    and s: "cache_agrees the_cache select s"
  shows "\<exists>s' list. query_cache the_cache upd search (load_cache the_cache upd (select key) key) key s
      = (Ok {i. \<exists>e. (i, e) \<in> set list \<and> P e}, s') \<and>
    select key (stored (the_session s)) = Ok list \<and>
    cache_agrees the_cache select s' \<and> unchanged s s'"
proof -
  let ?db = "stored (the_session s)"
  have c: "et_ok (the_cache s)" using s by (simp add: cache_agrees_def)
  from getExtents_ok [OF c, of key] obtain c1 where
    get1: "getExtents key (the_cache s) = Ok (group_of (the_cache s) key, c1)"
    and c1: "et_ok c1" "group_of c1 = group_of (the_cache s)" "objects_of c1 = objects_of (the_cache s)"
    by blast
  define s1 where "s1 = upd (\<lambda>_. c1) s"
  have ent1: "entries c1 = entries (the_cache s)" by (simp add: entries_def fun_eq_iff c1)
  have s1: "the_cache s1 = c1" "the_session s1 = the_session s" "calls s1 = calls s"
    by (simp_all add: s1_def cache_upd session_upd calls_upd)
  have empty: "dm_extents (group_of (the_cache s) key) = [] \<longleftrightarrow> entries c1 key = []"
    using entries_empty [OF c, of key] unfolding ent1 by simp
  obtain s2 list xs where
    add: "(if dm_extents (group_of (the_cache s) key) = []
        then load_cache the_cache upd (select key) key else ret ()) s1 = (Ok (), s2)"
    and sel: "select key ?db = Ok list" and s2: "et_ok (the_cache s2)" "unchanged s1 s2"
      "entries (the_cache s2) = (entries c1)(key := xs)" and xs: "set xs = set list"
  proof (cases "entries c1 key = []")
    case True
    have "valid (stored (the_session s1))" "et_ok (the_cache s1)" "entries (the_cache s1) key = []"
      using ok c1(1) True by (simp_all add: s1)
    from load_ok [OF this] obtain s2 list where
      "load_cache the_cache upd (select key) key s1 = (Ok (), s2)" "unchanged s1 s2"
      "et_ok (the_cache s2)" "select key ?db = Ok list"
      "entries (the_cache s2) = (entries c1)(key := list)"
      unfolding s1 by blast
    then show ?thesis by (intro that [of s2 list list]) (simp_all add: empty True)
  next
    case False
    with s obtain list where "select key ?db = Ok list" "set (entries c1 key) = set list"
      unfolding cache_agrees_def ent1 by blast
    with False c1(1) show ?thesis
      by (intro that [of s1 list "entries c1 key"]) (simp_all add: empty ret_def s1 unchanged_def fun_eq_iff)
  qed
  have same: "stored (the_session s2) = ?db" using s2(2) s1(2) by (simp add: unchanged_def)
  from getExtents_ok [OF s2(1), of key] obtain c3 where
    get3: "getExtents key (the_cache s2) = Ok (group_of (the_cache s2) key, c3)"
    and c3: "et_ok c3" "group_of c3 = group_of (the_cache s2)" "objects_of c3 = objects_of (the_cache s2)"
      "map_of (et_extents c3) key \<noteq> None"
    by blast
  let ?g = "group_of (the_cache s2) key"
  let ?is = "{i. i < length (dm_extents ?g) \<and> P (dm_extents ?g ! i)}"
  have ent3: "entries c3 = entries (the_cache s2)" by (simp add: entries_def fun_eq_iff c3)
  have g: "group_ok ?g" and len3: "length (objects_of c3 key) = length (dm_extents (group_of c3 key))"
    using s2(1) c3(1) by (simp_all add: et_ok_def)
  from search g obtain g' where found: "search ?g = Some (?is, g')"
    and g': "dm_extents g' = dm_extents ?g" "group_ok g'"
    unfolding searches_def by blast
  define s3 where "s3 = upd (\<lambda>_. putExtents key g' c3) (upd (\<lambda>_. c3) s2)"
  have s3: "the_cache s3 = putExtents key g' c3" "the_session s3 = the_session s2"
    "calls s3 = calls s2"
    by (simp_all add: s3_def cache_upd session_upd calls_upd)
  have put: "et_ok (the_cache s3)" "entries (the_cache s3) = entries (the_cache s2)"
    using putExtents_ok [OF c3(1,4) g'(2)] g'(1) unfolding s3 ent3 c3(2) by simp_all
  have small: "finite ?is" "\<forall>i \<in> set (sorted_list_of_set ?is). i < length (entries (the_cache s3) key)"
    using len3 unfolding put(2) by (auto simp: entries_def c3)
  let ?found = "(\<lambda>i. fst (entries (the_cache s3) key ! i)) ` set (sorted_list_of_set ?is)"
  have run: "query_cache the_cache upd search (load_cache the_cache upd (select key) key) key s
      = (Ok ?found, s3)"
    unfolding query_cache_def
    using objects_ok [OF put(1) small(2), of "{}"]
    by (simp add: andthen_def cache_call_ok [of _ s] get1 s1_def [symmetric] add
        cache_call_ok [of _ s2] get3 found lift_res_def cache_call_ok [of _ "upd (\<lambda>_. c3) s2"]
        cache_upd s3_def [symmetric])
  have "?found = {i. \<exists>e. (i, e) \<in> set list \<and> P e}"
    using found_objects [OF len3, of P] small(1) by (simp add: put(2) ent3 c3(2) s2(3) xs)
  moreover have "cache_agrees the_cache select s3"
    unfolding cache_agrees_def
  proof (intro conjI allI)
    fix key'
    show "entries (the_cache s3) key' = [] \<or> (\<exists>list. select key' (stored (the_session s3)) = Ok list \<and>
        set (entries (the_cache s3) key') = set list)"
    proof (cases "key' = key")
      case True
      then show ?thesis using sel xs unfolding put(2) s2(3) s3(2) same by simp
    next
      case False
      then show ?thesis using s unfolding cache_agrees_def put(2) s2(3) s3(2) same ent1 by simp
    qed
  qed (rule put(1))
  moreover have "unchanged s s3" using s2(2) s1(2,3) s3(2,3) by (simp add: unchanged_def)
  ultimately show ?thesis using run sel by (intro exI [of _ s3] exI [of _ list]) simp
qed

text \<open>Removing groups.\<close>

lemma remove_groups_ok:
  assumes "et_ok (the_cache s)"
  shows "\<exists>s'. remove_groups the_cache upd gs s = (Ok (), s') \<and> the_session s' = the_session s \<and>
    calls s' = calls s \<and> et_ok (the_cache s') \<and>
    entries (the_cache s') = (\<lambda>key. if key \<in> set gs then [] else entries (the_cache s) key)"
  using assms
proof (induction gs arbitrary: s)
  case Nil
  then show ?case by (simp add: remove_groups_def ret_def)
next
  case (Cons key gs)
  let ?s = "upd (\<lambda>_. removeExtents key (the_cache s)) s"
  have "et_ok (the_cache ?s)" using removeExtents_ok(1) [OF Cons.prems] by (simp add: cache_upd)
  from Cons.IH [OF this] obtain s' where
    "remove_groups the_cache upd gs ?s = (Ok (), s')"
    "the_session s' = the_session s" "calls s' = calls s" "et_ok (the_cache s')"
    "entries (the_cache s') = (\<lambda>key'. if key' \<in> set gs then [] else entries (the_cache ?s) key')"
    unfolding session_upd calls_upd by blast
  then show ?case
    using removeExtents_ok(2) [OF Cons.prems, of key]
    by (intro exI [of _ s'])
      (auto simp: remove_groups_def andthen_def cache_call_ok [of _ s] cache_upd fun_eq_iff)
qed

lemma remove_selected_ok:
  assumes "cache_agrees the_cache select s" and "q (stored (the_session s)) = Ok gs"
  shows "\<exists>s'. andthen (on_session (reading q)) (remove_groups the_cache upd) s = (Ok (), s') \<and>
    unchanged s s' \<and> cache_agrees the_cache select s' \<and>
    entries (the_cache s') = (\<lambda>key. if key \<in> set gs then [] else entries (the_cache s) key)"
proof -
  from reading_unchanged [of q, OF assms(2)] obtain t where
    t: "on_session (reading q) s = (Ok gs, s\<lparr>the_session := t\<rparr>)" "unchanged s (s\<lparr>the_session := t\<rparr>)"
    by blast
  have "et_ok (the_cache (s\<lparr>the_session := t\<rparr>))"
    using assms(1) by (simp add: cache_agrees_def cache_session)
  from remove_groups_ok [OF this, of gs, unfolded cache_session] obtain s' where
    run: "remove_groups the_cache upd gs (s\<lparr>the_session := t\<rparr>) = (Ok (), s')"
    and s': "the_session s' = t" "calls s' = calls s" "et_ok (the_cache s')"
      "entries (the_cache s') = (\<lambda>key. if key \<in> set gs then [] else entries (the_cache s) key)"
    by auto
  have "andthen (on_session (reading q)) (remove_groups the_cache upd) s = (Ok (), s')"
    by (simp add: andthen_def t(1) run)
  moreover have "unchanged s s'" using t(2) s'(1,2) by (simp add: unchanged_def)
  moreover have "stored t = stored (the_session s)" using t(2) by (simp add: unchanged_def)
  ultimately show ?thesis
    using assms(1) s' by (intro exI [of _ s']) (auto simp: cache_agrees_def)
qed

end

text \<open>The two searches of an extent group.\<close>

lemma searches_one:
  assumes "nth_element_contract ne"
  shows "searches (ExtentGroup_getIntersectionWith ne e) (Extent_doesIntersect e)"
  using query_correct [OF assms] by (fastforce simp: searches_def hits_def group_ok_def)

lemma searches_group:
  assumes "nth_element_contract ne"
  shows "searches (ExtentGroup_getIntersectionWithGroup ne es {})
    (\<lambda>x. \<exists>e \<in> set es. Extent_doesIntersect e x)"
  unfolding searches_def
proof (intro allI impI)
  fix g assume g: "group_ok g"
  have eq: "(\<Union>e \<in> set es. hits e (dm_extents g)) = {i. i < length (dm_extents g) \<and>
      (\<exists>e \<in> set es. Extent_doesIntersect e (dm_extents g ! i))}"
    by (auto simp: hits_def)
  from g have "tree_ok g" by (simp add: group_ok_def)
  from group_query_correct [OF assms this, of es "{}"] g
  show "\<exists>g'. ExtentGroup_getIntersectionWithGroup ne es {} g
      = Some ({i. i < length (dm_extents g) \<and> (\<exists>e \<in> set es. Extent_doesIntersect e (dm_extents g ! i))}, g') \<and>
      dm_extents g' = dm_extents g \<and> group_ok g'"
    unfolding eq Un_empty_left by blast
qed

end
