(* ===== verification/SymbolCaches.thy ===== *)
theory SymbolCaches
  imports ThreadCorrect ExtentCaches
begin

text \<open>
  The caches of symbols (FunctionCache.cxx, LoopCache.cxx, StatementCache.cxx): one table of extents
  for each, keyed by linked object and filled from the database on the first query. The main result
  is that a query of a cache that agrees with the database returns exactly the symbols that share an
  address with the extents asked for.
\<close>

section \<open>The extents of a linked object\<close>

text \<open>\<open>TimeInterval(Time::TheBeginning(), Time::TheEnd())\<close>\<close>

definition always :: "time interval" where
  "always = Interval 0 (- 1)"

definition rows_in ::
  "('r \<Rightarrow> int) \<Rightarrow> ('r \<Rightarrow> int) \<Rightarrow> 'r list \<Rightarrow> RangeRow list \<Rightarrow> int \<Rightarrow> (int \<times> RangeRow) list" where
  "rows_in the_id object rows ranges lo =
     concat (map (\<lambda>row. map (\<lambda>x. (the_id x, row))
         (filter (\<lambda>x. rg_owner row = the_id x \<and> object x = lo) rows)) ranges)"

definition contiguous_ranges :: "(nat \<Rightarrow> byte) \<Rightarrow> RangeRow \<Rightarrow> addr interval list res" where
  "contiguous_ranges beyond row =
     bind_res (row_bitmap beyond row) (\<lambda>bitmap. AddressBitmap_getContiguousRanges bitmap True)"

definition ranges_of :: "(nat \<Rightarrow> byte) \<Rightarrow> (int \<times> RangeRow) list \<Rightarrow> (int \<times> addr interval) list res" where
  "ranges_of beyond rows =
     fold_res (\<lambda>acc (i, row).
         bind_res (contiguous_ranges beyond row) (\<lambda>ranges. Ok (acc @ map (Pair i) ranges))) rows []"

definition with_always :: "(int \<times> addr interval) list \<Rightarrow> (int \<times> extent) list" where
  "with_always = map (\<lambda>(i, r). (i, Extent always r))"

definition select_functions :: "(nat \<Rightarrow> byte) \<Rightarrow> int \<Rightarrow> tables \<Rightarrow> (int \<times> extent) list res" where
  "select_functions beyond lo db =
     bind_res (ranges_of beyond (rows_in fn_id fn_linked_object (Functions db) (FunctionRanges db) lo)) (\<lambda>list. Ok (with_always list))"

definition FunctionCache_addLinkedObject :: "(nat \<Rightarrow> byte) \<Rightarrow> int \<Rightarrow> (framework, unit) op" where
  "FunctionCache_addLinkedObject beyond lo =
     load_cache function_cache function_cache_update (select_functions beyond lo) lo"

definition select_loops :: "(nat \<Rightarrow> byte) \<Rightarrow> int \<Rightarrow> tables \<Rightarrow> (int \<times> extent) list res" where
  "select_loops beyond lo db =
     bind_res (ranges_of beyond (rows_in lp_id lp_linked_object (Loops db) (LoopRanges db) lo)) (\<lambda>list. Ok (with_always list))"

definition LoopCache_addLinkedObject :: "(nat \<Rightarrow> byte) \<Rightarrow> int \<Rightarrow> (framework, unit) op" where
  "LoopCache_addLinkedObject beyond lo =
     load_cache loop_cache loop_cache_update (select_loops beyond lo) lo"

definition select_statements :: "(nat \<Rightarrow> byte) \<Rightarrow> int \<Rightarrow> tables \<Rightarrow> (int \<times> extent) list res" where
  "select_statements beyond lo db =
     bind_res (ranges_of beyond (rows_in sm_id sm_linked_object (Statements db) (StatementRanges db) lo)) (\<lambda>list. Ok (with_always list))"

definition StatementCache_addLinkedObject :: "(nat \<Rightarrow> byte) \<Rightarrow> int \<Rightarrow> (framework, unit) op" where
  "StatementCache_addLinkedObject beyond lo =
     load_cache statement_cache statement_cache_update (select_statements beyond lo) lo"

section \<open>Queries\<close>

definition FunctionCache_getFunctions ::
  "nth_element \<Rightarrow> (nat \<Rightarrow> byte) \<Rightarrow> int \<Rightarrow> extent list \<Rightarrow> (framework, int set) op" where
  "FunctionCache_getFunctions ne beyond lo es =
     query_cache function_cache function_cache_update (ExtentGroup_getIntersectionWithGroup ne es {})
       (FunctionCache_addLinkedObject beyond lo) lo"

definition LoopCache_getLoops ::
  "nth_element \<Rightarrow> (nat \<Rightarrow> byte) \<Rightarrow> int \<Rightarrow> extent list \<Rightarrow> (framework, int set) op" where
  "LoopCache_getLoops ne beyond lo es =
     query_cache loop_cache loop_cache_update (ExtentGroup_getIntersectionWithGroup ne es {})
       (LoopCache_addLinkedObject beyond lo) lo"

definition StatementCache_getStatements ::
  "nth_element \<Rightarrow> (nat \<Rightarrow> byte) \<Rightarrow> int \<Rightarrow> extent list \<Rightarrow> (framework, int set) op" where
  "StatementCache_getStatements ne beyond lo es =
     query_cache statement_cache statement_cache_update (ExtentGroup_getIntersectionWithGroup ne es {})
       (StatementCache_addLinkedObject beyond lo) lo"

definition linked_objects :: "tables \<Rightarrow> int list res" where
  "linked_objects db = Ok (sorted_list_of_set (collect lo_id (LinkedObjects db) {}))"

definition FunctionCache_removeDatabase :: "(framework, unit) op" where
  "FunctionCache_removeDatabase =
     andthen (on_session (reading linked_objects)) (remove_groups function_cache function_cache_update)"

definition LoopCache_removeDatabase :: "(framework, unit) op" where
  "LoopCache_removeDatabase =
     andthen (on_session (reading linked_objects)) (remove_groups loop_cache loop_cache_update)"

definition StatementCache_removeDatabase :: "(framework, unit) op" where
  "StatementCache_removeDatabase =
     andthen (on_session (reading linked_objects)) (remove_groups statement_cache statement_cache_update)"

section \<open>The contiguous ranges of the symbols\<close>

lemma contiguous_ranges_ok:
  assumes "row_ok row"
  shows "\<exists>rs. contiguous_ranges beyond row = Ok rs \<and> (\<Union>r \<in> set rs. points r) = row_addresses row"
proof -
  obtain owner bm where bm: "bm_ok bm" and row: "row = range_row owner bm"
    using assms by (auto simp: row_ok_def)
  from getContiguousRanges_ok [OF bm, of True] obtain rs where
    "AddressBitmap_getContiguousRanges bm True = Ok rs"
    "(\<Union>r \<in> set rs. points r) = {a \<in> points (bm_range bm). bm_value bm a = True}" by blast
  then show ?thesis
    unfolding row contiguous_ranges_def row_bitmap_range_row [OF bm] row_addresses_range_row [OF bm]
    by auto
qed

lemma rows_in_iff:
  "(i, row) \<in> set (rows_in the_id object rows ranges lo) \<longleftrightarrow>
     row \<in> set ranges \<and> rg_owner row = i \<and> (\<exists>x \<in> set rows. the_id x = i \<and> object x = lo)"
  by (fastforce simp: rows_in_def image_iff)

lemma ranges_of_ok:
  assumes "owners_ok ids ranges"
  shows "\<exists>list. ranges_of beyond (rows_in the_id object rows ranges lo) = Ok list \<and>
    (\<forall>a. {i. \<exists>r. (i, r) \<in> set list \<and> a \<in> points r} = covering the_id object rows ranges lo a)"
proof -
  let ?rows = "rows_in the_id object rows ranges lo"
  have ok: "row_ok row" if "(i, row) \<in> set ?rows" for i row
    using assms that by (auto simp: owners_ok_def list_all_iff rows_in_iff)
  define f where "f row = the_Ok (contiguous_ranges beyond row)" for row
  have f: "contiguous_ranges beyond row = Ok (f row)" "(\<Union>r \<in> set (f row). points r) = row_addresses row"
    if "(i, row) \<in> set ?rows" for i row
    using contiguous_ranges_ok [OF ok [OF that], of beyond] by (auto simp: f_def)
  have run: "ranges_of beyond ?rows = Ok (foldl (\<lambda>acc (i, row). acc @ map (Pair i) (f row)) [] ?rows)"
    unfolding ranges_of_def by (rule fold_res_Ok) (auto simp: f(1))
  have flat: "foldl (\<lambda>acc (i, row). acc @ map (Pair i) (f row)) acc xs
      = acc @ concat (map (\<lambda>(i, row). map (Pair i) (f row)) xs)" for acc xs
    by (induction xs arbitrary: acc) auto
  have "{i. \<exists>r. (i, r) \<in> set (concat (map (\<lambda>(i, row). map (Pair i) (f row)) ?rows)) \<and> a \<in> points r}
      = covering the_id object rows ranges lo a" for a
  proof -
    have "{i. \<exists>r. (i, r) \<in> set (concat (map (\<lambda>(i, row). map (Pair i) (f row)) ?rows)) \<and> a \<in> points r}
        = {i. \<exists>row. (i, row) \<in> set ?rows \<and> a \<in> (\<Union>r \<in> set (f row). points r)}"
      by (fastforce simp: image_iff simp del: points_iff)
    also have "\<dots> = {i. \<exists>row. (i, row) \<in> set ?rows \<and> a \<in> row_addresses row}" using f(2) by blast
    also have "\<dots> = covering the_id object rows ranges lo a"
      unfolding set_eq_iff mem_Collect_eq covering_iff rows_in_iff by blast
    finally show ?thesis .
  qed
  then show ?thesis unfolding run flat append_Nil by blast
qed

section \<open>The contract of a cache of symbols\<close>

lemma always_intersects:
  "Extent_doesIntersect (Extent always q) (Extent always r) \<longleftrightarrow> points q \<inter> points r \<noteq> {}"
proof -
  have "0 \<in> points always" by (simp add: always_def Interval_containsValue_def word_neq_0_conv [symmetric])
  then show ?thesis
    unfolding Extent_doesIntersect_iff extent_points_def Times_Int_Times by auto
qed

text \<open>
  What the three caches have in common beyond the other caches: they are keyed by linked objects, and
  their extents are the addresses of the symbols that cover them, at all times.
\<close>

locale symbol_cache = extent_cache the_cache upd select symbols_ok
  for the_cache :: "framework \<Rightarrow> cache" and upd and select +
  fixes cover :: "tables \<Rightarrow> int \<Rightarrow> addr \<Rightarrow> int set"
  assumes select_cover: "symbols_ok db \<Longrightarrow> \<exists>list. select lo db = Ok (with_always list) \<and>
      (\<forall>a. {i. \<exists>r. (i, r) \<in> set list \<and> a \<in> points r} = cover db lo a)"
begin

lemma covered_exact:
  assumes ne: "nth_element_contract ne" and ok: "symbols_ok (stored (the_session s))"
    and s: "cache_agrees the_cache select s"
  shows "\<exists>s'. query_cache the_cache upd
      (ExtentGroup_getIntersectionWithGroup ne (map (Extent always) qs) {})
      (load_cache the_cache upd (select lo) lo) lo s
    = (Ok {i. \<exists>q \<in> set qs. \<exists>a \<in> points q. i \<in> cover (stored (the_session s)) lo a}, s') \<and>
    cache_agrees the_cache select s' \<and> unchanged s s'"
proof -
  let ?db = "stored (the_session s)"
  from query_exact [OF searches_group [OF ne] ok s, of "map (Extent always) qs" lo] obtain s' xs where
    run: "query_cache the_cache upd
        (ExtentGroup_getIntersectionWithGroup ne (map (Extent always) qs) {})
        (load_cache the_cache upd (select lo) lo) lo s
      = (Ok {i. \<exists>x. (i, x) \<in> set xs \<and>
          (\<exists>e \<in> set (map (Extent always) qs). Extent_doesIntersect e x)}, s')"
    and sel: "select lo ?db = Ok xs" and s': "cache_agrees the_cache select s'" "unchanged s s'"
    by blast
  from select_cover [OF ok, of lo] sel obtain list where
    xs: "xs = with_always list" and cover: "\<And>a. {i. \<exists>r. (i, r) \<in> set list \<and> a \<in> points r} = cover ?db lo a"
    by auto
  have mem: "(i, x) \<in> set xs \<longleftrightarrow> (\<exists>r. x = Extent always r \<and> (i, r) \<in> set list)" for i x
    by (auto simp: xs with_always_def)
  have "{i. \<exists>x. (i, x) \<in> set xs \<and> (\<exists>e \<in> set (map (Extent always) qs). Extent_doesIntersect e x)}
      = {i. \<exists>r. (i, r) \<in> set list \<and> (\<exists>q \<in> set qs. points q \<inter> points r \<noteq> {})}"
    unfolding mem set_map using always_intersects by blast
  also have "\<dots> = {i. \<exists>q \<in> set qs. \<exists>a \<in> points q. i \<in> {i. \<exists>r. (i, r) \<in> set list \<and> a \<in> points r}}"
    by blast
  finally show ?thesis using run s' unfolding cover by auto
qed

end

section \<open>The three caches\<close>

lemma select_ranges:
  assumes "owners_ok ids ranges"
  shows "\<exists>list. bind_res (ranges_of beyond (rows_in the_id object rows ranges lo)) (\<lambda>list. Ok (with_always list))
      = Ok (with_always list) \<and>
    (\<forall>a. {i. \<exists>r. (i, r) \<in> set list \<and> a \<in> points r} = covering the_id object rows ranges lo a)"
  using ranges_of_ok [OF assms, of beyond the_id object rows lo] by auto

interpretation function_cached: symbol_cache function_cache function_cache_update
  "select_functions beyond" functions_covering for beyond
  using select_ranges by unfold_locales (fastforce simp: select_functions_def symbols_ok_def)+

interpretation loop_cached: symbol_cache loop_cache loop_cache_update "select_loops beyond"
  loops_covering for beyond
  using select_ranges by unfold_locales (fastforce simp: select_loops_def symbols_ok_def)+

interpretation statement_cached: symbol_cache statement_cache statement_cache_update
  "select_statements beyond" statements_covering for beyond
  using select_ranges by unfold_locales (fastforce simp: select_statements_def symbols_ok_def)+

lemma one_address: "a \<noteq> - 1 \<Longrightarrow> points (Interval a (a + 1)) = {a}" for a :: addr
  by (auto simp: Interval_containsValue_def not_le [symmetric] inc_less_eq_iff
      dest: less_inc_imp_less_eq)

section \<open>Properties\<close>

definition empty_framework :: "session \<Rightarrow> framework" where
  "empty_framework s = \<lparr>the_session = s, function_cache = ExtentTable_make,
     loop_cache = ExtentTable_make, statement_cache = ExtentTable_make,
     data_cache = ExtentTable_make, calls = []\<rparr>"

lemma empty_framework_agrees:
  "cache_agrees function_cache select (empty_framework s)"
  "cache_agrees loop_cache select (empty_framework s)"
  "cache_agrees statement_cache select (empty_framework s)"
  by (simp_all add: cache_agrees_def empty_framework_def et_ok_make)
    (simp_all add: entries_def objects_of_def ExtentTable_make_def)

text \<open>C13: a query of a cache that agrees with the tables returns exactly the symbols of the linked
  object that have an address in one of the ranges asked for; it leaves the tables alone and the cache
  in agreement with them.\<close>

theorem cached_symbols_exact:
  assumes "nth_element_contract ne" and "symbols_ok (stored (the_session s))"
    and "cache_agrees function_cache (select_functions beyond) s"
    and "cache_agrees loop_cache (select_loops beyond) s"
    and "cache_agrees statement_cache (select_statements beyond) s"
  shows "\<exists>s1 s2 s3.
    FunctionCache_getFunctions ne beyond lo (map (Extent always) qs) s = (Ok {i. \<exists>q \<in> set qs.
        \<exists>a \<in> points q. i \<in> functions_covering (stored (the_session s)) lo a}, s1) \<and>
    cache_agrees function_cache (select_functions beyond) s1 \<and> unchanged s s1 \<and>
    LoopCache_getLoops ne beyond lo (map (Extent always) qs) s = (Ok {i. \<exists>q \<in> set qs.
        \<exists>a \<in> points q. i \<in> loops_covering (stored (the_session s)) lo a}, s2) \<and>
    cache_agrees loop_cache (select_loops beyond) s2 \<and> unchanged s s2 \<and>
    StatementCache_getStatements ne beyond lo (map (Extent always) qs) s = (Ok {i. \<exists>q \<in> set qs.
        \<exists>a \<in> points q. i \<in> statements_covering (stored (the_session s)) lo a}, s3) \<and>
    cache_agrees statement_cache (select_statements beyond) s3 \<and> unchanged s s3"
  using function_cached.covered_exact [OF assms(1-3), where lo = lo and qs = qs]
    loop_cached.covered_exact [OF assms(1,2,4), where lo = lo and qs = qs]
    statement_cached.covered_exact [OF assms(1,2,5), where lo = lo and qs = qs]
  unfolding FunctionCache_getFunctions_def FunctionCache_addLinkedObject_def
    LoopCache_getLoops_def LoopCache_addLinkedObject_def
    StatementCache_getStatements_def StatementCache_addLinkedObject_def
  by blast

lemma cached_symbols_exact_witness:
  "\<exists>s1 A. FunctionCache_getFunctions sorting_nth_element (\<lambda>_. 0) 1
     (map (Extent always) [Interval 100 101]) (empty_framework sample_session) = (Ok A, s1) \<and> 1 \<in> A"
proof -
  have "1 \<in> functions_covering sample_tables 1 100" by (simp add: sample_covering)
  moreover have "(100::addr) \<in> points (Interval 100 101)" by (simp add: Interval_containsValue_def)
  ultimately have "1 \<in> {i. \<exists>q \<in> set [Interval 100 101]. \<exists>a \<in> points q.
      i \<in> functions_covering (stored (the_session (empty_framework sample_session))) 1 a}"
    by (auto simp: empty_framework_def sample_session_simps simp del: points_iff)
  moreover have "symbols_ok (stored (the_session (empty_framework sample_session)))"
    by (simp add: empty_framework_def sample_session_simps sample_ok)
  ultimately show ?thesis
    using cached_symbols_exact [OF sorting_nth_element_contract _ empty_framework_agrees,
        of sample_session "\<lambda>_. 0" 1 "[Interval 100 101]"]
    by blast
qed

text \<open>The two ways to ask for the statements at an address agree: the query of a thread on the
  database and the query of the cache for the linked object that the thread has loaded there.\<close>

theorem cache_agrees_with_thread:
  assumes "nth_element_contract ne" and "symbols_ok (stored (the_session s))"
    and "spaces_ok (stored (the_session s))"
    and "cache_agrees statement_cache (select_statements beyond) s"
    and "spaces_at t address tm (stored (the_session s)) = space # rest"
    and "address - addr_begin space \<noteq> - 1"
  shows "fst (StatementCache_getStatements ne beyond (as_linked_object space)
      [Extent always (Interval (address - addr_begin space) (address - addr_begin space + 1))] s)
    = fst (Thread_getStatementsAt beyond t address tm (the_session s))"
proof -
  have "owners_ok (map sm_id (Statements (stored (the_session s)))) (StatementRanges (stored (the_session s)))"
    using assms(2) by (simp add: symbols_ok_def)
  note direct = collect_at_ok [OF this]
  from statement_cached.covered_exact [OF assms(1,2,4), where lo = "as_linked_object space"
      and qs = "[Interval (address - addr_begin space) (address - addr_begin space + 1)]"]
  show ?thesis
    using first_space_minus [OF assms(3), of t address tm "as_linked_object space"] assms(5)
    by (auto simp: StatementCache_getStatements_def StatementCache_addLinkedObject_def
        Thread_getStatementsAt_def reading_fst statements_at_def direct one_address [OF assms(6)]
        simp del: points_iff)
qed

lemma cache_agrees_with_thread_witness:
  "fst (StatementCache_getStatements sorting_nth_element (\<lambda>_. 0) 1
      [Extent always (Interval 100 101)] (empty_framework sample_session))
    = fst (Thread_getStatementsAt (\<lambda>_. 0) 1 4196 5 sample_session)"
proof -
  let ?s = "empty_framework sample_session"
  have s: "the_session ?s = sample_session" by (simp add: empty_framework_def)
  have ok: "symbols_ok (stored (the_session ?s))" "spaces_ok (stored (the_session ?s))"
    "spaces_at 1 4196 5 (stored (the_session ?s)) = [sample_space]"
    by (simp_all only: s sample_session_simps sample_ok sample_spaces)
  have "(4196::addr) - addr_begin sample_space \<noteq> - 1" by (simp add: sample_space_def)
  from cache_agrees_with_thread [OF sorting_nth_element_contract ok(1,2) empty_framework_agrees(3)
      ok(3) this, of "\<lambda>_. 0"]
  show ?thesis by (simp add: s sample_space_def)
qed

text \<open>Removing a database from the caches empties the groups of all its linked objects and
  leaves the caches in agreement with the tables.\<close>

theorem removeDatabase_forgets:
  assumes "cache_agrees function_cache (select_functions beyond) s"
    and "cache_agrees loop_cache (select_loops beyond) s"
    and "cache_agrees statement_cache (select_statements beyond) s"
    and "row \<in> set (LinkedObjects (stored (the_session s)))"
  shows "\<exists>s1 s2 s3. FunctionCache_removeDatabase s = (Ok (), s1) \<and>
    cache_agrees function_cache (select_functions beyond) s1 \<and> entries (function_cache s1) (lo_id row) = [] \<and>
    LoopCache_removeDatabase s = (Ok (), s2) \<and>
    cache_agrees loop_cache (select_loops beyond) s2 \<and> entries (loop_cache s2) (lo_id row) = [] \<and>
    StatementCache_removeDatabase s = (Ok (), s3) \<and>
    cache_agrees statement_cache (select_statements beyond) s3 \<and>
    entries (statement_cache s3) (lo_id row) = []"
proof -
  let ?los = "sorted_list_of_set (collect lo_id (LinkedObjects (stored (the_session s))) {})"
  have "linked_objects (stored (the_session s)) = Ok ?los" "lo_id row \<in> set ?los"
    using assms(4) by (simp_all add: linked_objects_def collect_def foldl_insert)
  then show ?thesis
    using function_cached.remove_selected_ok [OF assms(1), of linked_objects]
      loop_cached.remove_selected_ok [OF assms(2), of linked_objects]
      statement_cached.remove_selected_ok [OF assms(3), of linked_objects]
    unfolding FunctionCache_removeDatabase_def LoopCache_removeDatabase_def
      StatementCache_removeDatabase_def
    by fastforce
qed

lemma removeDatabase_forgets_witness:
  "\<exists>s1. FunctionCache_removeDatabase (empty_framework sample_session) = (Ok (), s1) \<and>
     entries (function_cache s1) 1 = []"
proof -
  have "\<lparr>lo_id = 1, lo_begin = 0, lo_end = 4096, lo_file = 1, is_executable = 1\<rparr>
      \<in> set (LinkedObjects (stored (the_session (empty_framework sample_session))))"
    by (simp add: empty_framework_def sample_session_simps sample_tables_def)
  from removeDatabase_forgets [OF empty_framework_agrees this] show ?thesis by auto
qed

end
