(* ===== verification/Symbols.thy ===== *)
theory Symbols
  imports SymbolCaches
begin

text \<open>
  The classes \<open>Function\<close>, \<open>Loop\<close>, \<open>Statement\<close> and \<open>LinkedObject\<close> (Function.cxx, Loop.cxx,
  Statement.cxx, LinkedObject.cxx): the threads and the linked object of a symbol, its extents in a
  thread, its attributes, and the symbols it shares addresses with, which the caches answer. The three
  kinds of symbols are copies of the same code, modelled once over the table of the symbol. The main
  results relate the extents of a symbol in a thread to what the thread finds at an address, and show
  that the questions of two kinds of symbols about each other are inverse.
\<close>

section \<open>Queries over a table of symbols\<close>

definition rows_with :: "('r \<Rightarrow> int) \<Rightarrow> int \<Rightarrow> 'r list \<Rightarrow> 'r list" where
  "rows_with the_id i rows = filter (\<lambda>x. the_id x = i) rows"

text \<open>\<open>getThreads\<close>: the threads that have the linked object of the symbol in their address space.\<close>

definition not_found :: "string \<Rightarrow> string \<Rightarrow> exception" where
  "not_found table what = Exception EntryNotFound [table, what]"

definition threads_with :: "tables \<Rightarrow> int \<Rightarrow> int set \<Rightarrow> int set" where
  "threads_with db linked_object threads =
     collect as_thread (rows_with as_linked_object linked_object (AddressSpaces db)) threads"

definition symbol_threads :: "string \<Rightarrow> ('r \<Rightarrow> int) \<Rightarrow> 'r list \<Rightarrow> tables \<Rightarrow> int set res" where
  "symbol_threads what object rows db =
     (let threads = foldl (\<lambda>threads row. threads_with db (object row) threads) {} rows
      in if threads = {} then Throw (not_found ''Threads'' what) else Ok threads)"

text \<open>The join of a table of ranges with the row of one symbol.\<close>

definition rows_of ::
  "('r \<Rightarrow> int) \<Rightarrow> ('r \<Rightarrow> int) \<Rightarrow> int \<Rightarrow> 'r list \<Rightarrow> RangeRow list \<Rightarrow> (int \<times> RangeRow) list" where
  "rows_of the_id object i rows ranges =
     concat (map (\<lambda>row. map (\<lambda>x. (object x, row))
         (filter (\<lambda>x. rg_owner row = the_id x \<and> the_id x = i) rows)) ranges)"

text \<open>\<open>getExtentIn\<close>: the ranges of the symbol, moved to where its linked object is loaded.\<close>

definition loaded_at :: "AddressSpaceRow \<Rightarrow> addr interval \<Rightarrow> extent res" where
  "loaded_at space r =
     bind_res (Interval_make (time_begin space) (time_end space)) (\<lambda>interval.
     bind_res (Address_plus (addr_begin space) (dm_begin r)) (\<lambda>b.
     bind_res (Address_plus (addr_begin space) (dm_end r)) (\<lambda>e.
     bind_res (Interval_make b e) (\<lambda>range. Ok (Extent interval range)))))"

definition spaces_of :: "int \<Rightarrow> int \<Rightarrow> tables \<Rightarrow> AddressSpaceRow list" where
  "spaces_of t linked_object db =
     filter (\<lambda>space. as_thread space = t \<and> as_linked_object space = linked_object) (AddressSpaces db)"

definition extents_in ::
  "(nat \<Rightarrow> byte) \<Rightarrow> int \<Rightarrow> (int \<times> RangeRow) list \<Rightarrow> tables \<Rightarrow> extent list res" where
  "extents_in beyond t rows db =
     fold_res (\<lambda>extent (linked_object, row).
         bind_res (contiguous_ranges beyond row) (\<lambda>ranges.
         fold_res (\<lambda>extent space.
             fold_res (\<lambda>extent r. bind_res (loaded_at space r) (\<lambda>e. Ok (extent @ [e]))) ranges extent)
           (spaces_of t linked_object db) extent))
       rows []"

definition symbol_object :: "('r \<Rightarrow> int) \<Rightarrow> 'r list \<Rightarrow> int option" where
  "symbol_object object rows = foldl (\<lambda>_ row. Some (object row)) None rows"

text \<open>\<open>getLinkedObjectAndExtent\<close>; the linked object is null if the symbol has no ranges.\<close>

definition linked_object_and_extent ::
  "(nat \<Rightarrow> byte) \<Rightarrow> (int \<times> RangeRow) list \<Rightarrow> (int option \<times> extent list) res" where
  "linked_object_and_extent beyond rows =
     fold_res (\<lambda>(_, extent) (linked_object, row).
         bind_res (contiguous_ranges beyond row) (\<lambda>ranges.
           Ok (Some linked_object, extent @ map (Extent always) ranges)))
       rows (None, [])"

text \<open>A query of a cache for a null linked object dereferences a null database.\<close>

definition with_object ::
  "(int option \<times> extent list) \<Rightarrow> (int \<Rightarrow> extent list \<Rightarrow> (framework, 'a) op) \<Rightarrow> (framework, 'a) op" where
  "with_object p cached =
     (case fst p of None \<Rightarrow> abort | Some linked_object \<Rightarrow> cached linked_object (snd p))"

text \<open>\<open>getPath\<close>: the paths that a join with \<open>Files\<close> yields; one that is empty counts as none.\<close>

definition the_path :: "string \<Rightarrow> string list \<Rightarrow> string res" where
  "the_path what paths =
     bind_res (fold_res (\<lambda>path p.
         if path \<noteq> [] then Throw (Exception EntryNotUnique [''Files'', what]) else Ok p) paths [])
       (\<lambda>path. if path = [] then Throw (not_found ''Files'' what) else Ok path)"

definition paths_of :: "int list \<Rightarrow> tables \<Rightarrow> string list" where
  "paths_of file_ids db =
     concat (map (\<lambda>i. map fl_path (rows_with fl_id i (Files db))) file_ids)"

section \<open>Functions\<close>

definition function_rows :: "int \<Rightarrow> tables \<Rightarrow> (int \<times> RangeRow) list" where
  "function_rows self db = rows_of fn_id fn_linked_object self (Functions db) (FunctionRanges db)"

definition Function_getThreads :: "int \<Rightarrow> (session, int set) op" where
  "Function_getThreads self = reading (\<lambda>db.
     symbol_threads ''<Functions-Referenced>'' fn_linked_object (rows_with fn_id self (Functions db)) db)"

definition Function_getExtentIn :: "(nat \<Rightarrow> byte) \<Rightarrow> int \<Rightarrow> int \<Rightarrow> (session, extent list) op" where
  "Function_getExtentIn beyond self t = reading (\<lambda>db.
     extents_in beyond t (function_rows self db) db)"

definition Function_getLinkedObject :: "int \<Rightarrow> (session, int option) op" where
  "Function_getLinkedObject self = reading (\<lambda>db.
     Ok (symbol_object fn_linked_object (rows_with fn_id self (Functions db))))"

definition Function_getMangledName :: "int \<Rightarrow> (session, string) op" where
  "Function_getMangledName self = reading (\<lambda>db.
     Ok (foldl (\<lambda>_ row. fn_name row) [] (rows_with fn_id self (Functions db))))"

text \<open>\<open>cplus_demangle\<close> is a parameter: the name and whether all is to be shown.\<close>

definition Function_getDemangledName ::
  "(string \<Rightarrow> bool \<Rightarrow> string option) \<Rightarrow> bool \<Rightarrow> int \<Rightarrow> (session, string) op" where
  "Function_getDemangledName cplus_demangle all self =
     andthen (Function_getMangledName self) (\<lambda>mangled.
       ret (case cplus_demangle mangled all of None \<Rightarrow> mangled | Some demangled \<Rightarrow> demangled))"

definition Function_getName ::
  "(string \<Rightarrow> bool \<Rightarrow> string option) \<Rightarrow> int \<Rightarrow> (session, string) op" where
  "Function_getName cplus_demangle self = Function_getDemangledName cplus_demangle False self"

definition Function_getLinkedObjectAndExtent ::
  "(nat \<Rightarrow> byte) \<Rightarrow> int \<Rightarrow> (session, int option \<times> extent list) op" where
  "Function_getLinkedObjectAndExtent beyond self = reading (\<lambda>db.
     linked_object_and_extent beyond (function_rows self db))"

definition Function_getDefinitions ::
  "nth_element \<Rightarrow> (nat \<Rightarrow> byte) \<Rightarrow> int \<Rightarrow> (framework, int set) op" where
  "Function_getDefinitions ne beyond self =
     andthen (on_session (Function_getLinkedObjectAndExtent beyond self)) (\<lambda>(linked_object, extent).
     let group = foldl (\<lambda>g e. ExtentGroup_push_back e g) ExtentGroup_empty extent;
         first = Extent always (AddressRange_of (dm_begin (dm_range (fst (ExtentGroup_getBounds group)))))
     in with_object (linked_object, [first]) (StatementCache_getStatements ne beyond))"

definition Function_getLoops ::
  "nth_element \<Rightarrow> (nat \<Rightarrow> byte) \<Rightarrow> int \<Rightarrow> (framework, int set) op" where
  "Function_getLoops ne beyond self =
     andthen (on_session (Function_getLinkedObjectAndExtent beyond self)) (\<lambda>p.
       with_object p (LoopCache_getLoops ne beyond))"

definition Function_getStatements ::
  "nth_element \<Rightarrow> (nat \<Rightarrow> byte) \<Rightarrow> int \<Rightarrow> (framework, int set) op" where
  "Function_getStatements ne beyond self =
     andthen (on_session (Function_getLinkedObjectAndExtent beyond self)) (\<lambda>p.
       with_object p (StatementCache_getStatements ne beyond))"

text \<open>
  The query has three columns and the loop reads the second, the third and the fourth: the assertion
  on the number of the column fails in the first row.
\<close>

definition Function_getAddressRange :: "int \<Rightarrow> (session, addr interval) op" where
  "Function_getAddressRange self = reading (\<lambda>db.
     fold_res (\<lambda>range row. Abort) (function_rows self db) Interval_default)"

section \<open>Loops\<close>

definition loop_rows :: "int \<Rightarrow> tables \<Rightarrow> (int \<times> RangeRow) list" where
  "loop_rows self db = rows_of lp_id lp_linked_object self (Loops db) (LoopRanges db)"

definition Loop_getThreads :: "int \<Rightarrow> (session, int set) op" where
  "Loop_getThreads self = reading (\<lambda>db.
     symbol_threads ''<Loops-Referenced>'' lp_linked_object (rows_with lp_id self (Loops db)) db)"

definition Loop_getExtentIn :: "(nat \<Rightarrow> byte) \<Rightarrow> int \<Rightarrow> int \<Rightarrow> (session, extent list) op" where
  "Loop_getExtentIn beyond self t = reading (\<lambda>db. extents_in beyond t (loop_rows self db) db)"

definition Loop_getLinkedObject :: "int \<Rightarrow> (session, int option) op" where
  "Loop_getLinkedObject self = reading (\<lambda>db.
     Ok (symbol_object lp_linked_object (rows_with lp_id self (Loops db))))"

definition Loop_getLinkedObjectAndExtent ::
  "(nat \<Rightarrow> byte) \<Rightarrow> int \<Rightarrow> (session, int option \<times> extent list) op" where
  "Loop_getLinkedObjectAndExtent beyond self = reading (\<lambda>db.
     linked_object_and_extent beyond (loop_rows self db))"

definition Loop_getDefinitions ::
  "nth_element \<Rightarrow> (nat \<Rightarrow> byte) \<Rightarrow> int \<Rightarrow> (framework, int set) op" where
  "Loop_getDefinitions ne beyond self =
     andthen (on_session (Loop_getLinkedObjectAndExtent beyond self)) (\<lambda>(linked_object, extent).
     andthen (on_session (reading (\<lambda>db.
         Ok (foldl (\<lambda>_ row. lp_head row) 0 (rows_with lp_id self (Loops db)))))) (\<lambda>head.
       with_object (linked_object, [Extent always (AddressRange_of head)])
         (StatementCache_getStatements ne beyond)))"

definition Loop_getFunctions ::
  "nth_element \<Rightarrow> (nat \<Rightarrow> byte) \<Rightarrow> int \<Rightarrow> (framework, int set) op" where
  "Loop_getFunctions ne beyond self =
     andthen (on_session (Loop_getLinkedObjectAndExtent beyond self)) (\<lambda>p.
       with_object p (FunctionCache_getFunctions ne beyond))"

definition Loop_getStatements ::
  "nth_element \<Rightarrow> (nat \<Rightarrow> byte) \<Rightarrow> int \<Rightarrow> (framework, int set) op" where
  "Loop_getStatements ne beyond self =
     andthen (on_session (Loop_getLinkedObjectAndExtent beyond self)) (\<lambda>p.
       with_object p (StatementCache_getStatements ne beyond))"

section \<open>Statements\<close>

definition statement_rows :: "int \<Rightarrow> tables \<Rightarrow> (int \<times> RangeRow) list" where
  "statement_rows self db = rows_of sm_id sm_linked_object self (Statements db) (StatementRanges db)"

definition Statement_getThreads :: "int \<Rightarrow> (session, int set) op" where
  "Statement_getThreads self = reading (\<lambda>db.
     symbol_threads ''<Statements-Referenced>'' sm_linked_object
       (rows_with sm_id self (Statements db)) db)"

definition Statement_getExtentIn :: "(nat \<Rightarrow> byte) \<Rightarrow> int \<Rightarrow> int \<Rightarrow> (session, extent list) op" where
  "Statement_getExtentIn beyond self t = reading (\<lambda>db.
     extents_in beyond t (statement_rows self db) db)"

definition Statement_getLinkedObject :: "int \<Rightarrow> (session, int option) op" where
  "Statement_getLinkedObject self = reading (\<lambda>db.
     Ok (symbol_object sm_linked_object (rows_with sm_id self (Statements db))))"

definition Statement_getPath :: "int \<Rightarrow> (session, string) op" where
  "Statement_getPath self = reading (\<lambda>db.
     the_path ''<Statements-Referenced>''
       (paths_of (map sm_file (rows_with sm_id self (Statements db))) db))"

text \<open>The variables are not initialised; \<open>garbage\<close> is what they hold.\<close>

definition Statement_getLine :: "int \<Rightarrow> int \<Rightarrow> (session, int) op" where
  "Statement_getLine garbage self = reading (\<lambda>db.
     Ok (foldl (\<lambda>_ row. sm_line row) garbage (rows_with sm_id self (Statements db))))"

definition Statement_getColumn :: "int \<Rightarrow> int \<Rightarrow> (session, int) op" where
  "Statement_getColumn garbage self = reading (\<lambda>db.
     Ok (foldl (\<lambda>_ row. sm_column row) garbage (rows_with sm_id self (Statements db))))"

definition Statement_getLinkedObjectAndExtent ::
  "(nat \<Rightarrow> byte) \<Rightarrow> int \<Rightarrow> (session, int option \<times> extent list) op" where
  "Statement_getLinkedObjectAndExtent beyond self = reading (\<lambda>db.
     linked_object_and_extent beyond (statement_rows self db))"

definition Statement_getFunctions ::
  "nth_element \<Rightarrow> (nat \<Rightarrow> byte) \<Rightarrow> int \<Rightarrow> (framework, int set) op" where
  "Statement_getFunctions ne beyond self =
     andthen (on_session (Statement_getLinkedObjectAndExtent beyond self)) (\<lambda>p.
       with_object p (FunctionCache_getFunctions ne beyond))"

definition Statement_getLoops ::
  "nth_element \<Rightarrow> (nat \<Rightarrow> byte) \<Rightarrow> int \<Rightarrow> (framework, int set) op" where
  "Statement_getLoops ne beyond self =
     andthen (on_session (Statement_getLinkedObjectAndExtent beyond self)) (\<lambda>p.
       with_object p (LoopCache_getLoops ne beyond))"

section \<open>Linked objects\<close>

definition LinkedObject_getThreads :: "int \<Rightarrow> (session, int set) op" where
  "LinkedObject_getThreads self = reading (\<lambda>db.
     let threads = threads_with db self {} in
     if threads = {} then Throw (not_found ''Threads'' ''<LinkedObjects-Referenced>'') else Ok threads)"

definition LinkedObject_getExtentIn :: "int \<Rightarrow> int \<Rightarrow> (session, extent list) op" where
  "LinkedObject_getExtentIn self t = reading (\<lambda>db.
     fold_res (\<lambda>extent space.
         bind_res (Interval_make (time_begin space) (time_end space)) (\<lambda>interval.
         bind_res (Interval_make (addr_begin space) (addr_end space)) (\<lambda>range.
           Ok (extent @ [Extent interval range]))))
       (spaces_of t self db) [])"

definition LinkedObject_getPath :: "int \<Rightarrow> (session, string) op" where
  "LinkedObject_getPath self = reading (\<lambda>db.
     the_path ''<LinkedObjects-Referenced>''
       (paths_of (map lo_file (rows_with lo_id self (LinkedObjects db))) db))"

definition LinkedObject_isExecutable :: "bool \<Rightarrow> int \<Rightarrow> (session, bool) op" where
  "LinkedObject_isExecutable garbage self = reading (\<lambda>db.
     Ok (foldl (\<lambda>_ row. is_executable row \<noteq> 0) garbage (rows_with lo_id self (LinkedObjects db))))"

definition LinkedObject_getFunctions :: "int \<Rightarrow> (session, int set) op" where
  "LinkedObject_getFunctions self = reading (\<lambda>db.
     Ok (collect fn_id (rows_with fn_linked_object self (Functions db)) {}))"

definition LinkedObject_getLoops :: "int \<Rightarrow> (session, int set) op" where
  "LinkedObject_getLoops self = reading (\<lambda>db.
     Ok (collect lp_id (rows_with lp_linked_object self (Loops db)) {}))"

definition LinkedObject_getStatements :: "int \<Rightarrow> (session, int set) op" where
  "LinkedObject_getStatements self = reading (\<lambda>db.
     Ok (collect sm_id (rows_with sm_linked_object self (Statements db)) {}))"

text \<open>The ranges go into a \<open>std::set\<close>, in which overlapping ranges are the same element.\<close>

definition LinkedObject_getAddressRange :: "int \<Rightarrow> (session, addr interval list) op" where
  "LinkedObject_getAddressRange self = reading (\<lambda>db.
     fold_res (\<lambda>ranges space.
         bind_res (Interval_make (addr_begin space) (addr_end space)) (\<lambda>r.
           Ok (set_insert Interval_precedes r ranges)))
       (rows_with as_linked_object self (AddressSpaces db)) [])"

end
