(* ===== verification/SymbolRelations.thy ===== *)
theory SymbolRelations
  imports Symbols
begin

text \<open>
  What the queries of the symbols mean. The places of a symbol are the pairs of a linked object and an
  address in it; two symbols are related when they share a place, and the extents of a symbol in a
  thread are its places moved to where the linked objects are loaded.
\<close>

section \<open>Places\<close>

definition places ::
  "('r \<Rightarrow> int) \<Rightarrow> ('r \<Rightarrow> int) \<Rightarrow> 'r list \<Rightarrow> RangeRow list \<Rightarrow> int \<Rightarrow> (int \<times> addr) set" where
  "places the_id object rows ranges i =
     {(object x, a) | x a. x \<in> set rows \<and> the_id x = i \<and> a \<in> owned ranges i}"

abbreviation function_places :: "tables \<Rightarrow> int \<Rightarrow> (int \<times> addr) set" where
  "function_places db \<equiv> places fn_id fn_linked_object (Functions db) (FunctionRanges db)"

abbreviation loop_places :: "tables \<Rightarrow> int \<Rightarrow> (int \<times> addr) set" where
  "loop_places db \<equiv> places lp_id lp_linked_object (Loops db) (LoopRanges db)"

abbreviation statement_places :: "tables \<Rightarrow> int \<Rightarrow> (int \<times> addr) set" where
  "statement_places db \<equiv> places sm_id sm_linked_object (Statements db) (StatementRanges db)"

lemma covering_places:
  "i \<in> covering the_id object rows ranges lo a \<longleftrightarrow> (lo, a) \<in> places the_id object rows ranges i"
  by (auto simp: covering_def places_def)

lemma rows_of_iff:
  "(lo, row) \<in> set (rows_of the_id object i rows ranges) \<longleftrightarrow>
     row \<in> set ranges \<and> rg_owner row = i \<and> (\<exists>x \<in> set rows. the_id x = i \<and> object x = lo)"
  by (fastforce simp: rows_of_def image_iff)

lemma one_object:
  assumes "distinct (map the_id rows)" and "x \<in> set rows" and "y \<in> set rows" and "the_id x = the_id y"
  shows "x = y"
  using assms by (metis distinct_map inj_onD)

text \<open>The ranges of the rows of a symbol.\<close>

definition the_ranges :: "(nat \<Rightarrow> byte) \<Rightarrow> RangeRow \<Rightarrow> addr interval list" where
  "the_ranges beyond row = the_Ok (contiguous_ranges beyond row)"

lemma owner_row:
  "owners_ok (map the_id rows) ranges \<Longrightarrow> row \<in> set ranges \<Longrightarrow> \<exists>x \<in> set rows. the_id x = rg_owner row"
  by (fastforce simp: owners_ok_def image_subset_iff)

lemma ranges_ok:
  assumes "owners_ok ids ranges" and "(lo, row) \<in> set (rows_of the_id object i rows ranges)"
  shows "contiguous_ranges beyond row = Ok (the_ranges beyond row)"
    and "(\<Union>r \<in> set (the_ranges beyond row). points r) = row_addresses row"
    and "\<forall>r \<in> set (the_ranges beyond row). dm_begin r < dm_end r"
proof -
  have "row_ok row" using assms by (auto simp: owners_ok_def list_all_iff rows_of_iff)
  then obtain owner bm where bm: "bm_ok bm" and row: "row = range_row owner bm"
    by (auto simp: row_ok_def)
  from getContiguousRanges_ok [OF bm, of True] obtain rs where
    rs: "AddressBitmap_getContiguousRanges bm True = Ok rs" "separated rs"
      "(\<Union>r \<in> set rs. points r) = {a \<in> points (bm_range bm). bm_value bm a = True}" by blast
  have eq: "contiguous_ranges beyond row = Ok rs"
    by (simp add: contiguous_ranges_def row row_bitmap_range_row [OF bm] rs(1))
  then have rs': "the_ranges beyond row = rs" by (simp add: the_ranges_def)
  show "contiguous_ranges beyond row = Ok (the_ranges beyond row)" by (simp only: eq rs')
  show "(\<Union>r \<in> set (the_ranges beyond row). points r) = row_addresses row"
    using rs(3) row_addresses_range_row [OF bm, of owner] unfolding rs' row [symmetric] by simp
  show "\<forall>r \<in> set (the_ranges beyond row). dm_begin r < dm_end r"
    using rs(2) by (simp add: rs' separated_def proper_def)
qed

lemma owned_rows:
  assumes "owners_ok (map the_id rows) ranges"
  shows "(\<Union>(lo, row) \<in> set (rows_of the_id object i rows ranges). row_addresses row) = owned ranges i"
  using owner_row [OF assms] by (fastforce simp: owned_def rows_of_iff)

lemma no_rows:
  assumes ok: "owners_ok (map the_id rows) ranges"
  shows "rows_of the_id object i rows ranges = [] \<longleftrightarrow> i \<notin> rg_owner ` set ranges"
proof
  assume "i \<notin> rg_owner ` set ranges"
  then have "p \<notin> set (rows_of the_id object i rows ranges)" for p by (cases p) (auto simp: rows_of_iff)
  then show "rows_of the_id object i rows ranges = []" by (metis last_in_set)
next
  assume none: "rows_of the_id object i rows ranges = []"
  show "i \<notin> rg_owner ` set ranges"
  proof
    assume "i \<in> rg_owner ` set ranges"
    then obtain row x where "row \<in> set ranges" "rg_owner row = i" "x \<in> set rows" "the_id x = i"
      using owner_row [OF ok] by fastforce
    then have "(object x, row) \<in> set (rows_of the_id object i rows ranges)" by (auto simp: rows_of_iff)
    then show False using none by simp
  qed
qed

section \<open>Symbols that share a place\<close>

lemma object_and_extent_ok:
  assumes ok: "owners_ok (map the_id rows) ranges"
  shows "\<exists>lo qs. linked_object_and_extent beyond (rows_of the_id object i rows ranges)
      = Ok (lo, map (Extent always) qs) \<and> (\<Union>q \<in> set qs. points q) = owned ranges i \<and>
    (lo = None \<longleftrightarrow> i \<notin> rg_owner ` set ranges) \<and>
    (\<forall>l. lo = Some l \<longrightarrow> (\<exists>x \<in> set rows. the_id x = i \<and> object x = l))"
proof -
  let ?rows = "rows_of the_id object i rows ranges"
  let ?g = "\<lambda>(_, extent) (lo, row). (Some lo, extent @ map (Extent always) (the_ranges beyond row))"
  have run: "linked_object_and_extent beyond ?rows = Ok (foldl ?g (None, []) ?rows)"
    unfolding linked_object_and_extent_def
    by (rule fold_res_Ok) (auto simp: ranges_ok(1) [OF ok])
  have flat: "foldl ?g (z, map (Extent always) qs) xs
      = (if xs = [] then z else Some (fst (last xs)),
         map (Extent always) (qs @ concat (map (\<lambda>(lo, row). the_ranges beyond row) xs)))" for z qs xs
  proof (induction xs arbitrary: z qs)
    case (Cons x xs)
    obtain lo row where "x = (lo, row)" by (cases x)
    with Cons.IH [of "Some lo" "qs @ the_ranges beyond row"] show ?case by simp
  qed simp
  let ?qs = "concat (map (\<lambda>(lo, row). the_ranges beyond row) ?rows)"
  let ?lo = "if ?rows = [] then None else Some (fst (last ?rows))"
  have 1: "linked_object_and_extent beyond ?rows = Ok (?lo, map (Extent always) ?qs)"
    using flat [of None "[]" ?rows] by (simp add: run)
  have "(\<Union>q \<in> set ?qs. points q) = (\<Union>(lo, row) \<in> set ?rows. \<Union>r \<in> set (the_ranges beyond row). points r)"
    by (auto simp del: points_iff)
  also have "\<dots> = (\<Union>(lo, row) \<in> set ?rows. row_addresses row)"
  proof (intro SUP_cong refl)
    fix p assume p: "p \<in> set ?rows"
    obtain lo row where "p = (lo, row)" by (rule prod.exhaust)
    with p show "(case p of (lo, row) \<Rightarrow> \<Union>r \<in> set (the_ranges beyond row). points r)
        = (case p of (lo, row) \<Rightarrow> row_addresses row)"
      by (simp only: split ranges_ok(2) [OF ok])
  qed
  finally have 2: "(\<Union>q \<in> set ?qs. points q) = owned ranges i" by (simp only: owned_rows [OF ok])
  have "?rows = [] \<longleftrightarrow> i \<notin> rg_owner ` set ranges" by (rule no_rows [OF ok])
  then have 3: "?lo = None \<longleftrightarrow> i \<notin> rg_owner ` set ranges" by simp
  have 4: "\<forall>l. ?lo = Some l \<longrightarrow> (\<exists>x \<in> set rows. the_id x = i \<and> object x = l)"
  proof (intro allI impI)
    fix l assume "?lo = Some l"
    then have "?rows \<noteq> []" and "l = fst (last ?rows)" by (auto split: if_splits)
    then have "(l, snd (last ?rows)) \<in> set ?rows" by simp
    then show "\<exists>x \<in> set rows. the_id x = i \<and> object x = l" by (auto simp: rows_of_iff)
  qed
  show ?thesis by (intro exI conjI) (rule 1 2 3 4)+
qed

text \<open>The symbols of another kind that a symbol meets, as a cache that agrees with the tables answers.\<close>

definition meeting :: "int \<Rightarrow> RangeRow list \<Rightarrow> (int \<times> addr) set \<Rightarrow> (int \<Rightarrow> (int \<times> addr) set) \<Rightarrow> int set res" where
  "meeting i ranges here others =
     (if i \<in> rg_owner ` set ranges then Ok {j. here \<inter> others j \<noteq> {}} else Abort)"

lemma meeting_ok:
  assumes ok: "owners_ok (map the_id rows) ranges"
    and cached: "\<And>lo qs x. stored x = stored (the_session s) \<Longrightarrow>
      fst (cached lo (map (Extent always) qs) (s\<lparr>the_session := x\<rparr>))
        = Ok {j. \<exists>q \<in> set qs. \<exists>a \<in> points q. (lo, a) \<in> others j}"
    and rows_db: "the_rows (stored (the_session s)) = rows_of the_id object i rows ranges"
  shows "fst (andthen (on_session (reading (\<lambda>db. linked_object_and_extent beyond (the_rows db))))
      (\<lambda>p. with_object p cached) s)
    = meeting i ranges (places the_id object rows ranges i) others"
proof -
  from object_and_extent_ok [OF ok, of beyond object i] obtain lo qs where
    run: "linked_object_and_extent beyond (rows_of the_id object i rows ranges)
      = Ok (lo, map (Extent always) qs)"
    and qs: "(\<Union>q \<in> set qs. points q) = owned ranges i"
    and none: "lo = None \<longleftrightarrow> i \<notin> rg_owner ` set ranges"
    and some: "\<forall>l. lo = Some l \<longrightarrow> (\<exists>x \<in> set rows. the_id x = i \<and> object x = l)" by blast
  from reading_unchanged [of "\<lambda>db. linked_object_and_extent beyond (the_rows db)" s
      "(lo, map (Extent always) qs)"] obtain x where
    read: "on_session (reading (\<lambda>db. linked_object_and_extent beyond (the_rows db))) s
        = (Ok (lo, map (Extent always) qs), s\<lparr>the_session := x\<rparr>)"
      "unchanged s (s\<lparr>the_session := x\<rparr>)"
    unfolding rows_db run by blast
  show ?thesis
  proof (cases lo)
    case None
    then show ?thesis
      using none by (simp add: andthen_def read(1) with_object_def abort_def meeting_def)
  next
    case (Some l)
    then obtain y where y: "y \<in> set rows" "the_id y = i" "object y = l" using some by blast
    have "distinct (map the_id rows)" using ok by (simp add: owners_ok_def)
    then have one: "object x = l" if "x \<in> set rows" "the_id x = i" for x
      using one_object [of the_id rows x y] that y by simp
    have here: "places the_id object rows ranges i = {(l, a) | a. a \<in> owned ranges i}"
      unfolding places_def using y(1,2,3) one by blast
    have "fst (cached l (map (Extent always) qs) (s\<lparr>the_session := x\<rparr>))
        = Ok {j. \<exists>a \<in> \<Union>q \<in> set qs. points q. (l, a) \<in> others j}"
      using cached [of x l qs] read(2) by (simp add: unchanged_def del: points_iff)
    also have "\<dots> = Ok {j. places the_id object rows ranges i \<inter> others j \<noteq> {}}"
      unfolding qs here by auto
    finally show ?thesis
      using Some none by (simp add: andthen_def read(1) with_object_def meeting_def)
  qed
qed

text \<open>The three caches agree with the tables.\<close>

definition caches_agree :: "(nat \<Rightarrow> byte) \<Rightarrow> framework \<Rightarrow> bool" where
  "caches_agree beyond s \<longleftrightarrow>
     cache_agrees function_cache (select_functions beyond) s \<and>
     cache_agrees loop_cache (select_loops beyond) s \<and>
     cache_agrees statement_cache (select_statements beyond) s"

lemma caches_agree_unchanged:
  assumes "caches_agree beyond s" and "stored x = stored (the_session s)"
  shows "caches_agree beyond (s\<lparr>the_session := x\<rparr>)"
  using assms by (simp add: caches_agree_def cache_agrees_def)

text \<open>What the caches answer, in the form that \<open>meeting_ok\<close> needs.\<close>

lemma cached_answers:
  assumes "nth_element_contract ne" and "symbols_ok db" and "stored (the_session t) = db"
    and "caches_agree beyond t"
  shows "fst (FunctionCache_getFunctions ne beyond lo (map (Extent always) qs) t)
      = Ok {j. \<exists>q \<in> set qs. \<exists>a \<in> points q. (lo, a) \<in> function_places db j}"
    and "fst (LoopCache_getLoops ne beyond lo (map (Extent always) qs) t)
      = Ok {j. \<exists>q \<in> set qs. \<exists>a \<in> points q. (lo, a) \<in> loop_places db j}"
    and "fst (StatementCache_getStatements ne beyond lo (map (Extent always) qs) t)
      = Ok {j. \<exists>q \<in> set qs. \<exists>a \<in> points q. (lo, a) \<in> statement_places db j}"
proof -
  have ok: "symbols_ok (stored (the_session t))" using assms(2,3) by simp
  note agree = assms(4) [unfolded caches_agree_def]
  show "fst (FunctionCache_getFunctions ne beyond lo (map (Extent always) qs) t)
      = Ok {j. \<exists>q \<in> set qs. \<exists>a \<in> points q. (lo, a) \<in> function_places db j}"
    using function_cached.covered_exact [OF assms(1) ok, where beyond = beyond and lo = lo and qs = qs] agree
    by (auto simp: FunctionCache_getFunctions_def FunctionCache_addLinkedObject_def assms(3)
        covering_places simp del: points_iff)
  show "fst (LoopCache_getLoops ne beyond lo (map (Extent always) qs) t)
      = Ok {j. \<exists>q \<in> set qs. \<exists>a \<in> points q. (lo, a) \<in> loop_places db j}"
    using loop_cached.covered_exact [OF assms(1) ok, where beyond = beyond and lo = lo and qs = qs] agree
    by (auto simp: LoopCache_getLoops_def LoopCache_addLinkedObject_def assms(3) covering_places
        simp del: points_iff)
  show "fst (StatementCache_getStatements ne beyond lo (map (Extent always) qs) t)
      = Ok {j. \<exists>q \<in> set qs. \<exists>a \<in> points q. (lo, a) \<in> statement_places db j}"
    using statement_cached.covered_exact [OF assms(1) ok, where beyond = beyond and lo = lo and qs = qs] agree
    by (auto simp: StatementCache_getStatements_def StatementCache_addLinkedObject_def assms(3)
        covering_places simp del: points_iff)
qed

lemma relations:
  assumes ne: "nth_element_contract ne" and ok: "symbols_ok db"
    and agree: "caches_agree beyond s" and db: "stored (the_session s) = db"
  shows "fst (Function_getLoops ne beyond i s)
      = meeting i (FunctionRanges db) (function_places db i) (loop_places db)"
    and "fst (Function_getStatements ne beyond i s)
      = meeting i (FunctionRanges db) (function_places db i) (statement_places db)"
    and "fst (Loop_getFunctions ne beyond i s)
      = meeting i (LoopRanges db) (loop_places db i) (function_places db)"
    and "fst (Loop_getStatements ne beyond i s)
      = meeting i (LoopRanges db) (loop_places db i) (statement_places db)"
    and "fst (Statement_getFunctions ne beyond i s)
      = meeting i (StatementRanges db) (statement_places db i) (function_places db)"
    and "fst (Statement_getLoops ne beyond i s)
      = meeting i (StatementRanges db) (statement_places db i) (loop_places db)"
proof -
  have owners: "owners_ok (map fn_id (Functions db)) (FunctionRanges db)"
    "owners_ok (map lp_id (Loops db)) (LoopRanges db)"
    "owners_ok (map sm_id (Statements db)) (StatementRanges db)"
    using ok by (simp_all add: symbols_ok_def)
  note cached = cached_answers [OF ne ok _ caches_agree_unchanged [OF agree]]
  show "fst (Function_getLoops ne beyond i s)
      = meeting i (FunctionRanges db) (function_places db i) (loop_places db)"
    unfolding Function_getLoops_def Function_getLinkedObjectAndExtent_def
    by (rule meeting_ok [OF owners(1)]) (simp_all add: cached db function_rows_def)
  show "fst (Function_getStatements ne beyond i s)
      = meeting i (FunctionRanges db) (function_places db i) (statement_places db)"
    unfolding Function_getStatements_def Function_getLinkedObjectAndExtent_def
    by (rule meeting_ok [OF owners(1)]) (simp_all add: cached db function_rows_def)
  show "fst (Loop_getFunctions ne beyond i s)
      = meeting i (LoopRanges db) (loop_places db i) (function_places db)"
    unfolding Loop_getFunctions_def Loop_getLinkedObjectAndExtent_def
    by (rule meeting_ok [OF owners(2)]) (simp_all add: cached db loop_rows_def)
  show "fst (Loop_getStatements ne beyond i s)
      = meeting i (LoopRanges db) (loop_places db i) (statement_places db)"
    unfolding Loop_getStatements_def Loop_getLinkedObjectAndExtent_def
    by (rule meeting_ok [OF owners(2)]) (simp_all add: cached db loop_rows_def)
  show "fst (Statement_getFunctions ne beyond i s)
      = meeting i (StatementRanges db) (statement_places db i) (function_places db)"
    unfolding Statement_getFunctions_def Statement_getLinkedObjectAndExtent_def
    by (rule meeting_ok [OF owners(3)]) (simp_all add: cached db statement_rows_def)
  show "fst (Statement_getLoops ne beyond i s)
      = meeting i (StatementRanges db) (statement_places db i) (loop_places db)"
    unfolding Statement_getLoops_def Statement_getLinkedObjectAndExtent_def
    by (rule meeting_ok [OF owners(3)]) (simp_all add: cached db statement_rows_def)
qed

definition found :: "int set res \<Rightarrow> int set" where
  "found r = (case r of Ok S \<Rightarrow> S | _ \<Rightarrow> {})"

lemma places_owner: "p \<in> places the_id object rows ranges i \<Longrightarrow> i \<in> rg_owner ` set ranges"
  by (auto simp: places_def owned_def) (metis image_eqI)

lemma found_meeting:
  "j \<in> found (meeting i ranges (places the_id object rows ranges i) others) \<longleftrightarrow>
     places the_id object rows ranges i \<inter> others j \<noteq> {}"
  by (auto simp: found_def meeting_def dest: places_owner)

section \<open>Extents in a thread\<close>

text \<open>
  The rows of the address spaces are proper, and the linked objects are mapped at least as far as the
  symbols in them reach.
\<close>

definition mapped_whole :: "tables \<Rightarrow> (int \<times> addr) set \<Rightarrow> bool" where
  "mapped_whole db P \<longleftrightarrow> (\<forall>space \<in> set (AddressSpaces db).
     time_begin space < time_end space \<and> addr_begin space \<le> addr_end space \<and>
     (\<forall>a. (as_linked_object space, a) \<in> P \<longrightarrow> a < addr_end space - addr_begin space))"

lemma fold_res_concat:
  "(\<And>x acc. x \<in> set xs \<Longrightarrow> step acc x = Ok (acc @ g x)) \<Longrightarrow>
    fold_res step xs acc = Ok (acc @ concat (map g xs))"
  by (induction xs arbitrary: acc) simp_all

lemma moved_range:
  fixes base :: addr
  assumes "b < e" and "base \<le> upper" and "\<forall>a. b \<le> a \<and> a < e \<longrightarrow> a < upper - base"
  shows "base \<le> base + b" and "base \<le> base + e" and "base + b < base + e"
    and "base + b \<le> address \<and> address < base + e \<longleftrightarrow>
      base \<le> address \<and> address < upper \<and> b \<le> address - base \<and> address - base < e"
proof -
  have "unat (e - 1) = unat e - 1" and "1 \<le> unat e" and "unat b \<le> unat (e - 1)"
    using assms(1) by (simp_all add: unat_sub word_less_nat_alt word_le_nat_alt unat_1)
  moreover have "e - 1 < upper - base"
    using assms(1) calculation
    by (intro assms(3) [rule_format]) (simp_all add: word_less_nat_alt word_le_nat_alt)
  moreover have "unat (upper - base) = unat upper - unat base" using assms(2) by (simp add: unat_sub)
  ultimately have e: "unat base + unat e \<le> unat upper"
    using assms(2) by (simp add: word_less_nat_alt word_le_nat_alt)
  have be: "unat b < unat e" using assms(1) by (simp add: word_less_nat_alt)
  have upper: "unat upper < 2 ^ 64" using unsigned_less [of upper] by simp
  have sums: "unat (base + e) = unat base + unat e" "unat (base + b) = unat base + unat b"
    using e be upper by (simp_all add: unat_word_ariths)
  show "base \<le> base + b" and "base \<le> base + e" and "base + b < base + e"
    using be by (simp_all add: word_le_nat_alt word_less_nat_alt sums)
  show "base + b \<le> address \<and> address < base + e \<longleftrightarrow>
      base \<le> address \<and> address < upper \<and> b \<le> address - base \<and> address - base < e"
    using e be by (auto simp: word_le_nat_alt word_less_nat_alt sums unat_sub)
qed

definition moved :: "AddressSpaceRow \<Rightarrow> addr interval \<Rightarrow> extent" where
  "moved space r = Extent (Interval (time_begin space) (time_end space))
     (Interval (addr_begin space + dm_begin r) (addr_begin space + dm_end r))"

lemma loaded_at_ok:
  assumes "mapped_whole db P" and "space \<in> set (spaces_of t lo db)"
    and "dm_begin r < dm_end r" and "Pair lo ` points r \<subseteq> P"
  shows "loaded_at space r = Ok (moved space r)"
    and "(tm, address) \<in> extent_points (moved space r) \<longleftrightarrow>
      space \<in> set (spaces_at t address tm db) \<and> address - addr_begin space \<in> points r"
proof -
  have space: "time_begin space < time_end space" "addr_begin space \<le> addr_end space"
    "as_thread space = t" "space \<in> set (AddressSpaces db)"
    using assms(1,2) by (auto simp: mapped_whole_def spaces_of_def)
  have "\<forall>a. dm_begin r \<le> a \<and> a < dm_end r \<longrightarrow> a < addr_end space - addr_begin space"
    using assms(1,2,4) by (force simp: mapped_whole_def spaces_of_def Interval_containsValue_def)
  note range = moved_range [OF assms(3) space(2) this]
  show "loaded_at space r = Ok (moved space r)"
    using range(1-3) space(1)
    by (simp add: loaded_at_def Interval_make_def Address_plus_def Let_def moved_def)
  show "(tm, address) \<in> extent_points (moved space r) \<longleftrightarrow>
      space \<in> set (spaces_at t address tm db) \<and> address - addr_begin space \<in> points r"
    using range(4) [of address] space(3,4)
    by (auto simp: moved_def Interval_containsValue_def spaces_at_def thread_spaces_def)
qed

text \<open>The extents of a symbol, in the order of the query.\<close>

definition shown_in ::
  "(nat \<Rightarrow> byte) \<Rightarrow> int \<Rightarrow> (int \<times> RangeRow) list \<Rightarrow> tables \<Rightarrow> extent list" where
  "shown_in beyond t rows db = concat (map (\<lambda>(lo, row). concat (map (\<lambda>space.
     map (moved space) (the_ranges beyond row)) (spaces_of t lo db))) rows)"

lemma concat_singles: "concat (map (\<lambda>x. [f x]) xs) = map f xs"
  by (induction xs) simp_all

lemma range_in_places:
  assumes ok: "owners_ok (map the_id rows) ranges"
    and row: "(lo, row) \<in> set (rows_of the_id object i rows ranges)" and r: "r \<in> set (the_ranges beyond row)"
  shows "Pair lo ` points r \<subseteq> places the_id object rows ranges i" and "dm_begin r < dm_end r"
proof -
  have "points r \<subseteq> row_addresses row" using ranges_ok(2) [OF ok row, of beyond] r by blast
  then show "Pair lo ` points r \<subseteq> places the_id object rows ranges i"
    using row by (fastforce simp: places_def owned_def rows_of_iff)
  show "dm_begin r < dm_end r" using ranges_ok(3) [OF ok row, of beyond] r by blast
qed

lemma extents_in_run:
  assumes ok: "owners_ok (map the_id rows) ranges"
    and whole: "mapped_whole db (places the_id object rows ranges i)"
  shows "extents_in beyond t (rows_of the_id object i rows ranges) db
    = Ok (shown_in beyond t (rows_of the_id object i rows ranges) db)"
proof -
  let ?rows = "rows_of the_id object i rows ranges"
  let ?g = "\<lambda>(lo, row). concat (map (\<lambda>space. concat (map (\<lambda>r. [moved space r]) (the_ranges beyond row)))
      (spaces_of t lo db))"
  have "extents_in beyond t ?rows db = Ok ([] @ concat (map ?g ?rows))"
    unfolding extents_in_def
  proof (rule fold_res_concat, goal_cases)
    case (1 p acc)
    obtain lo row where p: "p = (lo, row)" by (rule prod.exhaust)
    have row: "(lo, row) \<in> set ?rows" using 1 p by simp
    show ?case
      unfolding p split ranges_ok(1) [OF ok row] bind_res_simps
      by (intro fold_res_concat)
        (simp add: loaded_at_ok(1) [OF whole _ range_in_places(2,1) [OF ok row]])
  qed
  then show ?thesis by (simp add: shown_in_def concat_singles)
qed

lemma extents_in_ok:
  assumes ok: "owners_ok (map the_id rows) ranges"
    and whole: "mapped_whole db (places the_id object rows ranges i)"
  shows "\<exists>es. extents_in beyond t (rows_of the_id object i rows ranges) db = Ok es \<and>
    (\<forall>tm address. (tm, address) \<in> (\<Union>e \<in> set es. extent_points e) \<longleftrightarrow>
      (\<exists>space \<in> set (spaces_at t address tm db).
        (as_linked_object space, address - addr_begin space) \<in> places the_id object rows ranges i))"
proof -
  let ?P = "places the_id object rows ranges i"
  let ?rows = "rows_of the_id object i rows ranges"
  have P: "?P = {(lo, a). \<exists>row. (lo, row) \<in> set ?rows \<and> a \<in> row_addresses row}"
    by (auto simp: places_def owned_def rows_of_iff)
  note in_places = range_in_places [OF ok]
  have "(tm, address) \<in> (\<Union>e \<in> set (shown_in beyond t ?rows db). extent_points e) \<longleftrightarrow>
      (\<exists>space \<in> set (spaces_at t address tm db). (as_linked_object space, address - addr_begin space) \<in> ?P)"
    (is "?L \<longleftrightarrow> ?R") for tm address
  proof
    assume ?L
    then obtain lo row space r where "(lo, row) \<in> set ?rows" "space \<in> set (spaces_of t lo db)"
      "r \<in> set (the_ranges beyond row)" "(tm, address) \<in> extent_points (moved space r)"
      by (auto simp: shown_in_def)
    moreover from this have "as_linked_object space = lo" by (simp add: spaces_of_def)
    ultimately show ?R
      using loaded_at_ok(2) [OF whole, of space t lo r tm address] in_places by blast
  next
    assume ?R
    then obtain space lo row where space: "space \<in> set (spaces_at t address tm db)"
      "lo = as_linked_object space" and row: "(lo, row) \<in> set ?rows"
      and a: "address - addr_begin space \<in> row_addresses row" unfolding P by auto
    from a ranges_ok(2) [OF ok row, of beyond] obtain r where
      r: "r \<in> set (the_ranges beyond row)" "address - addr_begin space \<in> points r" by blast
    have in_thread: "space \<in> set (spaces_of t lo db)"
      using space by (simp add: spaces_at_def spaces_of_def thread_spaces_def)
    have "(tm, address) \<in> extent_points (moved space r)"
      unfolding loaded_at_ok(2) [OF whole in_thread in_places(2,1) [OF row r(1)]]
      using space(1) r(2) by blast
    then show ?L using row r(1) in_thread by (force simp: shown_in_def simp del: extent_points_iff)
  qed
  then show ?thesis using extents_in_run [OF ok whole, of beyond t] by blast
qed

section \<open>Properties\<close>

lemma sample_framework:
  "symbols_ok (stored (the_session (empty_framework sample_session)))"
  "stored (the_session (empty_framework sample_session)) = sample_tables"
  "caches_agree beyond (empty_framework sample_session)"
  by (simp_all add: caches_agree_def empty_framework_agrees)
    (simp_all add: empty_framework_def sample_session_simps sample_ok)

lemma sample_whole:
  "mapped_whole sample_tables (function_places sample_tables 1)"
  "mapped_whole sample_tables (loop_places sample_tables 1)"
  "mapped_whole sample_tables (statement_places sample_tables 1)"
proof -
  have "a < 4096" if "a \<in> owned [range_row 1 sample_bitmap] 1" for a :: addr
  proof -
    have "a < 110"
      using that row_addresses_range_row [OF sample_bitmap_ok, of 1]
      by (auto simp: sample_bitmap_def Interval_containsValue_def)
    then show ?thesis by (rule less_trans) simp
  qed
  then show "mapped_whole sample_tables (function_places sample_tables 1)"
    "mapped_whole sample_tables (loop_places sample_tables 1)"
    "mapped_whole sample_tables (statement_places sample_tables 1)"
    by (auto simp: mapped_whole_def places_def sample_tables_def sample_space_def)
qed

text \<open>C16: the questions of functions, loops and statements about each other are answered by the
  addresses they share: a symbol that has ranges gets exactly the symbols with which it has an
  address of their linked object in common. A symbol without ranges ends the program, although the
  documentation of these functions promises an empty set when nothing is found: their query leaves
  the linked object null, and the cache dereferences its null database.\<close>

theorem symbol_relations_exact:
  assumes "nth_element_contract ne" and "symbols_ok (stored (the_session s))" and "caches_agree beyond s"
    and "db = stored (the_session s)"
  shows "fst (Function_getLoops ne beyond i s)
      = meeting i (FunctionRanges db) (function_places db i) (loop_places db)
    \<and> fst (Function_getStatements ne beyond i s)
      = meeting i (FunctionRanges db) (function_places db i) (statement_places db)
    \<and> fst (Loop_getFunctions ne beyond i s)
      = meeting i (LoopRanges db) (loop_places db i) (function_places db)
    \<and> fst (Loop_getStatements ne beyond i s)
      = meeting i (LoopRanges db) (loop_places db i) (statement_places db)
    \<and> fst (Statement_getFunctions ne beyond i s)
      = meeting i (StatementRanges db) (statement_places db i) (function_places db)
    \<and> fst (Statement_getLoops ne beyond i s)
      = meeting i (StatementRanges db) (statement_places db i) (loop_places db)"
proof -
  have db: "symbols_ok db" "stored (the_session s) = db" using assms(2,4) by simp_all
  show ?thesis using relations [OF assms(1) db(1) assms(3) db(2), of i] by blast
qed

text \<open>A database with one symbol of each kind, and a second function that has no ranges.\<close>

definition unranged_tables :: tables where
  "unranged_tables = sample_tables\<lparr>Functions := [FunctionRow 1 1 ''main'', FunctionRow 2 1 ''empty'']\<rparr>"

definition unranged_framework :: framework where
  "unranged_framework = empty_framework
     \<lparr>stored = unranged_tables, saved = unranged_tables, nesting = (0, True)\<rparr>"

lemma unranged_stored: "stored (the_session unranged_framework) = unranged_tables"
  by (simp add: unranged_framework_def empty_framework_def)

lemma unranged_ok:
  "symbols_ok (stored (the_session unranged_framework))" "caches_agree beyond unranged_framework"
proof -
  show "symbols_ok (stored (the_session unranged_framework))"
    unfolding unranged_stored using sample_ok(1)
    by (auto simp: unranged_tables_def sample_tables_def symbols_ok_def owners_ok_def files_ok_def)
  show "caches_agree beyond unranged_framework"
    by (simp add: unranged_framework_def caches_agree_def empty_framework_agrees)
qed

lemma unranged_places:
  "(1, 100) \<in> function_places unranged_tables 1" "(1, 100) \<in> loop_places unranged_tables j \<longleftrightarrow> j = 1"
  "loop_places unranged_tables j \<noteq> {} \<Longrightarrow> j = 1"
proof -
  have "1 \<in> functions_covering sample_tables 1 100" "j \<in> loops_covering sample_tables 1 100 \<longleftrightarrow> j = 1"
    using sample_covering(1,2) by auto
  then have "(1, 100) \<in> function_places sample_tables 1" "(1, 100) \<in> loop_places sample_tables j \<longleftrightarrow> j = 1"
    by (simp_all add: covering_places)
  then show "(1, 100) \<in> function_places unranged_tables 1"
    "(1, 100) \<in> loop_places unranged_tables j \<longleftrightarrow> j = 1"
    by (auto simp: unranged_tables_def sample_tables_def places_def
        intro: exI [of _ "FunctionRow 1 1 ''main''"])
  show "loop_places unranged_tables j \<noteq> {} \<Longrightarrow> j = 1"
    by (auto simp: unranged_tables_def sample_tables_def places_def)
qed

lemma symbol_relations_exact_witness:
  "fst (Function_getLoops sorting_nth_element (\<lambda>_. 0) 1 unranged_framework) = Ok {1}
    \<and> fst (Loop_getFunctions sorting_nth_element (\<lambda>_. 0) 1 unranged_framework) = Ok {1}
    \<and> 2 \<in> fn_id ` set (Functions unranged_tables)
    \<and> fst (Function_getLoops sorting_nth_element (\<lambda>_. 0) 2 unranged_framework) = Abort
    \<and> fst (Function_getStatements sorting_nth_element (\<lambda>_. 0) 2 unranged_framework) = Abort"
proof -
  note exact = symbol_relations_exact [OF sorting_nth_element_contract unranged_ok
      unranged_stored [symmetric], of "\<lambda>_. 0"]
  have owners: "rg_owner ` set (FunctionRanges unranged_tables) = {1}"
    "rg_owner ` set (LoopRanges unranged_tables) = {1}" "2 \<in> fn_id ` set (Functions unranged_tables)"
    by (simp_all add: unranged_tables_def sample_tables_def range_row_def)
  have "{j. function_places unranged_tables 1 \<inter> loop_places unranged_tables j \<noteq> {}} = {1}"
    using unranged_places by blast
  moreover have "function_places unranged_tables j \<noteq> {} \<Longrightarrow> j = 1" for j
    by (auto simp: unranged_tables_def sample_tables_def places_def owned_def range_row_def)
  then have "{j. loop_places unranged_tables 1 \<inter> function_places unranged_tables j \<noteq> {}} = {1}"
    using unranged_places by blast
  ultimately show ?thesis using exact [of 1] exact [of 2] owners by (simp add: meeting_def)
qed

text \<open>The relations are inverse to each other: a loop is among the loops of a function exactly
  when the function is among the functions of the loop, and likewise for the other pairs.\<close>

theorem symbol_relations_inverse:
  assumes "nth_element_contract ne" and "symbols_ok (stored (the_session s))" and "caches_agree beyond s"
  shows "(l \<in> found (fst (Function_getLoops ne beyond f s)) \<longleftrightarrow>
      f \<in> found (fst (Loop_getFunctions ne beyond l s)))
    \<and> (i \<in> found (fst (Function_getStatements ne beyond f s)) \<longleftrightarrow>
      f \<in> found (fst (Statement_getFunctions ne beyond i s)))
    \<and> (i \<in> found (fst (Loop_getStatements ne beyond l s)) \<longleftrightarrow>
      l \<in> found (fst (Statement_getLoops ne beyond i s)))"
  unfolding relations [OF assms refl] found_meeting by blast

lemma symbol_relations_inverse_witness:
  "1 \<in> found (fst (Function_getLoops sorting_nth_element (\<lambda>_. 0) 1 (empty_framework sample_session))) \<longleftrightarrow>
   1 \<in> found (fst (Loop_getFunctions sorting_nth_element (\<lambda>_. 0) 1 (empty_framework sample_session)))"
  using symbol_relations_inverse [OF sorting_nth_element_contract sample_framework(1,3)] by blast

text \<open>Extents that show the given places in the address space of a thread.\<close>

definition extents_show :: "extent list \<Rightarrow> tables \<Rightarrow> int \<Rightarrow> (int \<times> addr) set \<Rightarrow> bool" where
  "extents_show es db t P \<longleftrightarrow> (\<forall>tm address. (tm, address) \<in> (\<Union>e \<in> set es. extent_points e) \<longleftrightarrow>
     (\<exists>space \<in> set (spaces_at t address tm db). (as_linked_object space, address - addr_begin space) \<in> P))"

text \<open>C17: the extents of a symbol in a thread contain a time and an address exactly when the thread
  then has a linked object loaded there in which the symbol has the relative address.\<close>

theorem getExtentIn_exact:
  assumes "symbols_ok (stored s)" and "db = stored s"
    and "mapped_whole db (function_places db f)" and "mapped_whole db (loop_places db l)"
    and "mapped_whole db (statement_places db i)"
  shows "(\<exists>es. fst (Function_getExtentIn beyond f t s) = Ok es \<and> extents_show es db t (function_places db f))
    \<and> (\<exists>es. fst (Loop_getExtentIn beyond l t s) = Ok es \<and> extents_show es db t (loop_places db l))
    \<and> (\<exists>es. fst (Statement_getExtentIn beyond i t s) = Ok es \<and>
        extents_show es db t (statement_places db i))"
proof -
  have owners: "owners_ok (map fn_id (Functions db)) (FunctionRanges db)"
    "owners_ok (map lp_id (Loops db)) (LoopRanges db)"
    "owners_ok (map sm_id (Statements db)) (StatementRanges db)"
    using assms(1) by (simp_all add: symbols_ok_def assms(2))
  show ?thesis
    using extents_in_ok [OF owners(1) assms(3), of beyond t]
      extents_in_ok [OF owners(2) assms(4), of beyond t]
      extents_in_ok [OF owners(3) assms(5), of beyond t]
    unfolding Function_getExtentIn_def Loop_getExtentIn_def Statement_getExtentIn_def reading_fst
      function_rows_def loop_rows_def statement_rows_def assms(2) [symmetric] extents_show_def
    by (intro conjI)
qed

lemma sample_at: "(1, 100) \<in> function_places sample_tables 1"
  using sample_covering(1) by (simp add: flip: covering_places)

lemma getExtentIn_exact_witness:
  "\<exists>es. fst (Function_getExtentIn (\<lambda>_. 0) 1 1 sample_session) = Ok es \<and>
     (5, 4196) \<in> (\<Union>e \<in> set es. extent_points e)"
proof -
  have "symbols_ok (stored sample_session)" "sample_tables = stored sample_session"
    by (simp_all add: sample_session_simps sample_ok)
  from getExtentIn_exact [OF this sample_whole, of "\<lambda>_. 0" 1] obtain es where
    es: "fst (Function_getExtentIn (\<lambda>_. 0) 1 1 sample_session) = Ok es"
    "extents_show es sample_tables 1 (function_places sample_tables 1)" by blast
  have "\<exists>space \<in> set (spaces_at 1 4196 5 sample_tables).
      (as_linked_object space, 4196 - addr_begin space) \<in> function_places sample_tables 1"
    by (simp add: sample_spaces) (simp add: sample_space_def sample_at)
  then have "(5, 4196) \<in> (\<Union>e \<in> set es. extent_points e)"
    using es(2) unfolding extents_show_def by blast
  with es(1) show ?thesis by blast
qed

text \<open>The function that a thread finds at an address has that address in its extents in the
  thread: looking up by address and computing the extents are two directions of one relation.\<close>

theorem found_function_contains_address:
  assumes "symbols_ok (stored s)" and "spaces_ok (stored s)"
    and "fst (Thread_getFunctionAt beyond t address tm s) = Ok (Some f)"
    and "mapped_whole (stored s) (function_places (stored s) f)"
  shows "\<exists>es. fst (Function_getExtentIn beyond f t s) = Ok es \<and>
    (tm, address) \<in> (\<Union>e \<in> set es. extent_points e)"
proof -
  have "owners_ok (map fn_id (Functions (stored s))) (FunctionRanges (stored s))"
    using assms(1) by (simp add: symbols_ok_def)
  from extents_in_ok [OF this assms(4), of beyond t] obtain es where
    es: "fst (Function_getExtentIn beyond f t s) = Ok es"
    and iff: "\<And>tm address. (tm, address) \<in> (\<Union>e \<in> set es. extent_points e) \<longleftrightarrow>
      (\<exists>space \<in> set (spaces_at t address tm (stored s)).
        (as_linked_object space, address - addr_begin space) \<in> function_places (stored s) f)"
    by (auto simp: Function_getExtentIn_def reading_fst function_rows_def)
  obtain space rest where spaces: "spaces_at t address tm (stored s) = space # rest"
    and f: "f \<in> functions_covering (stored s) (as_linked_object space) (address - addr_begin space)"
    using function_at_ok [OF assms(1,2), of beyond t address tm] assms(3)
    by (auto split: list.splits)
  have "(tm, address) \<in> (\<Union>e \<in> set es. extent_points e)"
    unfolding iff using f by (simp add: spaces covering_places)
  with es show ?thesis by blast
qed

lemma found_function_contains_address_witness:
  "\<exists>es. fst (Function_getExtentIn (\<lambda>_. 0) 1 1 sample_session) = Ok es \<and>
    (5, 4196) \<in> (\<Union>e \<in> set es. extent_points e)"
proof (rule found_function_contains_address)
  show "fst (Thread_getFunctionAt (\<lambda>_. 0) 1 4196 5 sample_session) = Ok (Some 1)" by code_simp
qed (simp_all add: sample_session_simps sample_ok sample_whole)

text \<open>Asking a function for its address range ends the program whenever the function has a
  range.\<close>

theorem getAddressRange_aborts:
  assumes "symbols_ok (stored s)"
  shows "fst (Function_getAddressRange f s) =
    (if f \<in> rg_owner ` set (FunctionRanges (stored s)) then Abort else Ok Interval_default)"
proof -
  have ok: "owners_ok (map fn_id (Functions (stored s))) (FunctionRanges (stored s))"
    using assms by (simp add: symbols_ok_def)
  have abort: "fold_res (\<lambda>range row. Abort) xs acc = (if xs = [] then Ok acc else Abort)"
    for xs :: "(int \<times> RangeRow) list" and acc :: "addr interval"
    by (cases xs) simp_all
  have "function_rows f (stored s) = [] \<longleftrightarrow> f \<notin> rg_owner ` set (FunctionRanges (stored s))"
    unfolding function_rows_def by (rule no_rows [OF ok])
  then show ?thesis by (simp add: Function_getAddressRange_def reading_fst abort)
qed

lemma getAddressRange_aborts_witness:
  "fst (Function_getAddressRange 1 sample_session) = Abort"
  using getAddressRange_aborts [of sample_session 1] sample_ok(1)
  by (simp add: sample_session_simps) (simp add: sample_tables_def)

end
