(* ===== verification/AddressSpace.thy ===== *)
theory AddressSpace
  imports ThreadCorrect
begin

text \<open>
  The class \<open>AddressSpace\<close> (AddressSpace.hxx, AddressSpace.cxx): which files a process has mapped where,
  and how that is recorded for threads. The table of address spaces is a history: a row is valid from
  its first to its last time, an update closes the open rows of a thread and opens new ones. The main
  result is what a thread has loaded at every time after an update: its first update counts from the
  beginning of time, a later one changes what it has loaded from the time of the update on.
\<close>

section \<open>The map of a process\<close>

datatype Entry = Entry (en_path: string) (en_is_executable: bool)

type_synonym AddressSpace = "(addr interval, Entry) stdmap"

definition AddressSpace_hasValue :: "addr interval \<Rightarrow> AddressSpace \<Rightarrow> bool" where
  "AddressSpace_hasValue r self =
     (case map_find Interval_precedes r self of None \<Rightarrow> False | Some (key, _) \<Rightarrow> key = r)"

text \<open>A range that overlaps another one is dropped without notice.\<close>

definition AddressSpace_setValue ::
  "addr interval \<Rightarrow> string \<Rightarrow> bool \<Rightarrow> AddressSpace \<Rightarrow> AddressSpace" where
  "AddressSpace_setValue r path executable self =
     (case map_find Interval_precedes r self of
        None \<Rightarrow> map_insert Interval_precedes r (Entry path executable) self
      | Some (key, _) \<Rightarrow>
          if key = r then map_modify Interval_precedes r (\<lambda>_. Entry path executable) self
          else self)"

section \<open>Updating threads\<close>

text \<open>\<open>SELECT LinkedObjects.id FROM LinkedObjects JOIN Files ... WHERE Files.path = ?\<close>; the last row
  counts, and -1 means none.\<close>

definition find_linked_object :: "string \<Rightarrow> tables \<Rightarrow> int" where
  "find_linked_object path db =
     foldl (\<lambda>_ i. i) (- 1)
       (concat (map (\<lambda>lo. map (\<lambda>_. lo_id lo)
           (filter (\<lambda>f. lo_file lo = fl_id f \<and> fl_path f = path) (Files db))) (LinkedObjects db)))"

text \<open>The beginning is the literal 0 of the statement, so that it is not shifted as a bound address is:
  the column, which nothing reads, decodes to the middle of the addresses.\<close>

definition add_linked_object :: "addr interval \<Rightarrow> Entry \<Rightarrow> (session, int) op" where
  "add_linked_object r e =
     andthen (insert_row (\<lambda>db. new_id (map fl_id (Files db)))
         (\<lambda>i. Files_update (\<lambda>rows. rows @ [FileRow i (en_path e)]))) (\<lambda>file.
     andthen (lift_res (Address_minus (dm_end r) (dm_begin r))) (\<lambda>size.
       insert_row (\<lambda>db. new_id (map lo_id (LinkedObjects db)))
         (\<lambda>i. LinkedObjects_update (\<lambda>rows. rows @
            [\<lparr>lo_id = i, lo_begin = shift_in 0, lo_end = size, lo_file = file,
              is_executable = (if en_is_executable e then 1 else 0)\<rparr>]))))"

definition add_space :: "int \<Rightarrow> time \<Rightarrow> addr interval \<Rightarrow> int \<Rightarrow> (session, int) op" where
  "add_space t begin r linked_object =
     insert_row (\<lambda>db. new_id (map as_id (AddressSpaces db)))
       (\<lambda>i. AddressSpaces_update (\<lambda>rows. rows @
          [\<lparr>as_id = i, as_thread = t, time_begin = begin, time_end = - 1,
            addr_begin = dm_begin r, addr_end = dm_end r,
            as_linked_object = linked_object\<rparr>]))"

type_synonym needed = "(addr interval, int set) stdmap"

definition need :: "addr interval \<Rightarrow> int \<Rightarrow> needed \<Rightarrow> needed" where
  "need r linked_object m =
     map_modify Interval_precedes r (insert linked_object)
       (map_insert Interval_precedes r {} m)"

text \<open>One entry of the map for one thread; the flag says whether a known linked object is needed.\<close>

definition record_entry ::
  "bool \<Rightarrow> int \<Rightarrow> time \<Rightarrow> addr interval \<times> Entry \<Rightarrow> needed \<Rightarrow> (session, needed) op" where
  "record_entry always_needed t begin e symbols =
     andthen (query (find_linked_object (en_path (snd e)))) (\<lambda>found.
     andthen (if found = - 1 then add_linked_object (fst e) (snd e) else ret found) (\<lambda>linked_object.
     andthen (add_space t begin (fst e) linked_object) (\<lambda>_.
       ret (if found = - 1 \<or> always_needed then need (fst e) linked_object symbols else symbols))))"

definition close_spaces :: "int \<Rightarrow> time \<Rightarrow> tables \<Rightarrow> tables" where
  "close_spaces t tm =
     AddressSpaces_update (map (\<lambda>row.
       if as_thread row = t \<and> time_end row = - 1 then row\<lparr>time_end := tm\<rparr> else row))"

definition update_one ::
  "time \<Rightarrow> bool \<Rightarrow> AddressSpace \<Rightarrow> needed \<Rightarrow> int \<Rightarrow> (session, needed) op" where
  "update_one tm update_interval self symbols t =
     in_transaction True
       (andthen (query (\<lambda>db. if thread_spaces t db \<noteq> [] then tm else 0)) (\<lambda>begin.
        andthen (if update_interval then update_tables (close_spaces t tm) else ret ()) (\<lambda>_.
          for_each self (\<lambda>symbols e. record_entry False t begin e symbols) symbols)))"

definition AddressSpace_updateThreads ::
  "int list \<Rightarrow> time \<Rightarrow> bool \<Rightarrow> AddressSpace \<Rightarrow> (session, needed) op" where
  "AddressSpace_updateThreads threads tm update_interval self =
     for_each threads (update_one tm update_interval self) []"

definition AddressSpace_updateThread :: "int \<Rightarrow> AddressSpace \<Rightarrow> (session, needed) op" where
  "AddressSpace_updateThread t self =
     in_transaction True (for_each self (\<lambda>symbols e. record_entry True t 0 e symbols) [])"

section \<open>The map has no overlaps\<close>

definition map_ok :: "AddressSpace \<Rightarrow> bool" where
  "map_ok self \<longleftrightarrow> range_key.ordered (keys self)"

lemma map_setValue_ok:
  assumes "map_ok self" and "proper r"
  shows "map_ok (AddressSpace_setValue r path x self)"
  using assms range_key.insert_ordered [of self r]
  by (auto simp: map_ok_def AddressSpace_setValue_def split: option.splits)

lemma find_overlap:
  assumes "map_ok self" and "proper r"
  shows "map_find Interval_precedes r self = None \<longleftrightarrow>
    (\<forall>key \<in> set (keys self). points key \<inter> points r = {})"
    and "map_find Interval_precedes r self = Some (key, e) \<Longrightarrow>
      (key, e) \<in> set self \<and> points key \<inter> points r \<noteq> {}"
proof -
  have proper: "proper key" if "key \<in> set (keys self)" for key
    using assms(1) that by (simp add: map_ok_def range_key.ordered_def)
  show found: "map_find Interval_precedes r self = Some (key, e) \<Longrightarrow>
      (key, e) \<in> set self \<and> points key \<inter> points r \<noteq> {}" for key e
  proof -
    assume "map_find Interval_precedes r self = Some (key, e)"
    then have "(key, e) \<in> set self" "range_key.equivalent key r"
      by (auto dest: range_key.find_Some)
    moreover from this(1) have "key \<in> set (keys self)" by (force simp: keys_def)
    ultimately show ?thesis using range_key_equivalent [OF proper assms(2), of key] by blast
  qed
  show "map_find Interval_precedes r self = None \<longleftrightarrow>
    (\<forall>key \<in> set (keys self). points key \<inter> points r = {})"
  proof (cases "map_find Interval_precedes r self")
    case None
    then have "\<not> range_key.equivalent key r" if "key \<in> set (keys self)" for key
      using range_key.find_None [of self r key] assms that by (simp add: map_ok_def)
    then show ?thesis using None range_key_equivalent [OF proper assms(2)] by blast
  next
    case (Some p)
    obtain key e where "p = (key, e)" by (rule prod.exhaust)
    with found [of key e] Some have "(key, e) \<in> set self" "points key \<inter> points r \<noteq> {}" by simp_all
    moreover from this(1) have "key \<in> set (keys self)" by (force simp: keys_def)
    ultimately show ?thesis using Some by auto
  qed
qed

text \<open>After a range has been set, the map holds it unless it overlaps a range other than itself.\<close>

lemma map_ok_keys:
  assumes "map_ok self" and "(a, e) \<in> set self" and "(b, f) \<in> set self"
  shows "proper a" and "points a \<inter> points b \<noteq> {} \<Longrightarrow> a = b \<and> e = f"
proof -
  have keys: "a \<in> set (keys self)" "b \<in> set (keys self)" using assms(2,3) by (force simp: keys_def)+
  then have proper: "proper a" "proper b"
    using assms(1) by (simp_all add: map_ok_def range_key.ordered_def)
  then show "proper a" by simp
  assume "points a \<inter> points b \<noteq> {}"
  then have "range_key.equivalent a b" by (simp add: range_key_equivalent proper)
  then have "a = b"
    using range_key.ordered_not_equivalent keys assms(1) unfolding map_ok_def by blast
  moreover have "distinct (keys self)"
    using assms(1) range_key.ordered_distinct by (simp add: map_ok_def)
  ultimately show "a = b \<and> e = f"
    using assms(2,3) eq_key_imp_eq_value [of self a e f] by (simp add: keys_def)
qed

lemma key_entry: "k \<in> set (keys m) \<Longrightarrow> \<exists>e. (k, e) \<in> set m"
  by (auto simp: keys_def)

lemma proper_meets: "proper r \<Longrightarrow> points r \<inter> points r \<noteq> {}"
  by (auto simp: proper_def Interval_containsValue_def)

lemma setValue_content:
  assumes "map_ok self" and "proper r"
  shows "set (AddressSpace_setValue r path x self) =
    (if \<exists>key \<in> set (keys self). key \<noteq> r \<and> points key \<inter> points r \<noteq> {} then set self
     else insert (r, Entry path x) {p \<in> set self. fst p \<noteq> r})"
proof (cases "map_find Interval_precedes r self")
  case None
  then have none: "\<forall>key \<in> set (keys self). points key \<inter> points r = {}"
    using find_overlap(1) [OF assms] by simp
  then have "r \<notin> set (keys self)" using proper_meets [OF assms(2)] by blast
  then have "{p \<in> set self. fst p \<noteq> r} = set self" by (auto simp: keys_def)
  then show ?thesis
    using none None range_key.insert_absent [of self r] assms
    by (simp add: AddressSpace_setValue_def map_ok_def)
next
  case (Some p)
  obtain key e where p: "p = (key, e)" by (rule prod.exhaust)
  note hit = find_overlap(2) [OF assms, of key e] 
  have key: "(key, e) \<in> set self" "points key \<inter> points r \<noteq> {}" using hit Some p by simp_all
  show ?thesis
  proof (cases "key = r")
    case True
    have "k = r" if "k \<in> set (keys self)" "points k \<inter> points r \<noteq> {}" for k
      using map_ok_keys(2) [OF assms(1) _ key(1)] key_entry [OF that(1)] that(2) True by blast
    then have "\<not> (\<exists>k \<in> set (keys self). k \<noteq> r \<and> points k \<inter> points r \<noteq> {})" by blast
    moreover have "{p \<in> set self. fst p \<noteq> r} = set self - {(r, e)}"
      using map_ok_keys(2) [OF assms(1) _ key(1)] key(1) True proper_meets [OF assms(2)]
      by (fastforce simp del: points_iff)
    ultimately show ?thesis
      using True Some p range_key.modify_present [of self r key e] assms
      by (auto simp: AddressSpace_setValue_def map_ok_def simp del: points_iff)
  next
    case False
    then have "\<exists>k \<in> set (keys self). k \<noteq> r \<and> points k \<inter> points r \<noteq> {}"
      using key by (force simp: keys_def)
    then show ?thesis using False Some p by (simp add: AddressSpace_setValue_def)
  qed
qed

section \<open>What is loaded\<close>

text \<open>The path of a linked object, and what a thread has loaded at a time.\<close>

definition object_path :: "tables \<Rightarrow> int \<Rightarrow> string \<Rightarrow> bool" where
  "object_path db i path \<longleftrightarrow> (\<exists>lo \<in> set (LinkedObjects db). \<exists>f \<in> set (Files db).
     lo_id lo = i \<and> lo_file lo = fl_id f \<and> fl_path f = path)"

definition row_loads :: "tables \<Rightarrow> AddressSpaceRow \<Rightarrow> (addr interval \<times> string) set" where
  "row_loads db row =
     {(Interval (addr_begin row) (addr_end row), path) | path. object_path db (as_linked_object row) path}"

definition loaded :: "tables \<Rightarrow> int \<Rightarrow> time \<Rightarrow> (addr interval \<times> string) set" where
  "loaded db t tm = (\<Union>row \<in> {row \<in> set (thread_spaces t db). time_begin row \<le> tm \<and> tm < time_end row}.
     row_loads db row)"

definition content :: "AddressSpace \<Rightarrow> (addr interval \<times> string) set" where
  "content self = (\<lambda>(r, e). (r, en_path e)) ` set self"

text \<open>The integrity of the rows involved.\<close>

definition objects_ok :: "tables \<Rightarrow> bool" where
  "objects_ok db \<longleftrightarrow> distinct (map fl_id (Files db)) \<and> distinct (map lo_id (LinkedObjects db)) \<and>
     (\<forall>lo \<in> set (LinkedObjects db). 0 < lo_id lo \<and> lo_file lo \<in> fl_id ` set (Files db)) \<and>
     as_linked_object ` set (AddressSpaces db) \<subseteq> lo_id ` set (LinkedObjects db)"

text \<open>What recording entries does to the tables.\<close>

definition records ::
  "int \<Rightarrow> time \<Rightarrow> (addr interval \<times> string) set \<Rightarrow> tables \<Rightarrow> tables \<Rightarrow> bool" where
  "records t begin new db db' \<longleftrightarrow> objects_ok db' \<and>
     lo_id ` set (LinkedObjects db) \<subseteq> lo_id ` set (LinkedObjects db') \<and>
     (\<forall>i \<in> lo_id ` set (LinkedObjects db). object_path db' i = object_path db i) \<and>
     (\<exists>rows. AddressSpaces db' = AddressSpaces db @ rows \<and>
        (\<forall>row \<in> set rows. as_thread row = t \<and> time_begin row = begin \<and> time_end row = - 1) \<and>
        (\<Union>row \<in> set rows. row_loads db' row) = new)"

lemma row_loads_kept:
  assumes "records t begin new db db'" and "as_linked_object row \<in> lo_id ` set (LinkedObjects db)"
  shows "row_loads db' row = row_loads db row"
  using assms unfolding records_def row_loads_def by (elim conjE ballE) auto

lemma records_refl: "objects_ok db \<Longrightarrow> records t begin {} db db"
  by (simp add: records_def)

lemma records_trans:
  assumes 1: "records t begin A db1 db2" and 2: "records t begin B db2 db3"
  shows "records t begin (A \<union> B) db1 db3"
proof -
  obtain rows1 where r1: "AddressSpaces db2 = AddressSpaces db1 @ rows1"
    "\<forall>row \<in> set rows1. as_thread row = t \<and> time_begin row = begin \<and> time_end row = - 1"
    "(\<Union>row \<in> set rows1. row_loads db2 row) = A"
    using 1 unfolding records_def by blast
  obtain rows2 where r2: "AddressSpaces db3 = AddressSpaces db2 @ rows2"
    "\<forall>row \<in> set rows2. as_thread row = t \<and> time_begin row = begin \<and> time_end row = - 1"
    "(\<Union>row \<in> set rows2. row_loads db3 row) = B"
    using 2 unfolding records_def by blast
  have "as_linked_object row \<in> lo_id ` set (LinkedObjects db2)" if "row \<in> set rows1" for row
    using 1 r1(1) that by (auto simp: records_def objects_ok_def)
  then have "(\<Union>row \<in> set rows1. row_loads db3 row) = A"
    using row_loads_kept [OF 2] r1(3) by (simp cong: SUP_cong_simp)
  then have rows: "AddressSpaces db3 = AddressSpaces db1 @ rows1 @ rows2"
    "\<forall>row \<in> set (rows1 @ rows2). as_thread row = t \<and> time_begin row = begin \<and> time_end row = - 1"
    "(\<Union>row \<in> set (rows1 @ rows2). row_loads db3 row) = A \<union> B"
    using r1 r2 by auto
  have "object_path db3 i = object_path db1 i" if "i \<in> lo_id ` set (LinkedObjects db1)" for i
    using 1 2 that unfolding records_def by (metis subsetD)
  moreover have "lo_id ` set (LinkedObjects db1) \<subseteq> lo_id ` set (LinkedObjects db3)" "objects_ok db3"
    using 1 2 unfolding records_def by auto
  ultimately show ?thesis unfolding records_def using rows by blast
qed

section \<open>Recording an entry\<close>

lemma object_path_id: "object_path db i path \<Longrightarrow> i \<in> lo_id ` set (LinkedObjects db)"
  by (force simp: object_path_def)

lemma find_linked_object_ok:
  assumes "objects_ok db"
  shows "find_linked_object path db \<noteq> - 1 \<Longrightarrow>
      find_linked_object path db \<in> lo_id ` set (LinkedObjects db) \<and>
      object_path db (find_linked_object path db) path"
    and "find_linked_object path db = - 1 \<Longrightarrow> \<not> object_path db i path"
proof -
  define ids where "ids = concat (map (\<lambda>lo. map (\<lambda>_. lo_id lo)
      (filter (\<lambda>f. lo_file lo = fl_id f \<and> fl_path f = path) (Files db))) (LinkedObjects db))"
  have ids: "i \<in> set ids \<longleftrightarrow> object_path db i path" for i
    by (fastforce simp: object_path_def ids_def)
  have f: "find_linked_object path db = (if ids = [] then - 1 else last ids)"
    by (simp add: find_linked_object_def foldl_last ids_def)
  have pos: "0 < i" if "object_path db i path" for i
    using that assms by (auto simp: object_path_def objects_ok_def)
  show "find_linked_object path db \<in> lo_id ` set (LinkedObjects db) \<and>
      object_path db (find_linked_object path db) path" if "find_linked_object path db \<noteq> - 1"
  proof -
    have "ids \<noteq> []" and last: "find_linked_object path db = last ids"
      using that by (auto simp: f split: if_splits)
    then have "object_path db (find_linked_object path db) path"
      using ids last_in_set by metis
    then show ?thesis using object_path_id by blast
  qed
  show "\<not> object_path db i path" if "find_linked_object path db = - 1"
  proof
    assume here: "object_path db i path"
    then have "ids \<noteq> []" using ids by force
    then have "object_path db (last ids) path" by (simp flip: ids)
    then have "0 < last ids" by (rule pos)
    moreover have "find_linked_object path db = last ids" using \<open>ids \<noteq> []\<close> by (simp add: f)
    ultimately show False using that by simp
  qed
qed

definition add_object_rows :: "addr interval \<Rightarrow> Entry \<Rightarrow> tables \<Rightarrow> tables" where
  "add_object_rows r e db =
     db\<lparr>LinkedObjects := LinkedObjects db @ [\<lparr>lo_id = new_id (map lo_id (LinkedObjects db)),
           lo_begin = shift_in 0, lo_end = dm_end r - dm_begin r, lo_file = new_id (map fl_id (Files db)),
           is_executable = (if en_is_executable e then 1 else 0)\<rparr>],
        Files := Files db @ [FileRow (new_id (map fl_id (Files db))) (en_path e)]\<rparr>"

text \<open>Ranges whose width is representable as a difference of addresses.\<close>

definition measurable :: "AddressSpace \<Rightarrow> bool" where
  "measurable self \<longleftrightarrow> (\<forall>(r, e) \<in> set self. dm_end r - dm_begin r < 2 ^ 63)"

lemma add_linked_object_run:
  assumes "proper r" and "dm_end r - dm_begin r < 2 ^ 63"
  shows "add_linked_object r e s
    = (Ok (new_id (map lo_id (LinkedObjects (stored s)))), s\<lparr>stored := add_object_rows r e (stored s)\<rparr>)"
proof -
  have "Address_minus (dm_end r) (dm_begin r) = Ok (dm_end r - dm_begin r)"
    using assms by (intro Address_minus_within) (auto simp: proper_def)
  moreover have "LinkedObjects (Files_update f db) = LinkedObjects db" for f db by (cases db) simp
  moreover have "LinkedObjects_update g (Files_update f db)
      = db\<lparr>LinkedObjects := g (LinkedObjects db), Files := f (Files db)\<rparr>" for f g db
    by (cases db) simp
  ultimately show ?thesis
    by (simp add: add_linked_object_def andthen_def insert_row_run lift_res_def add_object_rows_def)
qed

lemma add_object_rows_ok:
  assumes ok: "objects_ok db"
  defines "i \<equiv> new_id (map lo_id (LinkedObjects db))"
  shows "records t begin {} db (add_object_rows r e db)"
    and "object_path (add_object_rows r e db) i path \<longleftrightarrow> path = en_path e"
    and "i \<in> lo_id ` set (LinkedObjects (add_object_rows r e db))"
proof -
  have fresh: "lo_id lo \<noteq> i" if "lo \<in> set (LinkedObjects db)" for lo
    unfolding i_def by (rule new_id_row [OF that])
  have fresh_file: "fl_id f \<noteq> new_id (map fl_id (Files db))" if "f \<in> set (Files db)" for f
    by (rule new_id_row [OF that])
  have files: "lo_file lo \<noteq> new_id (map fl_id (Files db))" if "lo \<in> set (LinkedObjects db)" for lo
    using ok that fresh_file by (force simp: objects_ok_def)
  show new: "object_path (add_object_rows r e db) i path \<longleftrightarrow> path = en_path e" for path
    using fresh fresh_file [THEN not_sym] fresh_file
    by (auto simp: object_path_def add_object_rows_def i_def)
  have old: "object_path (add_object_rows r e db) j = object_path db j"
    if "j \<in> lo_id ` set (LinkedObjects db)" for j
    using that fresh fresh [THEN not_sym] files
    by (auto simp: object_path_def add_object_rows_def i_def fun_eq_iff)
  show "i \<in> lo_id ` set (LinkedObjects (add_object_rows r e db))"
    by (simp add: add_object_rows_def i_def)
  have "objects_ok (add_object_rows r e db)"
    using ok new_id_fresh [of "map fl_id (Files db)"] new_id_fresh [of "map lo_id (LinkedObjects db)"]
      new_id_positive [of "map lo_id (LinkedObjects db)"]
    by (auto simp: objects_ok_def add_object_rows_def)
  then show "records t begin {} db (add_object_rows r e db)"
    using old by (auto simp: records_def) (auto simp: add_object_rows_def)
qed

definition add_space_row :: "int \<Rightarrow> time \<Rightarrow> addr interval \<Rightarrow> int \<Rightarrow> tables \<Rightarrow> tables" where
  "add_space_row t start r i db =
     db\<lparr>AddressSpaces := AddressSpaces db @ [\<lparr>as_id = new_id (map as_id (AddressSpaces db)),
        as_thread = t, time_begin = start, time_end = - 1, addr_begin = dm_begin r,
        addr_end = dm_end r, as_linked_object = i\<rparr>]\<rparr>"

lemma add_space_run:
  "add_space t start r i s
    = (Ok (new_id (map as_id (AddressSpaces (stored s)))), s\<lparr>stored := add_space_row t start r i (stored s)\<rparr>)"
proof -
  have "AddressSpaces_update f db = db\<lparr>AddressSpaces := f (AddressSpaces db)\<rparr>" for f db
    by (cases db) simp
  then show ?thesis by (simp add: add_space_def insert_row_run add_space_row_def)
qed

lemma add_space_row_ok:
  assumes "objects_ok db" and "i \<in> lo_id ` set (LinkedObjects db)"
    and path: "\<And>p. object_path db i p \<longleftrightarrow> p = path"
  shows "records t start {(r, path)} db (add_space_row t start r i db)"
proof -
  have "object_path (add_space_row t start r i db) = object_path db"
    by (simp add: object_path_def add_space_row_def fun_eq_iff)
  with assms show ?thesis
    by (cases r) (auto simp: records_def objects_ok_def add_space_row_def row_loads_def)
qed

lemma object_path_unique:
  assumes "objects_ok db" and "object_path db i p" and "object_path db i q"
  shows "p = q"
proof -
  obtain lo f lo' f' where lo: "lo \<in> set (LinkedObjects db)" "f \<in> set (Files db)" "lo_id lo = i"
    "lo_file lo = fl_id f" "fl_path f = p"
    and lo': "lo' \<in> set (LinkedObjects db)" "f' \<in> set (Files db)" "lo_id lo' = i"
    "lo_file lo' = fl_id f'" "fl_path f' = q"
    using assms(2,3) by (auto simp: object_path_def)
  have "inj_on lo_id (set (LinkedObjects db))" "inj_on fl_id (set (Files db))"
    using assms(1) by (simp_all add: objects_ok_def distinct_map)
  with lo lo' show ?thesis by (metis inj_onD)
qed

lemma record_entry_run:
  assumes ok: "objects_ok (stored s)" and r: "proper r" "dm_end r - dm_begin r < 2 ^ 63"
  shows "\<exists>symbols' db'. record_entry k t start (r, e) symbols s = (Ok symbols', s\<lparr>stored := db'\<rparr>) \<and>
    records t start {(r, en_path e)} (stored s) db'"
proof (cases "find_linked_object (en_path e) (stored s) = - 1")
  case True
  let ?i = "new_id (map lo_id (LinkedObjects (stored s)))"
  let ?db = "add_object_rows r e (stored s)"
  note new = add_object_rows_ok [OF ok, where r = r and e = e]
  have "objects_ok ?db" using new(1) [of 0 0] by (simp add: records_def)
  from records_trans [OF new(1) add_space_row_ok [OF this new(3), of "en_path e" t start r]] new(2)
  have "records t start {(r, en_path e)} (stored s) (add_space_row t start r ?i ?db)" by simp
  moreover have "record_entry k t start (r, e) symbols s
      = (Ok (need r ?i symbols), s\<lparr>stored := add_space_row t start r ?i ?db\<rparr>)"
    by (simp add: record_entry_def andthen_def query_def True add_linked_object_run [OF r]
        add_space_run ret_def)
  ultimately show ?thesis by blast
next
  case False
  let ?i = "find_linked_object (en_path e) (stored s)"
  from find_linked_object_ok(1) [OF ok False]
  have i: "?i \<in> lo_id ` set (LinkedObjects (stored s))" "object_path (stored s) ?i (en_path e)" by simp_all
  have "object_path (stored s) ?i p \<longleftrightarrow> p = en_path e" for p
    using object_path_unique [OF ok i(2)] i(2) by blast
  moreover have "record_entry k t start (r, e) symbols s = (Ok (if k then need r ?i symbols else symbols),
      s\<lparr>stored := add_space_row t start r ?i (stored s)\<rparr>)"
    by (simp add: record_entry_def andthen_def query_def False add_space_run ret_def)
  ultimately show ?thesis using add_space_row_ok [OF ok i(1)] by blast
qed

lemma content_simps: "content [] = {}" "content ((r, e) # self) = insert (r, en_path e) (content self)"
  by (simp_all add: content_def)

lemma record_all:
  assumes "objects_ok (stored s)" and "\<forall>(r, e) \<in> set self. proper r \<and> dm_end r - dm_begin r < 2 ^ 63"
  shows "\<exists>symbols' db'. for_each self (\<lambda>symbols e. record_entry k t start e symbols) symbols s
      = (Ok symbols', s\<lparr>stored := db'\<rparr>) \<and> records t start (content self) (stored s) db'"
  using assms
proof (induction self arbitrary: s symbols)
  case Nil
  then show ?case by (auto simp: ret_def content_simps intro!: exI [of _ "stored s"] records_refl)
next
  case (Cons p self)
  obtain r e where p: "p = (r, e)" by (rule prod.exhaust)
  with Cons.prems have "proper r" "dm_end r - dm_begin r < 2 ^ 63" by auto
  from record_entry_run [OF Cons.prems(1) this, of k t start e symbols] obtain symbols1 db1 where
    one: "record_entry k t start (r, e) symbols s = (Ok symbols1, s\<lparr>stored := db1\<rparr>)"
      "records t start {(r, en_path e)} (stored s) db1" by blast
  have "objects_ok (stored (s\<lparr>stored := db1\<rparr>))" using one(2) by (simp add: records_def)
  from Cons.IH [OF this, of symbols1] Cons.prems(2) obtain symbols2 db2 where
    rest: "for_each self (\<lambda>symbols e. record_entry k t start e symbols) symbols1 (s\<lparr>stored := db1\<rparr>)
        = (Ok symbols2, s\<lparr>stored := db2\<rparr>)"
      "records t start (content self) db1 db2" by auto
  from records_trans [OF one(2) rest(2)] have "records t start (content (p # self)) (stored s) db2"
    by (simp add: p content_simps)
  moreover have "for_each (p # self) (\<lambda>symbols e. record_entry k t start e symbols) symbols s
      = (Ok symbols2, s\<lparr>stored := db2\<rparr>)"
    using one(1) rest(1) by (simp add: andthen_def p)
  ultimately show ?case by blast
qed

section \<open>The history of a thread\<close>

text \<open>Every row of the thread is open or has ended by the given time.\<close>

definition history_ok :: "tables \<Rightarrow> int \<Rightarrow> time \<Rightarrow> bool" where
  "history_ok db t tm \<longleftrightarrow> (\<forall>row \<in> set (thread_spaces t db). time_end row = - 1 \<or> time_end row \<le> tm)"

definition after_update :: "bool \<Rightarrow> time \<Rightarrow> AddressSpace \<Rightarrow> int \<Rightarrow> tables \<Rightarrow> time \<Rightarrow> (addr interval \<times> string) set" where
  "after_update update_interval tm self t db x =
     (if thread_spaces t db = [] then content self
      else if update_interval then if tm \<le> x then content self else loaded db t x
      else if tm \<le> x then loaded db t x \<union> content self else loaded db t x)"

lemma close_spaces_simps:
  "LinkedObjects (close_spaces t tm db) = LinkedObjects db"
  "Files (close_spaces t tm db) = Files db"
  "AddressSpaces (close_spaces t tm db) = map (\<lambda>row.
     if as_thread row = t \<and> time_end row = - 1 then row\<lparr>time_end := tm\<rparr> else row) (AddressSpaces db)"
  by (cases db, simp add: close_spaces_def)+

lemma close_spaces_ok: "objects_ok db \<Longrightarrow> objects_ok (close_spaces t tm db)"
  by (fastforce simp: objects_ok_def close_spaces_simps)

lemma close_spaces_path: "object_path (close_spaces t tm db) = object_path db"
  by (simp add: object_path_def close_spaces_simps fun_eq_iff)

lemma close_spaces_other:
  assumes "t' \<noteq> t"
  shows "thread_spaces t' (close_spaces t tm db) = thread_spaces t' db"
proof -
  have "filter (\<lambda>row. as_thread row = t') (map (\<lambda>row. if as_thread row = t \<and> time_end row = - 1
      then row\<lparr>time_end := tm\<rparr> else row) xs) = filter (\<lambda>row. as_thread row = t') xs" for xs
    using assms by (induction xs) auto
  then show ?thesis by (simp add: thread_spaces_def close_spaces_simps)
qed

definition closed :: "time \<Rightarrow> AddressSpaceRow \<Rightarrow> AddressSpaceRow" where
  "closed tm row = (if time_end row = - 1 then row\<lparr>time_end := tm\<rparr> else row)"

lemma close_spaces_same: "thread_spaces t (close_spaces t tm db) = map (closed tm) (thread_spaces t db)"
proof -
  have "filter (\<lambda>row. as_thread row = t) (map (\<lambda>row. if as_thread row = t \<and> time_end row = - 1
      then row\<lparr>time_end := tm\<rparr> else row) xs) = map (closed tm) (filter (\<lambda>row. as_thread row = t) xs)" for xs
    by (induction xs) (auto simp: closed_def)
  then show ?thesis by (simp add: thread_spaces_def close_spaces_simps)
qed

lemma closed_simps [simp]:
  "row_loads db (closed tm row) = row_loads db row" "time_begin (closed tm row) = time_begin row"
  "time_end (closed tm row) = (if time_end row = - 1 then tm else time_end row)"
  "as_linked_object (closed tm row) = as_linked_object row"
  by (simp_all add: closed_def row_loads_def)

lemma row_loads_closed [simp]: "row_loads (close_spaces t tm db) = row_loads db"
  by (simp add: row_loads_def close_spaces_path fun_eq_iff)

lemma loaded_closed:
  assumes "history_ok db t tm" and "x \<noteq> - 1"
  shows "loaded (close_spaces t tm db) t x = (if tm \<le> x then {} else loaded db t x)"
proof -
  have "x < - 1" using assms(2) by (simp add: word_order.not_eq_extremum)
  then have active: "x < time_end (closed tm row) \<longleftrightarrow> x < tm \<and> x < time_end row"
    if "row \<in> set (thread_spaces t db)" for row
    using assms(1) that by (auto simp: history_ok_def)
  have "loaded (close_spaces t tm db) t x = (\<Union>row \<in> {row \<in> set (thread_spaces t db).
      time_begin row \<le> x \<and> x < time_end (closed tm row)}. row_loads db row)"
    by (auto simp: loaded_def close_spaces_same)
  also have "\<dots> = (if tm \<le> x then {} else loaded db t x)"
  proof -
    have "{row \<in> set (thread_spaces t db). time_begin row \<le> x \<and> x < time_end (closed tm row)}
        = {row \<in> set (thread_spaces t db). time_begin row \<le> x \<and> x < tm \<and> x < time_end row}"
      using active by blast
    then show ?thesis by (simp only:) (auto simp: loaded_def)
  qed
  finally show ?thesis .
qed

lemma loaded_recorded:
  assumes "objects_ok db" and rec: "records t start new db db'" and "x \<noteq> - 1"
  shows "loaded db' t x = loaded db t x \<union> (if start \<le> x then new else {})"
    and "t' \<noteq> t \<Longrightarrow> loaded db' t' x = loaded db t' x"
    and "t' \<noteq> t \<Longrightarrow> thread_spaces t' db' = thread_spaces t' db"
proof -
  obtain rows where rows: "AddressSpaces db' = AddressSpaces db @ rows"
    "\<forall>row \<in> set rows. as_thread row = t \<and> time_begin row = start \<and> time_end row = - 1"
    "(\<Union>row \<in> set rows. row_loads db' row) = new"
    using rec unfolding records_def by blast
  have "filter (\<lambda>row. as_thread row = t) rows = rows" using rows(2) by simp
  then have same: "thread_spaces t db' = thread_spaces t db @ rows"
    by (simp add: thread_spaces_def rows(1))
  have kept: "row_loads db' row = row_loads db row" if "row \<in> set (AddressSpaces db)" for row
    using row_loads_kept [OF rec] assms(1) that by (auto simp: objects_ok_def)
  have in_table: "row \<in> set (AddressSpaces db)" if "row \<in> set (thread_spaces t db)" for row t
    using that by (simp add: thread_spaces_def)
  have "x < - 1" using assms(3) by (simp add: word_order.not_eq_extremum)
  then have "loaded db' t x = (\<Union>row \<in> {row \<in> set (thread_spaces t db).
      time_begin row \<le> x \<and> x < time_end row}. row_loads db' row) \<union>
      (\<Union>row \<in> {row \<in> set rows. start \<le> x}. row_loads db' row)"
    using rows(2) by (auto simp: loaded_def same)
  also have "\<dots> = loaded db t x \<union> (if start \<le> x then new else {})"
    using kept in_table rows(3) by (auto simp: loaded_def)
  finally show "loaded db' t x = loaded db t x \<union> (if start \<le> x then new else {})" .
  assume "t' \<noteq> t"
  then have "filter (\<lambda>row. as_thread row = t') rows = []" using rows(2) by (auto simp: filter_empty_conv)
  then show other: "thread_spaces t' db' = thread_spaces t' db" by (simp add: thread_spaces_def rows(1))
  show "loaded db' t' x = loaded db t' x"
    unfolding loaded_def other using kept in_table by (intro SUP_cong) auto
qed

lemma update_one_ok:
  assumes ok: "objects_ok (stored s)" and depth: "fst (nesting s) = 0"
    and self: "\<forall>(r, e) \<in> set self. proper r \<and> dm_end r - dm_begin r < 2 ^ 63"
    and history: "update_interval \<longrightarrow> history_ok (stored s) t tm"
  shows "\<exists>symbols' s'. update_one tm update_interval self symbols t s = (Ok symbols', s') \<and>
    fst (nesting s') = 0 \<and> objects_ok (stored s') \<and>
    (\<forall>x. x \<noteq> - 1 \<longrightarrow> loaded (stored s') t x = after_update update_interval tm self t (stored s) x) \<and>
    (\<forall>t'. t' \<noteq> t \<longrightarrow> thread_spaces t' (stored s') = thread_spaces t' (stored s) \<and>
      (\<forall>x. x \<noteq> - 1 \<longrightarrow> loaded (stored s') t' x = loaded (stored s) t' x))"
proof -
  let ?s = "tx_call (Begin True) s" and ?db = "stored s"
  define start where "start = (if thread_spaces t ?db \<noteq> [] then tm else 0)"
  define db1 where "db1 = (if update_interval then close_spaces t tm ?db else ?db)"
  have ok1: "objects_ok db1" using ok close_spaces_ok by (simp add: db1_def)
  then have "objects_ok (stored (?s\<lparr>stored := db1\<rparr>))" by simp
  from record_all [OF this self, of False t start symbols] obtain symbols' db2 where
    run: "for_each self (\<lambda>symbols e. record_entry False t start e symbols) symbols (?s\<lparr>stored := db1\<rparr>)
        = (Ok symbols', ?s\<lparr>stored := db2\<rparr>)"
    and rec: "records t start (content self) db1 db2" by auto
  have "x\<lparr>stored := y\<rparr> = x" if "stored x = y" for x :: session and y using that by (cases x) simp
  then have step: "(if update_interval then update_tables (close_spaces t tm) else ret ()) ?s
      = (Ok (), ?s\<lparr>stored := db1\<rparr>)"
    by (simp add: db1_def update_tables_def ret_def)
  have whole: "update_one tm update_interval self symbols t s
      = (Ok symbols', tx_call Commit (?s\<lparr>stored := db2\<rparr>))"
    unfolding update_one_def in_transaction_def andthen_def query_def
    by (simp only: tx_call_simps start_def [symmetric] step run res.case prod.case)
  note new = loaded_recorded [OF ok1 rec]
  have same: "thread_spaces t' db1 = thread_spaces t' ?db" "loaded db1 t' x = loaded ?db t' x"
    if "t' \<noteq> t" for t' x
    using close_spaces_other [OF that] by (simp_all add: db1_def loaded_def)
  have "loaded db2 t x = after_update update_interval tm self t ?db x" if "x \<noteq> - 1" for x
  proof (cases "thread_spaces t ?db = []")
    case True
    then have "thread_spaces t db1 = []" by (simp add: db1_def close_spaces_same)
    then show ?thesis using new(1) [OF that] True
      by (simp add: after_update_def start_def) (simp add: loaded_def)
  next
    case False
    then show ?thesis
      using new(1) [OF that] loaded_closed [OF history [rule_format] that]
      by (auto simp: after_update_def start_def db1_def)
  qed
  moreover have "thread_spaces t' db2 = thread_spaces t' ?db" if "t' \<noteq> t" for t'
    using new(3) [of 0 t'] same(1) that by simp
  ultimately show ?thesis
    unfolding whole using new(2) same rec depth by (simp add: records_def)
qed

lemma update_all_ok:
  assumes "objects_ok (stored s)" and "fst (nesting s) = 0" and "distinct threads"
    and self: "\<forall>(r, e) \<in> set self. proper r \<and> dm_end r - dm_begin r < 2 ^ 63"
    and "\<forall>t \<in> set threads. update_interval \<longrightarrow> history_ok (stored s) t tm"
  shows "\<exists>symbols' s'. for_each threads (update_one tm update_interval self) symbols s = (Ok symbols', s') \<and>
    fst (nesting s') = 0 \<and> objects_ok (stored s') \<and>
    (\<forall>t x. x \<noteq> - 1 \<longrightarrow> loaded (stored s') t x =
      (if t \<in> set threads then after_update update_interval tm self t (stored s) x
       else loaded (stored s) t x))"
  using assms(1-3,5)
proof (induction threads arbitrary: s symbols)
  case Nil
  then show ?case by (simp add: ret_def)
next
  case (Cons t threads)
  have "update_interval \<longrightarrow> history_ok (stored s) t tm" using Cons.prems(4) by simp
  from update_one_ok [OF Cons.prems(1,2) self this, where symbols = symbols] show ?case
  proof (elim exE conjE)
    fix symbols1 s1
    assume run: "update_one tm update_interval self symbols t s = (Ok symbols1, s1)"
      and s1: "fst (nesting s1) = 0" "objects_ok (stored s1)"
      and here: "\<forall>x. x \<noteq> - 1 \<longrightarrow>
        loaded (stored s1) t x = after_update update_interval tm self t (stored s) x"
      and other: "\<forall>t'. t' \<noteq> t \<longrightarrow> thread_spaces t' (stored s1) = thread_spaces t' (stored s) \<and>
        (\<forall>x. x \<noteq> - 1 \<longrightarrow> loaded (stored s1) t' x = loaded (stored s) t' x)"
    have distinct: "t \<notin> set threads" "distinct threads" using Cons.prems(3) by simp_all
    have history: "\<forall>t \<in> set threads. update_interval \<longrightarrow> history_ok (stored s1) t tm"
    proof (intro ballI impI)
      fix t' assume "t' \<in> set threads" and update_interval
      moreover from this(1) have "t' \<noteq> t" using distinct(1) by blast
      ultimately show "history_ok (stored s1) t' tm"
        using Cons.prems(4) other by (simp add: history_ok_def)
    qed
    from Cons.IH [OF s1(2,1) distinct(2) history, of symbols1] show ?case
    proof (elim exE conjE)
      fix symbols2 s2
      assume rest: "for_each threads (update_one tm update_interval self) symbols1 s1 = (Ok symbols2, s2)"
        and s2: "fst (nesting s2) = 0" "objects_ok (stored s2)"
        and later: "\<forall>t x. x \<noteq> - 1 \<longrightarrow> loaded (stored s2) t x =
          (if t \<in> set threads then after_update update_interval tm self t (stored s1) x
           else loaded (stored s1) t x)"
      have "loaded (stored s2) t' x = (if t' \<in> set (t # threads)
          then after_update update_interval tm self t' (stored s) x else loaded (stored s) t' x)"
        if "x \<noteq> - 1" for t' x
      proof (cases "t' = t")
        case True
        then show ?thesis using later here that distinct(1) by simp
      next
        case False
        then show ?thesis using later other that by (simp add: after_update_def)
      qed
      then show ?case
        using run rest s2 by (intro exI [of _ symbols2] exI [of _ s2]) (simp add: andthen_def)
    qed
  qed
qed

section \<open>Properties\<close>

text \<open>C19: setting ranges keeps the map of a process free of overlaps: a range is recorded unless it
  overlaps another one, a range that is already there gets the new path, and nothing else changes.\<close>

theorem setValue_keeps_disjoint:
  assumes "map_ok self" and "proper r"
  shows "map_ok (AddressSpace_setValue r path x self)
    \<and> (AddressSpace_hasValue r (AddressSpace_setValue r path x self) \<longleftrightarrow>
        \<not> (\<exists>key. key \<in> set (keys self) \<and> key \<noteq> r \<and> points key \<inter> points r \<noteq> {}))
    \<and> set (AddressSpace_setValue r path x self) =
      (if \<exists>key. key \<in> set (keys self) \<and> key \<noteq> r \<and> points key \<inter> points r \<noteq> {} then set self
       else insert (r, Entry path x) {p \<in> set self. fst p \<noteq> r})"
proof -
  let ?self = "AddressSpace_setValue r path x self"
  have ok: "map_ok ?self" by (rule map_setValue_ok [OF assms])
  note content = setValue_content [OF assms, of path x, unfolded Bex_def]
  have has: "AddressSpace_hasValue r m \<longleftrightarrow> r \<in> set (keys m)" if "map_ok m" for m
  proof
    assume "AddressSpace_hasValue r m"
    then obtain e where "map_find Interval_precedes r m = Some (r, e)"
      by (auto simp: AddressSpace_hasValue_def split: option.splits)
    from find_overlap(2) [OF that assms(2) this] have "(r, e) \<in> set m" by blast
    then show "r \<in> set (keys m)" by (force simp: keys_def)
  next
    assume "r \<in> set (keys m)"
    from key_entry [OF this] obtain e where "(r, e) \<in> set m" by blast
    from range_key.find_present [OF _ this] that show "AddressSpace_hasValue r m"
      by (simp add: AddressSpace_hasValue_def map_ok_def)
  qed
  let ?hit = "\<exists>key. key \<in> set (keys self) \<and> key \<noteq> r \<and> points key \<inter> points r \<noteq> {}"
  have "r \<notin> set (keys self)" if hit: ?hit
  proof
    assume "r \<in> set (keys self)"
    from key_entry [OF this] obtain e where e: "(r, e) \<in> set self" by blast
    from hit obtain key where key: "key \<in> set (keys self)" "key \<noteq> r" "points key \<inter> points r \<noteq> {}"
      by blast
    moreover from key_entry [OF key(1)] obtain f where "(key, f) \<in> set self" by blast
    ultimately have "(key, f) \<in> set self" "key \<noteq> r" "points key \<inter> points r \<noteq> {}" by blast+
    then show False using map_ok_keys(2) [OF assms(1) _ e] by blast
  qed
  moreover have "r \<in> set (keys ?self)" if "\<not> ?hit"
    using content [unfolded if_not_P [OF that]] by (simp add: keys_def)
  moreover have "set (keys ?self) = set (keys self)" if ?hit
    using content [unfolded if_P [OF that]] by (simp add: keys_def)
  ultimately have "AddressSpace_hasValue r ?self \<longleftrightarrow> \<not> ?hit"
    unfolding has [OF ok] by blast
  with ok content show ?thesis by blast
qed

lemma setValue_keeps_disjoint_witness:
  "AddressSpace_hasValue (Interval 0 16) (AddressSpace_setValue (Interval 0 16) ''a'' True []) \<and>
   \<not> AddressSpace_hasValue (Interval 8 24)
     (AddressSpace_setValue (Interval 8 24) ''b'' False [(Interval 0 16, Entry ''a'' True)])"
proof -
  have ok: "map_ok []" "map_ok [(Interval 0 16, Entry ''a'' True)]"
    "proper (Interval 0 (16::addr))" "proper (Interval 8 (24::addr))"
    by (simp_all add: map_ok_def proper_def)
  have "(8::addr) \<in> points (Interval 0 16) \<inter> points (Interval 8 24)"
    by (simp add: Interval_containsValue_def)
  then have "points (Interval 0 (16::addr)) \<inter> points (Interval 8 24) \<noteq> {}" by blast
  with setValue_keeps_disjoint [OF ok(1,3)] setValue_keeps_disjoint [OF ok(2,4)] show ?thesis
    by simp
qed

text \<open>C18: an update of threads at a time fixes what each of them has loaded at every time. For a thread
  that has no rows yet the content counts from the beginning of time, also before the time of the
  update. For any other thread what it had loaded before that time stays; from that time on it has
  the new content, in place of the old or, when the open rows are not closed, beside it. Other
  threads keep what they had loaded at all times.\<close>

theorem updateThreads_history:
  assumes "objects_ok (stored s)" and "fst (nesting s) = 0" and "distinct threads"
    and "map_ok self" and "measurable self"
    and "\<forall>t \<in> set threads. update_interval \<longrightarrow> history_ok (stored s) t tm"
  shows "\<exists>symbols s'. AddressSpace_updateThreads threads tm update_interval self s = (Ok symbols, s') \<and>
    fst (nesting s') = 0 \<and> objects_ok (stored s') \<and>
    (\<forall>t x. x \<noteq> - 1 \<longrightarrow> loaded (stored s') t x =
      (if t \<in> set threads then after_update update_interval tm self t (stored s) x
       else loaded (stored s) t x))"
proof -
  have "\<forall>(r, e) \<in> set self. proper r \<and> dm_end r - dm_begin r < 2 ^ 63"
    using assms(4,5) map_ok_keys(1) by (fastforce simp: measurable_def)
  from update_all_ok [OF assms(1-3) this assms(6)] show ?thesis
    by (simp add: AddressSpace_updateThreads_def)
qed

lemma updateThreads_history_witness:
  "\<exists>symbols s'. AddressSpace_updateThreads [1, 2] 2000 True
      [(Interval 4096 8192, Entry ''/lib/a.so'' False)] sample_session = (Ok symbols, s') \<and>
    loaded (stored s') 1 50 = {(Interval 4096 8192, ''main.c'')} \<and>
    loaded (stored s') 1 2500 = {(Interval 4096 8192, ''/lib/a.so'')} \<and>
    loaded (stored s') 2 50 = {(Interval 4096 8192, ''/lib/a.so'')} \<and> loaded (stored s') 3 50 = {}"
proof -
  let ?self = "[(Interval 4096 8192, Entry ''/lib/a.so'' False)]"
  have spaces: "thread_spaces 1 sample_tables = [sample_space]" "thread_spaces 2 sample_tables = []"
    "thread_spaces 3 sample_tables = []"
    by (simp_all add: thread_spaces_def sample_tables_def sample_space_def)
  have path: "object_path sample_tables 1 p \<longleftrightarrow> p = ''main.c''" for p
    by (auto simp: object_path_def sample_tables_def)
  have old: "loaded sample_tables 1 50 = {(Interval 4096 8192, ''main.c'')}" "loaded sample_tables 3 50 = {}"
    by (simp_all add: loaded_def spaces row_loads_def sample_space_def path Collect_conv_if)
  have new: "after_update True 2000 ?self 1 sample_tables 50 = {(Interval 4096 8192, ''main.c'')}"
    "after_update True 2000 ?self 1 sample_tables 2500 = {(Interval 4096 8192, ''/lib/a.so'')}"
    "after_update True 2000 ?self 2 sample_tables 50 = {(Interval 4096 8192, ''/lib/a.so'')}"
    by (simp_all add: after_update_def spaces content_simps old)
  have ok: "objects_ok (stored sample_session)" "fst (nesting sample_session) = 0" "distinct [1::int, 2]"
    "map_ok ?self" "measurable ?self"
    "\<forall>t \<in> set [1, 2]. True \<longrightarrow> history_ok (stored sample_session) t 2000"
    by (simp_all add: sample_session_simps history_ok_def spaces measurable_def map_ok_def proper_def)
      (simp_all add: objects_ok_def sample_tables_def sample_space_def)
  have "(50::time) \<noteq> - 1" "(2500::time) \<noteq> - 1" by simp_all
  with updateThreads_history [OF ok] new old(2) show ?thesis
    unfolding sample_session_simps by fastforce
qed

end
