(* ===== verification/HWCCollector.thy ===== *)
theory HWCCollector
  imports KdSearch Blob Session
begin

text \<open>
  A collector plugin: how the hardware counter collector evaluates its metric \<open>overflows\<close> for a blob of
  performance data (\<open>HWCCollector::getMetricValues\<close> in plugins/collectors/hwc/HWCCollector.cxx, the blob
  in its blobs.x). Every sample in the blob is added to the values of the extents that contain its
  program counter. The generated decoder of the blob is a parameter. For a blob as the runtime makes
  it, with one count for each sample, the result is stated exactly. Extents that do not intersect the
  extent of the blob get nothing if all samples are inside it, which the plugin does not check; the
  sample at the end of the address range that the runtime records is not (see PerformanceData).
\<close>

section \<open>The plugin\<close>

record hwc_data =
  hwc_interval :: "64 word"
  hwc_pc :: "addr list"
  hwc_count :: "8 word list"

definition no_hwc_data :: hwc_data where
  "no_hwc_data = \<lparr>hwc_interval = 0, hwc_pc = [], hwc_count = []\<rparr>"

text \<open>
  One sample and one extent. The multiplier is the quotient of two widths converted to \<open>double\<close>, cut to
  an integer. The first width is at most the second, so rounding can only turn a quotient below one
  into one, and the test for zero makes no difference between the two.
\<close>

definition add_sample ::
  "extent \<Rightarrow> ExtentGroup \<Rightarrow> 64 word \<Rightarrow> 64 word list \<Rightarrow> nat \<Rightarrow> 64 word list" where
  "add_sample extent subextents t_sample values j =
     (let t_blob = Interval_getWidth (dm_interval extent);
          t_intersection = Interval_getWidth
            (Interval_inter (dm_interval extent) (dm_interval (dm_extents subextents ! j)));
          multiplier = t_intersection div t_blob
      in values[j := values ! j + t_sample * (if multiplier = 0 then 1 else multiplier)])"

definition sample_extent :: "extent \<Rightarrow> addr \<Rightarrow> extent" where
  "sample_extent extent pc = Extent (dm_interval extent) (AddressRange_of pc)"

definition sample_value :: "hwc_data \<Rightarrow> nat \<Rightarrow> 64 word" where
  "sample_value data i = ucast (hwc_count data ! i) * hwc_interval data"

text \<open>The search may build the tree of the group further, which the next sample uses.\<close>

definition process_sample ::
  "nth_element \<Rightarrow> extent \<Rightarrow> hwc_data \<Rightarrow> 64 word list \<times> ExtentGroup \<Rightarrow> nat
    \<Rightarrow> (64 word list \<times> ExtentGroup) res" where
  "process_sample ne extent data = (\<lambda>(vs, subextents) i.
     case ExtentGroup_getIntersectionWith ne (sample_extent extent (hwc_pc data ! i)) subextents of
       None \<Rightarrow> Blocked
     | Some (intersection, subextents') \<Rightarrow>
         Ok (foldl (add_sample extent subextents' (sample_value data i)) vs
           (sorted_list_of_set intersection), subextents'))"

definition HWCCollector_getMetricValues ::
  "nth_element \<Rightarrow> hwc_data xdr_decoder \<Rightarrow> string \<Rightarrow> extent \<Rightarrow> byte list \<Rightarrow> ExtentGroup \<Rightarrow> 64 word list
    \<Rightarrow> 64 word list res" where
  "HWCCollector_getMetricValues ne decode metric extent blob subextents vs =
     bind_res (Assert (metric = ''overflows'')) (\<lambda>_.
     bind_res (Assert (length vs \<ge> length (dm_extents subextents))) (\<lambda>_.
     bind_res (Blob_getXDRDecoding decode no_hwc_data blob) (\<lambda>(data, _).
     bind_res (Assert (length (hwc_pc data) = length (hwc_count data))) (\<lambda>_.
     bind_res (fold_res (process_sample ne extent data) [0..<length (hwc_pc data)] (vs, subextents))
       (\<lambda>(vs, _). Ok vs)))))"

section \<open>What it adds\<close>

text \<open>A blob as the runtime makes it, and one with all samples in its extent.\<close>

definition hwc_blob_ok :: "hwc_data xdr_decoder \<Rightarrow> extent \<Rightarrow> byte list \<Rightarrow> bool" where
  "hwc_blob_ok decode e bytes \<longleftrightarrow> proper (dm_interval e) \<and>
     (case decode bytes of
        None \<Rightarrow> False
      | Some (data, _) \<Rightarrow> length (hwc_pc data) = length (hwc_count data))"

definition samples_inside :: "hwc_data xdr_decoder \<Rightarrow> extent \<Rightarrow> byte list \<Rightarrow> bool" where
  "samples_inside decode e bytes \<longleftrightarrow>
     (case decode bytes of
        None \<Rightarrow> True
      | Some (data, _) \<Rightarrow> list_all (\<lambda>pc. Interval_containsValue (dm_range e) pc) (hwc_pc data))"

definition hwc_contribution :: "hwc_data xdr_decoder \<Rightarrow> extent \<Rightarrow> byte list \<Rightarrow> extent \<Rightarrow> 64 word" where
  "hwc_contribution decode e bytes x =
     (case decode bytes of
        None \<Rightarrow> 0
      | Some (data, _) \<Rightarrow> \<Sum>i \<leftarrow> [0..<length (hwc_pc data)].
          if Extent_doesIntersect (sample_extent e (hwc_pc data ! i)) x then sample_value data i else 0)"

lemma inter_width:
  assumes "proper i"
  shows "Interval_getWidth (Interval_inter i j) \<le> Interval_getWidth (i :: 64 word interval)"
proof -
  obtain b e where inter: "Interval_inter i j = Interval b e" by (cases "Interval_inter i j")
  have "b = e \<or> dm_begin i \<le> b \<and> b \<le> e \<and> e \<le> dm_end i"
    using inter by (auto simp: Interval_inter_def Let_def split: if_splits)
  then show ?thesis
  proof
    assume "dm_begin i \<le> b \<and> b \<le> e \<and> e \<le> dm_end i"
    then show ?thesis
      by (auto simp: inter Interval_getWidth_def word_le_nat_alt unat_sub_if')
  qed (simp add: inter Interval_getWidth_def)
qed

lemma add_sample_eq:
  assumes "proper (dm_interval e)"
  shows "add_sample e g t vs j = vs[j := vs ! j + t]"
proof -
  let ?a = "Interval_getWidth (Interval_inter (dm_interval e) (dm_interval (dm_extents g ! j)))"
  let ?b = "Interval_getWidth (dm_interval e)"
  have "unat ?a \<le> unat ?b" using inter_width [OF assms] by (simp add: word_le_nat_alt)
  then have "unat ?a div unat ?b \<le> unat ?b div unat ?b" by (rule div_le_mono)
  then have "unat ?a div unat ?b \<le> 1" by (cases "unat ?b = 0") auto
  then have "unat (?a div ?b) \<le> unat (1 :: 64 word)" by (simp add: unat_div_distrib)
  then have "?a div ?b \<le> 1" by (simp only: word_le_nat_alt)
  then have "?a div ?b = 0 \<or> ?a div ?b = 1"
    by (metis linorder_not_le order_antisym word_gt_0 word_less_1 le_less)
  then show ?thesis by (auto simp: add_sample_def Let_def)
qed

lemma add_samples:
  assumes "proper (dm_interval e)"
  shows "distinct js \<Longrightarrow> set js \<subseteq> {..<length vs} \<Longrightarrow> foldl (add_sample e g t) vs js
    = map (\<lambda>j. vs ! j + (if j \<in> set js then t else 0)) [0..<length vs]"
proof (induction js arbitrary: vs)
  case Nil
  then show ?case by (simp add: map_nth)
next
  case (Cons i js)
  from Cons.IH [of "vs[i := vs ! i + t]"] Cons.prems show ?case
    by (auto simp: add_sample_eq [OF assms] nth_list_update intro!: nth_equalityI)
qed

lemma process_samples:
  assumes "nth_element_contract ne" and "proper (dm_interval e)" and "tree_ok g"
    and "length vs = length (dm_extents g)"
  shows "\<exists>g'. fold_res (process_sample ne e data) is (vs, g) = Ok (map (\<lambda>j. vs ! j + (\<Sum>i \<leftarrow> is.
      if Extent_doesIntersect (sample_extent e (hwc_pc data ! i)) (dm_extents g ! j)
      then sample_value data i else 0)) [0..<length vs], g')"
  using assms(3,4)
proof (induction "is" arbitrary: vs g)
  case Nil
  then show ?case by (simp add: map_nth flip: Nil.prems(2))
next
  case (Cons i "is")
  let ?hit = "\<lambda>i j. Extent_doesIntersect (sample_extent e (hwc_pc data ! i)) (dm_extents g ! j)"
  from query_correct [OF assms(1) Cons.prems(1)] obtain g' where
    found: "ExtentGroup_getIntersectionWith ne (sample_extent e (hwc_pc data ! i)) g
      = Some ({j. j < length (dm_extents g) \<and> ?hit i j}, g')"
    and g': "tree_ok g'" "dm_extents g' = dm_extents g"
    unfolding hits_def by blast
  let ?vs = "map (\<lambda>j. vs ! j + (if ?hit i j then sample_value data i else 0)) [0..<length vs]"
  have "foldl (add_sample e g' (sample_value data i)) vs
      (sorted_list_of_set {j. j < length (dm_extents g) \<and> ?hit i j}) = ?vs"
    using Cons.prems(2) by (subst add_samples [OF assms(2)]) auto
  then have "process_sample ne e data (vs, g) i = Ok (?vs, g')"
    by (simp add: process_sample_def found)
  with Cons.IH [OF g'(1), of ?vs] Cons.prems(2) g'(2) show ?case
    by (auto simp: add.assoc cong: map_cong)
qed

lemma HWCCollector_ok:
  assumes "nth_element_contract ne" and "hwc_blob_ok decode e bytes" and "tree_ok g"
    and "length vs = length (dm_extents g)"
  shows "HWCCollector_getMetricValues ne decode ''overflows'' e bytes g vs
    = Ok (map (\<lambda>j. vs ! j + hwc_contribution decode e bytes (dm_extents g ! j)) [0..<length vs])"
proof -
  obtain data n where d: "decode bytes = Some (data, n)" and "length (hwc_pc data) = length (hwc_count data)"
    and "proper (dm_interval e)"
    using assms(2) by (auto simp: hwc_blob_ok_def split: option.splits)
  with process_samples [OF assms(1) _ assms(3,4), of e data "[0..<length (hwc_pc data)]"] assms(4)
  show ?thesis
    by (auto simp: HWCCollector_getMetricValues_def Blob_getXDRDecoding_def Assert_def bind_res_def
        hwc_contribution_def)
qed

lemma sample_inside:
  assumes "Interval_containsValue (dm_range e) pc"
  shows "extent_points (sample_extent e pc) \<subseteq> extent_points e"
proof -
  have "pc < - 1" using assms by (auto simp: Interval_containsValue_def word_order.not_eq_extremum less_le_trans)
  then have only: "a = pc" if "Interval_containsValue (AddressRange_of pc) a" for a
    using that by (auto simp: AddressRange_of_def Address_plus_diff_def Interval_containsValue_def)
      (metis add.commute inc_le leD order_le_less)
  with assms show ?thesis
    by (auto simp: sample_extent_def extent_points_def simp del: extent_points_iff dest!: only)
qed

lemma hwc_contribution_zero:
  assumes "samples_inside decode e bytes" and "\<not> Extent_doesIntersect x e"
  shows "hwc_contribution decode e bytes x = 0"
proof (cases "decode bytes")
  case (Some p)
  obtain data n where p: "p = (data, n)" by fastforce
  have "\<not> Extent_doesIntersect (sample_extent e (hwc_pc data ! i)) x" if "i < length (hwc_pc data)" for i
    using assms sample_inside [of e "hwc_pc data ! i"] that
    by (auto simp: samples_inside_def Some p list_all_length Extent_doesIntersect_iff simp del: extent_points_iff)
  then have "(\<Sum>i \<leftarrow> [0..<length (hwc_pc data)]. if Extent_doesIntersect
      (sample_extent e (hwc_pc data ! i)) x then sample_value data i else 0)
      = (\<Sum>i \<leftarrow> [0..<length (hwc_pc data)]. 0)"
    by (intro arg_cong [of _ _ sum_list] map_cong) auto
  then show ?thesis by (simp add: hwc_contribution_def Some p)
qed (simp add: hwc_contribution_def)

end
