(* ===== verification/PerformanceData.thy ===== *)
theory PerformanceData
  imports SymbolCaches Blob HWCCollector
begin

text \<open>
  Performance data: the cache of the extents of data blobs (DataCache.cxx), the storing of a blob that
  a collector has sent (\<open>storePerformanceData\<close> in DataQueues.cxx), and the reading of the blobs by a
  collector (\<open>getIdentifiers\<close>, \<open>getMetricValues\<close>, \<open>getUniquePCValues\<close> and \<open>getExtentIn\<close> in
  Collector.cxx, \<open>getPerformanceDataExtent\<close> in Experiment.cxx). The cache is the fourth instance of the
  contract of ExtentCaches. A collector plugin is a parameter: a function of the extent and the bytes
  of a blob, the extents asked for, and the values gathered so far; HWCCollector models one.
\<close>

section \<open>Transactions of the framework\<close>

text \<open>The transaction macros around a body that also uses the caches.\<close>

definition at_session :: "db_call \<Rightarrow> framework \<Rightarrow> framework" where
  "at_session c s = s\<lparr>the_session := tx_call c (the_session s)\<rparr>"

definition transaction_on :: "bool \<Rightarrow> (framework, 'a) op \<Rightarrow> (framework, 'a) op" where
  "transaction_on will_modify body s =
     (case body (at_session (Begin will_modify) s) of
        (Ok x, s') \<Rightarrow> (Ok x, at_session Commit s')
      | (Throw e, s') \<Rightarrow> (Throw e, at_session Rollback s')
      | (Abort, s') \<Rightarrow> (Abort, s')
      | (Blocked, s') \<Rightarrow> (Blocked, s'))"

text \<open>What every operation leaves as it was: the depth and, inside a transaction, its restore point.\<close>

definition balanced :: "framework \<Rightarrow> framework \<Rightarrow> bool" where
  "balanced s s' \<longleftrightarrow> fst (nesting (the_session s')) = fst (nesting (the_session s)) \<and>
     (0 < fst (nesting (the_session s)) \<longrightarrow>
        nesting (the_session s') = nesting (the_session s) \<and> saved (the_session s') = saved (the_session s))"

lemma balanced_refl [simp]: "balanced s s"
  by (simp add: balanced_def)

lemma balanced_trans [trans]: "balanced s t \<Longrightarrow> balanced t u \<Longrightarrow> balanced s u"
  by (auto simp: balanced_def)

lemma unchanged_iff:
  "unchanged s s' \<longleftrightarrow> stored (the_session s') = stored (the_session s) \<and> balanced s s' \<and> calls s' = calls s"
  by (auto simp: unchanged_def balanced_def)

lemma at_session_simps [simp]:
  "the_session (at_session c s) = tx_call c (the_session s)"
  "function_cache (at_session c s) = function_cache s"
  "loop_cache (at_session c s) = loop_cache s"
  "statement_cache (at_session c s) = statement_cache s"
  "data_cache (at_session c s) = data_cache s"
  "calls (at_session c s) = calls s"
  by (simp_all add: at_session_def)

lemma commit_balanced:
  assumes "balanced (at_session (Begin w) s) t"
  shows "stored (the_session (at_session Commit t)) = stored (the_session t)"
    and "balanced s (at_session Commit t)"
proof -
  have n: "nesting (the_session t) = (Suc (fst (nesting (the_session s))),
      fst (nesting (the_session s)) = 0 \<or> snd (nesting (the_session s)))"
    using assms by (auto simp: balanced_def)
  then show "stored (the_session (at_session Commit t)) = stored (the_session t)" by auto
  show "balanced s (at_session Commit t)"
    using assms n by (auto simp: balanced_def prod_eq_iff)
qed

lemma transaction_on_Ok:
  assumes "body (at_session (Begin w) s) = (Ok x, t)" and "balanced (at_session (Begin w) s) t"
  shows "transaction_on w body s = (Ok x, at_session Commit t)"
    and "stored (the_session (at_session Commit t)) = stored (the_session t)"
    and "balanced s (at_session Commit t)"
  using commit_balanced [OF assms(2)] by (simp_all add: transaction_on_def assms(1))

section \<open>The cache of performance data\<close>

text \<open>Objects of one database are their entry numbers, so a key is a pair of numbers.\<close>

definition rows_for :: "int \<times> int \<Rightarrow> tables \<Rightarrow> DataRow list" where
  "rows_for key db = filter (\<lambda>row. da_collector row = fst key \<and> da_thread row = snd key) (Data db)"

definition row_extent :: "DataRow \<Rightarrow> extent res" where
  "row_extent row =
     bind_res (Interval_make (da_time_begin row) (da_time_end row)) (\<lambda>interval.
     bind_res (Interval_make (da_addr_begin row) (da_addr_end row)) (\<lambda>range.
       Ok (Extent interval range)))"

definition select_data :: "int \<times> int \<Rightarrow> tables \<Rightarrow> (int \<times> extent) list res" where
  "select_data key db =
     fold_res (\<lambda>found row. bind_res (row_extent row) (\<lambda>e. Ok (found @ [(da_id row, e)])))
       (rows_for key db) []"

definition DataCache_addIdentifiers :: "int \<times> int \<Rightarrow> (framework, unit) op" where
  "DataCache_addIdentifiers key = load_cache data_cache data_cache_update (select_data key) key"

definition DataCache_getIdentifiers ::
  "nth_element \<Rightarrow> int \<times> int \<Rightarrow> extent \<Rightarrow> (framework, int set) op" where
  "DataCache_getIdentifiers ne key e =
     query_cache data_cache data_cache_update (ExtentGroup_getIntersectionWith ne e)
       (DataCache_addIdentifiers key) key"

definition DataCache_addIdentifier :: "int \<times> int \<Rightarrow> extent \<Rightarrow> int \<Rightarrow> (framework, unit) op" where
  "DataCache_addIdentifier key e identifier =
     andthen (cache_call data_cache data_cache_update (getExtents key)) (\<lambda>cached.
     andthen (if dm_extents cached = [] then DataCache_addIdentifiers key else ret ()) (\<lambda>_.
       add_extents data_cache data_cache_update key [(identifier, e)]))"

definition ids_of :: "('r \<Rightarrow> int) \<Rightarrow> 'r list \<Rightarrow> int list" where
  "ids_of the_id rows = sorted_list_of_set (collect the_id rows {})"

definition DataCache_removeDatabase :: "(framework, unit) op" where
  "DataCache_removeDatabase =
     andthen (on_session (reading (\<lambda>db. Ok (List.product (ids_of cl_id (Collectors db)) (ids_of thread_id (Threads db))))))
       (remove_groups data_cache data_cache_update)"

definition DataCache_removeCollector :: "int \<Rightarrow> (framework, unit) op" where
  "DataCache_removeCollector collector =
     andthen (on_session (reading (\<lambda>db. Ok (map (Pair collector) (ids_of thread_id (Threads db))))))
       (remove_groups data_cache data_cache_update)"

definition DataCache_removeThread :: "int \<Rightarrow> (framework, unit) op" where
  "DataCache_removeThread thread =
     andthen (on_session (reading (\<lambda>db. Ok (map (\<lambda>c. (c, thread)) (ids_of cl_id (Collectors db))))))
       (remove_groups data_cache data_cache_update)"

section \<open>Storing\<close>

text \<open>
  The header that the runtime puts before the data (OpenSS_DataHeader.x). The generated decoder is a
  parameter, as is the resolution of host names (\<open>Experiment::getCanonicalName\<close>).
\<close>

record header =
  hd_experiment :: int
  hd_collector :: int
  hd_host :: string
  hd_pid :: "64 word"
  hd_posix_tid :: "64 word"
  hd_time_begin :: time
  hd_time_end :: time
  hd_addr_begin :: addr
  hd_addr_end :: addr

definition no_header :: header where
  "no_header = \<lparr>hd_experiment = 0, hd_collector = 0, hd_host = [], hd_pid = 0, hd_posix_tid = 0,
     hd_time_begin = 0, hd_time_end = 0, hd_addr_begin = 0, hd_addr_end = 0\<rparr>"

text \<open>\<open>static_cast<int>\<close> of a 64-bit number.\<close>

definition to_int :: "64 word \<Rightarrow> int" where
  "to_int w = sint (ucast w :: 32 word)"

definition last_thread :: "ThreadRow list \<Rightarrow> int" where
  "last_thread rows = foldl (\<lambda>_ row. thread_id row) 0 rows"

definition find_thread :: "(string \<Rightarrow> string) \<Rightarrow> header \<Rightarrow> tables \<Rightarrow> int" where
  "find_thread canonical header db =
     (let rows = filter (\<lambda>row. host row = canonical (hd_host header)
            \<and> pid row = Some (to_int (hd_pid header))) (Threads db);
          exact = last_thread (filter (\<lambda>row. posix_tid row = Some (hd_posix_tid header)) rows);
          unnamed = last_thread (filter (\<lambda>row. posix_tid row = None) rows)
      in if exact \<noteq> 0 then exact
         else if unnamed \<noteq> 0 then unnamed
         else last_thread (filter (\<lambda>row. posix_tid row = Some 0) rows))"

definition ignore_data :: "(string \<Rightarrow> string) \<Rightarrow> header \<Rightarrow> tables \<Rightarrow> bool" where
  "ignore_data canonical header db \<longleftrightarrow>
     hd_addr_begin header \<ge> hd_addr_end header \<or> hd_time_begin header \<ge> hd_time_end header \<or>
     length (filter (\<lambda>row. cl_id row = hd_collector header) (Collectors db)) \<noteq> 1 \<or>
     find_thread canonical header db = 0"

definition data_row :: "header \<Rightarrow> int \<Rightarrow> byte list \<Rightarrow> tables \<Rightarrow> DataRow" where
  "data_row header thread bytes db = \<lparr>da_id = new_id (map da_id (Data db)),
     da_collector = hd_collector header, da_thread = thread,
     da_time_begin = hd_time_begin header, da_time_end = hd_time_end header,
     da_addr_begin = hd_addr_begin header, da_addr_end = hd_addr_end header, da_blob = bytes\<rparr>"

definition insert_data :: "DataRow \<Rightarrow> tables \<Rightarrow> tables" where
  "insert_data row db = db\<lparr>Data := Data db @ [row]\<rparr>"

definition store_body ::
  "header xdr_decoder \<Rightarrow> (string \<Rightarrow> string) \<Rightarrow> byte list \<Rightarrow> (framework, unit) op" where
  "store_body decode canonical blob =
     andthen (lift_res (Blob_getXDRDecoding decode no_header blob)) (\<lambda>(header, header_size).
     andthen (on_session (query (ignore_data canonical header))) (\<lambda>ignore.
     andthen (on_session (query (find_thread canonical header))) (\<lambda>thread.
       if ignore then ret ()
       else
         andthen (on_session (query (data_row header thread (drop header_size blob)))) (\<lambda>row.
         andthen (on_session (update_tables (insert_data row))) (\<lambda>_.
         andthen (lift_res (row_extent row)) (\<lambda>e.
           DataCache_addIdentifier (hd_collector header, thread) e (da_id row)))))))"

definition storePerformanceData ::
  "header xdr_decoder \<Rightarrow> (string \<Rightarrow> string) \<Rightarrow> byte list \<Rightarrow> (framework, unit) op" where
  "storePerformanceData decode canonical blob = transaction_on True (store_body decode canonical blob)"

section \<open>Reading\<close>

text \<open>The extent that covers the rows of a query.\<close>

definition covering_extent :: "DataRow list \<Rightarrow> extent res" where
  "covering_extent rows =
     fold_res (\<lambda>acc row. bind_res (row_extent row) (\<lambda>e.
         Ok (if Extent_isEmpty acc then e else Extent_union acc e))) rows Extent_default"

definition Collector_getExtentIn :: "int \<Rightarrow> int \<Rightarrow> (session, extent) op" where
  "Collector_getExtentIn self thread = reading (\<lambda>db. covering_extent (rows_for (self, thread) db))"

definition Experiment_getPerformanceDataExtent :: "(session, extent) op" where
  "Experiment_getPerformanceDataExtent = reading (\<lambda>db. covering_extent (Data db))"

text \<open>The bounds of the extents asked for select the blobs; their group keeps the tree built for it.\<close>

definition Collector_getIdentifiers ::
  "nth_element \<Rightarrow> int \<Rightarrow> int \<Rightarrow> ExtentGroup \<Rightarrow> (framework, int set \<times> ExtentGroup) op" where
  "Collector_getIdentifiers ne self thread subextents =
     (case ExtentGroup_getBounds subextents of (bounds, subextents') \<Rightarrow>
        andthen (DataCache_getIdentifiers ne (self, thread) bounds) (\<lambda>ids. ret (ids, subextents')))"

type_synonym 'v metric = "extent \<Rightarrow> byte list \<Rightarrow> ExtentGroup \<Rightarrow> 'v \<Rightarrow> 'v res"

definition metric_of_row :: "'v metric \<Rightarrow> ExtentGroup \<Rightarrow> 'v \<Rightarrow> DataRow \<Rightarrow> 'v res" where
  "metric_of_row plugin subextents v row =
     bind_res (row_extent row) (\<lambda>e. plugin e (da_blob row) subextents v)"

definition Collector_getMetricValuesOf ::
  "'v metric \<Rightarrow> ExtentGroup \<Rightarrow> int \<Rightarrow> 'v \<Rightarrow> (framework, 'v) op" where
  "Collector_getMetricValuesOf plugin subextents identifier v =
     on_session (reading (\<lambda>db. fold_res (metric_of_row plugin subextents)
         (filter (\<lambda>row. da_id row = identifier) (Data db)) v))"

definition Collector_getMetricValues ::
  "nth_element \<Rightarrow> 'v metric \<Rightarrow> int \<Rightarrow> int \<Rightarrow> ExtentGroup \<Rightarrow> 'v \<Rightarrow> (framework, 'v) op" where
  "Collector_getMetricValues ne plugin self thread subextents v =
     transaction_on False (
       andthen (Collector_getIdentifiers ne self thread subextents) (\<lambda>(ids, subextents').
         for_each (sorted_list_of_set ids)
           (\<lambda>v i. Collector_getMetricValuesOf plugin subextents' i v) v))"

text \<open>The two overloads fill a buffer or a set, with one transaction for each blob.\<close>

definition Collector_getUniquePCValues ::
  "nth_element \<Rightarrow> (byte list \<Rightarrow> 'v \<Rightarrow> 'v res) \<Rightarrow> int \<Rightarrow> int \<Rightarrow> ExtentGroup \<Rightarrow> 'v \<Rightarrow> (framework, 'v) op" where
  "Collector_getUniquePCValues ne plugin self thread subextents v =
     andthen (Collector_getIdentifiers ne self thread subextents) (\<lambda>(ids, _).
       for_each (sorted_list_of_set ids) (\<lambda>v i. on_session (reading (\<lambda>db.
           fold_res (\<lambda>v row. plugin (da_blob row) v) (filter (\<lambda>row. da_id row = i) (Data db)) v))) v)"

section \<open>The contract of the cache\<close>

definition proper_row :: "DataRow \<Rightarrow> bool" where
  "proper_row row \<longleftrightarrow> da_time_begin row < da_time_end row \<and> da_addr_begin row < da_addr_end row"

text \<open>Rows are scanned in the order of their ids.\<close>

definition data_ok :: "tables \<Rightarrow> bool" where
  "data_ok db \<longleftrightarrow> list_all proper_row (Data db) \<and> sorted_wrt (<) (map da_id (Data db))"

definition extent_of :: "DataRow \<Rightarrow> extent" where
  "extent_of row = Extent (Interval (da_time_begin row) (da_time_end row))
     (Interval (da_addr_begin row) (da_addr_end row))"

definition with_extents :: "DataRow list \<Rightarrow> (int \<times> extent) list" where
  "with_extents = map (\<lambda>row. (da_id row, extent_of row))"

lemma row_extent_ok: "proper_row row \<Longrightarrow> row_extent row = Ok (extent_of row)"
  by (simp add: proper_row_def row_extent_def Interval_make_def extent_of_def)

lemma proper_rows: "data_ok db \<Longrightarrow> row \<in> set (Data db) \<Longrightarrow> proper_row row"
  by (simp add: data_ok_def list_all_iff)

lemma select_data_ok:
  assumes "data_ok db"
  shows "select_data key db = Ok (with_extents (rows_for key db))"
proof -
  have "row_extent row = Ok (extent_of row)" if "row \<in> set (rows_for key db)" for row
    using that proper_rows [OF assms] by (simp add: rows_for_def row_extent_ok)
  then have "select_data key db
      = Ok (foldl (\<lambda>found row. found @ [(da_id row, extent_of row)]) [] (rows_for key db))"
    unfolding select_data_def by (intro fold_res_Ok) simp
  then show ?thesis by (simp add: foldl_snoc with_extents_def)
qed

interpretation data_cached: extent_cache data_cache data_cache_update select_data data_ok
  by unfold_locales (simp_all add: select_data_ok)

lemma getIdentifiers_ok:
  assumes "nth_element_contract ne" and "data_ok (stored (the_session s))"
    and "cache_agrees data_cache select_data s"
  shows "\<exists>s'. DataCache_getIdentifiers ne key e s
      = (Ok (da_id ` {row \<in> set (rows_for key (stored (the_session s))).
          Extent_doesIntersect e (extent_of row)}), s') \<and>
    cache_agrees data_cache select_data s' \<and> unchanged s s'"
proof -
  let ?db = "stored (the_session s)"
  from data_cached.query_exact [OF searches_one [OF assms(1)] assms(2,3), of e key] obtain s' list where
    "DataCache_getIdentifiers ne key e s
      = (Ok {i. \<exists>x. (i, x) \<in> set list \<and> Extent_doesIntersect e x}, s')"
    and list: "select_data key ?db = Ok list"
    and s': "cache_agrees data_cache select_data s'" "unchanged s s'"
    unfolding DataCache_getIdentifiers_def DataCache_addIdentifiers_def by blast
  moreover have "{i. \<exists>x. (i, x) \<in> set list \<and> Extent_doesIntersect e x}
      = da_id ` {row \<in> set (rows_for key ?db). Extent_doesIntersect e (extent_of row)}"
    using list by (force simp: select_data_ok [OF assms(2)] with_extents_def)
  ultimately show ?thesis by auto
qed

text \<open>Adding the blob whose row has just been inserted: the cache lacks at most this one.\<close>

lemma addIdentifier_ok:
  assumes ok: "data_ok (stored (the_session s))" and c: "et_ok (data_cache s)"
    and row: "row \<in> set (rows_for key (stored (the_session s)))"
    and lacks: "\<And>k. entries (data_cache s) k = [] \<or>
      (if k = key then insert (da_id row, extent_of row) (set (entries (data_cache s) k))
         else set (entries (data_cache s) k)) = set (with_extents (rows_for k (stored (the_session s))))"
  shows "\<exists>s'. DataCache_addIdentifier key (extent_of row) (da_id row) s = (Ok (), s') \<and>
    unchanged s s' \<and> cache_agrees data_cache select_data s'"
proof -
  let ?db = "stored (the_session s)" and ?x = "(da_id row, extent_of row)"
  from getExtents_ok [OF c, of key] obtain c1 where
    get: "getExtents key (data_cache s) = Ok (group_of (data_cache s) key, c1)"
    and c1: "et_ok c1" "group_of c1 = group_of (data_cache s)" "objects_of c1 = objects_of (data_cache s)"
    by blast
  define s1 where "s1 = s\<lparr>data_cache := c1\<rparr>"
  have ent1: "entries c1 = entries (data_cache s)" by (simp add: entries_def fun_eq_iff c1)
  have s1: "data_cache s1 = c1" "the_session s1 = the_session s" "calls s1 = calls s"
    by (simp_all add: s1_def)
  have empty: "dm_extents (group_of (data_cache s) key) = [] \<longleftrightarrow> entries c1 key = []"
    using entries_empty [OF c, of key] unfolding ent1 by simp
  have mem: "?x \<in> set (with_extents (rows_for key ?db))" using row by (simp add: with_extents_def)
  obtain s2 xs where
    load: "(if dm_extents (group_of (data_cache s) key) = [] then DataCache_addIdentifiers key else ret ()) s1
      = (Ok (), s2)"
    and s2: "unchanged s1 s2" "et_ok (data_cache s2)"
      "entries (data_cache s2) = (entries c1)(key := xs)"
    and xs: "insert ?x (set xs) = set (with_extents (rows_for key ?db))"
  proof (cases "entries c1 key = []")
    case True
    have "data_ok (stored (the_session s1))" "et_ok (data_cache s1)" "entries (data_cache s1) key = []"
      using ok c1(1) True by (simp_all add: s1)
    from data_cached.load_ok [OF this] obtain s2 list where
      "load_cache data_cache data_cache_update (select_data key) key s1 = (Ok (), s2)" "unchanged s1 s2"
      "et_ok (data_cache s2)" "select_data key ?db = Ok list"
      "entries (data_cache s2) = (entries c1)(key := list)"
      unfolding s1 by blast
    then show ?thesis
      using mem by (intro that [of s2 list])
        (auto simp: empty True DataCache_addIdentifiers_def select_data_ok [OF ok])
  next
    case False
    then have "insert ?x (set (entries c1 key)) = set (with_extents (rows_for key ?db))"
      using lacks [of key] unfolding ent1 by simp
    with False c1(1) show ?thesis
      by (intro that [of s1 "entries c1 key"]) (simp_all add: empty ret_def s1 unchanged_def fun_eq_iff)
  qed
  have same: "stored (the_session s2) = ?db" using s2(1) s1(2) by (simp add: unchanged_def)
  from data_cached.add_extents_ok [OF s2(2), of key "[(da_id row, extent_of row)]"] obtain s3 where
    add: "add_extents data_cache data_cache_update key [(da_id row, extent_of row)] s2 = (Ok (), s3)"
    and s3: "et_ok (data_cache s3)" "the_session s3 = the_session s2" "calls s3 = calls s2"
      "entries (data_cache s3)
        = (entries (data_cache s2))(key := entries (data_cache s2) key @ [(da_id row, extent_of row)])"
    by (elim exE conjE) (rule that)
  have "DataCache_addIdentifier key (extent_of row) (da_id row) s = (Ok (), s3)"
    using load add by (simp add: DataCache_addIdentifier_def andthen_def cache_call_def get s1_def)
  moreover have "unchanged s s3" using s2(1) s1(2,3) s3(2,3) by (simp add: unchanged_def)
  moreover have "cache_agrees data_cache select_data s3"
    unfolding cache_agrees_def
  proof (intro conjI allI)
    fix k
    show "entries (data_cache s3) k = [] \<or> (\<exists>list. select_data k (stored (the_session s3)) = Ok list \<and>
        set (entries (data_cache s3) k) = set list)"
    proof (cases "k = key")
      case True
      then show ?thesis using xs by (simp add: s3 s2(3) same select_data_ok [OF ok])
    next
      case False
      then show ?thesis using lacks [of k] by (simp add: s3 s2(3) same ent1 select_data_ok [OF ok])
    qed
  qed (rule s3(1))
  ultimately show ?thesis by blast
qed

section \<open>What storing a blob does to the tables\<close>

definition accept_blob ::
  "header xdr_decoder \<Rightarrow> (string \<Rightarrow> string) \<Rightarrow> tables \<Rightarrow> byte list \<Rightarrow> tables" where
  "accept_blob decode canonical db blob =
     (case decode blob of None \<Rightarrow> db
      | Some (header, n) \<Rightarrow>
          if ignore_data canonical header db then db
          else insert_data (data_row header (find_thread canonical header db) (drop n blob) db) db)"

definition data_agrees :: "framework \<Rightarrow> bool" where
  "data_agrees s \<longleftrightarrow> data_ok (stored (the_session s)) \<and> cache_agrees data_cache select_data s"

lemma data_agrees_iff:
  "data_agrees s \<longleftrightarrow> data_ok (stored (the_session s)) \<and> et_ok (data_cache s) \<and>
     (\<forall>k. entries (data_cache s) k = [] \<or>
        set (entries (data_cache s) k) = set (with_extents (rows_for k (stored (the_session s)))))"
  by (auto simp: data_agrees_def cache_agrees_def select_data_ok simp del: split_paired_All)

lemma on_session_query: "on_session (query q) s = (Ok (q (stored (the_session s))), s)"
  by (simp add: on_session_def query_def)

lemma on_session_update:
  "on_session (update_tables f) s
    = (Ok (), s\<lparr>the_session := (the_session s)\<lparr>stored := f (stored (the_session s))\<rparr>\<rparr>)"
  by (simp add: on_session_def update_tables_def)

lemma data_agrees_cong:
  assumes "stored (the_session s') = stored (the_session s)" and "data_cache s' = data_cache s"
  shows "data_agrees s' = data_agrees s"
  using assms by (simp add: data_agrees_def cache_agrees_def)

lemma data_ok_insert:
  assumes "data_ok db" and "\<not> ignore_data canonical header db"
  shows "data_ok (insert_data (data_row header thread bytes db) db)"
    and "proper_row (data_row header thread bytes db)"
proof -
  show "proper_row (data_row header thread bytes db)"
    using assms(2) by (simp add: proper_row_def data_row_def ignore_data_def not_le)
  moreover have "da_id row < da_id (data_row header thread bytes db)" if "row \<in> set (Data db)" for row
    using new_id_greater [of "da_id row" "map da_id (Data db)"] that by (simp add: data_row_def)
  ultimately show "data_ok (insert_data (data_row header thread bytes db) db)"
    using assms(1) by (simp add: data_ok_def insert_data_def sorted_wrt_append)
qed

lemma rows_for_insert:
  "rows_for key (insert_data row db)
    = rows_for key db @ (if key = (da_collector row, da_thread row) then [row] else [])"
  by (auto simp: rows_for_def insert_data_def)

lemma image_snoc_if:
  "f ` {x \<in> set (xs @ (if c then [r] else [])). P x}
    = (if c \<and> P r then insert (f r) else id) (f ` {x \<in> set xs. P x})"
  by auto

lemma store_ok:
  assumes dec: "decode blob = Some (header, n)" and s: "data_agrees s"
  shows "\<exists>s'. storePerformanceData decode canonical blob s = (Ok (), s') \<and> balanced s s' \<and>
    calls s' = calls s \<and> data_agrees s' \<and>
    stored (the_session s') = accept_blob decode canonical (stored (the_session s)) blob"
proof -
  let ?db = "stored (the_session s)" and ?s = "at_session (Begin True) s"
  let ?thread = "find_thread canonical header ?db"
  let ?row = "data_row header ?thread (drop n blob) ?db"
  have db: "stored (the_session ?s) = ?db" by simp
  have begun: "data_agrees ?s" using s by (simp add: data_agrees_cong [of ?s s])
  show ?thesis
  proof (cases "ignore_data canonical header ?db")
    case True
    then have "store_body decode canonical blob ?s = (Ok (), ?s)"
      by (simp add: store_body_def andthen_def lift_res_def Blob_getXDRDecoding_def dec on_session_query ret_def)
    note t = transaction_on_Ok [of "store_body decode canonical blob", OF this balanced_refl,
        folded storePerformanceData_def]
    have "data_agrees (at_session Commit ?s)"
      using begun t(2) by (simp add: data_agrees_cong [of "at_session Commit ?s" ?s])
    with t True show ?thesis
      by (intro exI [of _ "at_session Commit ?s"]) (simp add: accept_blob_def dec)
  next
    case False
    define s1 where "s1 = ?s\<lparr>the_session := (the_session ?s)\<lparr>stored := insert_data ?row ?db\<rparr>\<rparr>"
    have s1: "stored (the_session s1) = insert_data ?row ?db" "data_cache s1 = data_cache s"
      "calls s1 = calls s" "balanced ?s s1"
      by (simp_all add: s1_def balanced_def)
    note ins = data_ok_insert [OF _ False, of ?thread "drop n blob"]
    have ok: "data_ok (stored (the_session s1))" and proper: "proper_row ?row"
      using ins s by (simp_all add: data_agrees_def s1)
    have c: "et_ok (data_cache s1)" using s by (simp add: data_agrees_def cache_agrees_def s1)
    have rows: "rows_for k (stored (the_session s1))
        = rows_for k ?db @ (if k = (hd_collector header, ?thread) then [?row] else [])" for k
      by (simp add: s1 rows_for_insert) (simp add: data_row_def)
    have cached: "entries (data_cache s) k = [] \<or>
        set (entries (data_cache s) k) = set (with_extents (rows_for k ?db))" for k
      using s unfolding data_agrees_iff by blast
    have "?row \<in> set (rows_for (hd_collector header, ?thread) (stored (the_session s1)))"
      by (simp add: rows)
    moreover have "entries (data_cache s1) k = [] \<or>
        (if k = (hd_collector header, ?thread)
         then insert (da_id ?row, extent_of ?row) (set (entries (data_cache s1) k))
         else set (entries (data_cache s1) k))
        = set (with_extents (rows_for k (stored (the_session s1))))" for k
      using cached [of k] unfolding rows s1(2) by (auto simp: with_extents_def)
    ultimately obtain s2 where
      add: "DataCache_addIdentifier (hd_collector header, ?thread) (extent_of ?row) (da_id ?row) s1 = (Ok (), s2)"
      and s2: "unchanged s1 s2" "cache_agrees data_cache select_data s2"
      using addIdentifier_ok [OF ok c] by blast
    have "store_body decode canonical blob ?s = (Ok (), s2)"
      using False add by (simp add: store_body_def andthen_def lift_res_def Blob_getXDRDecoding_def dec on_session_query
          on_session_update row_extent_ok [OF proper] s1_def)
    moreover have "balanced ?s s2" using s1(4) s2(1) by (auto simp: unchanged_iff intro: balanced_trans)
    ultimately have t: "storePerformanceData decode canonical blob s = (Ok (), at_session Commit s2)"
      "stored (the_session (at_session Commit s2)) = stored (the_session s2)"
      "balanced s (at_session Commit s2)"
      unfolding storePerformanceData_def by (simp_all only: transaction_on_Ok)
    have db2: "stored (the_session s2) = insert_data ?row ?db" using s2(1) s1(1) by (simp add: unchanged_def)
    have "data_agrees (at_session Commit s2)"
      using ok s2(2) t(2) by (simp add: data_agrees_cong [of "at_session Commit s2" s2])
        (simp add: data_agrees_def db2 s1(1))
    moreover have "calls s2 = calls s" using s2(1) s1(3) by (simp add: unchanged_def)
    ultimately show ?thesis
      using t db2 False by (intro exI [of _ "at_session Commit s2"]) (simp add: accept_blob_def dec)
  qed
qed

section \<open>What a collector reads\<close>

lemma getBounds_ok:
  assumes "group_ok g"
  obtains b g' where "ExtentGroup_getBounds g = (b, g')" and "dm_extents g' = dm_extents g"
    and "\<And>e. e \<in> set (dm_extents g) \<Longrightarrow> extent_points e \<subseteq> extent_points b"
proof (cases "dm_extents g = []")
  case True
  then show ?thesis by (intro that [of Extent_default g]) (simp_all add: ExtentGroup_getBounds_def)
next
  case False
  let ?g = "ExtentGroup_initializeTree g"
  from assms have "tree_ok g" by (simp add: group_ok_def)
  note init = initializeTree_ok [OF this False]
  from init(1) have all: "members ?g 0 = {..<length (dm_extents ?g)}" "0 < dm_next ?g"
    and cover: "kd_cover ?g"
    by (simp_all add: kd_inv_def kd_shape_def)
  have "extent_points e \<subseteq> extent_points (dm_bounds (node ?g 0))" if "e \<in> set (dm_extents g)" for e
    using that all cover unfolding kd_cover_def init(2) in_set_conv_nth by blast
  with False init(2) show ?thesis
    by (intro that [of "dm_bounds (node ?g 0)" ?g]) (simp_all add: ExtentGroup_getBounds_def Let_def)
qed

lemma covers_intersect:
  "extent_points x \<subseteq> extent_points b \<Longrightarrow> Extent_doesIntersect x e \<Longrightarrow> Extent_doesIntersect b e"
  unfolding Extent_doesIntersect_iff by blast

lemma getBounds_group: "group_ok g \<Longrightarrow> group_ok (snd (ExtentGroup_getBounds g))"
  using initializeTree_ok [of g] kd_map(1) [of "ExtentGroup_initializeTree g"]
  by (auto simp: ExtentGroup_getBounds_def Let_def group_ok_def tree_ok_def kd_inv_def)

lemma filter_unique: "distinct (map f xs) \<Longrightarrow> x \<in> set xs \<Longrightarrow> filter (\<lambda>y. f y = f x) xs = [x]"
  by (induction xs) (auto simp: filter_empty_conv image_iff)

lemma row_of_id:
  assumes "data_ok db" and "row \<in> set (Data db)"
  shows "filter (\<lambda>r. da_id r = da_id row) (Data db) = [row]"
  using assms by (intro filter_unique) (simp_all add: data_ok_def strict_sorted_iff)

lemma sorted_ids:
  assumes "data_ok db"
  shows "sorted_list_of_set (da_id ` {row \<in> set (rows_for key db). P row})
    = map da_id (filter P (rows_for key db))"
proof -
  have "sorted_wrt (<) (map da_id (filter Q (Data db)))" for Q
    using assms by (simp add: data_ok_def sorted_wrt_map sorted_wrt_filter)
  then have "sorted_wrt (<) (map da_id (filter P (rows_for key db)))"
    by (simp add: rows_for_def)
  then have order: "sorted (map da_id (filter P (rows_for key db)))"
    "distinct (map da_id (filter P (rows_for key db)))"
    by (simp_all only: strict_sorted_iff)
  have "da_id ` {row \<in> set (rows_for key db). P row}
      = set (map da_id (filter P (rows_for key db)))" by simp
  then show ?thesis by (simp only: sorted_list_of_set.idem_if_sorted_distinct [OF order])
qed

text \<open>Reading the blobs one after the other.\<close>

lemma metric_values_of:
  assumes "data_ok (stored (the_session s))" and "set rows \<subseteq> set (Data (stored (the_session s)))"
  shows "fst (for_each (map da_id rows) (\<lambda>v i. Collector_getMetricValuesOf plugin g i v) v s)
    = fold_res (metric_of_row plugin g) rows v"
  using assms
proof (induction rows arbitrary: v s)
  case Nil
  then show ?case by (simp add: ret_def)
next
  case (Cons row rows)
  let ?q = "\<lambda>db. fold_res (metric_of_row plugin g) (filter (\<lambda>r. da_id r = da_id row) (Data db)) v"
  have q: "?q (stored (the_session s)) = metric_of_row plugin g v row"
    using row_of_id [OF Cons.prems(1), of row] Cons.prems(2)
    by (simp add: bind_res_def split: res.splits)
  show ?case
  proof (cases "metric_of_row plugin g v row")
    case (Ok x)
    with q reading_unchanged [of ?q s x] obtain t where
      "on_session (reading ?q) s = (Ok x, s\<lparr>the_session := t\<rparr>)"
      "unchanged s (s\<lparr>the_session := t\<rparr>)" by auto
    with Ok Cons.IH [of "s\<lparr>the_session := t\<rparr>" x] Cons.prems show ?thesis
      by (simp add: andthen_def Collector_getMetricValuesOf_def unchanged_def)
  next
    case (Throw e)
    then show ?thesis
      using q reading_fst [of ?q "the_session s"]
      by (auto simp: andthen_def Collector_getMetricValuesOf_def on_session_def split: prod.splits)
  next
    case Abort
    then show ?thesis
      using q reading_fst [of ?q "the_session s"]
      by (auto simp: andthen_def Collector_getMetricValuesOf_def on_session_def split: prod.splits)
  next
    case Blocked
    then show ?thesis
      using q reading_fst [of ?q "the_session s"]
      by (auto simp: andthen_def Collector_getMetricValuesOf_def on_session_def split: prod.splits)
  qed
qed

text \<open>A plugin works on values that fit, and passes over a blob that none of the extents intersects.\<close>

definition passes_over :: "'v metric \<Rightarrow> ('v \<Rightarrow> bool) \<Rightarrow> ExtentGroup \<Rightarrow> DataRow list \<Rightarrow> bool" where
  "passes_over plugin fits g rows \<longleftrightarrow> (\<forall>row \<in> set rows. \<forall>v. fits v \<longrightarrow>
     (\<forall>v'. plugin (extent_of row) (da_blob row) g v = Ok v' \<longrightarrow> fits v') \<and>
     ((\<forall>x \<in> set (dm_extents g). \<not> Extent_doesIntersect x (extent_of row)) \<longrightarrow>
        plugin (extent_of row) (da_blob row) g v = Ok v))"

lemma read_all:
  assumes "passes_over plugin fits g rows" and "list_all proper_row rows" and "fits v"
    and "\<And>x row. x \<in> set (dm_extents g) \<Longrightarrow> Extent_doesIntersect x (extent_of row) \<Longrightarrow> hit row"
  shows "fold_res (metric_of_row plugin g) (filter hit rows) v = fold_res (metric_of_row plugin g) rows v"
  using assms(1-3)
proof (induction rows arbitrary: v)
  case (Cons row rows)
  have rest: "passes_over plugin fits g rows" "list_all proper_row rows"
    using Cons.prems(1) unfolding passes_over_def by (meson list.set_intros(2)) (use Cons.prems(2) in simp)
  have here: "fits v' \<Longrightarrow> plugin (extent_of row) (da_blob row) g v' = Ok v'' \<Longrightarrow> fits v''"
    "fits v' \<Longrightarrow> \<forall>x \<in> set (dm_extents g). \<not> Extent_doesIntersect x (extent_of row) \<Longrightarrow>
      plugin (extent_of row) (da_blob row) g v' = Ok v'" for v' v''
    using Cons.prems(1) unfolding passes_over_def by (meson list.set_intros(1))+
  have step: "metric_of_row plugin g v row = plugin (extent_of row) (da_blob row) g v"
    using Cons.prems(2) by (simp add: metric_of_row_def row_extent_ok)
  show ?case
  proof (cases "hit row")
    case True
    show ?thesis
    proof (cases "metric_of_row plugin g v row")
      case (Ok v')
      then have "fits v'" using here(1) [OF Cons.prems(3)] step by simp
      with Cons.IH [OF rest] True Ok show ?thesis by simp
    qed (use True in simp_all)
  next
    case False
    then have "metric_of_row plugin g v row = Ok v"
      using here(2) [OF Cons.prems(3)] assms(4) step by auto
    with Cons.IH [OF rest Cons.prems(3)] False show ?thesis by simp
  qed
qed simp

lemma metric_values_ok:
  assumes "nth_element_contract ne" and s: "data_agrees s" and g: "group_ok g"
  shows "fst (Collector_getMetricValues ne plugin self thread g v s)
    = fold_res (metric_of_row plugin (snd (ExtentGroup_getBounds g)))
        (filter (\<lambda>row. Extent_doesIntersect (fst (ExtentGroup_getBounds g)) (extent_of row))
          (rows_for (self, thread) (stored (the_session s)))) v"
proof -
  let ?s = "at_session (Begin False) s" and ?db = "stored (the_session s)"
  let ?key = "(self, thread)"
  obtain b g' where b: "ExtentGroup_getBounds g = (b, g')" by fastforce
  let ?hit = "\<lambda>row. Extent_doesIntersect b (extent_of row)"
  have begun: "data_agrees ?s" using s by (simp add: data_agrees_cong [of ?s s])
  then have ok: "data_ok ?db" by (simp add: data_agrees_def)
  from getIdentifiers_ok [OF assms(1), of ?s ?key b] begun obtain t where
    ids: "DataCache_getIdentifiers ne ?key b ?s
      = (Ok (da_id ` {row \<in> set (rows_for ?key ?db). ?hit row}), t)" and t: "unchanged ?s t"
    unfolding data_agrees_def by auto
  have db: "stored (the_session t) = ?db" using t by (simp add: unchanged_def)
  have "fst (Collector_getMetricValues ne plugin self thread g v s)
      = fst (for_each (map da_id (filter ?hit (rows_for ?key ?db)))
          (\<lambda>v i. Collector_getMetricValuesOf plugin g' i v) v t)"
    by (simp add: Collector_getMetricValues_def transaction_on_def Collector_getIdentifiers_def b
        andthen_def ids ret_def sorted_ids [OF ok] split: prod.splits res.splits)
  also have "\<dots> = fold_res (metric_of_row plugin g') (filter ?hit (rows_for ?key ?db)) v"
    by (rule metric_values_of) (auto simp: db ok rows_for_def)
  finally show ?thesis by (simp add: b)
qed

section \<open>Properties\<close>

text \<open>A thread and a collector without data, and a header that names them.\<close>

definition sample_thread :: ThreadRow where
  "sample_thread = \<lparr>thread_id = 1, command = None, host = ''node'', pid = Some 7, posix_tid = None,
     openmp_tid = None, mpi_rank = None, mpi_impl = None\<rparr>"

definition sample_run :: framework where
  "sample_run = empty_framework \<lparr>stored = no_tables\<lparr>Threads := [sample_thread],
     Collectors := [CollectorRow 1 ''pcsamp'' None]\<rparr>, saved = no_tables, nesting = (0, False)\<rparr>"

definition sample_header :: header where
  "sample_header = \<lparr>hd_experiment = 0, hd_collector = 1, hd_host = ''node'', hd_pid = 7,
     hd_posix_tid = 3, hd_time_begin = 10, hd_time_end = 20, hd_addr_begin = 100, hd_addr_end = 200\<rparr>"

definition sample_decode :: "header xdr_decoder" where
  "sample_decode bytes = (case bytes of [] \<Rightarrow> None | _ # _ \<Rightarrow> Some (sample_header, 1))"

lemma sample_run_simps:
  "the_session sample_run = \<lparr>stored = no_tables\<lparr>Threads := [sample_thread],
     Collectors := [CollectorRow 1 ''pcsamp'' None]\<rparr>, saved = no_tables, nesting = (0, False)\<rparr>"
  "data_cache sample_run = ExtentTable_make"
  "calls sample_run = []"
  by (simp_all add: sample_run_def empty_framework_def)

lemma data_agrees_empty:
  assumes "Data (stored (the_session s)) = []" and "data_cache s = ExtentTable_make"
  shows "data_agrees s"
  using assms
  by (simp add: data_agrees_iff data_ok_def et_ok_make)
    (simp add: entries_def objects_of_def ExtentTable_make_def)

lemma sample_agrees: "data_agrees sample_run"
  by (rule data_agrees_empty) (simp_all add: sample_run_simps no_tables_def)

lemma sample_thread_found: "find_thread id sample_header (stored (the_session sample_run)) = 1"
  by (simp add: find_thread_def sample_run_simps sample_thread_def sample_header_def to_int_def
      last_thread_def)

lemma sample_accepted: "\<not> ignore_data id sample_header (stored (the_session sample_run))"
  by (simp add: ignore_data_def sample_thread_found)
    (simp add: sample_header_def sample_run_simps no_tables_def)

text \<open>C20: a blob that names a collector and a thread of the database and valid ranges is stored without
  its header as the last row of the data; from then on a query of the cache returns it exactly for the
  extents that intersect the ranges of its header, and every other query returns what it returned
  before.\<close>

theorem stored_data_is_found:
  assumes "nth_element_contract ne" and "decode blob = Some (header, n)" and "data_agrees s"
    and "\<not> ignore_data canonical header (stored (the_session s))"
  shows "\<exists>s' row. storePerformanceData decode canonical blob s = (Ok (), s') \<and> data_agrees s' \<and>
    stored (the_session s') = insert_data row (stored (the_session s)) \<and> da_blob row = drop n blob \<and>
    (\<forall>key e. \<exists>ids. fst (DataCache_getIdentifiers ne key e s) = Ok ids \<and> da_id row \<notin> ids \<and>
       fst (DataCache_getIdentifiers ne key e s') = Ok (if
           key = (hd_collector header, find_thread canonical header (stored (the_session s))) \<and>
           Extent_doesIntersect e (Extent (Interval (hd_time_begin header) (hd_time_end header))
             (Interval (hd_addr_begin header) (hd_addr_end header)))
         then insert (da_id row) ids else ids))"
proof -
  let ?db = "stored (the_session s)"
  let ?row = "data_row header (find_thread canonical header ?db) (drop n blob) ?db"
  from store_ok [where decode = decode and canonical = canonical, OF assms(2,3)] obtain s' where
    run: "storePerformanceData decode canonical blob s = (Ok (), s')" and s': "data_agrees s'"
    and db: "stored (the_session s') = insert_data ?row ?db"
    using assms(2,4) by (auto simp: accept_blob_def)
  have get: "fst (DataCache_getIdentifiers ne key e t) = Ok (da_id ` {row \<in> set (rows_for key
      (stored (the_session t))). Extent_doesIntersect e (extent_of row)})" if "data_agrees t" for key e t
    using getIdentifiers_ok [OF assms(1), of t key e] that by (auto simp: data_agrees_def)
  have "da_id ?row \<notin> da_id ` set (rows_for key ?db)" for key
    using new_id_fresh [of "map da_id (Data ?db)"] by (auto simp: data_row_def rows_for_def)
  moreover have "da_id ` {row \<in> set (rows_for key (insert_data ?row ?db)). Extent_doesIntersect e (extent_of row)}
      = (if key = (hd_collector header, find_thread canonical header ?db) \<and>
           Extent_doesIntersect e (Extent (Interval (hd_time_begin header) (hd_time_end header))
             (Interval (hd_addr_begin header) (hd_addr_end header)))
         then insert (da_id ?row) else id)
        (da_id ` {row \<in> set (rows_for key ?db). Extent_doesIntersect e (extent_of row)})" for key e
    unfolding rows_for_insert image_snoc_if by (simp add: data_row_def extent_of_def)
  ultimately have "\<exists>ids. fst (DataCache_getIdentifiers ne key e s) = Ok ids \<and> da_id ?row \<notin> ids \<and>
       fst (DataCache_getIdentifiers ne key e s') = Ok (if
           key = (hd_collector header, find_thread canonical header ?db) \<and>
           Extent_doesIntersect e (Extent (Interval (hd_time_begin header) (hd_time_end header))
             (Interval (hd_addr_begin header) (hd_addr_end header)))
         then insert (da_id ?row) ids else ids)" for key e
    unfolding get [OF assms(3)] get [OF s'] db
    by (simp del: split_paired_Ex) blast
  with run s' db show ?thesis by (intro exI [of _ s'] exI [of _ ?row]) (simp add: data_row_def)
qed

lemma stored_data_is_found_witness:
  "\<exists>s'. storePerformanceData sample_decode id [1, 2, 3] sample_run = (Ok (), s') \<and> data_agrees s' \<and>
     map da_blob (Data (stored (the_session s'))) = [[2, 3]]"
proof -
  have "sample_decode [1, 2, 3] = Some (sample_header, 1)" by (simp add: sample_decode_def)
  from stored_data_is_found [where decode = sample_decode, OF sorting_nth_element_contract this
      sample_agrees sample_accepted]
  show ?thesis by (auto simp: insert_data_def sample_run_simps no_tables_def)
qed

text \<open>C21: the metric values of a collector in a thread are what its plugin makes, in the order in which they
  were stored, of the blobs of the two whose extents intersect the bounds of the extents asked for. If
  the plugin leaves values as they are for those stored blobs of the two that intersect none of the
  extents asked for, as the hardware counter collector does for blobs that contain their samples, this
  is what it would make of all stored blobs of the two.\<close>

theorem getMetricValues_complete:
  assumes "nth_element_contract ne" and "data_agrees s" and "group_ok g"
    and "g' = snd (ExtentGroup_getBounds g)" and "rows = rows_for (self, thread) (stored (the_session s))"
  shows "fst (Collector_getMetricValues ne plugin self thread g v s)
      = fold_res (metric_of_row plugin g')
          (filter (\<lambda>row. Extent_doesIntersect (fst (ExtentGroup_getBounds g)) (extent_of row)) rows) v
    \<and> (passes_over plugin fits g' rows \<and> fits v \<longrightarrow>
        fst (Collector_getMetricValues ne plugin self thread g v s)
          = fold_res (metric_of_row plugin g') rows v)"
proof -
  obtain b where b: "ExtentGroup_getBounds g = (b, g')" and same: "dm_extents g' = dm_extents g"
    and cover: "\<And>e. e \<in> set (dm_extents g) \<Longrightarrow> extent_points e \<subseteq> extent_points b"
    using getBounds_ok [OF assms(3)] assms(4) by (metis snd_conv)
  have "data_ok (stored (the_session s))" using assms(2) by (simp add: data_agrees_def)
  then have "list_all proper_row rows"
    unfolding assms(5) by (auto simp: rows_for_def list_all_iff dest: proper_rows)
  moreover have "Extent_doesIntersect b (extent_of row)"
    if "x \<in> set (dm_extents g')" "Extent_doesIntersect x (extent_of row)" for x row
    using covers_intersect [OF cover that(2)] that(1) same by simp
  ultimately show ?thesis
    using metric_values_ok [OF assms(1-3), of plugin self thread v]
      read_all [of plugin fits g' rows v "\<lambda>row. Extent_doesIntersect b (extent_of row)"]
    by (simp add: b assms(5))
qed

text \<open>The hardware counter collector, with a decoder of three bytes: the first is the interval, the others
  are two samples, one hit each.\<close>

definition sample_hwc :: "hwc_data xdr_decoder" where
  "sample_hwc bytes = (case bytes of
       [i, a, b] \<Rightarrow> Some (\<lparr>hwc_interval = ucast i, hwc_pc = [ucast a, ucast b], hwc_count = [1, 1]\<rparr>, 3)
     | _ \<Rightarrow> None)"

lemma hwc_passes_over:
  assumes "nth_element_contract ne" and "tree_ok g"
    and "\<And>row. row \<in> set rows \<Longrightarrow> hwc_blob_ok decode (extent_of row) (da_blob row) \<and>
      samples_inside decode (extent_of row) (da_blob row)"
  shows "passes_over (HWCCollector_getMetricValues ne decode ''overflows'')
    (\<lambda>v. length v = length (dm_extents g)) g rows"
proof -
  have "HWCCollector_getMetricValues ne decode ''overflows'' (extent_of row) (da_blob row) g v
      = Ok (map (\<lambda>j. v ! j + hwc_contribution decode (extent_of row) (da_blob row) (dm_extents g ! j)) [0..<length v])"
    and "(\<forall>x \<in> set (dm_extents g). \<not> Extent_doesIntersect x (extent_of row)) \<Longrightarrow>
      map (\<lambda>j. v ! j + hwc_contribution decode (extent_of row) (da_blob row) (dm_extents g ! j)) [0..<length v] = v"
    if "row \<in> set rows" and "length v = length (dm_extents g)" for row v
    using HWCCollector_ok [OF assms(1) conjunct1 [OF assms(3) [OF that(1)]] assms(2) that(2)]
      hwc_contribution_zero [OF conjunct2 [OF assms(3) [OF that(1)]]] that(2)
    by (auto intro!: nth_equalityI)
  then show ?thesis by (auto simp: passes_over_def)
qed

definition counted_tables :: "nat \<Rightarrow> tables" where
  "counted_tables limit = no_tables\<lparr>Data := [
     \<lparr>da_id = 1, da_collector = 1, da_thread = 1, da_time_begin = 0, da_time_end = 10,
       da_addr_begin = 100, da_addr_end = of_nat limit, da_blob = [7, 100, 120]\<rparr>]\<rparr>"

definition counted_run :: "nat \<Rightarrow> framework" where
  "counted_run limit = empty_framework
     \<lparr>stored = counted_tables limit, saved = counted_tables limit, nesting = (0, True)\<rparr>"

definition counted_group :: "addr \<Rightarrow> ExtentGroup" where
  "counted_group a = ExtentGroup_push_back (Extent (Interval 0 15) (Interval a (a + 1))) ExtentGroup_empty"

lemma counted_agrees:
  assumes "100 < limit" and "limit < 1000"
  shows "data_agrees (counted_run limit)"
    and "rows_for (1, 1) (stored (the_session (counted_run limit))) = Data (counted_tables limit)"
proof -
  have "(100 :: addr) < of_nat limit"
    using assms by (simp add: word_less_nat_alt unat_of_nat)
  then show "data_agrees (counted_run limit)"
    by (simp add: data_agrees_iff data_ok_def counted_run_def counted_tables_def empty_framework_def
        et_ok_make proper_row_def)
      (simp add: entries_def objects_of_def ExtentTable_make_def)
  show "rows_for (1, 1) (stored (the_session (counted_run limit))) = Data (counted_tables limit)"
    by (simp add: rows_for_def counted_run_def counted_tables_def empty_framework_def)
qed

lemma counted_group_ok:
  "group_ok (counted_group a)" "tree_ok (snd (ExtentGroup_getBounds (counted_group a)))"
  "dm_extents (snd (ExtentGroup_getBounds (counted_group a))) = [Extent (Interval 0 15) (Interval a (a + 1))]"
proof -
  show ok: "group_ok (counted_group a)"
    unfolding counted_group_def by (intro group_ok_push group_ok_empty)
  then show "tree_ok (snd (ExtentGroup_getBounds (counted_group a)))"
    using getBounds_group by (simp add: group_ok_def)
  show "dm_extents (snd (ExtentGroup_getBounds (counted_group a))) = [Extent (Interval 0 15) (Interval a (a + 1))]"
    by (simp add: counted_group_def ExtentGroup_getBounds_def ExtentGroup_initializeTree_def Let_def
        ExtentGroup_push_back_def ExtentGroup_empty_def)
qed

abbreviation sample_overflows :: "64 word list metric" where
  "sample_overflows \<equiv> HWCCollector_getMetricValues sorting_nth_element sample_hwc ''overflows''"

lemma counted_evaluated:
  assumes "tree_ok g" and "dm_extents g = [Extent (Interval 0 15) (Interval 120 121)]"
  shows "fold_res (metric_of_row sample_overflows g) (Data (counted_tables 121)) [0] = Ok [7]"
proof -
  obtain row where row: "Data (counted_tables 121) = [row]" "proper_row row"
    by (simp add: counted_tables_def proper_row_def)
  have "hwc_blob_ok sample_hwc (extent_of (hd (Data (counted_tables 121)))) (da_blob (hd (Data (counted_tables 121))))"
    and "hwc_contribution sample_hwc (extent_of (hd (Data (counted_tables 121))))
      (da_blob (hd (Data (counted_tables 121)))) (Extent (Interval 0 15) (Interval 120 121)) = 7"
    by code_simp+
  with HWCCollector_ok [OF sorting_nth_element_contract _ assms(1), of sample_hwc "extent_of row" "da_blob row" "[0]"]
    row assms(2)
  show ?thesis by (simp add: metric_of_row_def row_extent_ok)
qed

lemma getMetricValues_complete_witness:
  "fst (Collector_getMetricValues sorting_nth_element sample_overflows 1 1 (counted_group 120) [0] (counted_run 121))
     = Ok [7]"
proof -
  let ?g = "snd (ExtentGroup_getBounds (counted_group 120))" and ?rows = "Data (counted_tables 121)"
  note group = counted_group_ok [of 120]
  have "\<forall>row \<in> set ?rows. hwc_blob_ok sample_hwc (extent_of row) (da_blob row) \<and>
      samples_inside sample_hwc (extent_of row) (da_blob row)" by code_simp
  then have "passes_over sample_overflows (\<lambda>v. length v = length (dm_extents ?g)) ?g ?rows"
    by (intro hwc_passes_over sorting_nth_element_contract group) blast
  with conjunct2 [OF getMetricValues_complete [OF sorting_nth_element_contract counted_agrees(1) group(1) refl
      counted_agrees(2) [symmetric], of 121 sample_overflows "[0]" "\<lambda>v. length v = length (dm_extents ?g)"]]
    counted_evaluated [OF group(2)] group(3)
  show ?thesis by simp
qed

text \<open>
  The runtime gives a blob the range from its lowest to its highest program counter, but the ranges of
  the framework exclude their end. A sample at the highest address is therefore not found by a query
  for the extents that contain only it, although the plugin would count it.
\<close>

lemma highest_sample_is_not_found:
  "fst (Collector_getMetricValues sorting_nth_element sample_overflows 1 1 (counted_group 120) [0] (counted_run 120))
     = Ok [0]"
  "fold_res (metric_of_row sample_overflows (counted_group 120)) (Data (counted_tables 120)) [0] = Ok [7]"
proof -
  have "filter (\<lambda>row. Extent_doesIntersect (fst (ExtentGroup_getBounds (counted_group 120))) (extent_of row))
      (Data (counted_tables 120)) = []" by code_simp
  with metric_values_ok [OF sorting_nth_element_contract counted_agrees(1) counted_group_ok(1),
      of 120 sample_overflows 1 1 120 "[0]"]
  show "fst (Collector_getMetricValues sorting_nth_element sample_overflows 1 1 (counted_group 120) [0]
      (counted_run 120)) = Ok [0]"
    by (simp add: counted_agrees(2))
  show "fold_res (metric_of_row sample_overflows (counted_group 120)) (Data (counted_tables 120)) [0] = Ok [7]"
    by code_simp
qed

end
