(* ===== verification/DataQueues.thy ===== *)
theory DataQueues
  imports PerformanceData Hoare
begin

text \<open>
  The queues of performance data (DataQueues.cxx): databases are registered under numbers, the blobs
  that arrive are queued under the number in their header, and flushing stores what is queued, each
  database in one transaction. A database is an address (zero is the null pointer) and stands for its
  session and caches. The lock of the registry is recursive; the model counts how often it is held,
  and a function that throws leaves it held.

  Whether a transaction can begin and whether the database accepts a row is up to SQLite, so it is a
  parameter (\<open>faults\<close>). The first result holds whatever the databases answer: the registry stays a
  bijection that never gives out a number twice, and the lock is free exactly as long as no function has
  thrown. The second is about databases that accept the rows: flushing ends with every queue empty and
  every queued blob stored in order of arrival.
\<close>

section \<open>State\<close>

record queues =
  next_identifier :: int
  database_to_identifier :: "(nat, int) stdmap"
  identifier_to_database :: "(int, nat) stdmap"
  identifier_to_queue :: "(int, byte list list) stdmap"
  lock_depth :: nat
  databases :: "nat \<Rightarrow> framework"

text \<open>The next number is an \<open>int\<close> of 32 bits; adding a database beyond the largest is not defined.\<close>

definition initial_queues :: "(nat \<Rightarrow> framework) \<Rightarrow> queues" where
  "initial_queues dbs = \<lparr>next_identifier = 0, database_to_identifier = [],
     identifier_to_database = [], identifier_to_queue = [], lock_depth = 0, databases = dbs\<rparr>"

text \<open>\<open>find\<close>, and the operator \<open>[]\<close> where the key is known to be present.\<close>

definition lookup :: "'k::linorder \<Rightarrow> ('k, 'v) stdmap \<Rightarrow> 'v option" where
  "lookup k m = map_option snd (map_find (<) k m)"

text \<open>The lock is released at the end of the function only: not if it throws.\<close>

definition exclusive :: "(queues, 'a) op \<Rightarrow> (queues, 'a) op" where
  "exclusive body s =
     (case body (s\<lparr>lock_depth := Suc (lock_depth s)\<rparr>) of
        (Ok x, s') \<Rightarrow> (Ok x, s'\<lparr>lock_depth := lock_depth s' - 1\<rparr>)
      | (Throw e, s') \<Rightarrow> (Throw e, s')
      | (Abort, s') \<Rightarrow> (Abort, s')
      | (Blocked, s') \<Rightarrow> (Blocked, s'))"

definition on_database :: "nat \<Rightarrow> (framework, 'a) op \<Rightarrow> (queues, 'a) op" where
  "on_database d m s =
     (case m (databases s d) of (r, f) \<Rightarrow> (r, s\<lparr>databases := (databases s)(d := f)\<rparr>))"

definition database_call :: "nat \<Rightarrow> db_call \<Rightarrow> queues \<Rightarrow> queues" where
  "database_call d c s = s\<lparr>databases := (databases s)(d := at_session c (databases s d))\<rparr>"

text \<open>
  What the database answers. Beginning a transaction fails if the file cannot be opened by this
  thread, or ends the program if it is locked (\<open>Database::beginTransaction\<close>); a statement of
  \<open>storePerformanceData\<close> may throw, for example \<open>DatabaseReadOnly\<close>, before a row is inserted.
\<close>

record faults =
  begin_fault :: "nat \<Rightarrow> framework \<Rightarrow> unit res"
  store_fault :: "nat \<Rightarrow> byte list \<Rightarrow> framework \<Rightarrow> unit res"

definition no_faults :: faults where
  "no_faults = \<lparr>begin_fault = \<lambda>_ _. Ok (), store_fault = \<lambda>_ _ _. Ok ()\<rparr>"

text \<open>If beginning throws, so does the rollback of the macro, for the same reason.\<close>

definition database_transaction :: "faults \<Rightarrow> nat \<Rightarrow> (queues, 'a) op \<Rightarrow> (queues, 'a) op" where
  "database_transaction faults d body s =
     (case begin_fault faults d (databases s d) of
        Throw e \<Rightarrow> (Throw e, s)
      | Abort \<Rightarrow> (Abort, s)
      | Blocked \<Rightarrow> (Blocked, s)
      | Ok _ \<Rightarrow>
          (case body (database_call d (Begin True) s) of
             (Ok x, s') \<Rightarrow> (Ok x, database_call d Commit s')
           | (Throw e, s') \<Rightarrow> (Throw e, database_call d Rollback s')
           | (Abort, s') \<Rightarrow> (Abort, s')
           | (Blocked, s') \<Rightarrow> (Blocked, s')))"

definition storing ::
  "faults \<Rightarrow> header xdr_decoder \<Rightarrow> (string \<Rightarrow> string) \<Rightarrow> nat \<Rightarrow> byte list \<Rightarrow> (framework, unit) op" where
  "storing faults decode canonical database blob f =
     (if store_fault faults database blob f = Ok () then storePerformanceData decode canonical blob f
      else (store_fault faults database blob f, at_session Rollback (at_session (Begin True) f)))"

lemma no_faults_simps [simp]:
  "begin_fault no_faults d f = Ok ()"
  "storing no_faults decode canonical d = storePerformanceData decode canonical"
  by (simp_all add: no_faults_def storing_def fun_eq_iff)

section \<open>Operations\<close>

definition DataQueues_addDatabase :: "nat \<Rightarrow> (queues, unit) op" where
  "DataQueues_addDatabase database =
     exclusive (
       andthen (assert_op (\<lambda>_. database \<noteq> 0)) (\<lambda>_.
       andthen (assert_op (\<lambda>s. lookup database (database_to_identifier s) = None)) (\<lambda>_.
       andthen (assert_op (\<lambda>s. next_identifier s < 2 ^ 31 - 1)) (\<lambda>_ s.
         (Ok (), s\<lparr>next_identifier := next_identifier s + 1,
            database_to_identifier :=
              map_insert (<) database (next_identifier s) (database_to_identifier s),
            identifier_to_database :=
              map_insert (<) (next_identifier s) database (identifier_to_database s),
            identifier_to_queue := map_insert (<) (next_identifier s) [] (identifier_to_queue s)\<rparr>)))))"



definition set_queue :: "int \<Rightarrow> byte list list \<Rightarrow> queues \<Rightarrow> queues" where
  "set_queue identifier queue s =
     s\<lparr>identifier_to_queue := map_modify (<) identifier (\<lambda>_. queue) (identifier_to_queue s)\<rparr>"

definition DataQueues_enqueuePerformanceData ::
  "header xdr_decoder \<Rightarrow> byte list \<Rightarrow> (queues, unit) op" where
  "DataQueues_enqueuePerformanceData decode blob =
     andthen (lift_res (Blob_getXDRDecoding decode no_header blob)) (\<lambda>(header, _).
       exclusive (\<lambda>s. (Ok (),
         case lookup (hd_experiment header) (identifier_to_queue s) of
           None \<Rightarrow> s
         | Some queue \<Rightarrow> set_queue (hd_experiment header) (queue @ [blob]) s)))"

text \<open>
  The loop over a queue: a blob is removed once it has been stored. Storing does not touch the
  queues, so the argument is what the deque holds.
\<close>

fun flush_queue ::
  "(byte list \<Rightarrow> (framework, unit) op) \<Rightarrow> nat \<Rightarrow> int \<Rightarrow> byte list list \<Rightarrow> (queues, unit) op" where
  "flush_queue store database identifier [] = ret ()"
| "flush_queue store database identifier (blob # queue) =
     andthen (on_database database (store blob)) (\<lambda>_.
     andthen (\<lambda>s. (Ok (), set_queue identifier queue s)) (\<lambda>_.
       flush_queue store database identifier queue))"

definition flush_nonempty ::
  "faults \<Rightarrow> (byte list \<Rightarrow> (framework, unit) op) \<Rightarrow> nat \<Rightarrow> int \<Rightarrow> byte list list \<Rightarrow> (queues, unit) op" where
  "flush_nonempty faults store database identifier queue =
     (if queue = [] then ret ()
      else database_transaction faults database (flush_queue store database identifier queue))"

text \<open>A missing entry would be a null pointer, whose use ends the program.\<close>

definition found_or_abort :: "'a option \<Rightarrow> 'a res" where
  "found_or_abort x = (case x of None \<Rightarrow> Abort | Some y \<Rightarrow> Ok y)"

definition DataQueues_flushDatabase ::
  "faults \<Rightarrow> header xdr_decoder \<Rightarrow> (string \<Rightarrow> string) \<Rightarrow> nat \<Rightarrow> (queues, unit) op" where
  "DataQueues_flushDatabase faults decode canonical database =
     exclusive (
       andthen (assert_op (\<lambda>_. database \<noteq> 0)) (\<lambda>_.
       andthen (assert_op (\<lambda>s. lookup database (database_to_identifier s) \<noteq> None)) (\<lambda>_.
       andthen (\<lambda>s. (found_or_abort (lookup database (database_to_identifier s)), s)) (\<lambda>identifier.
       andthen (\<lambda>s. (found_or_abort (lookup identifier (identifier_to_queue s)), s)) (\<lambda>queue.
         flush_nonempty faults (storing faults decode canonical database) database identifier queue)))))"

definition DataQueues_removeDatabase ::
  "faults \<Rightarrow> header xdr_decoder \<Rightarrow> (string \<Rightarrow> string) \<Rightarrow> nat \<Rightarrow> (queues, unit) op" where
  "DataQueues_removeDatabase faults decode canonical database =
     exclusive (
       andthen (assert_op (\<lambda>_. database \<noteq> 0)) (\<lambda>_.
       andthen (assert_op (\<lambda>s. lookup database (database_to_identifier s) \<noteq> None)) (\<lambda>_.
       andthen (DataQueues_flushDatabase faults decode canonical database) (\<lambda>_.
       andthen (\<lambda>s. (found_or_abort (lookup database (database_to_identifier s)), s)) (\<lambda>identifier s.
         (Ok (), s\<lparr>database_to_identifier := map_erase (<) database (database_to_identifier s),
            identifier_to_database := map_erase (<) identifier (identifier_to_database s),
            identifier_to_queue := map_erase (<) identifier (identifier_to_queue s)\<rparr>))))))"

text \<open>
  \<open>flushPerformanceData\<close> is meant to stop after a second. When the second is over the code has
  the comparison \<open>is_time_up == true\<close> where an assignment is meant, so the flag stays false and
  the clock has no influence.
\<close>

definition flush_entry ::
  "faults \<Rightarrow> header xdr_decoder \<Rightarrow> (string \<Rightarrow> string) \<Rightarrow> int \<Rightarrow> (queues, unit) op" where
  "flush_entry faults decode canonical identifier =
     andthen (\<lambda>s. (found_or_abort (lookup identifier (identifier_to_queue s)), s)) (\<lambda>queue.
       if queue = [] then ret ()
       else
         andthen (\<lambda>s. (found_or_abort (lookup identifier (identifier_to_database s)), s)) (\<lambda>database.
           flush_nonempty faults (storing faults decode canonical database) database identifier queue))"

definition DataQueues_flushPerformanceData ::
  "faults \<Rightarrow> header xdr_decoder \<Rightarrow> (string \<Rightarrow> string) \<Rightarrow> (queues, unit) op" where
  "DataQueues_flushPerformanceData faults decode canonical =
     exclusive (\<lambda>s.
       for_each (keys (identifier_to_queue s)) (\<lambda>_. flush_entry faults decode canonical) () s)"

section \<open>Reachable states\<close>

text \<open>What threads ask of the queues.\<close>

datatype request =
    AddDatabase nat
  | RemoveDatabase nat
  | EnqueuePerformanceData "byte list"
  | FlushDatabase nat
  | FlushPerformanceData

fun perform :: "faults \<Rightarrow> header xdr_decoder \<Rightarrow> (string \<Rightarrow> string) \<Rightarrow> request \<Rightarrow> (queues, unit) op" where
  "perform faults decode canonical (AddDatabase d) = DataQueues_addDatabase d"
| "perform faults decode canonical (RemoveDatabase d) = DataQueues_removeDatabase faults decode canonical d"
| "perform faults decode canonical (EnqueuePerformanceData b) = DataQueues_enqueuePerformanceData decode b"
| "perform faults decode canonical (FlushDatabase d) = DataQueues_flushDatabase faults decode canonical d"
| "perform faults decode canonical FlushPerformanceData = DataQueues_flushPerformanceData faults decode canonical"

text \<open>
  The states that arise, with the thread that still holds the lock, if any. A request is made by a
  thread that can take the lock: any thread if the lock is free, its holder otherwise; the others wait.
  A request that throws leaves the lock with its thread. The databases may answer differently each
  time, and change in any way between requests.
\<close>

definition may_lock :: "nat option \<Rightarrow> nat \<Rightarrow> bool" where
  "may_lock holder t \<longleftrightarrow> holder = None \<or> holder = Some t"

inductive reached_queues ::
  "header xdr_decoder \<Rightarrow> (string \<Rightarrow> string) \<Rightarrow> nat option \<Rightarrow> queues \<Rightarrow> bool"
  for decode canonical where
  first: "reached_queues decode canonical None (initial_queues dbs)"
| returned: "reached_queues decode canonical holder s \<Longrightarrow> may_lock holder t \<Longrightarrow>
    perform faults decode canonical rq s = (Ok (), s') \<Longrightarrow> reached_queues decode canonical holder s'"
| thrown: "reached_queues decode canonical holder s \<Longrightarrow> may_lock holder t \<Longrightarrow>
    perform faults decode canonical rq s = (Throw e, s') \<Longrightarrow> reached_queues decode canonical (Some t) s'"
| changed: "reached_queues decode canonical holder s \<Longrightarrow>
    reached_queues decode canonical holder (s\<lparr>databases := dbs\<rparr>)"

text \<open>Those that arise while the databases accept the rows and their caches agree with them.\<close>

inductive reachable_queues :: "header xdr_decoder \<Rightarrow> (string \<Rightarrow> string) \<Rightarrow> queues \<Rightarrow> bool"
  for decode canonical where
  start: "(\<And>d. data_agrees (dbs d)) \<Longrightarrow> reachable_queues decode canonical (initial_queues dbs)"
| request: "reachable_queues decode canonical s \<Longrightarrow> perform no_faults decode canonical rq s = (Ok (), s') \<Longrightarrow>
    reachable_queues decode canonical s'"
| elsewhere: "reachable_queues decode canonical s \<Longrightarrow> data_agrees f \<Longrightarrow>
    reachable_queues decode canonical (s\<lparr>databases := (databases s)(d := f)\<rparr>)"

section \<open>The registry\<close>

definition queue_of :: "queues \<Rightarrow> int \<Rightarrow> byte list list" where
  "queue_of s i = (case map_of (identifier_to_queue s) i of None \<Rightarrow> [] | Some q \<Rightarrow> q)"

definition registered :: "queues \<Rightarrow> nat \<Rightarrow> int option" where
  "registered s = map_of (database_to_identifier s)"

definition belongs :: "header xdr_decoder \<Rightarrow> int \<Rightarrow> byte list \<Rightarrow> bool" where
  "belongs decode i blob \<longleftrightarrow> (\<exists>header n. decode blob = Some (header, n) \<and> hd_experiment header = i)"

definition registry_shape :: "header xdr_decoder \<Rightarrow> queues \<Rightarrow> bool" where
  "registry_shape decode s \<longleftrightarrow>
     linear.ordered (keys (database_to_identifier s)) \<and>
     linear.ordered (keys (identifier_to_database s)) \<and>
     linear.ordered (keys (identifier_to_queue s)) \<and>
     (\<forall>d i. registered s d = Some i \<longleftrightarrow> map_of (identifier_to_database s) i = Some d) \<and>
     dom (map_of (identifier_to_queue s)) = dom (map_of (identifier_to_database s)) \<and>
     (\<forall>i \<in> dom (map_of (identifier_to_queue s)). 0 \<le> i \<and> i < next_identifier s) \<and>
     registered s 0 = None \<and> 0 \<le> next_identifier s \<and> next_identifier s < 2 ^ 31 \<and>
     (\<forall>i. \<forall>blob \<in> set (queue_of s i). belongs decode i blob)"

definition registry_ok :: "header xdr_decoder \<Rightarrow> queues \<Rightarrow> bool" where
  "registry_ok decode s \<longleftrightarrow> registry_shape decode s \<and> (\<forall>d. data_agrees (databases s d))"

lemma registry_okD [dest]: "registry_ok decode s \<Longrightarrow> registry_shape decode s"
  by (simp add: registry_ok_def)

lemma lookup_map_of: "linear.ordered (keys m) \<Longrightarrow> lookup k m = map_of m k"
  by (simp add: lookup_def linear_find option.map_comp comp_def option.map_ident)

lemma in_keys: "i \<in> set (keys m) \<longleftrightarrow> i \<in> dom (map_of m)"
  by (simp add: keys_def dom_map_of_conv_image_fst)

lemma exclusive_Ok:
  assumes "body (s\<lparr>lock_depth := Suc (lock_depth s)\<rparr>) = (Ok x, t)" and "lock_depth t = Suc (lock_depth s)"
  shows "exclusive body s = (Ok x, t\<lparr>lock_depth := lock_depth s\<rparr>)"
  using assms by (simp add: exclusive_def)

lemma lock_depth_simps [simp]:
  "registered (s\<lparr>lock_depth := n\<rparr>) = registered s"
  "queue_of (s\<lparr>lock_depth := n\<rparr>) = queue_of s"
  "registry_shape decode (s\<lparr>lock_depth := n\<rparr>) = registry_shape decode s"
  "registry_ok decode (s\<lparr>lock_depth := n\<rparr>) = registry_ok decode s"
  by (simp_all add: registered_def queue_of_def fun_eq_iff registry_shape_def registry_ok_def)

lemma registry_shape_databases [simp]:
  "registry_shape decode (s\<lparr>databases := dbs\<rparr>) = registry_shape decode s"
  by (simp add: registry_shape_def registered_def queue_of_def)

section \<open>Flushing\<close>

definition same_registry :: "queues \<Rightarrow> queues \<Rightarrow> bool" where
  "same_registry s s' \<longleftrightarrow> next_identifier s' = next_identifier s \<and>
     database_to_identifier s' = database_to_identifier s \<and>
     identifier_to_database s' = identifier_to_database s \<and>
     keys (identifier_to_queue s') = keys (identifier_to_queue s) \<and> lock_depth s' = lock_depth s"

text \<open>The queues of a set of numbers are stored, in order, and emptied.\<close>

definition flushes ::
  "header xdr_decoder \<Rightarrow> (string \<Rightarrow> string) \<Rightarrow> int set \<Rightarrow> queues \<Rightarrow> queues \<Rightarrow> bool" where
  "flushes decode canonical I s s' \<longleftrightarrow> same_registry s s' \<and>
     (\<forall>i. queue_of s' i = (if i \<in> I then [] else queue_of s i)) \<and>
     (\<forall>d. balanced (databases s d) (databases s' d) \<and> data_agrees (databases s' d) \<and>
       stored (the_session (databases s' d)) = foldl (accept_blob decode canonical)
         (stored (the_session (databases s d)))
         (case registered s d of None \<Rightarrow> [] | Some i \<Rightarrow> if i \<in> I then queue_of s i else []))"

lemma flushes_refl: "(\<And>d. data_agrees (databases s d)) \<Longrightarrow> flushes decode canonical {} s s"
  by (simp add: flushes_def same_registry_def split: option.splits)

lemma flushes_trans:
  assumes st: "flushes decode canonical I s t" and tu: "flushes decode canonical J t u"
  shows "flushes decode canonical (I \<union> J) s u"
proof -
  have reg: "registered t = registered s" using st by (simp add: flushes_def same_registry_def registered_def)
  have "stored (the_session (databases u d)) = foldl (accept_blob decode canonical)
         (stored (the_session (databases s d)))
         (case registered s d of None \<Rightarrow> [] | Some i \<Rightarrow> if i \<in> I \<union> J then queue_of s i else [])" for d
    using st tu by (cases "registered s d") (auto simp: flushes_def reg)
  moreover have "balanced (databases s d) (databases u d)" for d
    using st tu balanced_trans [of "databases s d" "databases t d"] by (auto simp: flushes_def)
  ultimately show ?thesis using st tu by (auto simp: flushes_def same_registry_def)
qed

lemma flushes_registry_ok:
  assumes "registry_ok decode s" and "flushes decode canonical I s s'"
  shows "registry_ok decode s'"
proof -
  have "dom (map_of (identifier_to_queue s')) = dom (map_of (identifier_to_queue s))"
    using assms(2) unfolding flushes_def same_registry_def by (metis in_keys subset_antisym subsetI)
  then show ?thesis
    using assms by (simp add: registry_ok_def registry_shape_def flushes_def same_registry_def registered_def)
qed

lemma set_queue_ok:
  assumes "linear.ordered (keys (identifier_to_queue s))" and "i \<in> dom (map_of (identifier_to_queue s))"
  shows "same_registry s (set_queue i q s)" and "queue_of (set_queue i q s) = (queue_of s)(i := q)"
    and "databases (set_queue i q s) = databases s" and "registered (set_queue i q s) = registered s"
  using assms(2) linear_map_of_modify [OF assms(1)]
  by (auto simp: same_registry_def set_queue_def queue_of_def registered_def fun_eq_iff linear.modify_keys)

lemma flush_queue_ok:
  assumes "linear.ordered (keys (identifier_to_queue s))" and "i \<in> dom (map_of (identifier_to_queue s))"
    and "queue_of s i = queue" and "data_agrees (databases s d)"
    and "\<forall>blob \<in> set queue. \<exists>header n. decode blob = Some (header, n)"
  shows "\<exists>s' f. flush_queue (storePerformanceData decode canonical) d i queue s = (Ok (), s') \<and>
    same_registry s s' \<and> queue_of s' = (queue_of s)(i := []) \<and> databases s' = (databases s)(d := f) \<and>
    balanced (databases s d) f \<and> data_agrees f \<and> stored (the_session f)
      = foldl (accept_blob decode canonical) (stored (the_session (databases s d))) queue"
  using assms
proof (induction queue arbitrary: s)
  case Nil
  then show ?case
    by (intro exI [of _ s] exI [of _ "databases s d"]) (auto simp: ret_def same_registry_def fun_eq_iff)
next
  case (Cons blob queue)
  from Cons.prems(5) obtain header n where "decode blob = Some (header, n)" by auto
  from store_ok [where decode = decode and canonical = canonical, OF this Cons.prems(4)] obtain f1 where
    f1: "storePerformanceData decode canonical blob (databases s d) = (Ok (), f1)"
      "balanced (databases s d) f1" "data_agrees f1"
      "stored (the_session f1) = accept_blob decode canonical (stored (the_session (databases s d))) blob"
    by blast
  let ?s1 = "s\<lparr>databases := (databases s)(d := f1)\<rparr>"
  let ?s2 = "set_queue i queue ?s1"
  have s1: "linear.ordered (keys (identifier_to_queue ?s1))" "i \<in> dom (map_of (identifier_to_queue ?s1))"
    using Cons.prems by simp_all
  note s2 = set_queue_ok [OF s1, of queue]
  have p: "linear.ordered (keys (identifier_to_queue ?s2))" "i \<in> dom (map_of (identifier_to_queue ?s2))"
    "queue_of ?s2 i = queue" "data_agrees (databases ?s2 d)"
    "\<forall>blob \<in> set queue. \<exists>header n. decode blob = Some (header, n)"
    using s1 s2 f1(3) Cons.prems(5) by (simp_all add: same_registry_def flip: in_keys)
  from Cons.IH [OF p] obtain s' f where
    run: "flush_queue (storePerformanceData decode canonical) d i queue ?s2 = (Ok (), s')"
    and s': "same_registry ?s2 s'" "queue_of s' = (queue_of ?s2)(i := [])"
      "databases s' = (databases ?s2)(d := f)" "balanced (databases ?s2 d) f" "data_agrees f"
      "stored (the_session f)
        = foldl (accept_blob decode canonical) (stored (the_session (databases ?s2 d))) queue"
    by (elim exE conjE) (rule that)
  have "flush_queue (storePerformanceData decode canonical) d i (blob # queue) s = (Ok (), s')"
    using run by (simp add: andthen_def on_database_def f1(1))
  moreover have "same_registry s s'" using s2(1) s'(1) by (simp add: same_registry_def)
  moreover have "queue_of s' = (queue_of s)(i := [])"
    unfolding s'(2) s2(2) by (simp add: queue_of_def fun_eq_iff)
  moreover have "databases s' = (databases s)(d := f)" by (simp add: s'(3) s2(3))
  moreover have "balanced (databases s d) f" using f1(2) s'(4) balanced_trans by (auto simp: s2(3))
  ultimately show ?case using s'(5,6) f1(4) by (intro exI [of _ s'] exI [of _ f]) (simp add: s2(3))
qed

lemma flush_nonempty_ok:
  assumes s: "registry_ok decode s" and i: "registered s d = Some i"
  shows "\<exists>s'. flush_nonempty no_faults (storePerformanceData decode canonical) d i (queue_of s i) s = (Ok (), s') \<and>
    flushes decode canonical {i} s s'"
proof (cases "queue_of s i = []")
  case True
  then show ?thesis
    using s by (auto simp: flush_nonempty_def ret_def flushes_def same_registry_def registry_ok_def
        split: option.splits)
next
  case False
  let ?s = "database_call d (Begin True) s"
  have dom: "i \<in> dom (map_of (identifier_to_queue s))"
    and keys: "linear.ordered (keys (identifier_to_queue s))"
    and blobs: "\<forall>blob \<in> set (queue_of s i). \<exists>header n. decode blob = Some (header, n)"
    using registry_okD [OF s] i unfolding registry_shape_def belongs_def by blast+
  have begun: "data_agrees (databases ?s d)"
    using s by (simp add: registry_ok_def database_call_def
        data_agrees_cong [of "at_session (Begin True) (databases s d)" "databases s d"])
  have same: "queue_of ?s = queue_of s" by (simp add: database_call_def queue_of_def fun_eq_iff)
  have p: "linear.ordered (keys (identifier_to_queue ?s))" "i \<in> dom (map_of (identifier_to_queue ?s))"
    "queue_of ?s i = queue_of s i" "data_agrees (databases ?s d)"
    "\<forall>blob \<in> set (queue_of s i). \<exists>header n. decode blob = Some (header, n)"
    using dom keys begun blobs by (simp_all add: same) (simp_all add: database_call_def)
  obtain t f where
    run: "flush_queue (storePerformanceData decode canonical) d i (queue_of s i) ?s = (Ok (), t)"
    and t: "same_registry ?s t" "queue_of t = (queue_of ?s)(i := [])" "databases t = (databases ?s)(d := f)"
      "balanced (databases ?s d) f" "data_agrees f"
      "stored (the_session f)
        = foldl (accept_blob decode canonical) (stored (the_session (databases ?s d))) (queue_of s i)"
    using flush_queue_ok [OF p, of canonical] by (elim exE conjE) (rule that)
  let ?u = "database_call d Commit t"
  have "flush_nonempty no_faults (storePerformanceData decode canonical) d i (queue_of s i) s = (Ok (), ?u)"
    using run False by (simp add: flush_nonempty_def database_transaction_def)
  moreover have "balanced (at_session (Begin True) (databases s d)) f"
    using t(4) by (simp add: database_call_def)
  note c = commit_balanced [OF this]
  have "flushes decode canonical {i} s ?u"
    unfolding flushes_def
  proof (intro conjI allI)
    show "same_registry s ?u" using t(1) by (simp add: same_registry_def database_call_def)
    show "queue_of ?u j = (if j \<in> {i} then [] else queue_of s j)" for j
      using t(2) by (simp add: database_call_def queue_of_def fun_eq_iff)
    fix d'
    show "balanced (databases s d') (databases ?u d')"
      using c(2) t(3) by (simp add: database_call_def)
    show "data_agrees (databases ?u d')"
      using c(1) t(3,5) s by (simp add: database_call_def data_agrees_cong [of "at_session Commit f" f]
          registry_ok_def)
    have "registered s d' \<noteq> Some i" if "d' \<noteq> d"
      using s i that unfolding registry_ok_def registry_shape_def by (metis option.inject)
    then show "stored (the_session (databases ?u d')) = foldl (accept_blob decode canonical)
         (stored (the_session (databases s d')))
         (case registered s d' of None \<Rightarrow> [] | Some j \<Rightarrow> if j \<in> {i} then queue_of s j else [])"
      using c(1) t(3,6) i by (auto simp: database_call_def split: option.splits)
  qed
  ultimately show ?thesis by blast
qed

section \<open>Every request\<close>

lemma registry_lookups:
  assumes "registry_shape decode s"
  shows "lookup d (database_to_identifier s) = registered s d"
    and "lookup i (identifier_to_database s) = map_of (identifier_to_database s) i"
    and "lookup i (identifier_to_queue s) = map_of (identifier_to_queue s) i"
    and "registered s d = Some i \<Longrightarrow> map_of (identifier_to_queue s) i = Some (queue_of s i)"
    and "registered s d = Some i \<Longrightarrow> map_of (identifier_to_database s) i = Some d"
    and "i \<in> set (keys (identifier_to_queue s)) \<Longrightarrow> \<exists>d. registered s d = Some i"
proof -
  show "lookup d (database_to_identifier s) = registered s d"
    "lookup i (identifier_to_database s) = map_of (identifier_to_database s) i"
    "lookup i (identifier_to_queue s) = map_of (identifier_to_queue s) i"
    using assms by (simp_all add: registry_shape_def lookup_map_of registered_def)
  show "i \<in> set (keys (identifier_to_queue s)) \<Longrightarrow> \<exists>d. registered s d = Some i"
    using assms unfolding in_keys registry_shape_def by blast
  assume i: "registered s d = Some i"
  then show "map_of (identifier_to_database s) i = Some d"
    using assms by (simp add: registry_shape_def)
  then have "i \<in> dom (map_of (identifier_to_queue s))"
    using assms unfolding registry_shape_def by blast
  then show "map_of (identifier_to_queue s) i = Some (queue_of s i)" by (auto simp: queue_of_def)
qed

lemma registered_nonnull: "registry_shape decode s \<Longrightarrow> registered s d = Some i \<Longrightarrow> d \<noteq> 0"
  unfolding registry_shape_def by (metis option.distinct(1))

lemma flushes_lock:
  assumes "flushes decode canonical I (s\<lparr>lock_depth := n\<rparr>) t"
  shows "lock_depth t = n" and "flushes decode canonical I s (t\<lparr>lock_depth := lock_depth s\<rparr>)"
  using assms unfolding flushes_def same_registry_def lock_depth_simps by simp_all

lemma flushDatabase_ok:
  assumes s: "registry_ok decode s" and i: "registered s d = Some i"
  shows "\<exists>s'. DataQueues_flushDatabase no_faults decode canonical d s = (Ok (), s') \<and> flushes decode canonical {i} s s'"
proof -
  let ?s = "s\<lparr>lock_depth := Suc (lock_depth s)\<rparr>"
  have ok: "registry_ok decode ?s" and reg: "registered ?s d = Some i" using s i by simp_all
  note shape = registry_okD [OF ok] and nonnull = registered_nonnull [OF registry_okD [OF s] i]
  from flush_nonempty_ok [OF ok reg] obtain t where
    run: "flush_nonempty no_faults (storePerformanceData decode canonical) d i (queue_of ?s i) ?s = (Ok (), t)"
    and t: "flushes decode canonical {i} ?s t" by blast
  have "DataQueues_flushDatabase no_faults decode canonical d s = (Ok (), t\<lparr>lock_depth := lock_depth s\<rparr>)"
    unfolding DataQueues_flushDatabase_def
    by (rule exclusive_Ok)
      (use registry_lookups [OF shape] reg run nonnull flushes_lock(1) [OF t] in
        \<open>simp_all add: andthen_def assert_op_def found_or_abort_def del: lock_depth_simps\<close>)
  with flushes_lock(2) [OF t] show ?thesis by blast
qed

lemma flush_entry_ok:
  assumes s: "registry_ok decode s" and "i \<in> set (keys (identifier_to_queue s))"
  shows "\<exists>s'. flush_entry no_faults decode canonical i s = (Ok (), s') \<and> flushes decode canonical {i} s s'"
proof -
  from registry_lookups(6) [OF registry_okD [OF s] assms(2)] obtain d where d: "registered s d = Some i" by blast
  from flush_nonempty_ok [OF s d] obtain t where
    run: "flush_nonempty no_faults (storePerformanceData decode canonical) d i (queue_of s i) s = (Ok (), t)"
    and t: "flushes decode canonical {i} s t" by blast
  then have "flush_entry no_faults decode canonical i s = (Ok (), t)"
    using registry_lookups [OF registry_okD [OF s]] d
    by (simp add: flush_entry_def andthen_def found_or_abort_def flush_nonempty_def split: if_splits)
  with t show ?thesis by blast
qed

lemma flush_keys_ok:
  assumes "registry_ok decode s" and "set is \<subseteq> set (keys (identifier_to_queue s))"
  shows "\<exists>s'. for_each is (\<lambda>_. flush_entry no_faults decode canonical) () s = (Ok (), s') \<and>
    flushes decode canonical (set is) s s'"
  using assms
proof (induction "is" arbitrary: s)
  case Nil
  then show ?case
    using flushes_refl [of s decode canonical] by (auto simp: ret_def registry_ok_def)
next
  case (Cons i "is")
  from Cons.prems flush_entry_ok [of decode s i canonical] obtain t where
    run: "flush_entry no_faults decode canonical i s = (Ok (), t)" and t: "flushes decode canonical {i} s t" by auto
  have "set is \<subseteq> set (keys (identifier_to_queue t))"
    using Cons.prems(2) t by (simp add: flushes_def same_registry_def)
  from Cons.IH [OF flushes_registry_ok [OF Cons.prems(1) t] this] obtain u where
    "for_each is (\<lambda>_. flush_entry no_faults decode canonical) () t = (Ok (), u)"
    and u: "flushes decode canonical (set is) t u" by blast
  then show ?case
    using run flushes_trans [OF t u] by (intro exI [of _ u]) (simp add: andthen_def)
qed

lemma flushes_all:
  assumes "flushes decode canonical (set (keys (identifier_to_queue s))) s s'"
  shows "flushes decode canonical UNIV s s'"
proof -
  have "(if i \<in> set (keys (identifier_to_queue s)) then queue_of s i else []) = queue_of s i"
    "(if i \<in> set (keys (identifier_to_queue s)) then [] else queue_of s i) = []" for i
    by (auto simp: queue_of_def in_keys split: option.splits)
  then show ?thesis using assms unfolding flushes_def by (simp only: UNIV_I if_True simp_thms)
qed

lemma flushPerformanceData_ok:
  assumes s: "registry_ok decode s"
  shows "\<exists>s'. DataQueues_flushPerformanceData no_faults decode canonical s = (Ok (), s') \<and>
    flushes decode canonical UNIV s s'"
proof -
  let ?s = "s\<lparr>lock_depth := Suc (lock_depth s)\<rparr>"
  have "registry_ok decode ?s" using s by simp
  from flush_keys_ok [OF this order_refl, of canonical] obtain t where
    run: "for_each (keys (identifier_to_queue ?s)) (\<lambda>_. flush_entry no_faults decode canonical) () ?s = (Ok (), t)"
    and t: "flushes decode canonical (set (keys (identifier_to_queue ?s))) ?s t" by blast
  have "DataQueues_flushPerformanceData no_faults decode canonical s = (Ok (), t\<lparr>lock_depth := lock_depth s\<rparr>)"
    unfolding DataQueues_flushPerformanceData_def
    by (rule exclusive_Ok) (use run flushes_lock(1) [OF t] in simp_all)
  with flushes_lock(2) [OF flushes_all [OF t]] show ?thesis by blast
qed

lemma addDatabase_shape:
  assumes s: "registry_shape decode s"
  shows "DataQueues_addDatabase d s = (Ok (), s') \<Longrightarrow> registry_shape decode s' \<and>
      lock_depth s' = lock_depth s \<and> registered s' = (registered s)(d \<mapsto> next_identifier s) \<and>
      next_identifier s' = next_identifier s + 1 \<and> databases s' = databases s"
    and "d \<noteq> 0 \<Longrightarrow> registered s d = None \<Longrightarrow> next_identifier s < 2 ^ 31 - 1 \<Longrightarrow> \<exists>s'. DataQueues_addDatabase d s = (Ok (), s')"
proof -
  have ord: "linear.ordered (keys (database_to_identifier s))"
    "linear.ordered (keys (identifier_to_database s))" "linear.ordered (keys (identifier_to_queue s))"
    and small: "\<And>i. i \<in> dom (map_of (identifier_to_queue s)) \<Longrightarrow> 0 \<le> i \<and> i < next_identifier s"
    and nonneg: "0 \<le> next_identifier s"
    and dom: "dom (map_of (identifier_to_queue s)) = dom (map_of (identifier_to_database s))"
    and iff: "\<And>d i. registered s d = Some i \<longleftrightarrow> map_of (identifier_to_database s) i = Some d"
    using s by (simp_all add: registry_shape_def)
  let ?n = "next_identifier s"
  have fresh: "map_of (identifier_to_queue s) ?n = None" "map_of (identifier_to_database s) ?n = None"
    using small [of ?n] dom by blast+
  show "d \<noteq> 0 \<Longrightarrow> registered s d = None \<Longrightarrow> next_identifier s < 2 ^ 31 - 1 \<Longrightarrow> \<exists>s'. DataQueues_addDatabase d s = (Ok (), s')"
    using registry_lookups(1) [of decode "s\<lparr>lock_depth := Suc (lock_depth s)\<rparr>" d] s
    by (simp add: DataQueues_addDatabase_def exclusive_def andthen_def assert_op_def)
  assume run: "DataQueues_addDatabase d s = (Ok (), s')"
  then have d: "d \<noteq> 0" "registered s d = None" "?n < 2 ^ 31 - 1"
    using registry_lookups(1) [of decode "s\<lparr>lock_depth := Suc (lock_depth s)\<rparr>" d] s
    by (auto simp: DataQueues_addDatabase_def exclusive_def andthen_def assert_op_def split: if_splits)
  then have s': "s' = s\<lparr>next_identifier := ?n + 1,
      database_to_identifier := map_insert (<) d ?n (database_to_identifier s),
      identifier_to_database := map_insert (<) ?n d (identifier_to_database s),
      identifier_to_queue := map_insert (<) ?n [] (identifier_to_queue s)\<rparr>"
    using run registry_lookups(1) [of decode "s\<lparr>lock_depth := Suc (lock_depth s)\<rparr>" d] s
    by (simp add: DataQueues_addDatabase_def exclusive_def andthen_def assert_op_def)
  have maps: "registered s' = (registered s)(d \<mapsto> ?n)"
    "map_of (identifier_to_database s') = (map_of (identifier_to_database s))(?n \<mapsto> d)"
    "map_of (identifier_to_queue s') = (map_of (identifier_to_queue s))(?n \<mapsto> [])"
    using d(2) fresh linear_map_of_insert [OF ord(1)] linear_map_of_insert [OF ord(2)]
      linear_map_of_insert [OF ord(3)]
    by (simp_all add: s' registered_def)
  have "queue_of s' = queue_of s" using fresh by (auto simp: queue_of_def maps fun_eq_iff)
  moreover have "registered s' d' = Some i \<longleftrightarrow> map_of (identifier_to_database s') i = Some d'" for d' i
    unfolding maps using d(2) fresh(2) iff [of d' i] iff [of d i] iff [of d' ?n] by auto
  moreover have "0 \<le> i \<and> i < next_identifier s'" if "i \<in> dom (map_of (identifier_to_queue s'))" for i
    using that small [of i] nonneg unfolding maps dom_def by (auto simp: s' split: if_splits)
  ultimately have "registry_shape decode s'"
    using s d(1,3) dom linear.insert_ordered [OF ord(1)] linear.insert_ordered [OF ord(2)]
      linear.insert_ordered [OF ord(3)]
    unfolding registry_shape_def maps(1) by (simp add: maps dom) (simp add: s')
  then show "registry_shape decode s' \<and> lock_depth s' = lock_depth s \<and>
      registered s' = (registered s)(d \<mapsto> next_identifier s) \<and> next_identifier s' = next_identifier s + 1 \<and>
      databases s' = databases s"
    using maps(1) by (simp add: s')
qed

lemma addDatabase_ok:
  assumes "registry_ok decode s" and "DataQueues_addDatabase d s = (Ok (), s')"
  shows "registry_ok decode s' \<and> lock_depth s' = lock_depth s \<and>
    registered s' = (registered s)(d \<mapsto> next_identifier s) \<and> next_identifier s' = next_identifier s + 1"
  using addDatabase_shape(1) [OF registry_okD [OF assms(1)] assms(2)] assms(1) by (simp add: registry_ok_def)

lemma erase_shape:
  assumes s: "registry_shape decode s" and i: "registered s d = Some i"
  defines "s' \<equiv> s\<lparr>database_to_identifier := map_erase (<) d (database_to_identifier s),
    identifier_to_database := map_erase (<) i (identifier_to_database s),
    identifier_to_queue := map_erase (<) i (identifier_to_queue s)\<rparr>"
  shows "registry_shape decode s'" and "registered s' = (registered s)(d := None)"
proof -
  have ord: "linear.ordered (keys (database_to_identifier s))"
    "linear.ordered (keys (identifier_to_database s))" "linear.ordered (keys (identifier_to_queue s))"
    and dom: "dom (map_of (identifier_to_queue s)) = dom (map_of (identifier_to_database s))"
    and iff: "\<And>d i. registered s d = Some i \<longleftrightarrow> map_of (identifier_to_database s) i = Some d"
    and bound: "\<And>i. i \<in> dom (map_of (identifier_to_queue s)) \<Longrightarrow> 0 \<le> i \<and> i < next_identifier s"
    using s by (simp_all add: registry_shape_def)
  have maps: "registered s' = (registered s)(d := None)"
    "map_of (identifier_to_database s') = (map_of (identifier_to_database s))(i := None)"
    "map_of (identifier_to_queue s') = (map_of (identifier_to_queue s))(i := None)"
    using erase_map_of [OF ord(1)] erase_map_of [OF ord(2)] erase_map_of [OF ord(3)]
    by (simp_all add: s'_def registered_def)
  then show "registered s' = (registered s)(d := None)" by simp
  have queue: "queue_of s' = (queue_of s)(i := [])" by (auto simp: queue_of_def maps fun_eq_iff)
  have "registered s' d' = Some j \<longleftrightarrow> map_of (identifier_to_database s') j = Some d'" for d' j
    unfolding maps using i iff [of d' j] iff [of d i] iff [of d j] by auto
  moreover have "0 \<le> j \<and> j < next_identifier s'" if "j \<in> dom (map_of (identifier_to_queue s'))" for j
    using that bound [of j] unfolding maps dom_def by (auto simp: s'_def split: if_splits)
  ultimately show "registry_shape decode s'"
    using s dom linear.erase_ordered [OF ord(1)] linear.erase_ordered [OF ord(2)]
      linear.erase_ordered [OF ord(3)]
    unfolding registry_shape_def queue by (simp add: maps) (simp add: s'_def)
qed

lemma removeDatabase_ok:
  assumes s: "registry_ok decode s"
  shows "DataQueues_removeDatabase no_faults decode canonical d s = (Ok (), s') \<Longrightarrow> registry_ok decode s' \<and>
      lock_depth s' = lock_depth s \<and> registered s' = (registered s)(d := None) \<and>
      next_identifier s' = next_identifier s \<and> (\<exists>i. registered s d = Some i \<and>
        stored (the_session (databases s' d)) = foldl (accept_blob decode canonical)
          (stored (the_session (databases s d))) (queue_of s i))"
    and "registered s d = Some i \<Longrightarrow> \<exists>s'. DataQueues_removeDatabase no_faults decode canonical d s = (Ok (), s')"
proof -
  let ?s = "s\<lparr>lock_depth := Suc (lock_depth s)\<rparr>"
  have ok: "registry_ok decode ?s" using s by simp
  have step: "\<exists>t. DataQueues_removeDatabase no_faults decode canonical d s = (Ok (), t\<lparr>lock_depth := lock_depth s,
      database_to_identifier := map_erase (<) d (database_to_identifier t),
      identifier_to_database := map_erase (<) i (identifier_to_database t),
      identifier_to_queue := map_erase (<) i (identifier_to_queue t)\<rparr>) \<and>
      flushes decode canonical {i} s t" if i: "registered s d = Some i" for i
  proof -
    have reg: "registered ?s d = Some i" using i by simp
    from flushDatabase_ok [OF ok reg] obtain t where
      run: "DataQueues_flushDatabase no_faults decode canonical d ?s = (Ok (), t)"
      and t: "flushes decode canonical {i} ?s t" by blast
    have "lookup d (database_to_identifier t) = Some i"
      using t registry_lookups(1) [OF registry_okD [OF ok]] reg by (simp add: flushes_def same_registry_def)
    then have "DataQueues_removeDatabase no_faults decode canonical d s = (Ok (), t\<lparr>lock_depth := lock_depth s,
      database_to_identifier := map_erase (<) d (database_to_identifier t),
      identifier_to_database := map_erase (<) i (identifier_to_database t),
      identifier_to_queue := map_erase (<) i (identifier_to_queue t)\<rparr>)"
      using run registry_lookups(1) [OF registry_okD [OF ok]] reg registered_nonnull [OF registry_okD [OF s] i]
        flushes_lock(1) [OF t]
      by (simp add: DataQueues_removeDatabase_def exclusive_def andthen_def assert_op_def found_or_abort_def)
    with flushes_lock(2) [OF t] show ?thesis
      by (intro exI [of _ "t\<lparr>lock_depth := lock_depth s\<rparr>"]) simp
  qed
  then show "registered s d = Some i \<Longrightarrow> \<exists>s'. DataQueues_removeDatabase no_faults decode canonical d s = (Ok (), s')"
    by blast
  assume run: "DataQueues_removeDatabase no_faults decode canonical d s = (Ok (), s')"
  then obtain i where i: "registered s d = Some i"
    using registry_lookups(1) [OF registry_okD [OF ok]]
    by (auto simp: DataQueues_removeDatabase_def exclusive_def andthen_def assert_op_def split: if_splits)
  from step [OF this] run obtain t where
    s': "s' = t\<lparr>lock_depth := lock_depth s,
      database_to_identifier := map_erase (<) d (database_to_identifier t),
      identifier_to_database := map_erase (<) i (identifier_to_database t),
      identifier_to_queue := map_erase (<) i (identifier_to_queue t)\<rparr>"
    and t: "flushes decode canonical {i} s t" by auto
  have tok: "registry_ok decode t" by (rule flushes_registry_ok [OF s t])
  have same: "registered t = registered s" "next_identifier t = next_identifier s"
    using t by (simp_all add: flushes_def same_registry_def registered_def)
  have "registered t d = Some i" using i by (simp add: same)
  note erased = erase_shape [OF registry_okD [OF tok] this]
  have s': "s' = (t\<lparr>database_to_identifier := map_erase (<) d (database_to_identifier t),
      identifier_to_database := map_erase (<) i (identifier_to_database t),
      identifier_to_queue := map_erase (<) i (identifier_to_queue t)\<rparr>)\<lparr>lock_depth := lock_depth s\<rparr>"
    by (simp add: s')
  have "stored (the_session (databases s' d)) = foldl (accept_blob decode canonical)
      (stored (the_session (databases s d))) (queue_of s i)"
    using t i by (simp add: flushes_def s')
  moreover have "registry_ok decode s'"
    using erased(1) tok unfolding s' lock_depth_simps by (simp add: registry_ok_def)
  moreover have "registered s' = (registered s)(d := None)"
    using erased(2) unfolding s' lock_depth_simps same by simp
  ultimately show "registry_ok decode s' \<and>
      lock_depth s' = lock_depth s \<and> registered s' = (registered s)(d := None) \<and>
      next_identifier s' = next_identifier s \<and> (\<exists>i. registered s d = Some i \<and>
        stored (the_session (databases s' d)) = foldl (accept_blob decode canonical)
          (stored (the_session (databases s d))) (queue_of s i))"
    using same i by (simp add: s')
qed

lemma enqueue_shape:
  assumes s: "registry_shape decode s"
    and run: "DataQueues_enqueuePerformanceData decode blob s = (Ok (), s')"
  shows "registry_shape decode s' \<and> lock_depth s' = lock_depth s \<and> registered s' = registered s \<and>
    next_identifier s' = next_identifier s \<and> databases s' = databases s \<and> (\<exists>header n. decode blob = Some (header, n) \<and>
      queue_of s' = (if hd_experiment header \<in> ran (registered s)
        then (queue_of s)(hd_experiment header := queue_of s (hd_experiment header) @ [blob])
        else queue_of s))"
proof -
  from run obtain header n where h: "decode blob = Some (header, n)"
    by (cases "decode blob")
      (auto simp: DataQueues_enqueuePerformanceData_def Blob_getXDRDecoding_def andthen_def lift_res_def)
  let ?i = "hd_experiment header"
  have dom: "?i \<in> dom (map_of (identifier_to_queue s)) \<longleftrightarrow> ?i \<in> ran (registered s)"
    using s unfolding registry_shape_def ran_def by (simp add: dom_def)
  have ord: "linear.ordered (keys (identifier_to_queue s))" using s by (simp add: registry_shape_def)
  have s': "s' = (case map_of (identifier_to_queue s) ?i of None \<Rightarrow> s
      | Some queue \<Rightarrow> set_queue ?i (queue @ [blob]) s)"
    using run h registry_lookups(3) [OF s]
    by (auto simp: DataQueues_enqueuePerformanceData_def Blob_getXDRDecoding_def andthen_def
        lift_res_def exclusive_def set_queue_def split: option.splits)
  show ?thesis
  proof (cases "map_of (identifier_to_queue s) ?i")
    case None
    then have "?i \<notin> ran (registered s)" using dom by auto
    with None s h s' show ?thesis by auto
  next
    case (Some queue)
    then have i: "?i \<in> dom (map_of (identifier_to_queue s))" and queue: "queue_of s ?i = queue"
      by (auto simp: queue_of_def)
    note set = set_queue_ok [OF ord i, of "queue @ [blob]"]
    have eq: "s' = set_queue ?i (queue @ [blob]) s" using s' Some by simp
    have "dom (map_of (identifier_to_queue s')) = dom (map_of (identifier_to_queue s))"
      using set(1) unfolding eq same_registry_def by (metis in_keys subset_antisym subsetI)
    moreover have "\<forall>blob \<in> set (queue_of s' j). belongs decode j blob" for j
      using s h queue unfolding eq set(2) registry_shape_def belongs_def by auto
    ultimately have "registry_shape decode s'"
      using s set(1,3,4) unfolding eq registry_shape_def same_registry_def by simp
    with set dom i h queue show ?thesis by (simp add: eq same_registry_def)
  qed
qed

lemma enqueue_ok:
  assumes "registry_ok decode s" and "DataQueues_enqueuePerformanceData decode blob s = (Ok (), s')"
  shows "registry_ok decode s' \<and> lock_depth s' = lock_depth s \<and> registered s' = registered s"
  using enqueue_shape [OF registry_okD [OF assms(1)] assms(2)] assms(1) by (simp add: registry_ok_def)

section \<open>Properties\<close>

lemma flushes_fields:
  "flushes decode canonical I s s' \<Longrightarrow> lock_depth s' = lock_depth s \<and> next_identifier s' = next_identifier s"
  by (simp add: flushes_def same_registry_def)

lemma flush_request_cases:
  assumes s: "registry_ok decode s" and "DataQueues_flushDatabase no_faults decode canonical d s = (Ok (), s')"
  obtains i where "registered s d = Some i" and "flushes decode canonical {i} s s'"
proof (cases "registered s d")
  case None
  then show ?thesis
    using assms(2) registry_lookups(1) [of decode "s\<lparr>lock_depth := Suc (lock_depth s)\<rparr>" d] registry_okD [OF s]
    by (auto simp: DataQueues_flushDatabase_def exclusive_def andthen_def assert_op_def split: if_splits)
next
  case (Some i)
  then show ?thesis using flushDatabase_ok [OF s Some, of canonical] assms(2) that by auto
qed

lemma perform_ok:
  assumes s: "registry_ok decode s" and run: "perform no_faults decode canonical rq s = (Ok (), s')"
  shows "registry_ok decode s' \<and> lock_depth s' = lock_depth s \<and> next_identifier s \<le> next_identifier s'"
proof (cases rq)
  case (AddDatabase d)
  then show ?thesis using run addDatabase_ok [OF s, of d s'] by auto
next
  case (RemoveDatabase d)
  then show ?thesis using run removeDatabase_ok(1) [OF s, of canonical d s'] by auto
next
  case (EnqueuePerformanceData blob)
  then have "DataQueues_enqueuePerformanceData decode blob s = (Ok (), s')" using run by simp
  from enqueue_ok [OF s this] this show ?thesis
    by (auto simp: DataQueues_enqueuePerformanceData_def andthen_def lift_res_def exclusive_def
        set_queue_def split: res.splits option.splits)
next
  case (FlushDatabase d)
  then have "DataQueues_flushDatabase no_faults decode canonical d s = (Ok (), s')" using run by simp
  then show ?thesis
    by (rule flush_request_cases [OF s])
      (use flushes_registry_ok [OF s] flushes_fields in auto)
next
  case FlushPerformanceData
  then have "flushes decode canonical UNIV s s'"
    using run flushPerformanceData_ok [OF s, of canonical] by auto
  then show ?thesis using flushes_registry_ok [OF s] flushes_fields by auto
qed

lemma reachable_ok:
  "reachable_queues decode canonical s \<Longrightarrow> registry_ok decode s \<and> lock_depth s = 0"
proof (induction rule: reachable_queues.induct)
  case (start dbs)
  then show ?case
    by (simp add: registry_ok_def registry_shape_def initial_queues_def registered_def queue_of_def)
next
  case (request s rq s')
  then show ?case using perform_ok by auto
next
  case (elsewhere s f d)
  then show ?case by (simp add: registry_ok_def)
qed

lemma sample_databases: "data_agrees (empty_framework \<lparr>stored = no_tables, saved = no_tables, nesting = (0, False)\<rparr>)"
  by (rule data_agrees_empty) (simp_all add: empty_framework_def no_tables_def)

definition sample_queues :: queues where
  "sample_queues = initial_queues ((\<lambda>_. empty_framework \<lparr>stored = no_tables, saved = no_tables,
     nesting = (0, False)\<rparr>)(5 := sample_run))"

lemma sample_queues_reachable: "reachable_queues sample_decode id sample_queues"
  unfolding sample_queues_def by (rule reachable_queues.start) (simp add: sample_agrees sample_databases)

section \<open>Whatever the databases answer\<close>

text \<open>
  The registry with a given next number while the lock is held to a given depth, and what is left
  when a function throws: the same registry, with the lock held more deeply.
\<close>

definition held_at :: "header xdr_decoder \<Rightarrow> int \<Rightarrow> nat \<Rightarrow> queues \<Rightarrow> bool" where
  "held_at decode k n s \<longleftrightarrow> registry_shape decode s \<and> next_identifier s = k \<and> lock_depth s = n"

definition left_locked :: "header xdr_decoder \<Rightarrow> int \<Rightarrow> nat \<Rightarrow> queues \<Rightarrow> bool" where
  "left_locked decode k n s \<longleftrightarrow> registry_shape decode s \<and> next_identifier s = k \<and> n < lock_depth s"

abbreviation within :: "header xdr_decoder \<Rightarrow> int \<Rightarrow> nat \<Rightarrow> (queues, 'a) op \<Rightarrow> bool" where
  "within decode k n m \<equiv> hoare (held_at decode k n) m (\<lambda>_. held_at decode k n) (left_locked decode k (n - 1))"


lemma held_at_call [simp]:
  "held_at decode k n (database_call d c s) = held_at decode k n s"
  "left_locked decode k n (database_call d c s) = left_locked decode k n s"
  by (simp_all add: held_at_def left_locked_def database_call_def)




lemma within_on_database: "within decode k (Suc n) (on_database d m)"
  by (rule hoare_I) (auto simp: on_database_def held_at_def left_locked_def split: prod.splits)




















lemma sample_queued:
  obtains s1 s2 where "DataQueues_addDatabase 5 sample_queues = (Ok (), s1)"
    and "DataQueues_enqueuePerformanceData sample_decode [1, 2, 3] s1 = (Ok (), s2)"
    and "lookup 5 (database_to_identifier s2) = Some 0" and "queue_of s2 0 = [[1, 2, 3]]"
    and "databases s2 = databases sample_queues" and "identifier_to_queue s2 = [(0, [[1, 2, 3]])]"
    and "reached_queues sample_decode id None s2"
proof -
  obtain s1 where s1: "DataQueues_addDatabase 5 sample_queues = (Ok (), s1)"
    "lookup 5 (database_to_identifier s1) = Some 0" "identifier_to_queue s1 = [(0, [])]"
    "databases s1 = databases sample_queues" "lock_depth s1 = 0"
    by (simp add: DataQueues_addDatabase_def exclusive_def andthen_def assert_op_def sample_queues_def
        initial_queues_def lookup_def)
  obtain s2 where s2: "DataQueues_enqueuePerformanceData sample_decode [1, 2, 3] s1 = (Ok (), s2)"
    "lookup 5 (database_to_identifier s2) = Some 0" "queue_of s2 0 = [[1, 2, 3]]"
    "databases s2 = databases sample_queues" "identifier_to_queue s2 = [(0, [[1, 2, 3]])]"
    using s1(2-5)
    by (simp add: DataQueues_enqueuePerformanceData_def exclusive_def andthen_def lift_res_def
        Blob_getXDRDecoding_def sample_decode_def set_queue_def queue_of_def lookup_def sample_header_def)
  have free: "may_lock None 1" by (simp add: may_lock_def)
  have "reached_queues sample_decode id None sample_queues"
    unfolding sample_queues_def by (rule reached_queues.first)
  from reached_queues.returned [OF this free, of no_faults "AddDatabase 5" s1] s1(1)
  have "reached_queues sample_decode id None s1" by simp
  from reached_queues.returned [OF this free, of no_faults "EnqueuePerformanceData [1, 2, 3]" s2] s2(1)
  have "reached_queues sample_decode id None s2" by simp
  with s1(1) s2 show thesis by (intro that)
qed


text \<open>C23: as long as the databases accept the rows, flushing always comes to an end, with every queue
  empty; each registered database then holds what it held followed by its queued blobs, in the order in
  which they arrived, without those that no collector and thread of the database account for; a database
  that is not registered is as before.\<close>

theorem flush_stores_everything:
  assumes "reachable_queues decode canonical s"
  shows "\<exists>s'. DataQueues_flushPerformanceData no_faults decode canonical s = (Ok (), s') \<and>
    reachable_queues decode canonical s' \<and> (\<forall>i. queue_of s' i = []) \<and>
    (\<forall>d. stored (the_session (databases s' d)) = foldl (accept_blob decode canonical)
      (stored (the_session (databases s d)))
      (case lookup d (database_to_identifier s) of None \<Rightarrow> [] | Some i \<Rightarrow> queue_of s i))"
proof -
  have ok: "registry_ok decode s" using reachable_ok [OF assms] by simp
  from flushPerformanceData_ok [OF ok, of canonical] obtain s' where
    run: "DataQueues_flushPerformanceData no_faults decode canonical s = (Ok (), s')"
    and s': "flushes decode canonical UNIV s s'" by blast
  have "reachable_queues decode canonical s'"
    by (rule reachable_queues.request [OF assms, of FlushPerformanceData]) (simp add: run)
  moreover have "\<forall>i. queue_of s' i = []" "\<forall>d. stored (the_session (databases s' d)) = foldl (accept_blob decode canonical)
      (stored (the_session (databases s d)))
      (case lookup d (database_to_identifier s) of None \<Rightarrow> [] | Some i \<Rightarrow> queue_of s i)"
    using s' unfolding flushes_def registry_lookups(1) [OF registry_okD [OF ok]] by (simp_all only: UNIV_I if_True simp_thms)
  ultimately show ?thesis using run by blast
qed

lemma flush_stores_everything_witness:
  "\<exists>s1 s2 s3. DataQueues_addDatabase 5 sample_queues = (Ok (), s1) \<and>
     DataQueues_enqueuePerformanceData sample_decode [1, 2, 3] s1 = (Ok (), s2) \<and>
     DataQueues_flushPerformanceData no_faults sample_decode id s2 = (Ok (), s3) \<and>
     map da_blob (Data (stored (the_session (databases s3 5)))) = [[2, 3]]"
proof -
  obtain s1 s2 where s1: "DataQueues_addDatabase 5 sample_queues = (Ok (), s1)"
    and s2: "DataQueues_enqueuePerformanceData sample_decode [1, 2, 3] s1 = (Ok (), s2)"
    "lookup 5 (database_to_identifier s2) = Some 0" "queue_of s2 0 = [[1, 2, 3]]"
    "databases s2 = databases sample_queues"
    by (rule sample_queued)
  have "reachable_queues sample_decode id s1"
    by (rule reachable_queues.request [OF sample_queues_reachable, of "AddDatabase 5"]) (simp add: s1)
  then have "reachable_queues sample_decode id s2"
    by (rule reachable_queues.request [of _ _ _ "EnqueuePerformanceData [1, 2, 3]"]) (simp add: s2(1))
  from flush_stores_everything [OF this] obtain s3 where
    run: "DataQueues_flushPerformanceData no_faults sample_decode id s2 = (Ok (), s3)"
    and "stored (the_session (databases s3 5)) = foldl (accept_blob sample_decode id)
      (stored (the_session (databases s2 5))) [[1, 2, 3]]"
    using s2(2,3) by fastforce
  then have "map da_blob (Data (stored (the_session (databases s3 5)))) = [[2, 3]]"
    using sample_accepted
    by (simp add: s2(4) sample_queues_def initial_queues_def accept_blob_def sample_decode_def insert_data_def)
      (simp add: sample_run_simps no_tables_def data_row_def)
  with run s1 s2(1) show ?thesis by (intro exI [of _ s1] exI [of _ s2] exI [of _ s3] conjI)
qed

end
