(* ===== verification/Collectors.thy ===== *)
theory Collectors
  imports PerformanceData
begin

text \<open>
  The class \<open>Collector\<close> (Collector.hxx, Collector.cxx) and groups of collectors (CollectorGroup.cxx):
  the parameters of a collector, and for which threads it collects. Each pair of a collector and a
  thread is a small state machine that lives in the table \<open>Collecting\<close>; the plugin of the collector is
  told to start or to stop. The main results are that the operations implement this machine for every
  set of threads, and that the plugin is never told to start what runs or to stop what does not.
  \<open>CollectorPluginTable\<close> is a parameter: which plugins can be loaded; so is what a plugin answers to a
  call. \<open>validate()\<close> is compiled to nothing.
\<close>

section \<open>The plugin of a collector\<close>

definition collector_id :: "int \<Rightarrow> tables \<Rightarrow> string" where
  "collector_id self db = foldl (\<lambda>_ row. unique_id row) [] (filter (\<lambda>row. cl_id row = self) (Collectors db))"

text \<open>
  \<open>instantiateImpl\<close> and the exception if there is no plugin. An object that has its plugin already
  does not read the table again.
\<close>

definition with_impl ::
  "(string \<Rightarrow> bool) \<Rightarrow> int \<Rightarrow> (framework, 'a) op \<Rightarrow> (framework, 'a) op" where
  "with_impl available self body =
     andthen (on_session (reading (\<lambda>db. Ok (collector_id self db)))) (\<lambda>uid.
       if available uid then body else throw (Exception CollectorUnavailable [uid]))"

text \<open>A call of the plugin or of an instrumentor is logged; it may throw.\<close>

definition call_plugin :: "(call \<Rightarrow> exception option) \<Rightarrow> call \<Rightarrow> (framework, unit) op" where
  "call_plugin respond c s =
     (case respond c of None \<Rightarrow> Ok () | Some e \<Rightarrow> Throw e, s\<lparr>calls := calls s @ [c]\<rparr>)"

section \<open>Starting, postponing and stopping\<close>

definition rows_collecting :: "int \<Rightarrow> int \<Rightarrow> tables \<Rightarrow> CollectingRow list" where
  "rows_collecting self t db =
     filter (\<lambda>row. cg_collector row = self \<and> cg_thread row = t) (Collecting db)"

text \<open>The flags \<open>is_collecting\<close> and \<open>is_postponed\<close>.\<close>

definition collecting_flags :: "int \<Rightarrow> int \<Rightarrow> tables \<Rightarrow> bool \<times> bool" where
  "collecting_flags self t db =
     foldl (\<lambda>_ row. (True, is_postponed row \<noteq> 0)) (False, True) (rows_collecting self t db)"

definition add_collecting :: "int \<Rightarrow> int \<Rightarrow> tables \<Rightarrow> tables" where
  "add_collecting self t db = db\<lparr>Collecting := Collecting db @ [CollectingRow self t 1]\<rparr>"

definition set_postponed :: "int \<Rightarrow> int \<Rightarrow> int \<Rightarrow> tables \<Rightarrow> tables" where
  "set_postponed x self t db = db\<lparr>Collecting := map (\<lambda>row.
     if cg_collector row = self \<and> cg_thread row = t then CollectingRow self t x else row) (Collecting db)\<rparr>"

definition remove_collecting :: "int \<Rightarrow> int \<Rightarrow> tables \<Rightarrow> tables" where
  "remove_collecting self t db = db\<lparr>Collecting := filter (\<lambda>row.
     \<not> (cg_collector row = self \<and> cg_thread row = t)) (Collecting db)\<rparr>"

definition when_op :: "bool \<Rightarrow> ('s, unit) op \<Rightarrow> ('s, unit) op" where
  "when_op b m = (if b then m else ret ())"

text \<open>One turn of each loop; the threads for which the plugin has to act are gathered.\<close>

definition start_one :: "int \<Rightarrow> int list \<Rightarrow> int \<Rightarrow> (session, int list) op" where
  "start_one self to_start t =
     andthen (query (collecting_flags self t)) (\<lambda>(is_collecting, postponed).
     andthen (when_op (\<not> is_collecting) (update_tables (add_collecting self t))) (\<lambda>_.
     andthen (when_op postponed (update_tables (set_postponed 0 self t))) (\<lambda>_.
       ret (if postponed then to_start @ [t] else to_start))))"

definition postpone_one :: "int \<Rightarrow> int list \<Rightarrow> int \<Rightarrow> (session, int list) op" where
  "postpone_one self to_stop t =
     andthen (query (collecting_flags self t)) (\<lambda>(is_collecting, postponed).
     andthen (when_op (is_collecting \<and> \<not> postponed) (update_tables (set_postponed 1 self t))) (\<lambda>_.
       ret (if is_collecting \<and> \<not> postponed then to_stop @ [t] else to_stop)))"

definition stop_one :: "int \<Rightarrow> int list \<Rightarrow> int \<Rightarrow> (session, int list) op" where
  "stop_one self to_stop t =
     andthen (query (collecting_flags self t)) (\<lambda>(is_collecting, postponed).
     andthen (when_op is_collecting (update_tables (remove_collecting self t))) (\<lambda>_.
       ret (if is_collecting \<and> \<not> postponed then to_stop @ [t] else to_stop)))"

text \<open>What the three functions share; a group of threads is visited in the order of the entries.\<close>

definition change_collecting ::
  "(string \<Rightarrow> bool) \<Rightarrow> (call \<Rightarrow> exception option) \<Rightarrow> (int \<Rightarrow> int list \<Rightarrow> int \<Rightarrow> (session, int list) op)
    \<Rightarrow> (int \<Rightarrow> int list \<Rightarrow> call) \<Rightarrow> int \<Rightarrow> int set \<Rightarrow> (framework, unit) op" where
  "change_collecting available respond step act self threads =
     with_impl available self (
       andthen (on_session (in_transaction True (for_each (sorted_list_of_set threads) (step self) [])))
         (\<lambda>affected. if affected \<noteq> [] then call_plugin respond (act self affected) else ret ()))"

definition Collector_startCollecting ::
  "(string \<Rightarrow> bool) \<Rightarrow> (call \<Rightarrow> exception option) \<Rightarrow> int \<Rightarrow> int set \<Rightarrow> (framework, unit) op" where
  "Collector_startCollecting available respond =
     change_collecting available respond start_one StartCollecting"

definition Collector_postponeCollecting ::
  "(string \<Rightarrow> bool) \<Rightarrow> (call \<Rightarrow> exception option) \<Rightarrow> int \<Rightarrow> int set \<Rightarrow> (framework, unit) op" where
  "Collector_postponeCollecting available respond =
     change_collecting available respond postpone_one StopCollecting"

definition Collector_stopCollecting ::
  "(string \<Rightarrow> bool) \<Rightarrow> (call \<Rightarrow> exception option) \<Rightarrow> int \<Rightarrow> int set \<Rightarrow> (framework, unit) op" where
  "Collector_stopCollecting available respond =
     change_collecting available respond stop_one StopCollecting"

definition threads_collecting :: "bool \<Rightarrow> int \<Rightarrow> tables \<Rightarrow> int set" where
  "threads_collecting postponed self db = foldl (\<lambda>threads row. insert (cg_thread row) threads) {}
     (filter (\<lambda>row. cg_collector row = self \<and> is_postponed row = (if postponed then 1 else 0)) (Collecting db))"

definition Collector_getThreads :: "int \<Rightarrow> (session, int set) op" where
  "Collector_getThreads self = reading (\<lambda>db. Ok (threads_collecting False self db))"

definition Collector_getPostponedThreads :: "int \<Rightarrow> (session, int set) op" where
  "Collector_getPostponedThreads self = reading (\<lambda>db. Ok (threads_collecting True self db))"

text \<open>Groups of collectors: every collector for every thread, one thread at a time.\<close>

definition for_group ::
  "(int \<Rightarrow> int set \<Rightarrow> (framework, unit) op) \<Rightarrow> int set \<Rightarrow> int set \<Rightarrow> (framework, unit) op" where
  "for_group operation collectors threads =
     for_each (sorted_list_of_set collectors) (\<lambda>_ c.
       for_each (sorted_list_of_set threads) (\<lambda>_ t. operation c {t}) ()) ()"

definition CollectorGroup_startCollecting ::
  "(string \<Rightarrow> bool) \<Rightarrow> (call \<Rightarrow> exception option) \<Rightarrow> int set \<Rightarrow> int set \<Rightarrow> (framework, unit) op" where
  "CollectorGroup_startCollecting available respond =
     for_group (Collector_startCollecting available respond)"

definition CollectorGroup_postponeCollecting ::
  "(string \<Rightarrow> bool) \<Rightarrow> (call \<Rightarrow> exception option) \<Rightarrow> int set \<Rightarrow> int set \<Rightarrow> (framework, unit) op" where
  "CollectorGroup_postponeCollecting available respond =
     for_group (Collector_postponeCollecting available respond)"

definition CollectorGroup_stopCollecting ::
  "(string \<Rightarrow> bool) \<Rightarrow> (call \<Rightarrow> exception option) \<Rightarrow> int set \<Rightarrow> int set \<Rightarrow> (framework, unit) op" where
  "CollectorGroup_stopCollecting available respond =
     for_group (Collector_stopCollecting available respond)"

section \<open>Parameters and metrics\<close>

text \<open>A null column reads as an empty blob.\<close>

definition parameter_blob :: "int \<Rightarrow> tables \<Rightarrow> byte list" where
  "parameter_blob self db =
     foldl (\<lambda>_ row. case parameter_data row of None \<Rightarrow> [] | Some b \<Rightarrow> b) []
       (filter (\<lambda>row. cl_id row = self) (Collectors db))"

definition store_parameters :: "int \<Rightarrow> byte list \<Rightarrow> tables \<Rightarrow> tables" where
  "store_parameters self blob db = db\<lparr>Collectors := map (\<lambda>row.
     if cl_id row = self then CollectorRow self (unique_id row) (Some blob) else row) (Collectors db)\<rparr>"

definition Collector_getParameterData :: "int \<Rightarrow> (session, byte list) op" where
  "Collector_getParameterData self = reading (\<lambda>db. Ok (parameter_blob self db))"

definition Collector_setParameterData :: "int \<Rightarrow> byte list \<Rightarrow> (session, unit) op" where
  "Collector_setParameterData self blob = in_transaction True (update_tables (store_parameters self blob))"

text \<open>
  A plugin declares the parameters and metrics that it has, with their types, and reads and writes
  the values in its blob.
\<close>

record ('t, 'v) plugin =
  dm_parameters :: "(string \<times> 't) list"
  dm_metrics :: "(string \<times> 't) list"
  get_parameter :: "string \<Rightarrow> byte list \<Rightarrow> 'v"
  set_parameter :: "string \<Rightarrow> 'v \<Rightarrow> byte list \<Rightarrow> byte list"

definition declared :: "(string \<times> 't) list \<Rightarrow> string \<Rightarrow> 't \<Rightarrow> (framework, unit) op" where
  "declared list uid type = assert_op (\<lambda>_. map_of list uid = Some type)"

definition Collector_getParameterValue ::
  "(string \<Rightarrow> bool) \<Rightarrow> ('t, 'v) plugin \<Rightarrow> 't \<Rightarrow> int \<Rightarrow> string \<Rightarrow> (framework, 'v) op" where
  "Collector_getParameterValue available impl type self uid =
     with_impl available self (
       andthen (declared (dm_parameters impl) uid type) (\<lambda>_.
       andthen (on_session (Collector_getParameterData self)) (\<lambda>blob.
         ret (get_parameter impl uid blob))))"

definition Collector_setParameterValue ::
  "(string \<Rightarrow> bool) \<Rightarrow> ('t, 'v) plugin \<Rightarrow> 't \<Rightarrow> int \<Rightarrow> string \<Rightarrow> 'v \<Rightarrow> (framework, unit) op" where
  "Collector_setParameterValue available impl type self uid value =
     with_impl available self (
       andthen (declared (dm_parameters impl) uid type) (\<lambda>_.
       andthen (on_session (Collector_getParameterData self)) (\<lambda>blob.
         on_session (Collector_setParameterData self (set_parameter impl uid value blob)))))"

text \<open>The vector of values is extended to one value for each extent asked for.\<close>

definition resize_values :: "'v \<Rightarrow> nat \<Rightarrow> 'v list \<Rightarrow> 'v list" where
  "resize_values zero n values =
     (if length values < n then values @ replicate (n - length values) zero else values)"

definition Collector_getMetricVector ::
  "nth_element \<Rightarrow> (string \<Rightarrow> bool) \<Rightarrow> ('t, 'p) plugin \<Rightarrow> 't \<Rightarrow> 'v \<Rightarrow> 'v list metric \<Rightarrow> int \<Rightarrow> string
    \<Rightarrow> int \<Rightarrow> ExtentGroup \<Rightarrow> 'v list \<Rightarrow> (framework, 'v list) op" where
  "Collector_getMetricVector ne available impl type zero metric self uid thread subextents values =
     with_impl available self (
       andthen (declared (dm_metrics impl) uid type) (\<lambda>_.
         Collector_getMetricValues ne metric self thread subextents
           (resize_values zero (length (dm_extents subextents)) values)))"

definition Collector_getMetricValue ::
  "nth_element \<Rightarrow> (string \<Rightarrow> bool) \<Rightarrow> ('t, 'p) plugin \<Rightarrow> 't \<Rightarrow> 'v \<Rightarrow> 'v list metric \<Rightarrow> int \<Rightarrow> string
    \<Rightarrow> int \<Rightarrow> extent \<Rightarrow> (framework, 'v) op" where
  "Collector_getMetricValue ne available impl type zero metric self uid thread e =
     andthen (Collector_getMetricVector ne available impl type zero metric self uid thread
         (ExtentGroup_push_back e ExtentGroup_empty) []) (\<lambda>values.
       case values of [] \<Rightarrow> abort | v # _ \<Rightarrow> ret v)"

section \<open>The table as a map\<close>

definition pair_of :: "CollectingRow \<Rightarrow> int \<times> int" where
  "pair_of row = (cg_collector row, cg_thread row)"

definition collecting :: "tables \<Rightarrow> int \<times> int \<Rightarrow> int option" where
  "collecting db = map_of (map (\<lambda>row. (pair_of row, is_postponed row)) (Collecting db))"

definition collecting_ok :: "tables \<Rightarrow> bool" where
  "collecting_ok db \<longleftrightarrow> distinct (map pair_of (Collecting db)) \<and>
     list_all (\<lambda>row. is_postponed row = 0 \<or> is_postponed row = 1) (Collecting db)"

lemma pair_of_simps [simp]: "pair_of (CollectingRow c t x) = (c, t)"
  by (simp add: pair_of_def)

lemma rows_collecting_pair: "rows_collecting c t db = filter (\<lambda>row. pair_of row = (c, t)) (Collecting db)"
  by (simp add: rows_collecting_def pair_of_def)

lemma filter_pair:
  "distinct (map pair_of rows) \<Longrightarrow> filter (\<lambda>row. pair_of row = k) rows
    = (case map_of (map (\<lambda>row. (pair_of row, is_postponed row)) rows) k of
         None \<Rightarrow> [] | Some x \<Rightarrow> [CollectingRow (fst k) (snd k) x])"
proof (induction rows)
  case (Cons row rows)
  have "map_of (map (\<lambda>row. (pair_of row, is_postponed row)) rows) (pair_of row) = None"
    using Cons.prems by (force simp: map_of_eq_None_iff)
  with Cons show ?case by (cases row) (auto split: option.splits)
qed simp

lemma collecting_flags_eq:
  "collecting_ok db \<Longrightarrow> collecting_flags c t db
    = (case collecting db (c, t) of None \<Rightarrow> (False, True) | Some x \<Rightarrow> (True, x \<noteq> 0))"
  by (simp add: collecting_flags_def rows_collecting_pair filter_pair collecting_ok_def collecting_def
      split: option.splits)

lemma collecting_values: "collecting_ok db \<Longrightarrow> collecting db k = Some x \<Longrightarrow> x = 0 \<or> x = 1"
  by (force simp: collecting_def collecting_ok_def list_all_iff dest!: map_of_SomeD)

lemma add_collecting_ok:
  assumes "collecting_ok db" and "collecting db (c, t) = None"
  shows "collecting_ok (add_collecting c t db)"
    and "collecting (add_collecting c t db) = (collecting db)((c, t) \<mapsto> 1)"
proof -
  have "(c, t) \<notin> set (map pair_of (Collecting db))"
    using assms(2) by (force simp: collecting_def map_of_eq_None_iff)
  then show "collecting_ok (add_collecting c t db)"
    using assms(1) by (auto simp: collecting_ok_def add_collecting_def)
  show "collecting (add_collecting c t db) = (collecting db)((c, t) \<mapsto> 1)"
    using assms(2) by (auto simp: collecting_def add_collecting_def fun_eq_iff map_add_def split: option.splits)
qed

lemma set_postponed_ok:
  assumes "collecting_ok db" and "x = 0 \<or> x = 1"
  shows "collecting_ok (set_postponed x c t db)"
    and "collecting (set_postponed x c t db)
      = (collecting db)((c, t) := map_option (\<lambda>_. x) (collecting db (c, t)))"
proof -
  let ?f = "\<lambda>row. if cg_collector row = c \<and> cg_thread row = t then CollectingRow c t x else row"
  have pairs: "pair_of (?f row) = pair_of row" for row by (auto simp: pair_of_def)
  have rows: "Collecting (set_postponed x c t db) = map ?f (Collecting db)"
    by (simp add: set_postponed_def)
  have "map pair_of (map ?f (Collecting db)) = map pair_of (Collecting db)"
    by (simp only: map_map comp_def pairs)
  with assms show "collecting_ok (set_postponed x c t db)"
    unfolding collecting_ok_def rows by (auto simp: list_all_iff simp del: map_map)
  have "map_of (map (\<lambda>row. (pair_of row, is_postponed row)) (map ?f rows)) k
      = ((map_of (map (\<lambda>row. (pair_of row, is_postponed row)) rows))((c, t) :=
          map_option (\<lambda>_. x) (map_of (map (\<lambda>row. (pair_of row, is_postponed row)) rows) (c, t)))) k" for rows k
    by (induction rows) (auto simp: pair_of_def)
  then show "collecting (set_postponed x c t db)
      = (collecting db)((c, t) := map_option (\<lambda>_. x) (collecting db (c, t)))"
    unfolding collecting_def rows by (intro ext)
qed

lemma remove_collecting_ok:
  assumes "collecting_ok db"
  shows "collecting_ok (remove_collecting c t db)"
    and "collecting (remove_collecting c t db) = (collecting db)((c, t) := None)"
proof -
  show "collecting_ok (remove_collecting c t db)"
    using assms by (auto simp: collecting_ok_def remove_collecting_def list_all_iff distinct_map
        intro: inj_on_subset)
  have "map_of (map (\<lambda>row. (pair_of row, is_postponed row)) (filter (\<lambda>row.
       \<not> (cg_collector row = c \<and> cg_thread row = t)) rows)) k
      = ((map_of (map (\<lambda>row. (pair_of row, is_postponed row)) rows))((c, t) := None)) k" for rows k
    by (induction rows) (auto simp: pair_of_def)
  moreover have "Collecting (remove_collecting c t db) = filter (\<lambda>row.
       \<not> (cg_collector row = c \<and> cg_thread row = t)) (Collecting db)"
    by (simp add: remove_collecting_def)
  ultimately show "collecting (remove_collecting c t db) = (collecting db)((c, t) := None)"
    unfolding collecting_def by (intro ext) simp
qed

section \<open>One machine for each pair\<close>

text \<open>
  The contract of the three loops: what becomes of a pair, and for which pairs the plugin has to act.
  The other tables and the transaction are left alone.
\<close>

definition only_collecting :: "session \<Rightarrow> session \<Rightarrow> bool" where
  "only_collecting s s' \<longleftrightarrow> saved s' = saved s \<and> nesting s' = nesting s \<and>
     (\<exists>rows. stored s' = (stored s)\<lparr>Collecting := rows\<rparr>)"

lemma only_collecting_refl: "only_collecting s s"
  by (auto simp: only_collecting_def intro: exI [of _ "Collecting (stored s)"])

lemma only_collecting_trans: "only_collecting s t \<Longrightarrow> only_collecting t u \<Longrightarrow> only_collecting s u"
  by (auto simp: only_collecting_def)

locale pair_machine =
  fixes step :: "int \<Rightarrow> int list \<Rightarrow> int \<Rightarrow> (session, int list) op"
    and target :: "int option \<Rightarrow> int option"
    and acts :: "int option \<Rightarrow> bool"
  assumes step_ok: "collecting_ok (stored s) \<Longrightarrow>
    \<exists>s'. step self acc t s = (Ok (acc @ (if acts (collecting (stored s) (self, t)) then [t] else [])), s') \<and>
      collecting_ok (stored s') \<and> only_collecting s s' \<and> collecting (stored s')
        = (collecting (stored s))((self, t) := target (collecting (stored s) (self, t)))"
begin

lemma loop_ok:
  assumes "collecting_ok (stored s)" and "distinct ts"
  shows "\<exists>s'. for_each ts (step self) acc s
      = (Ok (acc @ filter (\<lambda>t. acts (collecting (stored s) (self, t))) ts), s') \<and>
    collecting_ok (stored s') \<and> only_collecting s s' \<and> (\<forall>c t. collecting (stored s') (c, t)
      = (if c = self \<and> t \<in> set ts then target else id) (collecting (stored s) (c, t)))"
  using assms
proof (induction ts arbitrary: s acc)
  case Nil
  then show ?case by (simp add: ret_def only_collecting_refl)
next
  case (Cons t ts)
  from step_ok [OF Cons.prems(1), of self acc t] obtain s1 where
    one: "step self acc t s = (Ok (acc @ (if acts (collecting (stored s) (self, t)) then [t] else [])), s1)"
    and s1: "collecting_ok (stored s1)" "only_collecting s s1" "collecting (stored s1)
      = (collecting (stored s))((self, t) := target (collecting (stored s) (self, t)))"
    by blast
  let ?acc = "acc @ (if acts (collecting (stored s) (self, t)) then [t] else [])"
  from Cons.prems(2) have "distinct ts" by simp
  from Cons.IH [OF s1(1) this, of ?acc] obtain s' where
    rest: "for_each ts (step self) ?acc s1
      = (Ok (?acc @ filter (\<lambda>t. acts (collecting (stored s1) (self, t))) ts), s')"
    and s': "collecting_ok (stored s')" "only_collecting s1 s'" "\<And>c t. collecting (stored s') (c, t)
      = (if c = self \<and> t \<in> set ts then target else id) (collecting (stored s1) (c, t))"
    by blast
  have "filter (\<lambda>t. acts (collecting (stored s1) (self, t))) ts
      = filter (\<lambda>t. acts (collecting (stored s) (self, t))) ts"
    using Cons.prems(2) by (intro filter_cong refl) (auto simp: s1(3))
  then have "for_each (t # ts) (step self) acc s
      = (Ok (acc @ filter (\<lambda>t. acts (collecting (stored s) (self, t))) (t # ts)), s')"
    using rest by (simp add: andthen_def one)
  moreover have "collecting (stored s') (c, x)
      = (if c = self \<and> x \<in> set (t # ts) then target else id) (collecting (stored s) (c, x))" for c x
    using Cons.prems(2) by (auto simp: s'(3) s1(3))
  ultimately show ?case using s'(1) only_collecting_trans [OF s1(2) s'(2)] by blast
qed

end

lemma only_collecting_edits:
  "only_collecting s (s\<lparr>stored := set_postponed x c t (stored s)\<rparr>)"
  "only_collecting s (s\<lparr>stored := remove_collecting c t (stored s)\<rparr>)"
  "only_collecting s (s\<lparr>stored := set_postponed x c t (add_collecting c t (stored s))\<rparr>)"
  by (auto simp: only_collecting_def set_postponed_def remove_collecting_def add_collecting_def)

lemmas step_simps = andthen_def query_def when_op_def update_tables_def ret_def collecting_flags_eq

interpretation starting: pair_machine start_one "\<lambda>_. Some 0" "\<lambda>x. x \<noteq> Some 0"
proof
  fix s :: session and self acc t
  assume ok: "collecting_ok (stored s)"
  let ?db = "stored s"
  show "\<exists>s'. start_one self acc t s
      = (Ok (acc @ (if collecting ?db (self, t) \<noteq> Some 0 then [t] else [])), s') \<and>
    collecting_ok (stored s') \<and> only_collecting s s' \<and>
    collecting (stored s') = (collecting ?db)((self, t) := Some 0)"
  proof (cases "collecting ?db (self, t)")
    case None
    note add = add_collecting_ok [OF ok None]
    note set = set_postponed_ok [OF add(1), of 0 self t]
    have "start_one self acc t s
        = (Ok (acc @ [t]), s\<lparr>stored := set_postponed 0 self t (add_collecting self t ?db)\<rparr>)"
      using ok None by (simp add: start_one_def step_simps)
    with set None show ?thesis
      by (intro exI [of _ "s\<lparr>stored := set_postponed 0 self t (add_collecting self t ?db)\<rparr>"])
        (simp add: add(2) only_collecting_edits)
  next
    case (Some x)
    note set = set_postponed_ok [OF ok, of 0 self t]
    show ?thesis
    proof (cases "x = 0")
      case True
      with ok Some have "start_one self acc t s = (Ok acc, s)" by (simp add: start_one_def step_simps)
      with True Some ok show ?thesis
        by (intro exI [of _ s]) (simp add: only_collecting_refl fun_upd_idem)
    next
      case False
      with ok Some have "start_one self acc t s = (Ok (acc @ [t]), s\<lparr>stored := set_postponed 0 self t ?db\<rparr>)"
        by (simp add: start_one_def step_simps)
      with False Some set show ?thesis
        by (intro exI [of _ "s\<lparr>stored := set_postponed 0 self t ?db\<rparr>"]) (simp add: only_collecting_edits)
    qed
  qed
qed

interpretation postponing: pair_machine postpone_one "map_option (\<lambda>_. 1)" "\<lambda>x. x = Some 0"
proof
  fix s :: session and self acc t
  assume ok: "collecting_ok (stored s)"
  let ?db = "stored s"
  note set = set_postponed_ok [OF ok, of 1 self t]
  show "\<exists>s'. postpone_one self acc t s
      = (Ok (acc @ (if collecting ?db (self, t) = Some 0 then [t] else [])), s') \<and>
    collecting_ok (stored s') \<and> only_collecting s s' \<and> collecting (stored s')
      = (collecting ?db)((self, t) := map_option (\<lambda>_. 1) (collecting ?db (self, t)))"
  proof (cases "collecting ?db (self, t) = Some 0")
    case True
    with ok have "postpone_one self acc t s = (Ok (acc @ [t]), s\<lparr>stored := set_postponed 1 self t ?db\<rparr>)"
      by (simp add: postpone_one_def step_simps)
    with True set show ?thesis
      by (intro exI [of _ "s\<lparr>stored := set_postponed 1 self t ?db\<rparr>"]) (simp add: only_collecting_edits)
  next
    case False
    with ok have "postpone_one self acc t s = (Ok acc, s)"
      by (auto simp: postpone_one_def step_simps split: option.splits)
    moreover have "map_option (\<lambda>_. 1) (collecting ?db (self, t)) = collecting ?db (self, t)"
      using False collecting_values [OF ok, of "(self, t)"] by (cases "collecting ?db (self, t)") auto
    ultimately show ?thesis
      using False ok by (intro exI [of _ s]) (simp add: only_collecting_refl fun_upd_idem)
  qed
qed

interpretation stopping: pair_machine stop_one "\<lambda>_. None" "\<lambda>x. x = Some 0"
proof
  fix s :: session and self acc t
  assume ok: "collecting_ok (stored s)"
  let ?db = "stored s"
  note remove = remove_collecting_ok [OF ok, of self t]
  show "\<exists>s'. stop_one self acc t s
      = (Ok (acc @ (if collecting ?db (self, t) = Some 0 then [t] else [])), s') \<and>
    collecting_ok (stored s') \<and> only_collecting s s' \<and>
    collecting (stored s') = (collecting ?db)((self, t) := None)"
  proof (cases "collecting ?db (self, t)")
    case None
    with ok have "stop_one self acc t s = (Ok acc, s)" by (simp add: stop_one_def step_simps)
    with None ok show ?thesis
      by (intro exI [of _ s]) (simp add: only_collecting_refl fun_upd_idem)
  next
    case (Some x)
    with ok have "stop_one self acc t s = (Ok (acc @ (if x = 0 then [t] else [])),
        s\<lparr>stored := remove_collecting self t ?db\<rparr>)"
      by (simp add: stop_one_def step_simps)
    with Some remove show ?thesis
      by (intro exI [of _ "s\<lparr>stored := remove_collecting self t ?db\<rparr>"]) (simp add: only_collecting_edits)
  qed
qed

section \<open>The whole operation\<close>

lemma on_session_transaction: "on_session (in_transaction w m) = transaction_on w (on_session m)"
  by (auto simp: fun_eq_iff on_session_def in_transaction_def transaction_on_def at_session_def
      split: prod.splits res.splits)

lemma with_impl_Ok:
  assumes "available (collector_id self (stored (the_session s)))"
  shows "\<exists>t. with_impl available self body s = body t \<and> unchanged s t \<and> data_cache t = data_cache s"
proof -
  from reading_unchanged [of "\<lambda>db. Ok (collector_id self db)" s] obtain t where
    "on_session (reading (\<lambda>db. Ok (collector_id self db))) s
      = (Ok (collector_id self (stored (the_session s))), s\<lparr>the_session := t\<rparr>)"
    "unchanged s (s\<lparr>the_session := t\<rparr>)" by auto
  then show ?thesis
    using assms by (intro exI [of _ "s\<lparr>the_session := t\<rparr>"]) (simp add: with_impl_def andthen_def)
qed

lemma balanced_calls: "balanced s (t\<lparr>calls := x\<rparr>) = balanced s t"
  by (simp add: balanced_def)

context pair_machine
begin

lemma change_ok:
  fixes s :: framework
  defines "db \<equiv> stored (the_session s)"
  assumes available: "available (collector_id self db)" and ok: "collecting_ok db" and "finite threads"
  defines "affected \<equiv> filter (\<lambda>t. acts (collecting db (self, t))) (sorted_list_of_set threads)"
  shows "\<exists>s'. change_collecting available respond step act self threads s
      = (if affected = [] then Ok () else case respond (act self affected) of None \<Rightarrow> Ok () | Some e \<Rightarrow> Throw e, s') \<and>
    balanced s s' \<and> data_cache s' = data_cache s \<and>
    calls s' = calls s @ (if affected = [] then [] else [act self affected]) \<and>
    (\<exists>rows. stored (the_session s') = db\<lparr>Collecting := rows\<rparr>) \<and>
    collecting_ok (stored (the_session s')) \<and> (\<forall>c t. collecting (stored (the_session s')) (c, t)
      = (if c = self \<and> t \<in> threads then target else id) (collecting db (c, t)))"
proof -
  let ?loop = "for_each (sorted_list_of_set threads) (step self) []"
  let ?body = "andthen (on_session (in_transaction True ?loop))
    (\<lambda>affected. if affected \<noteq> [] then call_plugin respond (act self affected) else ret ())"
  from with_impl_Ok [where available = available and s = s and body = ?body,
      OF available [unfolded db_def]] obtain s1 where
    impl: "change_collecting available respond step act self threads s = ?body s1"
    and s1: "unchanged s s1" "data_cache s1 = data_cache s"
    unfolding change_collecting_def by blast
  have db1: "stored (the_session s1) = db" using s1(1) by (simp add: unchanged_def db_def)
  let ?begun = "at_session (Begin True) s1"
  have "collecting_ok (stored (the_session ?begun))" using ok db1 by simp
  from loop_ok [OF this, of "sorted_list_of_set threads" self "[]"] obtain x where
    x: "?loop (the_session ?begun) = (Ok affected, x)" "collecting_ok (stored x)"
      "only_collecting (the_session ?begun) x"
      "\<And>c t. collecting (stored x) (c, t)
        = (if c = self \<and> t \<in> threads then target else id) (collecting db (c, t))"
    using db1 \<open>finite threads\<close> by (auto simp: affected_def)
  let ?t = "?begun\<lparr>the_session := x\<rparr>"
  have body: "on_session ?loop ?begun = (Ok affected, ?t)" by (simp only: on_session_def x(1) prod.case)
  have kept: "balanced ?begun ?t" using x(3) by (simp add: balanced_def only_collecting_def)
  note committed = transaction_on_Ok [of "on_session ?loop", OF body kept]
  have run: "on_session (in_transaction True ?loop) s1 = (Ok affected, at_session Commit ?t)"
    and t: "stored (the_session (at_session Commit ?t)) = stored x" "balanced s1 (at_session Commit ?t)"
    unfolding on_session_transaction using committed by simp_all
  let ?s' = "(at_session Commit ?t)\<lparr>calls := calls s @ (if affected = [] then [] else [act self affected])\<rparr>"
  have "calls s1 = calls s" using s1(1) by (simp add: unchanged_def)
  then have "change_collecting available respond step act self threads s
      = (if affected = [] then Ok () else case respond (act self affected) of None \<Rightarrow> Ok () | Some e \<Rightarrow> Throw e, ?s')"
    unfolding impl by (simp add: andthen_def run ret_def call_plugin_def at_session_def)
  moreover have "balanced s ?s'"
    unfolding balanced_calls by (rule balanced_trans [OF _ t(2)]) (use s1(1) in \<open>simp add: unchanged_iff\<close>)
  moreover have "\<exists>rows. stored (the_session ?s') = db\<lparr>Collecting := rows\<rparr>"
    using x(3) t(1) db1 by (auto simp: only_collecting_def)
  ultimately show ?thesis
    using x(2,4) t(1) s1(2) by (intro exI [of _ ?s']) simp
qed

end

section \<open>What the plugins are told\<close>

datatype status = Idle | Postponed | Collects

definition status :: "framework \<Rightarrow> int \<Rightarrow> int \<Rightarrow> status" where
  "status s c t = (case collecting (stored (the_session s)) (c, t) of
     None \<Rightarrow> Idle | Some x \<Rightarrow> if x = 0 then Collects else Postponed)"

fun after_call :: "(int \<times> int) set \<Rightarrow> call \<Rightarrow> (int \<times> int) set" where
  "after_call S (StartCollecting c ts) = S \<union> {c} \<times> set ts"
| "after_call S (StopCollecting c ts) = S - {c} \<times> set ts"
| "after_call S (Retain t) = S"
| "after_call S (Release t) = S"

text \<open>A plugin starts what is not running and stops what is, and never for no thread at all.\<close>

fun allowed :: "(int \<times> int) set \<Rightarrow> call \<Rightarrow> bool" where
  "allowed S (StartCollecting c ts) \<longleftrightarrow> ts \<noteq> [] \<and> {c} \<times> set ts \<inter> S = {}"
| "allowed S (StopCollecting c ts) \<longleftrightarrow> ts \<noteq> [] \<and> {c} \<times> set ts \<subseteq> S"
| "allowed S (Retain t) \<longleftrightarrow> True"
| "allowed S (Release t) \<longleftrightarrow> True"

fun legal :: "(int \<times> int) set \<Rightarrow> call list \<Rightarrow> bool" where
  "legal S [] \<longleftrightarrow> True"
| "legal S (c # cs) \<longleftrightarrow> allowed S c \<and> legal (after_call S c) cs"

lemma legal_snoc: "legal S (cs @ [c]) \<longleftrightarrow> legal S cs \<and> allowed (foldl after_call S cs) c"
  by (induction cs arbitrary: S) auto

definition collecting_inv :: "framework \<Rightarrow> bool" where
  "collecting_inv s \<longleftrightarrow> collecting_ok (stored (the_session s)) \<and> legal {} (calls s) \<and>
     foldl after_call {} (calls s) = {k. collecting (stored (the_session s)) k = Some 0}"

context pair_machine
begin

lemma change_inv:
  assumes s: "collecting_inv s" and "finite threads"
    and act: "act = StartCollecting \<and> (\<forall>x. target x = Some 0) \<and> acts = (\<lambda>x. x \<noteq> Some 0) \<or>
      act = StopCollecting \<and> (\<forall>x. target x \<noteq> Some 0) \<and> acts = (\<lambda>x. x = Some 0)"
    and run: "change_collecting available respond step act self threads s = (r, s')"
  shows "collecting_inv s'"
proof (cases "available (collector_id self (stored (the_session s)))")
  case False
  from reading_unchanged [of "\<lambda>db. Ok (collector_id self db)" s] obtain t where
    "on_session (reading (\<lambda>db. Ok (collector_id self db))) s
      = (Ok (collector_id self (stored (the_session s))), s\<lparr>the_session := t\<rparr>)"
    "unchanged s (s\<lparr>the_session := t\<rparr>)" by auto
  with False run have "unchanged s s'"
    by (auto simp: change_collecting_def with_impl_def andthen_def throw_def)
  with s show ?thesis by (simp add: collecting_inv_def unchanged_def)
next
  case True
  let ?m = "collecting (stored (the_session s))"
  let ?ts = "filter (\<lambda>t. acts (?m (self, t))) (sorted_list_of_set threads)"
  have ok: "collecting_ok (stored (the_session s))" and running: "foldl after_call {} (calls s) = {k. ?m k = Some 0}"
    and legal: "legal {} (calls s)"
    using s by (simp_all add: collecting_inv_def)
  from change_ok [where available = available and s = s and respond = respond and act = act,
      OF True ok \<open>finite threads\<close>] run have
    calls: "calls s' = calls s @ (if ?ts = [] then [] else [act self ?ts])"
    and ok': "collecting_ok (stored (the_session s'))"
    and m: "\<And>c t. collecting (stored (the_session s')) (c, t)
      = (if c = self \<and> t \<in> threads then target else id) (?m (c, t))"
    by auto
  have ne: "StopCollecting \<noteq> StartCollecting" by (auto simp: fun_eq_iff)
  define us where "us = ?ts"
  have us: "set us = {t \<in> threads. acts (?m (self, t))}" using \<open>finite threads\<close> by (auto simp: us_def)
  have "{k. collecting (stored (the_session s')) k = Some 0}
      = (if act = StartCollecting then {k. ?m k = Some 0} \<union> {self} \<times> set us
         else {k. ?m k = Some 0} - {self} \<times> set us)"
    using act ne unfolding us by (auto simp: m split: if_splits)
  moreover have "calls s' = calls s @ (if us = [] then [] else [act self us])" using calls by (simp add: us_def)
  moreover have "act = StartCollecting \<and> {self} \<times> set us \<inter> {k. ?m k = Some 0} = {} \<or>
      act = StopCollecting \<and> {self} \<times> set us \<subseteq> {k. ?m k = Some 0}"
    using act unfolding us by auto
  ultimately show ?thesis
    using ne ok' legal running unfolding collecting_inv_def
    by (cases "us = []") (auto simp: legal_snoc)
qed

end

lemma filter_sorted_set:
  "finite A \<Longrightarrow> filter P (sorted_list_of_set A) = sorted_list_of_set {x \<in> A. P x}" for A :: "int set"
  by (intro sorted_distinct_set_unique) (auto simp: sorted_wrt_filter)

context pair_machine
begin

text \<open>The operation with a plugin that does not throw.\<close>

lemma change_quiet:
  fixes s :: framework
  defines "db \<equiv> stored (the_session s)"
  assumes "available (collector_id self db)" and "collecting_ok db" and "finite threads"
    and "\<And>c. respond c = None"
  shows "\<exists>s'. change_collecting available respond step act self threads s = (Ok (), s') \<and>
    calls s' = calls s @ (let ts = sorted_list_of_set {t \<in> threads. acts (collecting db (self, t))}
      in if ts = [] then [] else [act self ts]) \<and>
    (\<exists>rows. stored (the_session s') = db\<lparr>Collecting := rows\<rparr>) \<and>
    collecting_ok (stored (the_session s')) \<and> (\<forall>c t. collecting (stored (the_session s')) (c, t)
      = (if c = self \<and> t \<in> threads then target else id) (collecting db (c, t)))"
  using change_ok [where available = available and s = s and respond = respond and act = act,
      OF assms(2-4) [unfolded db_def]]
  unfolding Let_def db_def assms(5) option.case if_cancel filter_sorted_set [OF assms(4)] by blast

end

datatype collecting_request = StartFor int "int set" | PostponeFor int "int set" | StopFor int "int set"

fun perform_collecting ::
  "(string \<Rightarrow> bool) \<Rightarrow> (call \<Rightarrow> exception option) \<Rightarrow> collecting_request \<Rightarrow> (framework, unit) op" where
  "perform_collecting available respond (StartFor c ts) = Collector_startCollecting available respond c ts"
| "perform_collecting available respond (PostponeFor c ts) = Collector_postponeCollecting available respond c ts"
| "perform_collecting available respond (StopFor c ts) = Collector_stopCollecting available respond c ts"

fun threads_of :: "collecting_request \<Rightarrow> int set" where
  "threads_of (StartFor c ts) = ts"
| "threads_of (PostponeFor c ts) = ts"
| "threads_of (StopFor c ts) = ts"

inductive reachable_collecting ::
  "(string \<Rightarrow> bool) \<Rightarrow> (call \<Rightarrow> exception option) \<Rightarrow> framework \<Rightarrow> bool" for available respond where
  start: "Collecting (stored (the_session s)) = [] \<Longrightarrow> calls s = [] \<Longrightarrow>
    reachable_collecting available respond s"
| request: "reachable_collecting available respond s \<Longrightarrow> finite (threads_of rq) \<Longrightarrow>
    perform_collecting available respond rq s = (r, s') \<Longrightarrow> reachable_collecting available respond s'"

lemma perform_collecting_inv:
  assumes "collecting_inv s" and "finite (threads_of rq)"
    and "perform_collecting available respond rq s = (r, s')"
  shows "collecting_inv s'"
proof (cases rq)
  case (StartFor c ts)
  with assms(2,3) have "finite ts"
    "change_collecting available respond start_one StartCollecting c ts s = (r, s')"
    by (simp_all add: Collector_startCollecting_def)
  then show ?thesis
    using starting.change_inv [OF assms(1), of ts StartCollecting available respond c r s'] by simp
next
  case (PostponeFor c ts)
  with assms(2,3) have "finite ts"
    "change_collecting available respond postpone_one StopCollecting c ts s = (r, s')"
    by (simp_all add: Collector_postponeCollecting_def)
  then show ?thesis
    using postponing.change_inv [OF assms(1), of ts StopCollecting available respond c r s'] by simp
next
  case (StopFor c ts)
  with assms(2,3) have "finite ts"
    "change_collecting available respond stop_one StopCollecting c ts s = (r, s')"
    by (simp_all add: Collector_stopCollecting_def)
  then show ?thesis
    using stopping.change_inv [OF assms(1), of ts StopCollecting available respond c r s'] by simp
qed

lemma reachable_collecting_inv: "reachable_collecting available respond s \<Longrightarrow> collecting_inv s"
proof (induction rule: reachable_collecting.induct)
  case (start s)
  then show ?case by (simp add: collecting_inv_def collecting_ok_def collecting_def)
next
  case (request s rq r s')
  then show ?case using perform_collecting_inv by blast
qed

section \<open>Properties\<close>

lemma status_of_collecting:
  assumes "collecting_ok (stored (the_session s))"
  shows "status s c t = Collects \<longleftrightarrow> collecting (stored (the_session s)) (c, t) = Some 0"
    and "status s c t = Postponed \<longleftrightarrow> collecting (stored (the_session s)) (c, t) = Some 1"
  using collecting_values [OF assms, of "(c, t)"] by (auto simp: status_def split: option.splits)

lemma threads_collecting_iff:
  assumes "collecting_ok db"
  shows "t \<in> threads_collecting p c db \<longleftrightarrow> collecting db (c, t) = Some (if p then 1 else 0)"
proof -
  have "t \<in> threads_collecting p c db \<longleftrightarrow> ((c, t), if p then 1 else 0)
      \<in> set (map (\<lambda>row. (pair_of row, is_postponed row)) (Collecting db))"
    by (force simp: threads_collecting_def foldl_insert pair_of_def)
  moreover have "distinct (map fst (map (\<lambda>row. (pair_of row, is_postponed row)) (Collecting db)))"
    using assms by (simp add: collecting_ok_def comp_def)
  ultimately show ?thesis unfolding collecting_def by (simp only: map_of_eq_Some_iff)
qed

lemma sample_collects:
  "collecting_ok (stored (the_session sample_run))" "status sample_run 1 1 = Idle"
  "calls sample_run = []" "Collecting (stored (the_session sample_run)) = []"
  by (simp_all add: sample_run_simps no_tables_def collecting_ok_def status_def collecting_def)

text \<open>C24: starting, postponing and stopping a collector for a set of threads takes every pair of the
  collector and one of these threads through its state machine, whatever state each of them is in, and
  changes no other pair and no other table; the plugin is told once, and of exactly the threads for
  which there is something to start or to stop.\<close>

theorem collecting_machine:
  assumes "available (collector_id self (stored (the_session s)))" and "finite threads"
    and "collecting_ok (stored (the_session s))" and "\<And>c. respond c = None"
  shows "\<exists>s1 s2 s3.
    Collector_startCollecting available respond self threads s = (Ok (), s1) \<and>
    (\<forall>c t. status s1 c t = (if c = self \<and> t \<in> threads then Collects else status s c t)) \<and>
    calls s1 = calls s @ (let ts = sorted_list_of_set {t \<in> threads. status s self t \<noteq> Collects}
      in if ts = [] then [] else [StartCollecting self ts]) \<and>
    Collector_postponeCollecting available respond self threads s = (Ok (), s2) \<and>
    (\<forall>c t. status s2 c t = (if c = self \<and> t \<in> threads \<and> status s c t = Collects then Postponed
      else status s c t)) \<and>
    calls s2 = calls s @ (let ts = sorted_list_of_set {t \<in> threads. status s self t = Collects}
      in if ts = [] then [] else [StopCollecting self ts]) \<and>
    Collector_stopCollecting available respond self threads s = (Ok (), s3) \<and>
    (\<forall>c t. status s3 c t = (if c = self \<and> t \<in> threads then Idle else status s c t)) \<and>
    calls s3 = calls s @ (let ts = sorted_list_of_set {t \<in> threads. status s self t = Collects}
      in if ts = [] then [] else [StopCollecting self ts]) \<and>
    (\<forall>x \<in> {s1, s2, s3}. collecting_ok (stored (the_session x)) \<and>
      (\<exists>rows. stored (the_session x) = (stored (the_session s))\<lparr>Collecting := rows\<rparr>))"
proof -
  let ?m = "collecting (stored (the_session s))"
  have sets: "{t \<in> threads. ?m (self, t) \<noteq> Some 0} = {t \<in> threads. status s self t \<noteq> Collects}"
    "{t \<in> threads. ?m (self, t) = Some 0} = {t \<in> threads. status s self t = Collects}"
    by (simp_all add: status_of_collecting(1) [OF assms(3)])
  from starting.change_quiet [where available = available and s = s and respond = respond
      and act = StartCollecting, OF assms(1,3,2,4)] obtain s1 where
    s1: "Collector_startCollecting available respond self threads s = (Ok (), s1)"
      "calls s1 = calls s @ (let ts = sorted_list_of_set {t \<in> threads. status s self t \<noteq> Collects}
        in if ts = [] then [] else [StartCollecting self ts])"
      "\<exists>rows. stored (the_session s1) = (stored (the_session s))\<lparr>Collecting := rows\<rparr>"
      "collecting_ok (stored (the_session s1))" "\<And>c t. collecting (stored (the_session s1)) (c, t)
        = (if c = self \<and> t \<in> threads then (\<lambda>_. Some 0) else id) (?m (c, t))"
    unfolding Collector_startCollecting_def sets by blast
  from postponing.change_quiet [where available = available and s = s and respond = respond
      and act = StopCollecting, OF assms(1,3,2,4)] obtain s2 where
    s2: "Collector_postponeCollecting available respond self threads s = (Ok (), s2)"
      "calls s2 = calls s @ (let ts = sorted_list_of_set {t \<in> threads. status s self t = Collects}
        in if ts = [] then [] else [StopCollecting self ts])"
      "\<exists>rows. stored (the_session s2) = (stored (the_session s))\<lparr>Collecting := rows\<rparr>"
      "collecting_ok (stored (the_session s2))" "\<And>c t. collecting (stored (the_session s2)) (c, t)
        = (if c = self \<and> t \<in> threads then map_option (\<lambda>_. 1) else id) (?m (c, t))"
    unfolding Collector_postponeCollecting_def sets by blast
  from stopping.change_quiet [where available = available and s = s and respond = respond
      and act = StopCollecting, OF assms(1,3,2,4)] obtain s3 where
    s3: "Collector_stopCollecting available respond self threads s = (Ok (), s3)"
      "calls s3 = calls s @ (let ts = sorted_list_of_set {t \<in> threads. status s self t = Collects}
        in if ts = [] then [] else [StopCollecting self ts])"
      "\<exists>rows. stored (the_session s3) = (stored (the_session s))\<lparr>Collecting := rows\<rparr>"
      "collecting_ok (stored (the_session s3))" "\<And>c t. collecting (stored (the_session s3)) (c, t)
        = (if c = self \<and> t \<in> threads then (\<lambda>_. None) else id) (?m (c, t))"
    unfolding Collector_stopCollecting_def sets by blast
  have "status s1 c t = (if c = self \<and> t \<in> threads then Collects else status s c t)"
    "status s2 c t = (if c = self \<and> t \<in> threads \<and> status s c t = Collects then Postponed else status s c t)"
    "status s3 c t = (if c = self \<and> t \<in> threads then Idle else status s c t)" for c t
    by (auto simp: status_def s1(5) s2(5) s3(5) split: option.splits)
  with s1(1-4) s2(1-4) s3(1-4) show ?thesis
    by (intro exI [of _ s1] exI [of _ s2] exI [of _ s3]) simp
qed

lemma collecting_machine_witness:
  "\<exists>s1. Collector_startCollecting (\<lambda>_. True) (\<lambda>_. None) 1 {1, 2} sample_run = (Ok (), s1) \<and>
     status s1 1 2 = Collects \<and> calls s1 = [StartCollecting 1 [1, 2]]"
proof -
  have idle: "status sample_run 1 t = Idle" for t
    by (simp add: sample_run_simps no_tables_def status_def collecting_def)
  have "{t \<in> {1, 2}. status sample_run 1 t \<noteq> Collects} = {1, 2::int}" by (auto simp: idle)
  then show ?thesis
    using collecting_machine [of "\<lambda>_. True" 1 sample_run "{1, 2}" "\<lambda>_. None"] sample_collects
    by (auto simp: Let_def)
qed

text \<open>C25: in every state that starting, postponing and stopping can reach, also if plugins are missing or
  throw, no plugin has been told to start what was running or to stop what was not, what is running is
  exactly what the table says, and the two queries of a collector for its threads agree with it.\<close>

theorem collecting_protocol:
  assumes "reachable_collecting available respond s"
  shows "legal {} (calls s) \<and> foldl after_call {} (calls s) = {(c, t). status s c t = Collects} \<and>
    (\<forall>c. fst (Collector_getThreads c (the_session s)) = Ok {t. status s c t = Collects} \<and>
      fst (Collector_getPostponedThreads c (the_session s)) = Ok {t. status s c t = Postponed})"
proof -
  have inv: "collecting_inv s" by (rule reachable_collecting_inv [OF assms])
  then have ok: "collecting_ok (stored (the_session s))" by (simp add: collecting_inv_def)
  have "threads_collecting p c (stored (the_session s))
      = {t. status s c t = (if p then Postponed else Collects)}" for p c
    using threads_collecting_iff [OF ok, of _ p c] status_of_collecting [OF ok, of c] by auto
  with inv show ?thesis
    by (auto simp: collecting_inv_def status_of_collecting [OF ok] Collector_getThreads_def
        Collector_getPostponedThreads_def reading_fst)
qed

lemma collecting_protocol_witness:
  "\<exists>s1 s2. Collector_startCollecting (\<lambda>_. True) (\<lambda>_. None) 1 {1} sample_run = (Ok (), s1) \<and>
     Collector_startCollecting (\<lambda>_. True) (\<lambda>_. None) 1 {1} s1 = (Ok (), s2) \<and> legal {} (calls s2)"
proof -
  let ?start = "Collector_startCollecting (\<lambda>_. True) (\<lambda>_. None) 1 {1}"
  have run: "collecting_ok (stored (the_session s)) \<Longrightarrow> \<exists>s'. ?start s = (Ok (), s') \<and>
      collecting_ok (stored (the_session s'))" for s
    unfolding Collector_startCollecting_def
    using starting.change_ok [of "\<lambda>_. True" 1 s "{1}" "\<lambda>_. None" StartCollecting] by auto
  from run [OF sample_collects(1)] obtain s1 where s1: "?start sample_run = (Ok (), s1)"
    "collecting_ok (stored (the_session s1))" by blast
  from run [OF s1(2)] obtain s2 where s2: "?start s1 = (Ok (), s2)" by blast
  have "reachable_collecting (\<lambda>_. True) (\<lambda>_. None) sample_run"
    by (rule reachable_collecting.start) (simp_all add: sample_collects)
  then have "reachable_collecting (\<lambda>_. True) (\<lambda>_. None) s1"
    by (rule reachable_collecting.request [of _ _ _ "StartFor 1 {1}"]) (simp_all add: s1)
  then have "reachable_collecting (\<lambda>_. True) (\<lambda>_. None) s2"
    by (rule reachable_collecting.request [of _ _ _ "StartFor 1 {1}"]) (simp_all add: s2)
  from collecting_protocol [OF this] s1(1) s2 show ?thesis by blast
qed

lemma stored_parameters:
  fixes blob :: "byte list"
  defines "f \<equiv> \<lambda>self row. if cl_id row = self then CollectorRow self (unique_id row) (Some blob) else row"
  shows "self \<in> cl_id ` set (Collectors db) \<Longrightarrow> parameter_blob self (store_parameters self blob db) = blob"
    and "c \<noteq> self \<Longrightarrow> parameter_blob c (store_parameters self blob db) = parameter_blob c db"
    and "collector_id c (store_parameters self blob db) = collector_id c db"
proof -
  have rows: "Collectors (store_parameters self blob db) = map (f self) (Collectors db)"
    by (simp add: store_parameters_def f_def)
  have own: "filter (\<lambda>row. cl_id row = self) (map (f self) rs)
      = map (f self) (filter (\<lambda>row. cl_id row = self) rs)" for rs
    by (induction rs) (auto simp: f_def)
  have other: "c \<noteq> self \<Longrightarrow> filter (\<lambda>row. cl_id row = c) (map (f self) rs)
      = filter (\<lambda>row. cl_id row = c) rs" for rs
    by (induction rs) (auto simp: f_def)
  show "self \<in> cl_id ` set (Collectors db) \<Longrightarrow> parameter_blob self (store_parameters self blob db) = blob"
  proof -
    assume "self \<in> cl_id ` set (Collectors db)"
    then have "filter (\<lambda>row. cl_id row = self) (Collectors db) \<noteq> []" by (auto simp: filter_empty_conv)
    moreover have "last (filter (\<lambda>row. cl_id row = self) (Collectors db)) \<in> {row. cl_id row = self}"
      if "filter (\<lambda>row. cl_id row = self) (Collectors db) \<noteq> []"
      using last_in_set [OF that] by simp
    ultimately show ?thesis
      unfolding parameter_blob_def rows own by (simp add: foldl_last last_map) (simp add: f_def)
  qed
  show "c \<noteq> self \<Longrightarrow> parameter_blob c (store_parameters self blob db) = parameter_blob c db"
    unfolding parameter_blob_def rows by (simp add: other)
  have names: "map unique_id (filter (\<lambda>row. cl_id row = c) (map (f self) rs))
      = map unique_id (filter (\<lambda>row. cl_id row = c) rs)" for rs
    by (induction rs) (auto simp: f_def)
  have last: "foldl (\<lambda>_ row. unique_id row) a rs = foldl (\<lambda>_ n. n) a (map unique_id rs)" for a rs
    by (induction rs arbitrary: a) auto
  show "collector_id c (store_parameters self blob db) = collector_id c db"
    unfolding collector_id_def rows last names ..
qed

lemma declared_Ok: "map_of list uid = Some type \<Longrightarrow> declared list uid type s = (Ok (), s)"
  by (simp add: declared_def assert_op_def)

lemma getParameterValue_run:
  assumes "available (collector_id self (stored (the_session s)))"
    and "map_of (dm_parameters impl) uid = Some type"
  shows "fst (Collector_getParameterValue available impl type self uid s)
    = Ok (get_parameter impl uid (parameter_blob self (stored (the_session s))))"
proof -
  let ?body = "andthen (declared (dm_parameters impl) uid type) (\<lambda>_.
      andthen (on_session (Collector_getParameterData self)) (\<lambda>blob. ret (get_parameter impl uid blob)))"
  from with_impl_Ok [where available = available and s = s and body = ?body, OF assms(1)] obtain s1 where
    run: "Collector_getParameterValue available impl type self uid s = ?body s1" and "unchanged s s1"
    unfolding Collector_getParameterValue_def by blast
  then have db: "stored (the_session s1) = stored (the_session s)" by (simp add: unchanged_def)
  from reading_unchanged [of "\<lambda>db. Ok (parameter_blob self db)" s1] obtain t where
    "on_session (Collector_getParameterData self) s1
      = (Ok (parameter_blob self (stored (the_session s1))), s1\<lparr>the_session := t\<rparr>)"
    unfolding Collector_getParameterData_def by auto
  then show ?thesis
    unfolding run by (simp add: andthen_def declared_Ok [OF assms(2)] ret_def db)
qed

lemma setParameterValue_run:
  assumes "available (collector_id self (stored (the_session s)))"
    and "map_of (dm_parameters impl) uid = Some type"
  shows "\<exists>s'. Collector_setParameterValue available impl type self uid v s = (Ok (), s') \<and> balanced s s' \<and>
    stored (the_session s') = store_parameters self (set_parameter impl uid v
      (parameter_blob self (stored (the_session s)))) (stored (the_session s))"
proof -
  let ?db = "stored (the_session s)"
  let ?new = "set_parameter impl uid v (parameter_blob self ?db)"
  let ?body = "andthen (declared (dm_parameters impl) uid type) (\<lambda>_.
      andthen (on_session (Collector_getParameterData self)) (\<lambda>blob.
        on_session (Collector_setParameterData self (set_parameter impl uid v blob))))"
  from with_impl_Ok [where available = available and s = s and body = ?body, OF assms(1)] obtain s1 where
    run: "Collector_setParameterValue available impl type self uid v s = ?body s1" and s1: "unchanged s s1"
    unfolding Collector_setParameterValue_def by blast
  then have db1: "stored (the_session s1) = ?db" by (simp add: unchanged_def)
  from reading_unchanged [of "\<lambda>db. Ok (parameter_blob self db)" s1] obtain t where
    "on_session (Collector_getParameterData self) s1
      = (Ok (parameter_blob self ?db), s1\<lparr>the_session := t\<rparr>)"
    and t: "unchanged s1 (s1\<lparr>the_session := t\<rparr>)"
    unfolding Collector_getParameterData_def by (auto simp: db1)
  then have run2: "Collector_setParameterValue available impl type self uid v s
      = on_session (Collector_setParameterData self ?new) (s1\<lparr>the_session := t\<rparr>)"
    unfolding run by (simp add: andthen_def declared_Ok [OF assms(2)])
  let ?s2 = "at_session (Begin True) (s1\<lparr>the_session := t\<rparr>)"
  let ?s3 = "?s2\<lparr>the_session := (the_session ?s2)\<lparr>stored := store_parameters self ?new ?db\<rparr>\<rparr>"
  have "stored (the_session ?s2) = ?db" using t db1 by (simp add: unchanged_def)
  then have body: "on_session (update_tables (store_parameters self ?new)) ?s2 = (Ok (), ?s3)"
    by (simp add: on_session_update)
  have kept: "balanced ?s2 ?s3" by (simp add: balanced_def)
  note committed = transaction_on_Ok [of "on_session (update_tables (store_parameters self ?new))", OF body kept]
  have "balanced s (s1\<lparr>the_session := t\<rparr>)"
    by (rule balanced_trans [of _ s1]) (use s1 t in \<open>simp_all add: unchanged_iff\<close>)
  from balanced_trans [OF this committed(3)] show ?thesis
    using committed(1,2)
    by (intro exI [of _ "at_session Commit ?s3"])
      (simp add: run2 Collector_setParameterData_def on_session_transaction)
qed

text \<open>C26: a parameter that has been set is read back with the value that was set, by every object that
  stands for the collector; the parameters of the other collectors and all other tables stay as they
  are. This relies on the plugin to read from its blob what it wrote there.\<close>

theorem parameter_roundtrip:
  assumes "available (collector_id self (stored (the_session s)))"
    and "map_of (dm_parameters impl) uid = Some type"
    and "self \<in> cl_id ` set (Collectors (stored (the_session s)))"
    and "\<And>blob. get_parameter impl uid (set_parameter impl uid v blob) = v"
  shows "\<exists>s'. Collector_setParameterValue available impl type self uid v s = (Ok (), s') \<and>
    fst (Collector_getParameterValue available impl type self uid s') = Ok v \<and>
    (\<forall>c. c \<noteq> self \<longrightarrow> parameter_blob c (stored (the_session s')) = parameter_blob c (stored (the_session s))) \<and>
    (\<exists>rows. stored (the_session s') = (stored (the_session s))\<lparr>Collectors := rows\<rparr>)"
proof -
  from setParameterValue_run [where available = available and v = v, OF assms(1,2)] obtain s' where
    run: "Collector_setParameterValue available impl type self uid v s = (Ok (), s')"
    and db: "stored (the_session s') = store_parameters self (set_parameter impl uid v
      (parameter_blob self (stored (the_session s)))) (stored (the_session s))"
    by blast
  have "available (collector_id self (stored (the_session s')))"
    using assms(1) by (simp add: db stored_parameters(3))
  from getParameterValue_run [where available = available, OF this assms(2)]
  have "fst (Collector_getParameterValue available impl type self uid s') = Ok v"
    by (simp add: db stored_parameters(1) [OF assms(3)] assms(4))
  moreover have "\<exists>rows. stored (the_session s') = (stored (the_session s))\<lparr>Collectors := rows\<rparr>"
    unfolding db store_parameters_def by blast
  ultimately show ?thesis using run by (auto simp: db stored_parameters(2))
qed

definition sample_parameters :: "(string, byte) plugin" where
  "sample_parameters = \<lparr>dm_parameters = [(''rate'', ''int'')], dm_metrics = [],
     get_parameter = (\<lambda>_ blob. case blob of [] \<Rightarrow> 0 | b # _ \<Rightarrow> b), set_parameter = (\<lambda>_ v _. [v])\<rparr>"

lemma parameter_roundtrip_witness:
  "\<exists>s'. Collector_setParameterValue (\<lambda>_. True) sample_parameters ''int'' 1 ''rate'' 100 sample_run = (Ok (), s') \<and>
     fst (Collector_getParameterValue (\<lambda>_. True) sample_parameters ''int'' 1 ''rate'' s') = Ok 100"
  using parameter_roundtrip [of "\<lambda>_. True" 1 sample_run sample_parameters "''rate''" "''int''" 100]
  by (auto simp: sample_parameters_def sample_run_simps)

end
