(* ===== verification/ThreadGroups.thy ===== *)
theory ThreadGroups
  imports Collectors SymbolRelations "HOL-Library.Multiset"
begin

text \<open>
  Groups of threads (ThreadGroup.hxx, ThreadGroup.cxx). The queries of a group read the tables once
  instead of once for each thread; the main results are that they give what the queries of the single
  threads and symbols give. The threads of a group are in one database, so the assertions on it are
  left out. What an instrumentor says of the state of a thread is a parameter.
\<close>

section \<open>States and collecting\<close>

definition ThreadGroup_getSubsetWithState :: "(int \<Rightarrow> 'state) \<Rightarrow> 'state \<Rightarrow> int set \<Rightarrow> int set" where
  "ThreadGroup_getSubsetWithState state_of state self =
     foldl (\<lambda>subset t. if state_of t = state then insert t subset else subset) {} (sorted_list_of_set self)"

definition ThreadGroup_isAnyState :: "(int \<Rightarrow> 'state) \<Rightarrow> 'state \<Rightarrow> int set \<Rightarrow> bool" where
  "ThreadGroup_isAnyState state_of state self \<longleftrightarrow>
     list_ex (\<lambda>t. state_of t = state) (sorted_list_of_set self)"

definition ThreadGroup_areAllState :: "(int \<Rightarrow> 'state) \<Rightarrow> 'state \<Rightarrow> int set \<Rightarrow> bool" where
  "ThreadGroup_areAllState state_of state self \<longleftrightarrow>
     \<not> list_ex (\<lambda>t. state_of t \<noteq> state) (sorted_list_of_set self)"

text \<open>A thread without an executable has the null object, whose entry is 0; \<open>now\<close> is the clock.\<close>

definition ThreadGroup_getSubsetWithLinkedObject ::
  "(int \<Rightarrow> time) \<Rightarrow> int \<Rightarrow> int set \<Rightarrow> (session, int set) op" where
  "ThreadGroup_getSubsetWithLinkedObject now lo self =
     for_each (sorted_list_of_set self) (\<lambda>subset t.
       andthen (Thread_getExecutable t (now t)) (\<lambda>executable.
         ret (if (case executable of None \<Rightarrow> 0 | Some i \<Rightarrow> i) = lo then insert t subset else subset))) {}"

text \<open>Every thread, and for each thread every collector.\<close>

definition for_threads ::
  "(int \<Rightarrow> int set \<Rightarrow> (framework, unit) op) \<Rightarrow> int set \<Rightarrow> int set \<Rightarrow> (framework, unit) op" where
  "for_threads operation threads collectors =
     for_each (sorted_list_of_set threads) (\<lambda>_ t.
       for_each (sorted_list_of_set collectors) (\<lambda>_ c. operation c {t}) ()) ()"

definition ThreadGroup_startCollecting ::
  "(string \<Rightarrow> bool) \<Rightarrow> (call \<Rightarrow> exception option) \<Rightarrow> int set \<Rightarrow> int set \<Rightarrow> (framework, unit) op" where
  "ThreadGroup_startCollecting available respond =
     for_threads (Collector_startCollecting available respond)"

definition ThreadGroup_postponeCollecting ::
  "(string \<Rightarrow> bool) \<Rightarrow> (call \<Rightarrow> exception option) \<Rightarrow> int set \<Rightarrow> int set \<Rightarrow> (framework, unit) op" where
  "ThreadGroup_postponeCollecting available respond =
     for_threads (Collector_postponeCollecting available respond)"

definition ThreadGroup_stopCollecting ::
  "(string \<Rightarrow> bool) \<Rightarrow> (call \<Rightarrow> exception option) \<Rightarrow> int set \<Rightarrow> int set \<Rightarrow> (framework, unit) op" where
  "ThreadGroup_stopCollecting available respond =
     for_threads (Collector_stopCollecting available respond)"

section \<open>The symbols of a group\<close>

definition group_spaces :: "int set \<Rightarrow> tables \<Rightarrow> AddressSpaceRow list" where
  "group_spaces self db = filter (\<lambda>space. as_thread space \<in> self) (AddressSpaces db)"

definition objects_of_group :: "int set \<Rightarrow> tables \<Rightarrow> int set" where
  "objects_of_group self db = collect as_linked_object (group_spaces self db) {}"

definition symbols_of_group ::
  "(tables \<Rightarrow> 'r list) \<Rightarrow> ('r \<Rightarrow> int) \<Rightarrow> ('r \<Rightarrow> int) \<Rightarrow> int set \<Rightarrow> (session, int set) op" where
  "symbols_of_group rows the_id object self =
     (if self = {} then ret {} else reading (\<lambda>db.
        let linked_objects = objects_of_group self db in
        Ok (collect the_id (filter (\<lambda>row. object row \<in> linked_objects) (rows db)) {})))"

definition ThreadGroup_getLinkedObjects :: "int set \<Rightarrow> (session, int set) op" where
  "ThreadGroup_getLinkedObjects self =
     (if self = {} then ret {} else reading (\<lambda>db. Ok (objects_of_group self db)))"

definition ThreadGroup_getFunctions :: "int set \<Rightarrow> (session, int set) op" where
  "ThreadGroup_getFunctions = symbols_of_group Functions fn_id fn_linked_object"

definition ThreadGroup_getLoops :: "int set \<Rightarrow> (session, int set) op" where
  "ThreadGroup_getLoops = symbols_of_group Loops lp_id lp_linked_object"

definition ThreadGroup_getStatements :: "int set \<Rightarrow> (session, int set) op" where
  "ThreadGroup_getStatements = symbols_of_group Statements sm_id sm_linked_object"

section \<open>Tables of extents\<close>

definition add_constrained ::
  "extent \<Rightarrow> int \<Rightarrow> int \<Rightarrow> extent \<Rightarrow> (int, int) ExtentTable \<Rightarrow> (int, int) ExtentTable res" where
  "add_constrained domain t object e table =
     (let constrained = Extent_inter e domain in
      if Extent_isEmpty constrained then Ok table else addExtent t object constrained table)"

definition space_extent :: "AddressSpaceRow \<Rightarrow> extent res" where
  "space_extent space =
     bind_res (Interval_make (time_begin space) (time_end space)) (\<lambda>interval.
     bind_res (Interval_make (addr_begin space) (addr_end space)) (\<lambda>range. Ok (Extent interval range)))"

definition ThreadGroup_getExtentsOfLinkedObjects ::
  "int set \<Rightarrow> int set \<Rightarrow> extent \<Rightarrow> (session, (int, int) ExtentTable) op" where
  "ThreadGroup_getExtentsOfLinkedObjects self objects domain =
     (if self = {} then ret ExtentTable_make else reading (\<lambda>db.
        fold_res (\<lambda>table space.
            if as_thread space \<in> self \<and> as_linked_object space \<in> objects
            then bind_res (space_extent space) (\<lambda>e.
              add_constrained domain (as_thread space) (as_linked_object space) e table)
            else Ok table)
          (AddressSpaces db) ExtentTable_make))"

text \<open>
  A \<open>std::multimap\<close> keeps the entries of a key in the order of their insertion; those between
  \<open>lower_bound\<close> and \<open>upper_bound\<close> are the entries of the key.
\<close>

definition spaces_by_key :: "int set \<Rightarrow> tables \<Rightarrow> ((int \<times> int) \<times> extent) list res" where
  "spaces_by_key self db =
     fold_res (\<lambda>m space. bind_res (space_extent space) (\<lambda>e.
         Ok (m @ [((as_thread space, as_linked_object space), e)])))
       (group_spaces self db) []"

definition moved_into :: "extent \<Rightarrow> addr interval \<Rightarrow> extent res" where
  "moved_into k r =
     bind_res (Address_plus (dm_begin (dm_range k)) (dm_begin r)) (\<lambda>b.
     bind_res (Address_plus (dm_begin (dm_range k)) (dm_end r)) (\<lambda>e.
     bind_res (Interval_make b e) (\<lambda>range. Ok (Extent (dm_interval k) range))))"

definition getExtentsOf ::
  "(nat \<Rightarrow> byte) \<Rightarrow> (int \<Rightarrow> tables \<Rightarrow> (int \<times> RangeRow) list) \<Rightarrow> int set \<Rightarrow> int set \<Rightarrow> extent
    \<Rightarrow> (session, (int, int) ExtentTable) op" where
  "getExtentsOf beyond symbol_rows self objects domain =
     (if self = {} then ret ExtentTable_make else reading (\<lambda>db.
        bind_res (spaces_by_key self db) (\<lambda>linked_objects.
        fold_res (\<lambda>table i.
          fold_res (\<lambda>table (lo, row).
            bind_res (contiguous_ranges beyond row) (\<lambda>ranges.
            fold_res (\<lambda>table t.
              fold_res (\<lambda>table (_, k).
                fold_res (\<lambda>table r.
                    bind_res (moved_into k r) (\<lambda>e. add_constrained domain t i e table))
                  ranges table)
                (filter (\<lambda>(key, _). key = (t, lo)) linked_objects) table)
              (sorted_list_of_set self) table))
            (symbol_rows i db) table)
          (sorted_list_of_set objects) ExtentTable_make)))"

definition ThreadGroup_getExtentsOfFunctions ::
  "(nat \<Rightarrow> byte) \<Rightarrow> int set \<Rightarrow> int set \<Rightarrow> extent \<Rightarrow> (session, (int, int) ExtentTable) op" where
  "ThreadGroup_getExtentsOfFunctions beyond = getExtentsOf beyond function_rows"

definition ThreadGroup_getExtentsOfLoops ::
  "(nat \<Rightarrow> byte) \<Rightarrow> int set \<Rightarrow> int set \<Rightarrow> extent \<Rightarrow> (session, (int, int) ExtentTable) op" where
  "ThreadGroup_getExtentsOfLoops beyond = getExtentsOf beyond loop_rows"

definition ThreadGroup_getExtentsOfStatements ::
  "(nat \<Rightarrow> byte) \<Rightarrow> int set \<Rightarrow> int set \<Rightarrow> extent \<Rightarrow> (session, (int, int) ExtentTable) op" where
  "ThreadGroup_getExtentsOfStatements beyond = getExtentsOf beyond statement_rows"

section \<open>Filling a table\<close>

lemma fold_res_flat:
  assumes "\<And>x acc. x \<in> set xs \<Longrightarrow> f acc x = fold_res step (g x) acc"
  shows "fold_res f xs acc = fold_res step (concat (map g xs)) acc"
proof -
  have "fold_res f xs = fold_res step (concat (map g xs))"
    using assms
  proof (induction xs)
    case (Cons x xs)
    then have "fold_res f xs = fold_res step (concat (map g xs))" by simp
    with Cons.prems show ?case by (intro ext) (simp add: fold_res_append)
  qed (simp add: fun_eq_iff)
  then show ?thesis by simp
qed

lemma fold_res_single: "fold_res step [x] acc = step acc x" "bind_res r (fold_res step []) = r"
  by (cases "step acc x", simp_all, cases r, simp_all)

lemma fold_res_map: "fold_res f (map g xs) acc = fold_res (\<lambda>acc x. f acc (g x)) xs acc"
proof -
  have "fold_res f (map g xs) = fold_res (\<lambda>acc x. f acc (g x)) xs" by (induction xs) (auto intro!: ext)
  then show ?thesis by simp
qed

definition add_entry ::
  "extent \<Rightarrow> (int, int) ExtentTable \<Rightarrow> int \<times> int \<times> extent \<Rightarrow> (int, int) ExtentTable res" where
  "add_entry domain table = (\<lambda>(t, i, e). add_constrained domain t i e table)"

definition constrained :: "extent \<Rightarrow> int \<Rightarrow> extent list \<Rightarrow> (int \<times> extent) list" where
  "constrained domain i es =
     map (Pair i) (filter (\<lambda>e. \<not> Extent_isEmpty e) (map (\<lambda>e. Extent_inter e domain) es))"

lemma constrained_simps:
  "constrained domain i [] = []"
  "constrained domain i (es @ es') = constrained domain i es @ constrained domain i es'"
  by (simp_all add: constrained_def)

lemma add_entries_ok:
  assumes "et_ok table"
  shows "\<exists>table'. fold_res (add_entry domain) xs table = Ok table' \<and> et_ok table' \<and>
    entries table' = (\<lambda>t. entries table t @
      concat (map (\<lambda>(t', i, e). if t' = t then constrained domain i [e] else []) xs))"
  using assms
proof (induction xs arbitrary: table)
  case (Cons x xs)
  obtain t i e where x: "x = (t, i, e)" by (rule prod_cases3)
  obtain table1 where one: "add_entry domain table x = Ok table1" "et_ok table1"
    "entries table1 = (entries table)(t := entries table t @ constrained domain i [e])"
    using addExtent_ok [OF Cons.prems, of t i "Extent_inter e domain"] Cons.prems
    by (cases "Extent_isEmpty (Extent_inter e domain)")
      (auto simp: add_entry_def x add_constrained_def Let_def constrained_def fun_upd_idem)
  from Cons.IH [OF one(2)] one show ?case by (auto simp: x fun_eq_iff)
qed (simp add: fun_eq_iff)

lemma entries_make: "entries ExtentTable_make = (\<lambda>t. [])"
  by (simp add: entries_def ExtentTable_make_def objects_of_def fun_eq_iff)

section \<open>The extents of symbols\<close>

definition proper_spaces :: "tables \<Rightarrow> bool" where
  "proper_spaces db \<longleftrightarrow> (\<forall>space \<in> set (AddressSpaces db).
     time_begin space < time_end space \<and> addr_begin space < addr_end space)"

definition whole_space :: "AddressSpaceRow \<Rightarrow> extent" where
  "whole_space space = Extent (Interval (time_begin space) (time_end space))
     (Interval (addr_begin space) (addr_end space))"

lemma space_extent_ok:
  "proper_spaces db \<Longrightarrow> space \<in> set (AddressSpaces db) \<Longrightarrow> space_extent space = Ok (whole_space space)"
  by (simp add: proper_spaces_def space_extent_def Interval_make_def whole_space_def)

lemma spaces_by_key_ok:
  assumes "proper_spaces db"
  shows "spaces_by_key self db = Ok (map (\<lambda>space.
    ((as_thread space, as_linked_object space), whole_space space)) (group_spaces self db))"
proof -
  have "spaces_by_key self db = Ok (foldl (\<lambda>m space. m @
      [((as_thread space, as_linked_object space), whole_space space)]) [] (group_spaces self db))"
    unfolding spaces_by_key_def
    by (rule fold_res_Ok) (simp add: space_extent_ok [OF assms] group_spaces_def)
  then show ?thesis by (simp add: foldl_snoc)
qed

lemma moved_into_space:
  "time_begin space < time_end space \<Longrightarrow> moved_into (whole_space space) r = loaded_at space r"
  by (simp add: moved_into_def whole_space_def loaded_at_def Interval_make_def)

lemma spaces_of_group:
  "t \<in> self \<Longrightarrow> filter (\<lambda>space. as_thread space = t \<and> as_linked_object space = lo) (group_spaces self db)
    = spaces_of t lo db"
  by (auto simp: group_spaces_def spaces_of_def intro: filter_cong)

text \<open>What the loops add, in their order.\<close>

definition additions ::
  "(nat \<Rightarrow> byte) \<Rightarrow> int set \<Rightarrow> tables \<Rightarrow> int \<Rightarrow> int \<times> RangeRow \<Rightarrow> (int \<times> int \<times> extent) list" where
  "additions beyond self db i = (\<lambda>(lo, row). concat (map (\<lambda>t. concat (map (\<lambda>space.
     map (\<lambda>r. (t, i, moved space r)) (the_ranges beyond row)) (spaces_of t lo db))) (sorted_list_of_set self)))"

definition picked :: "extent \<Rightarrow> int \<Rightarrow> (int \<times> int \<times> extent) list \<Rightarrow> (int \<times> extent) list" where
  "picked domain t xs = concat (map (\<lambda>(t', i, e). if t' = t then constrained domain i [e] else []) xs)"

lemma picked_simps [simp]:
  "picked domain t [] = []"
  "picked domain t (xs @ ys) = picked domain t xs @ picked domain t ys"
  by (simp_all add: picked_def)

lemma picked_concat: "picked domain t (concat xss) = concat (map (picked domain t) xss)"
  by (induction xss) simp_all

lemma picked_thread:
  "picked domain t (map (\<lambda>r. (t', i, f r)) rs) = (if t' = t then constrained domain i (map f rs) else [])"
  by (induction rs) (simp_all add: picked_def constrained_def)

lemma constrained_concat:
  "constrained domain i (concat ess) = concat (map (constrained domain i) ess)"
  by (induction ess) (simp_all add: constrained_simps)

lemma concat_one:
  assumes "distinct ts"
  shows "concat (map (\<lambda>t'. if t' = t then f t' else []) ts) = (if t \<in> set ts then f t else [])"
  using assms by (induction ts) auto

lemma picked_additions:
  assumes "finite self"
  shows "picked domain t (concat (map (additions beyond self db i) rows))
    = (if t \<in> self then constrained domain i (shown_in beyond t rows db) else [])"
proof -
  let ?shown = "\<lambda>t lo row. concat (map (\<lambda>space. map (moved space) (the_ranges beyond row)) (spaces_of t lo db))"
  have "picked domain t (additions beyond self db i (lo, row))
      = concat (map (\<lambda>t'. if t' = t then constrained domain i (?shown t' lo row) else [])
          (sorted_list_of_set self))" for lo row
    by (auto simp: additions_def picked_concat constrained_concat picked_thread comp_def
        intro!: arg_cong [where f = concat] map_cong)
  then have "picked domain t (additions beyond self db i p)
      = (if t \<in> self then constrained domain i (?shown t (fst p) (snd p)) else [])" for p
    using assms by (cases p) (simp only: concat_one distinct_sorted_list_of_set set_sorted_list_of_set fst_conv snd_conv)
  then show ?thesis
    by (simp add: picked_concat comp_def shown_in_def constrained_concat split_def)
qed

lemma getExtentsOf_run:
  assumes spaces: "proper_spaces db" and ok: "owners_ok (map the_id rows) ranges"
    and whole: "\<And>i. i \<in> objects \<Longrightarrow> mapped_whole db (places the_id object rows ranges i)"
    and rows: "\<And>i. symbol_rows i db = rows_of the_id object i rows ranges"
    and s: "stored s = db" and "self \<noteq> {}" and "finite self" and "finite objects"
  shows "fst (getExtentsOf beyond symbol_rows self objects domain s)
    = fold_res (add_entry domain) (concat (map (\<lambda>i. concat (map (additions beyond self db i)
        (rows_of the_id object i rows ranges))) (sorted_list_of_set objects))) ExtentTable_make"
proof -
  let ?m = "map (\<lambda>space. ((as_thread space, as_linked_object space), whole_space space)) (group_spaces self db)"
  have step: "fold_res (\<lambda>table r. bind_res (moved_into k r) (\<lambda>e. add_constrained domain t i e table))
      (the_ranges beyond row) table
      = fold_res (add_entry domain) (map (\<lambda>r. (t, i, moved space r)) (the_ranges beyond row)) table"
    if i: "i \<in> objects" and row: "(lo, row) \<in> set (rows_of the_id object i rows ranges)"
      and space: "space \<in> set (spaces_of t lo db)" "k = whole_space space" for t i lo row space k table
  proof -
    have "time_begin space < time_end space"
      using spaces space(1) by (simp add: proper_spaces_def spaces_of_def)
    then have "moved_into k r = Ok (moved space r)" if "r \<in> set (the_ranges beyond row)" for r
      using loaded_at_ok(1) [OF whole [OF i] space(1) range_in_places(2,1) [OF ok row that]]
      by (simp add: space(2) moved_into_space)
    then have "fold_res (\<lambda>table r. bind_res (moved_into k r) (\<lambda>e. add_constrained domain t i e table))
        (the_ranges beyond row) table = fold_res (add_entry domain)
          (concat (map (\<lambda>r. [(t, i, moved space r)]) (the_ranges beyond row))) table"
      by (intro fold_res_flat) (simp add: add_entry_def fold_res_single)
    then show ?thesis by (simp add: concat_singles)
  qed
  have chosen: "filter (\<lambda>(key, _). key = (t, lo)) ?m
      = map (\<lambda>space. ((as_thread space, as_linked_object space), whole_space space)) (spaces_of t lo db)"
    if "t \<in> self" for t lo
    by (simp add: filter_map comp_def spaces_of_group [OF that])
  have inner: "fold_res (\<lambda>table (_, k). fold_res (\<lambda>table r.
        bind_res (moved_into k r) (\<lambda>e. add_constrained domain t i e table)) (the_ranges beyond row) table)
      (filter (\<lambda>(key, _). key = (t, lo)) ?m) table
      = fold_res (add_entry domain) (concat (map (\<lambda>space. map (\<lambda>r. (t, i, moved space r))
          (the_ranges beyond row)) (spaces_of t lo db))) table"
    if "i \<in> objects" and "(lo, row) \<in> set (rows_of the_id object i rows ranges)" and "t \<in> self"
    for t i lo row table
    unfolding chosen [OF that(3)] fold_res_map split
    by (intro fold_res_flat) (rule step [OF that(1,2) _ refl])
  have row: "bind_res (contiguous_ranges beyond row) (\<lambda>ranges. fold_res (\<lambda>table t.
        fold_res (\<lambda>table (_, k). fold_res (\<lambda>table r.
            bind_res (moved_into k r) (\<lambda>e. add_constrained domain t i e table)) ranges table)
          (filter (\<lambda>(key, _). key = (t, lo)) ?m) table) (sorted_list_of_set self) table)
      = fold_res (add_entry domain) (additions beyond self db i (lo, row)) table"
    if "i \<in> objects" and "(lo, row) \<in> set (rows_of the_id object i rows ranges)" for i lo row table
    unfolding ranges_ok(1) [OF ok that(2)] bind_res_simps additions_def split
    by (intro fold_res_flat inner [OF that]) (use \<open>finite self\<close> in simp)
  show ?thesis
    unfolding getExtentsOf_def if_not_P [OF \<open>self \<noteq> {}\<close>] reading_fst s spaces_by_key_ok [OF spaces]
      bind_res_simps rows
    by (intro fold_res_flat) (use row \<open>finite objects\<close> in \<open>auto split: prod.splits\<close>)
qed

text \<open>A table that holds, for each thread of a group, what the single queries show within a domain.\<close>

definition tabulates ::
  "int set \<Rightarrow> int set \<Rightarrow> extent \<Rightarrow> (int \<Rightarrow> int \<Rightarrow> extent list res) \<Rightarrow> (int, int) ExtentTable res \<Rightarrow> bool" where
  "tabulates self objects domain extents result \<longleftrightarrow> (\<exists>table. result = Ok table \<and> et_ok table \<and>
     (\<forall>t. mset (entries table t) = (if t \<in> self
        then \<Sum>i \<in> objects. mset (constrained domain i (the_Ok (extents i t))) else {#})))"

lemma mset_concat_set:
  "finite A \<Longrightarrow> mset (concat (map f (sorted_list_of_set A))) = (\<Sum>i \<in> A. mset (f i))" for A :: "int set"
  by (simp add: mset_concat comp_def sum_list_distinct_conv_sum_set)

lemma sum_constrained:
  assumes "finite objects"
  shows "(\<Sum>i \<in> objects. mset (constrained domain i (map g (filter (\<lambda>x. f x = i) xs))))
    = mset (concat (map (\<lambda>x. if f x \<in> objects then constrained domain (f x) [g x] else []) xs))"
proof (induction xs)
  case Nil
  then show ?case by (simp add: constrained_simps)
next
  case (Cons x xs)
  have "mset (constrained domain i (map g (filter (\<lambda>x. f x = i) (x # xs))))
      = (if f x = i then mset (constrained domain (f x) [g x]) else {#}) +
        mset (constrained domain i (map g (filter (\<lambda>x. f x = i) xs)))" for i
    using constrained_simps(2) [of domain i "[g x]" "map g (filter (\<lambda>x. f x = i) xs)"] by auto
  then have "(\<Sum>i \<in> objects. mset (constrained domain i (map g (filter (\<lambda>x. f x = i) (x # xs)))))
      = (if f x \<in> objects then mset (constrained domain (f x) [g x]) else {#}) +
        (\<Sum>i \<in> objects. mset (constrained domain i (map g (filter (\<lambda>x. f x = i) xs))))"
    using sum.delta [OF assms, of "f x" "\<lambda>_. mset (constrained domain (f x) [g x])"]
    by (simp only: sum.distrib eq_commute [of "f x"])
  with Cons.IH show ?case by simp
qed

lemma picked_spaces:
  "picked domain t (concat (map (\<lambda>space. if as_thread space \<in> self \<and> as_linked_object space \<in> objects
      then [(as_thread space, as_linked_object space, whole_space space)] else []) spaces))
    = (if t \<in> self then concat (map (\<lambda>space. if as_linked_object space \<in> objects
        then constrained domain (as_linked_object space) [whole_space space] else [])
        (filter (\<lambda>space. as_thread space = t) spaces)) else [])"
  by (induction spaces) (auto simp: picked_def)

lemma symbols_tabulated:
  assumes spaces: "proper_spaces db" and ok: "owners_ok (map the_id rows) ranges"
    and whole: "\<And>i. i \<in> objects \<Longrightarrow> mapped_whole db (places the_id object rows ranges i)"
    and rows: "\<And>i. symbol_rows i db = rows_of the_id object i rows ranges"
    and s: "stored s = db" and fin: "finite self" "finite objects"
    and single: "\<And>i t. extents i t = extents_in beyond t (symbol_rows i db) db"
  shows "tabulates self objects domain extents (fst (getExtentsOf beyond symbol_rows self objects domain s))"
proof (cases "self = {}")
  case True
  then show ?thesis by (simp add: tabulates_def getExtentsOf_def ret_def et_ok_make entries_make)
next
  case False
  let ?xs = "concat (map (\<lambda>i. concat (map (additions beyond self db i)
        (rows_of the_id object i rows ranges))) (sorted_list_of_set objects))"
  from add_entries_ok [OF et_ok_make, of domain ?xs] obtain table where
    run: "fold_res (add_entry domain) ?xs ExtentTable_make = Ok table" "et_ok table"
    "entries table = (\<lambda>t. picked domain t ?xs)"
    unfolding entries_make picked_def append_Nil by blast
  have "mset (entries table t) = (if t \<in> self
      then \<Sum>i \<in> objects. mset (constrained domain i (the_Ok (extents i t))) else {#})" for t
  proof -
    have "picked domain t ?xs = concat (map (\<lambda>i. picked domain t (concat (map (additions beyond self db i)
        (rows_of the_id object i rows ranges)))) (sorted_list_of_set objects))"
      by (subst picked_concat) (simp add: comp_def)
    then have "picked domain t ?xs = (if t \<in> self then concat (map (\<lambda>i. constrained domain i
        (shown_in beyond t (rows_of the_id object i rows ranges) db)) (sorted_list_of_set objects)) else [])"
      by (simp add: picked_additions [OF fin(1)])
    moreover have "the_Ok (extents i t) = shown_in beyond t (rows_of the_id object i rows ranges) db"
      if "i \<in> objects" for i
      unfolding single rows extents_in_run [OF ok whole [OF that]] by simp
    ultimately show ?thesis by (simp add: run(3) mset_concat_set [OF fin(2)])
  qed
  moreover have "fst (getExtentsOf beyond symbol_rows self objects domain s) = Ok table"
    using getExtentsOf_run [where symbol_rows = symbol_rows, OF spaces ok whole rows s False fin] run(1)
    by simp
  ultimately show ?thesis using run(2) unfolding tabulates_def by blast
qed

lemma linked_objects_tabulated:
  assumes spaces: "proper_spaces (stored s)" and fin: "finite objects"
  shows "tabulates self objects domain (\<lambda>i t. fst (LinkedObject_getExtentIn i t s))
    (fst (ThreadGroup_getExtentsOfLinkedObjects self objects domain s))"
proof (cases "self = {}")
  case True
  then show ?thesis
    by (simp add: tabulates_def ThreadGroup_getExtentsOfLinkedObjects_def ret_def et_ok_make entries_make)
next
  case False
  let ?db = "stored s"
  let ?in = "\<lambda>space. as_thread space \<in> self \<and> as_linked_object space \<in> objects"
  let ?g = "\<lambda>space. if ?in space then [(as_thread space, as_linked_object space, whole_space space)] else []"
  have "fst (ThreadGroup_getExtentsOfLinkedObjects self objects domain s)
      = fold_res (add_entry domain) (concat (map ?g (AddressSpaces ?db))) ExtentTable_make"
    unfolding ThreadGroup_getExtentsOfLinkedObjects_def if_not_P [OF False] reading_fst
    by (intro fold_res_flat) (simp add: space_extent_ok [OF spaces] add_entry_def fold_res_single)
  moreover from add_entries_ok [OF et_ok_make, of domain "concat (map ?g (AddressSpaces ?db))"] obtain table where
    run: "fold_res (add_entry domain) (concat (map ?g (AddressSpaces ?db))) ExtentTable_make = Ok table"
    "et_ok table" "entries table = (\<lambda>t. picked domain t (concat (map ?g (AddressSpaces ?db))))"
    unfolding entries_make picked_def append_Nil by blast
  moreover have "mset (entries table t) = (if t \<in> self then
      \<Sum>i \<in> objects. mset (constrained domain i (the_Ok (fst (LinkedObject_getExtentIn i t s)))) else {#})" for t
  proof -
    have "fst (LinkedObject_getExtentIn i t s)
        = Ok (map whole_space (filter (\<lambda>space. as_linked_object space = i) (thread_spaces t ?db)))" for i
    proof -
      have "fst (LinkedObject_getExtentIn i t s)
          = fold_res (\<lambda>extent space. bind_res (space_extent space) (\<lambda>e. Ok (extent @ [e]))) (spaces_of t i ?db) []"
        unfolding LinkedObject_getExtentIn_def reading_fst space_extent_def by (simp add: bind_res_assoc)
      also have "\<dots> = Ok (foldl (\<lambda>extent space. extent @ [whole_space space]) [] (spaces_of t i ?db))"
        by (rule fold_res_Ok) (simp add: space_extent_ok [OF spaces] spaces_of_def)
      finally show ?thesis by (simp add: foldl_snoc spaces_of_def thread_spaces_def conj_commute)
    qed
    then show ?thesis
      by (simp add: run(3) picked_spaces sum_constrained [OF fin] flip: thread_spaces_def)
  qed
  ultimately show ?thesis unfolding tabulates_def by (intro exI [of _ table]) simp
qed

lemma collect_image: "collect the_id rows acc = acc \<union> the_id ` set rows"
  by (simp add: collect_def foldl_insert)

lemma collect_spaces:
  "foldl (\<lambda>acc space. acc \<union> the_id ` {row \<in> set rows. P space row}) acc spaces
    = acc \<union> (\<Union>space \<in> set spaces. the_id ` {row \<in> set rows. P space row})"
  by (induction spaces arbitrary: acc) auto

lemma objects_of_group_image:
  "objects_of_group self db = as_linked_object ` {space \<in> set (AddressSpaces db). as_thread space \<in> self}"
  by (simp add: objects_of_group_def group_spaces_def collect_image)

section \<open>Properties\<close>

text \<open>C27: the table of extents of a group of threads holds for every thread of the group exactly the
  extents that the linked object, function, loop or statement has in the thread, cut to the domain,
  each as often as the single query gives it, and nothing for other threads.\<close>

theorem getExtentsOf_tabulates:
  assumes "symbols_ok (stored s)" and "proper_spaces (stored s)" and "db = stored s"
    and "finite self" and "finite objects"
    and "\<And>i. i \<in> objects \<Longrightarrow> mapped_whole db (function_places db i) \<and>
      mapped_whole db (loop_places db i) \<and> mapped_whole db (statement_places db i)"
  shows "tabulates self objects domain (\<lambda>i t. fst (LinkedObject_getExtentIn i t s))
      (fst (ThreadGroup_getExtentsOfLinkedObjects self objects domain s)) \<and>
    tabulates self objects domain (\<lambda>i t. fst (Function_getExtentIn beyond i t s))
      (fst (ThreadGroup_getExtentsOfFunctions beyond self objects domain s)) \<and>
    tabulates self objects domain (\<lambda>i t. fst (Loop_getExtentIn beyond i t s))
      (fst (ThreadGroup_getExtentsOfLoops beyond self objects domain s)) \<and>
    tabulates self objects domain (\<lambda>i t. fst (Statement_getExtentIn beyond i t s))
      (fst (ThreadGroup_getExtentsOfStatements beyond self objects domain s))"
proof -
  have db: "proper_spaces db" "stored s = db"
    and owners: "owners_ok (map fn_id (Functions db)) (FunctionRanges db)"
      "owners_ok (map lp_id (Loops db)) (LoopRanges db)"
      "owners_ok (map sm_id (Statements db)) (StatementRanges db)"
    using assms(1,2,3) by (simp_all add: symbols_ok_def)
  show ?thesis
    unfolding ThreadGroup_getExtentsOfFunctions_def ThreadGroup_getExtentsOfLoops_def
      ThreadGroup_getExtentsOfStatements_def
  proof (intro conjI)
    show "tabulates self objects domain (\<lambda>i t. fst (Function_getExtentIn beyond i t s))
        (fst (getExtentsOf beyond function_rows self objects domain s))"
      by (rule symbols_tabulated [OF db(1) owners(1) _ _ db(2) assms(4,5)])
        (use assms(6) in \<open>simp_all add: function_rows_def Function_getExtentIn_def reading_fst db(2)\<close>)
    show "tabulates self objects domain (\<lambda>i t. fst (Loop_getExtentIn beyond i t s))
        (fst (getExtentsOf beyond loop_rows self objects domain s))"
      by (rule symbols_tabulated [OF db(1) owners(2) _ _ db(2) assms(4,5)])
        (use assms(6) in \<open>simp_all add: loop_rows_def Loop_getExtentIn_def reading_fst db(2)\<close>)
    show "tabulates self objects domain (\<lambda>i t. fst (Statement_getExtentIn beyond i t s))
        (fst (getExtentsOf beyond statement_rows self objects domain s))"
      by (rule symbols_tabulated [OF db(1) owners(3) _ _ db(2) assms(4,5)])
        (use assms(6) in \<open>simp_all add: statement_rows_def Statement_getExtentIn_def reading_fst db(2)\<close>)
  qed (rule linked_objects_tabulated [OF assms(2,5)])
qed

lemma getExtentsOf_tabulates_witness:
  "\<exists>table. fst (ThreadGroup_getExtentsOfFunctions (\<lambda>_. 0) {1} {1} (Extent always (Interval 0 (- 1))) sample_session)
      = Ok table \<and> et_ok table"
proof -
  have "symbols_ok (stored sample_session)" "proper_spaces (stored sample_session)"
    "sample_tables = stored sample_session"
    by (simp_all add: sample_session_simps sample_ok)
      (simp add: proper_spaces_def sample_tables_def sample_space_def)
  from getExtentsOf_tabulates [OF this, of "{1}" "{1}" "Extent always (Interval 0 (- 1))" "\<lambda>_. 0"]
  show ?thesis by (auto simp: sample_whole tabulates_def)
qed

text \<open>The linked objects, functions, loops and statements of a group of threads are those of its
  threads together.\<close>

theorem group_symbols_are_unions:
  "fst (ThreadGroup_getLinkedObjects self s) = Ok (\<Union>t \<in> self. the_Ok (fst (Thread_getLinkedObjects t s))) \<and>
   fst (ThreadGroup_getFunctions self s) = Ok (\<Union>t \<in> self. the_Ok (fst (Thread_getFunctions t s))) \<and>
   fst (ThreadGroup_getLoops self s) = Ok (\<Union>t \<in> self. the_Ok (fst (Thread_getLoops t s))) \<and>
   fst (ThreadGroup_getStatements self s) = Ok (\<Union>t \<in> self. the_Ok (fst (Thread_getStatements t s)))"
proof -
  show ?thesis
    unfolding ThreadGroup_getLinkedObjects_def ThreadGroup_getFunctions_def ThreadGroup_getLoops_def
      ThreadGroup_getStatements_def symbols_of_group_def Thread_getLinkedObjects_def Thread_getFunctions_def
      Thread_getLoops_def Thread_getStatements_def
    by (cases "self = {}")
      (auto simp: ret_def reading_fst collect_spaces collect_image objects_of_group_image thread_spaces_def)
qed

end
