(* ===== verification/Experiments.thy ===== *)
theory Experiments
  imports ThreadGroups AddressSpace
begin

text \<open>
  The class \<open>Experiment\<close> (Experiment.hxx, Experiment.cxx): the threads and collectors of an experiment,
  their creation and removal, and the queries over a whole database. The main results are that removing
  a thread takes away exactly what no other thread needs and keeps the integrity of the tables, and that
  creating and removing a collector are inverse. \<open>canonical\<close> is the resolution of host names, \<open>glob\<close> the
  operator \<open>GLOB\<close> of SQLite, and \<open>respond\<close> what plugins and instrumentors answer.
\<close>

section \<open>Queries\<close>

definition Experiment_getThreads :: "(session, int set) op" where
  "Experiment_getThreads = reading (\<lambda>db. Ok (collect thread_id (Threads db) {}))"

definition Experiment_getThreadsInProcess :: "int \<Rightarrow> string \<Rightarrow> (session, int set) op" where
  "Experiment_getThreadsInProcess p h = reading (\<lambda>db.
     Ok (collect thread_id (filter (\<lambda>row. host row = h \<and> pid row = Some p) (Threads db)) {}))"

definition Experiment_getCollectors :: "(session, int set) op" where
  "Experiment_getCollectors = reading (\<lambda>db. Ok (collect cl_id (Collectors db) {}))"

definition Experiment_getExecutables :: "(session, int set) op" where
  "Experiment_getExecutables = reading (\<lambda>db.
     Ok (collect lo_id (filter (\<lambda>lo. is_executable lo = 1) (LinkedObjects db)) {}))"

definition Experiment_getFunctionsByNamePattern ::
  "(string \<Rightarrow> string \<Rightarrow> bool) \<Rightarrow> string \<Rightarrow> (session, int set) op" where
  "Experiment_getFunctionsByNamePattern glob pattern = reading (\<lambda>db.
     Ok (collect fn_id (filter (\<lambda>row. glob pattern (fn_name row)) (Functions db)) {}))"

text \<open>The join of a table with \<open>Files\<close>.\<close>

definition with_path ::
  "('r \<Rightarrow> int) \<Rightarrow> (string \<Rightarrow> bool) \<Rightarrow> 'r list \<Rightarrow> FileRow list \<Rightarrow> 'r list" where
  "with_path file matches rows files = concat (map (\<lambda>row. map (\<lambda>_. row)
     (filter (\<lambda>f. file row = fl_id f \<and> matches (fl_path f)) files)) rows)"

definition Experiment_getLinkedObjectsByPathPattern ::
  "(string \<Rightarrow> string \<Rightarrow> bool) \<Rightarrow> string \<Rightarrow> (session, int set) op" where
  "Experiment_getLinkedObjectsByPathPattern glob pattern = reading (\<lambda>db.
     Ok (collect lo_id (with_path lo_file (glob pattern) (LinkedObjects db) (Files db)) {}))"

definition Experiment_getStatementsByPathPattern ::
  "(string \<Rightarrow> string \<Rightarrow> bool) \<Rightarrow> string \<Rightarrow> (session, int set) op" where
  "Experiment_getStatementsByPathPattern glob pattern = reading (\<lambda>db.
     Ok (collect sm_id (with_path sm_file (glob pattern) (Statements db) (Files db)) {}))"

definition Experiment_getFunctionsByPathPattern ::
  "nth_element \<Rightarrow> (nat \<Rightarrow> byte) \<Rightarrow> (string \<Rightarrow> string \<Rightarrow> bool) \<Rightarrow> string \<Rightarrow> (framework, int set) op" where
  "Experiment_getFunctionsByPathPattern ne beyond glob pattern =
     transaction_on False (
       andthen (on_session (Experiment_getStatementsByPathPattern glob pattern)) (\<lambda>statements.
         for_each (sorted_list_of_set statements) (\<lambda>functions i.
           andthen (Statement_getFunctions ne beyond i) (\<lambda>fs. ret (functions \<union> fs))) {}))"

section \<open>Threads\<close>

text \<open>The two overloads: \<open>omp\<close> is null in the first. A negative rank is none.\<close>

definition Experiment_updateThreads ::
  "(string \<Rightarrow> string) \<Rightarrow> int \<Rightarrow> 64 word \<Rightarrow> int option \<Rightarrow> int \<Rightarrow> string \<Rightarrow> (session, unit) op" where
  "Experiment_updateThreads canonical p tid omp rank h =
     in_transaction True (update_tables (\<lambda>db. db\<lparr>Threads := Threads db @
       [\<lparr>thread_id = new_id (map thread_id (Threads db)), command = None, host = canonical h,
         pid = Some p, posix_tid = Some tid, openmp_tid = omp,
         mpi_rank = (if rank < 0 then None else Some rank), mpi_impl = None\<rparr>]\<rparr>))"

text \<open>The constructor of \<open>ThreadName\<close> (ThreadName.cxx), which names a thread across runs.\<close>

record ThreadName =
  tn_command :: "string option"
  tn_host :: string
  tn_tid :: "int option"
  tn_rank :: "int option"
  tn_executable :: "string option"

definition ThreadName_make :: "int \<Rightarrow> (session, ThreadName) op" where
  "ThreadName_make t =
     in_transaction False (
       andthen (query (\<lambda>db. thread_rows t db)) (\<lambda>rows.
       andthen (Thread_getExecutable t TheBeginning) (\<lambda>executable.
       andthen (case executable of None \<Rightarrow> ret None
          | Some i \<Rightarrow> andthen (LinkedObject_getPath i) (\<lambda>path. ret (Some path))) (\<lambda>path.
         ret \<lparr>tn_command = nullable command rows, tn_host = foldl (\<lambda>_ row. host row) [] rows,
              tn_tid = nullable openmp_tid rows, tn_rank = nullable mpi_rank rows,
              tn_executable = path\<rparr>))))"

definition both :: "'a option \<Rightarrow> 'a option \<Rightarrow> bool" where
  "both x y \<longleftrightarrow> x \<noteq> None \<and> x = y"

definition ThreadName_equals :: "ThreadName \<Rightarrow> ThreadName \<Rightarrow> bool" where
  "ThreadName_equals self other =
     (if both (tn_command self) (tn_command other) \<and> tn_host self = tn_host other then True
      else if both (tn_executable self) (tn_executable other) \<and> both (tn_rank self) (tn_rank other) then True
      else if both (tn_executable self) (tn_executable other) \<and> tn_host self = tn_host other then True
      else False)"

fun first_command :: "int list \<Rightarrow> (session, string) op" where
  "first_command [] = ret []"
| "first_command (t # ts) =
     andthen (ThreadName_make t) (\<lambda>name.
     andthen (Thread_getCollectors t) (\<lambda>_.
       case tn_command name of Some text \<Rightarrow> ret text | None \<Rightarrow> first_command ts))"

definition Experiment_getApplicationCommand :: "(session, string) op" where
  "Experiment_getApplicationCommand =
     andthen Experiment_getThreads (\<lambda>threads. first_command (sorted_list_of_set threads))"

definition Experiment_setApplicationCommand :: "string \<Rightarrow> bool \<Rightarrow> (session, unit) op" where
  "Experiment_setApplicationCommand text trust_me =
     andthen Experiment_getThreads (\<lambda>threads.
       for_each (sorted_list_of_set threads) (\<lambda>_ t.
         andthen (ThreadName_make t) (\<lambda>name.
         andthen (Thread_getCollectors t) (\<lambda>_.
           if trust_me \<or> tn_command name \<noteq> None then Thread_setCommand text t else ret ()))) ())"

section \<open>Removing a thread\<close>

text \<open>The statements in their order; each is a function on the tables.\<close>

definition delete_thread :: "int \<Rightarrow> tables \<Rightarrow> tables" where
  "delete_thread t db = db\<lparr>Threads := filter (\<lambda>row. thread_id row \<noteq> t) (Threads db)\<rparr>"

definition delete_spaces :: "int \<Rightarrow> tables \<Rightarrow> tables" where
  "delete_spaces t db = db\<lparr>AddressSpaces := filter (\<lambda>row. as_thread row \<noteq> t) (AddressSpaces db)\<rparr>"

definition delete_data_of :: "(DataRow \<Rightarrow> int) \<Rightarrow> int \<Rightarrow> tables \<Rightarrow> tables" where
  "delete_data_of column i db = db\<lparr>Data := filter (\<lambda>row. column row \<noteq> i) (Data db)\<rparr>"

definition used_objects :: "tables \<Rightarrow> int set" where
  "used_objects db = set (map as_linked_object (AddressSpaces db))"

definition delete_objects :: "tables \<Rightarrow> tables" where
  "delete_objects db =
     db\<lparr>LinkedObjects := filter (\<lambda>lo. lo_id lo \<in> used_objects db) (LinkedObjects db)\<rparr>"

definition delete_functions :: "tables \<Rightarrow> tables" where
  "delete_functions db =
     db\<lparr>Functions := filter (\<lambda>row. fn_linked_object row \<in> used_objects db) (Functions db)\<rparr>"

definition delete_function_ranges :: "tables \<Rightarrow> tables" where
  "delete_function_ranges db = db\<lparr>FunctionRanges :=
     filter (\<lambda>row. rg_owner row \<in> set (map fn_id (Functions db))) (FunctionRanges db)\<rparr>"

definition delete_loops :: "tables \<Rightarrow> tables" where
  "delete_loops db = db\<lparr>Loops := filter (\<lambda>row. lp_linked_object row \<in> used_objects db) (Loops db)\<rparr>"

definition delete_loop_ranges :: "tables \<Rightarrow> tables" where
  "delete_loop_ranges db = db\<lparr>LoopRanges :=
     filter (\<lambda>row. rg_owner row \<in> set (map lp_id (Loops db))) (LoopRanges db)\<rparr>"

definition delete_statements :: "tables \<Rightarrow> tables" where
  "delete_statements db =
     db\<lparr>Statements := filter (\<lambda>row. sm_linked_object row \<in> used_objects db) (Statements db)\<rparr>"

definition delete_statement_ranges :: "tables \<Rightarrow> tables" where
  "delete_statement_ranges db = db\<lparr>StatementRanges :=
     filter (\<lambda>row. rg_owner row \<in> set (map sm_id (Statements db))) (StatementRanges db)\<rparr>"

definition delete_files :: "tables \<Rightarrow> tables" where
  "delete_files db = db\<lparr>Files := filter (\<lambda>f.
     \<not> (fl_id f \<notin> set (map lo_file (LinkedObjects db)) \<and> fl_id f \<notin> set (map sm_file (Statements db))))
     (Files db)\<rparr>"

definition removals :: "int \<Rightarrow> (tables \<Rightarrow> tables) list" where
  "removals t = [delete_thread t, delete_spaces t, delete_data_of da_thread t, delete_objects,
     delete_functions, delete_function_ranges, delete_loops, delete_loop_ranges, delete_statements,
     delete_statement_ranges, delete_files]"

definition run_statements :: "(tables \<Rightarrow> tables) list \<Rightarrow> (framework, unit) op" where
  "run_statements fs = for_each fs (\<lambda>_ f. on_session (update_tables f)) ()"

definition Experiment_removeThread ::
  "(string \<Rightarrow> bool) \<Rightarrow> (call \<Rightarrow> exception option) \<Rightarrow> int \<Rightarrow> (framework, unit) op" where
  "Experiment_removeThread available respond t =
     transaction_on True (
       andthen (on_session (Thread_getCollectors t)) (\<lambda>collectors.
       andthen (CollectorGroup_stopCollecting available respond collectors {t}) (\<lambda>_.
       andthen (on_session (Thread_getPostponedCollectors t)) (\<lambda>postponed.
       andthen (CollectorGroup_stopCollecting available respond postponed {t}) (\<lambda>_.
       andthen (call_plugin respond (Release t)) (\<lambda>_.
       andthen (DataCache_removeThread t) (\<lambda>_.
         run_statements (removals t))))))))"

section \<open>Collectors\<close>

definition insert_collector :: "string \<Rightarrow> (session, int) op" where
  "insert_collector uid = insert_row (\<lambda>db. new_id (map cl_id (Collectors db)))
     (\<lambda>i. Collectors_update (\<lambda>rows. rows @ [CollectorRow i uid None]))"

text \<open>\<open>defaults\<close> is what the plugin says are the default values of its parameters.\<close>

definition Experiment_createCollector ::
  "(string \<Rightarrow> bool) \<Rightarrow> (string \<Rightarrow> byte list) \<Rightarrow> string \<Rightarrow> (framework, int) op" where
  "Experiment_createCollector available defaults uid =
     transaction_on True (
       andthen (on_session (insert_collector uid)) (\<lambda>i.
       andthen (with_impl available i (ret ())) (\<lambda>_.
       andthen (on_session (Collector_setParameterData i (defaults uid))) (\<lambda>_. ret i))))"

definition delete_collector :: "int \<Rightarrow> tables \<Rightarrow> tables" where
  "delete_collector c db = db\<lparr>Collectors := filter (\<lambda>row. cl_id row \<noteq> c) (Collectors db)\<rparr>"

definition Experiment_removeCollector ::
  "(string \<Rightarrow> bool) \<Rightarrow> (call \<Rightarrow> exception option) \<Rightarrow> int \<Rightarrow> (framework, unit) op" where
  "Experiment_removeCollector available respond c =
     transaction_on True (
       andthen (on_session (Collector_getThreads c)) (\<lambda>threads.
       andthen (ThreadGroup_stopCollecting available respond threads {c}) (\<lambda>_.
       andthen (on_session (Collector_getPostponedThreads c)) (\<lambda>postponed.
       andthen (ThreadGroup_stopCollecting available respond postponed {c}) (\<lambda>_.
       andthen (DataCache_removeCollector c) (\<lambda>_.
         run_statements [delete_collector c, delete_data_of da_collector c]))))))"

section \<open>What removing a thread does to the tables\<close>

abbreviation purged :: "int \<Rightarrow> tables \<Rightarrow> tables" where
  "purged t db \<equiv> foldl (\<lambda>db f. f db) db (removals t)"

lemma purged_simps:
  fixes t db
  defines "db' \<equiv> purged t db"
  shows "Threads db' = filter (\<lambda>row. thread_id row \<noteq> t) (Threads db)"
    and "AddressSpaces db' = filter (\<lambda>row. as_thread row \<noteq> t) (AddressSpaces db)"
    and "Data db' = filter (\<lambda>row. da_thread row \<noteq> t) (Data db)"
    and "LinkedObjects db' = filter (\<lambda>lo. lo_id lo \<in> used_objects db') (LinkedObjects db)"
    and "Functions db' = filter (\<lambda>row. fn_linked_object row \<in> used_objects db') (Functions db)"
    and "Loops db' = filter (\<lambda>row. lp_linked_object row \<in> used_objects db') (Loops db)"
    and "Statements db' = filter (\<lambda>row. sm_linked_object row \<in> used_objects db') (Statements db)"
    and "FunctionRanges db' = filter (\<lambda>row. rg_owner row \<in> set (map fn_id (Functions db'))) (FunctionRanges db)"
    and "LoopRanges db' = filter (\<lambda>row. rg_owner row \<in> set (map lp_id (Loops db'))) (LoopRanges db)"
    and "StatementRanges db' = filter (\<lambda>row. rg_owner row \<in> set (map sm_id (Statements db'))) (StatementRanges db)"
    and "Files db' = filter (\<lambda>f. fl_id f \<in> lo_file ` set (LinkedObjects db') \<union> sm_file ` set (Statements db')) (Files db)"
    and "Collecting db' = Collecting db" and "Collectors db' = Collectors db" and "Views db' = Views db"
  unfolding db'_def
  by (simp_all add: removals_def delete_thread_def delete_spaces_def delete_data_of_def delete_objects_def
      delete_functions_def delete_function_ranges_def delete_loops_def delete_loop_ranges_def
      delete_statements_def delete_statement_ranges_def delete_files_def used_objects_def)

text \<open>The contents of a table of symbols, restricted to the linked objects that are kept.\<close>

lemma filtered_contents:
  assumes ok: "owners_ok (map the_id rows) ranges" and kept: "lo \<in> L"
    and rows': "rows' = filter (\<lambda>x. object x \<in> L) rows"
    and ranges': "ranges' = filter (\<lambda>r. rg_owner r \<in> set (map the_id rows')) ranges"
  shows "owners_ok (map the_id rows') ranges'"
    and "contents the_id object key rows' ranges' lo = contents the_id object key rows ranges lo"
proof -
  show "owners_ok (map the_id rows') ranges'"
    using ok by (auto simp: owners_ok_def ranges' rows' list_all_iff distinct_map intro: inj_on_subset)
  have "owned ranges' (the_id x) = owned ranges (the_id x)" if "x \<in> set rows" "object x = lo" for x
    using that kept by (force simp: owned_def ranges' rows')
  moreover have "{x \<in> set rows'. object x = lo} = {x \<in> set rows. object x = lo}"
    using kept by (auto simp: rows')
  ultimately show "contents the_id object key rows' ranges' lo = contents the_id object key rows ranges lo"
    unfolding contents_def by (intro image_cong) auto
qed

lemma filtered_owners:
  assumes ok: "owners_ok (map the_id rows) ranges" and rows': "rows' = filter P rows"
    and ranges': "ranges' = filter (\<lambda>r. rg_owner r \<in> set (map the_id rows')) ranges"
  shows "owners_ok (map the_id rows') ranges'"
  using ok by (auto simp: owners_ok_def ranges' rows' list_all_iff distinct_map intro: inj_on_subset)

lemma find_filter:
  "distinct (map fl_id files) \<Longrightarrow> i \<in> I \<Longrightarrow>
    find (\<lambda>f. fl_id f = i) (filter (\<lambda>f. fl_id f \<in> I) files) = find (\<lambda>f. fl_id f = i) files"
  by (induction files) auto

definition integrity :: "tables \<Rightarrow> bool" where
  "integrity db \<longleftrightarrow> symbols_ok db \<and> objects_ok db \<and> collecting_ok db \<and>
     da_collector ` set (Data db) \<subseteq> cl_id ` set (Collectors db) \<and>
     da_thread ` set (Data db) \<subseteq> thread_id ` set (Threads db) \<and>
     (\<forall>c t. collecting db (c, t) \<noteq> None \<longrightarrow> c \<in> cl_id ` set (Collectors db))"

text \<open>Without a thread: nothing refers to it, no table keeps what nothing uses, the rest is the same.\<close>

definition without_thread :: "int \<Rightarrow> tables \<Rightarrow> tables \<Rightarrow> bool" where
  "without_thread t db db' \<longleftrightarrow>
     Threads db' = filter (\<lambda>row. thread_id row \<noteq> t) (Threads db) \<and>
     AddressSpaces db' = filter (\<lambda>row. as_thread row \<noteq> t) (AddressSpaces db) \<and>
     thread_spaces t db' = [] \<and> (\<forall>c. rows_for (c, t) db' = [] \<and> collecting db' (c, t) = None) \<and>
     (\<forall>t' c tm. t' \<noteq> t \<longrightarrow> loaded db' t' tm = loaded db t' tm \<and>
        rows_for (c, t') db' = rows_for (c, t') db \<and> collecting db' (c, t') = collecting db (c, t')) \<and>
     lo_id ` set (LinkedObjects db') = used_objects db' \<and>
     fl_id ` set (Files db') = lo_file ` set (LinkedObjects db') \<union> sm_file ` set (Statements db') \<and>
     (\<forall>lo. if lo \<in> used_objects db'
        then functions_in db' lo = functions_in db lo \<and> loops_in db' lo = loops_in db lo \<and>
          statements_in db' lo = statements_in db lo
        else functions_in db' lo = {} \<and> loops_in db' lo = {} \<and> statements_in db' lo = {}) \<and>
     Collectors db' = Collectors db \<and> Views db' = Views db"

lemma filtered_image:
  assumes "f ` A \<subseteq> g ` B" and "A' \<subseteq> A" and "f ` A' \<subseteq> C"
  shows "f ` A' \<subseteq> g ` {x \<in> B. g x \<in> C}"
proof (rule image_subsetI)
  fix x assume "x \<in> A'"
  then have "f x \<in> g ` B" "f x \<in> C" using assms by auto
  then show "f x \<in> g ` {x \<in> B. g x \<in> C}" by auto
qed

lemma purged_integrity:
  assumes db: "symbols_ok db" "objects_ok db"
  shows "symbols_ok (purged t db)" and "objects_ok (purged t db)"
proof -
  let ?db = "purged t db"
  note simps = purged_simps [where t = t and db = db]
  have files: "distinct (map fl_id (Files ?db))" "distinct (map fl_path (Files ?db))"
    using db unfolding simps(11) by (auto simp: symbols_ok_def files_ok_def distinct_map intro: inj_on_subset)
  have "sm_file ` set (Statements db) \<subseteq> fl_id ` set (Files db)"
    "lo_file ` set (LinkedObjects db) \<subseteq> fl_id ` set (Files db)"
    using db by (auto simp: symbols_ok_def files_ok_def objects_ok_def)
  note images = filtered_image [OF this(1), of "set (Statements ?db)"] filtered_image [OF this(2), of "set (LinkedObjects ?db)"]
  have referenced: "sm_file ` set (Statements ?db) \<subseteq> fl_id ` set (Files ?db)"
    "lo_file ` set (LinkedObjects ?db) \<subseteq> fl_id ` set (Files ?db)"
    unfolding simps(11) set_filter by (intro images; simp add: simps(4,7))+
  show "symbols_ok ?db"
    unfolding symbols_ok_def
  proof (intro conjI)
    show "owners_ok (map fn_id (Functions ?db)) (FunctionRanges ?db)"
      by (rule filtered_owners [OF _ simps(5,8)]) (use db in \<open>simp add: symbols_ok_def\<close>)
    show "owners_ok (map lp_id (Loops ?db)) (LoopRanges ?db)"
      by (rule filtered_owners [OF _ simps(6,9)]) (use db in \<open>simp add: symbols_ok_def\<close>)
    show "owners_ok (map sm_id (Statements ?db)) (StatementRanges ?db)"
      by (rule filtered_owners [OF _ simps(7,10)]) (use db in \<open>simp add: symbols_ok_def\<close>)
    show "files_ok ?db"
      using files referenced(1) db(1) unfolding files_ok_def simps(11) by (simp add: symbols_ok_def files_ok_def)
  qed
  have objects: "distinct (map lo_id (LinkedObjects db))" "\<forall>lo \<in> set (LinkedObjects db). 0 < lo_id lo"
    "as_linked_object ` set (AddressSpaces db) \<subseteq> lo_id ` set (LinkedObjects db)"
    using db(2) by (auto simp: objects_ok_def)
  have "as_linked_object ` set (AddressSpaces ?db) \<subseteq> lo_id ` set (LinkedObjects ?db)"
  proof -
    have "set (AddressSpaces ?db) \<subseteq> set (AddressSpaces db)" by (simp only: simps(2) filter_is_subset)
    from filtered_image [OF objects(3) this, of "used_objects ?db"] show ?thesis
      unfolding simps(4) set_filter by (simp only: used_objects_def set_map subset_refl simp_thms)
  qed
  moreover have "distinct (map lo_id (LinkedObjects ?db))" "\<forall>lo \<in> set (LinkedObjects ?db). 0 < lo_id lo"
    unfolding simps(4) using objects(1,2) by (simp_all add: distinct_map_filter)
  moreover have "\<forall>lo \<in> set (LinkedObjects ?db). lo_file lo \<in> fl_id ` set (Files ?db)"
    using referenced(2) by (simp only: image_subset_iff)
  ultimately show "objects_ok ?db" unfolding objects_ok_def using files(1) by blast
qed

lemma purged_integrity_all:
  assumes "integrity db"
  shows "integrity (purged t db)"
proof -
  have "collecting (purged t db) = collecting db" "collecting_ok (purged t db) = collecting_ok db"
    by (simp_all add: fun_eq_iff collecting_def collecting_ok_def purged_simps del: split_paired_All)
  moreover have "da_thread ` set (Data (purged t db)) \<subseteq> thread_id ` set (Threads (purged t db))"
    using assms filtered_image [of da_thread "set (Data db)" thread_id "set (Threads db)"
        "set (Data (purged t db))" "- {t}"]
    by (auto simp: integrity_def purged_simps)
  moreover have "da_collector ` set (Data (purged t db)) \<subseteq> cl_id ` set (Collectors db)"
    using assms by (auto simp: integrity_def purged_simps)
  ultimately show ?thesis
    using assms purged_integrity [of db t] by (simp add: integrity_def purged_simps(13))
qed

lemma purged_without:
  assumes "integrity db" and "\<And>c. collecting db (c, t) = None"
  shows "without_thread t db (purged t db)"
proof -
  let ?db = "purged t db"
  note simps = purged_simps [where t = t and db = db]
  have db: "symbols_ok db" "objects_ok db" using assms(1) by (simp_all add: integrity_def)
  note ok = purged_integrity [OF db, of t]
  have files: "distinct (map fl_id (Files db))" using db(2) by (simp add: objects_ok_def)
  have object: "\<exists>lo \<in> set (LinkedObjects db). lo_id lo = as_linked_object row"
    if "row \<in> set (AddressSpaces db)" for row
    using db(2) that by (fastforce simp: objects_ok_def)
  have path: "object_path ?db i p = object_path db i p" if "i \<in> used_objects ?db" for i p
  proof -
    have "lo \<in> set (LinkedObjects ?db) \<longleftrightarrow> lo \<in> set (LinkedObjects db)" if "lo_id lo = i" for lo
      using that \<open>i \<in> used_objects ?db\<close> by (simp only: simps(4) set_filter mem_Collect_eq simp_thms)
    moreover have "f \<in> set (Files ?db) \<longleftrightarrow> f \<in> set (Files db)" if "lo \<in> set (LinkedObjects ?db)" "lo_file lo = fl_id f" for lo f
      unfolding simps(11) set_filter using that by (metis (mono_tags, lifting) UnI1 image_eqI mem_Collect_eq)
    ultimately show ?thesis unfolding object_path_def by blast
  qed
  show ?thesis
    unfolding without_thread_def
  proof (intro conjI allI impI)
    show "AddressSpaces ?db = filter (\<lambda>row. as_thread row \<noteq> t) (AddressSpaces db)" by (rule simps(2))
    show "thread_spaces t ?db = []" by (simp add: thread_spaces_def simps(2))
    show "rows_for (c, t) ?db = []" "collecting ?db (c, t) = None" for c
      using assms(2) by (simp_all add: rows_for_def simps(3) filter_empty_conv collecting_def simps(12))
    fix t' c tm assume t': "t' \<noteq> t"
    then have spaces: "thread_spaces t' ?db = thread_spaces t' db"
      by (auto simp: thread_spaces_def simps(2) intro: filter_cong)
    have "row_loads ?db row = row_loads db row" if "row \<in> set (thread_spaces t' ?db)" for row
    proof -
      have "as_linked_object row \<in> used_objects ?db"
        using that by (simp add: used_objects_def thread_spaces_def)
      then show ?thesis by (simp add: row_loads_def path)
    qed
    then show "loaded ?db t' tm = loaded db t' tm"
      unfolding loaded_def spaces by (auto simp: spaces)
    show "rows_for (c, t') ?db = rows_for (c, t') db"
      using t' by (auto simp: rows_for_def simps(3) intro: filter_cong)
    show "collecting ?db (c, t') = collecting db (c, t')" by (simp add: collecting_def simps(12))
  next
    show "lo_id ` set (LinkedObjects ?db) = used_objects ?db"
    proof
      show "lo_id ` set (LinkedObjects ?db) \<subseteq> used_objects ?db" using simps(4) by auto
      show "used_objects ?db \<subseteq> lo_id ` set (LinkedObjects ?db)"
        using ok(2) by (simp add: objects_ok_def used_objects_def)
    qed
    show "fl_id ` set (Files ?db) = lo_file ` set (LinkedObjects ?db) \<union> sm_file ` set (Statements ?db)"
    proof
      show "fl_id ` set (Files ?db) \<subseteq> lo_file ` set (LinkedObjects ?db) \<union> sm_file ` set (Statements ?db)"
        using simps(11) by auto
      show "lo_file ` set (LinkedObjects ?db) \<union> sm_file ` set (Statements ?db) \<subseteq> fl_id ` set (Files ?db)"
        using ok by (auto simp: symbols_ok_def files_ok_def objects_ok_def)
    qed
  next
    fix lo
    have owners: "owners_ok (map fn_id (Functions db)) (FunctionRanges db)"
      "owners_ok (map lp_id (Loops db)) (LoopRanges db)"
      "owners_ok (map sm_id (Statements db)) (StatementRanges db)"
      using db(1) by (simp_all add: symbols_ok_def)
    have "path_of (Files ?db) (sm_file x) = path_of (Files db) (sm_file x)" if "x \<in> set (Statements ?db)" for x
      unfolding path_of_def simps(11) using that by (subst find_filter [OF files]) auto
    then have statements: "statements_in ?db = contents sm_id sm_linked_object (statement_key (Files db))
        (Statements ?db) (StatementRanges ?db)"
      unfolding statements_in_def by (intro contents_cong) (simp add: statement_key_def)
    show "if lo \<in> used_objects ?db
        then functions_in ?db lo = functions_in db lo \<and> loops_in ?db lo = loops_in db lo \<and>
          statements_in ?db lo = statements_in db lo
        else functions_in ?db lo = {} \<and> loops_in ?db lo = {} \<and> statements_in ?db lo = {}"
    proof (cases "lo \<in> used_objects ?db")
      case True
      then show ?thesis
        using filtered_contents(2) [OF owners(1) True simps(5,8), of fn_name]
          filtered_contents(2) [OF owners(2) True simps(6,9), of lp_head]
          filtered_contents(2) [OF owners(3) True simps(7,10), of "statement_key (Files db)"]
        unfolding statements unfolding functions_in_def loops_in_def statements_in_def by simp
    next
      case False
      then have none: "{x \<in> set (Functions ?db). fn_linked_object x = lo} = {}"
        "{x \<in> set (Loops ?db). lp_linked_object x = lo} = {}"
        "{x \<in> set (Statements ?db). sm_linked_object x = lo} = {}"
        using simps(5,6,7) by auto
      show ?thesis
        using False unfolding functions_in_def loops_in_def statements_in_def contents_def none by simp
    qed
  qed (simp_all add: simps(1,13,14))
qed

section \<open>Stopping what collects\<close>

lemma andthen_ret_right: "andthen m (for_each [] body) = m"
  by (auto simp: fun_eq_iff andthen_def ret_def split: prod.splits res.splits)

lemma for_each_map: "for_each (map g xs) body acc = for_each xs (\<lambda>a x. body a (g x)) acc"
proof -
  have "for_each (map g xs) body = for_each xs (\<lambda>a x. body a (g x))"
    by (induction xs) (auto intro!: ext)
  then show ?thesis by simp
qed

lemma for_group_single:
  "for_group operation collectors {t} = for_each (map (\<lambda>c. (c, t)) (sorted_list_of_set collectors))
     (\<lambda>_ k. operation (fst k) {snd k}) ()"
  unfolding for_group_def by (simp add: for_each_map andthen_ret_right del: for_each.simps(1))

lemma for_threads_single:
  "for_threads operation threads {c} = for_each (map (Pair c) (sorted_list_of_set threads))
     (\<lambda>_ k. operation (fst k) {snd k}) ()"
  unfolding for_threads_def by (simp add: for_each_map andthen_ret_right del: for_each.simps(1))

lemma collector_id_collecting: "collector_id c (db\<lparr>Collecting := rows\<rparr>) = collector_id c db"
  by (simp add: collector_id_def)

lemma same_collecting: "\<exists>rows. db = db\<lparr>Collecting := rows\<rparr>" for db :: tables
  by (intro exI [of _ "Collecting db"]) simp

lemma stop_pairs_ok:
  assumes "collecting_ok (stored (the_session s))" and "\<And>c. respond c = None" and "distinct ks"
    and "\<And>k. k \<in> set ks \<Longrightarrow> available (collector_id (fst k) (stored (the_session s)))"
  shows "\<exists>s'. for_each ks (\<lambda>_ k. Collector_stopCollecting available respond (fst k) {snd k}) () s = (Ok (), s') \<and>
    balanced s s' \<and> data_cache s' = data_cache s \<and>
    calls s' = calls s @ map (\<lambda>k. StopCollecting (fst k) [snd k])
      (filter (\<lambda>k. collecting (stored (the_session s)) k = Some 0) ks) \<and>
    (\<exists>rows. stored (the_session s') = (stored (the_session s))\<lparr>Collecting := rows\<rparr>) \<and>
    collecting_ok (stored (the_session s')) \<and> (\<forall>k. collecting (stored (the_session s')) k
      = (if k \<in> set ks then None else collecting (stored (the_session s)) k))"
  using assms(1,3,4)
proof (induction ks arbitrary: s)
  case Nil
  show ?case
    by (intro exI [of _ s] conjI allI same_collecting) (use Nil.prems(1) in \<open>simp_all add: ret_def\<close>)
next
  case (Cons k ks)
  let ?db = "stored (the_session s)"
  have available: "available (collector_id (fst k) ?db)" using Cons.prems(3) by simp
  let ?affected = "filter (\<lambda>t. collecting ?db (fst k, t) = Some 0) (sorted_list_of_set {snd k})"
  have affected: "?affected = (if collecting ?db k = Some 0 then [snd k] else [])" by simp
  from stopping.change_ok [where available = available and s = s and respond = respond
      and act = StopCollecting, OF available Cons.prems(1), of "{snd k}"] obtain s1 where
    run: "Collector_stopCollecting available respond (fst k) {snd k} s = (if ?affected = [] then Ok ()
      else case respond (StopCollecting (fst k) ?affected) of None \<Rightarrow> Ok () | Some e \<Rightarrow> Throw e, s1)"
    and s1: "balanced s s1" "data_cache s1 = data_cache s"
      "calls s1 = calls s @ (if ?affected = [] then [] else [StopCollecting (fst k) ?affected])"
      "\<exists>rows. stored (the_session s1) = ?db\<lparr>Collecting := rows\<rparr>" "collecting_ok (stored (the_session s1))"
      "\<And>c t. collecting (stored (the_session s1)) (c, t)
        = (if c = fst k \<and> t \<in> {snd k} then (\<lambda>_. None) else id) (collecting ?db (c, t))"
    unfolding Collector_stopCollecting_def by blast
  have one: "Collector_stopCollecting available respond (fst k) {snd k} s = (Ok (), s1)"
    unfolding run assms(2) by simp
  have calls1: "calls s1 = calls s @ (if collecting ?db k = Some 0 then [StopCollecting (fst k) [snd k]] else [])"
    unfolding s1(3) affected by simp
  have same: "collecting (stored (the_session s1)) k' = (if k' = k then None else collecting ?db k')" for k'
    using s1(6) [of "fst k'" "snd k'"] by (simp add: prod_eq_iff)
  have "available (collector_id (fst k') (stored (the_session s1)))" if "k' \<in> set ks" for k'
    using Cons.prems(3) [of k'] s1(4) that by (auto simp: collector_id_collecting)
  from Cons.IH [OF s1(5) _ this] Cons.prems(2) obtain s2 where
    rest: "for_each ks (\<lambda>_ k. Collector_stopCollecting available respond (fst k) {snd k}) () s1 = (Ok (), s2)"
    and s2: "balanced s1 s2" "data_cache s2 = data_cache s1"
      "calls s2 = calls s1 @ map (\<lambda>k. StopCollecting (fst k) [snd k])
        (filter (\<lambda>k. collecting (stored (the_session s1)) k = Some 0) ks)"
      "\<exists>rows. stored (the_session s2) = (stored (the_session s1))\<lparr>Collecting := rows\<rparr>"
      "collecting_ok (stored (the_session s2))"
      "\<And>k'. collecting (stored (the_session s2)) k'
        = (if k' \<in> set ks then None else collecting (stored (the_session s1)) k')"
    by auto
  have "filter (\<lambda>k. collecting (stored (the_session s1)) k = Some 0) ks = filter (\<lambda>k. collecting ?db k = Some 0) ks"
    using Cons.prems(2) by (intro filter_cong) (auto simp: same)
  moreover have "\<exists>rows. stored (the_session s2) = ?db\<lparr>Collecting := rows\<rparr>" using s1(4) s2(4) by auto
  moreover have "collecting (stored (the_session s2)) k' = (if k' \<in> set (k # ks) then None else collecting ?db k')" for k'
    by (simp add: s2(6) same)
  moreover have "for_each (k # ks) (\<lambda>_ k. Collector_stopCollecting available respond (fst k) {snd k}) () s = (Ok (), s2)"
    using rest by (simp add: andthen_def one)
  ultimately show ?case
    using s1(2) calls1 s2(2,3,5) balanced_trans [OF s1(1) s2(1)] by (intro exI [of _ s2]) simp
qed

lemma collecting_row:
  assumes "collecting_ok db"
  shows "CollectingRow c t x \<in> set (Collecting db) \<longleftrightarrow> collecting db (c, t) = Some x"
proof -
  have "CollectingRow c t x \<in> set (Collecting db)
      \<longleftrightarrow> ((c, t), x) \<in> set (map (\<lambda>row. (pair_of row, is_postponed row)) (Collecting db))"
    by (auto simp: pair_of_def image_iff intro!: bexI [of _ "CollectingRow c t x"])
  moreover have "distinct (map fst (map (\<lambda>row. (pair_of row, is_postponed row)) (Collecting db)))"
    using assms by (simp add: collecting_ok_def comp_def)
  ultimately show ?thesis unfolding collecting_def by (simp only: map_of_eq_Some_iff)
qed

text \<open>The two phases that remove a thread or a collector from the machines of collecting.\<close>

lemma stop_phases:
  fixes the_pairs :: "int set \<Rightarrow> (int \<times> int) list" and select :: "int \<Rightarrow> tables \<Rightarrow> int set"
    and available :: "string \<Rightarrow> bool" and respond :: "call \<Rightarrow> exception option"
  defines "get \<equiv> \<lambda>x. on_session (reading (\<lambda>db. Ok (select x db)))"
    and "stop \<equiv> \<lambda>A. for_each (the_pairs A) (\<lambda>_ k. Collector_stopCollecting available respond (fst k) {snd k}) ()"
  assumes ok: "collecting_ok (stored (the_session s))" and every_quiet: "\<forall>c. respond c = None"
    and every_pairs: "\<forall>x db. collecting_ok db \<longrightarrow> distinct (the_pairs (select x db)) \<and>
      set (the_pairs (select x db)) = {k. P k \<and> collecting db k = Some x}"
    and every_avail: "\<forall>k. P k \<longrightarrow> collecting (stored (the_session s)) k \<noteq> None \<longrightarrow>
      available (collector_id (fst k) (stored (the_session s)))"
  shows "\<exists>s'. andthen (get 0) (\<lambda>A. andthen (stop A) (\<lambda>_. andthen (get 1) (\<lambda>B. andthen (stop B) (\<lambda>_. rest)))) s
      = rest s' \<and> balanced s s' \<and> data_cache s' = data_cache s \<and>
    calls s' = calls s @ map (\<lambda>k. StopCollecting (fst k) [snd k])
      (the_pairs (select 0 (stored (the_session s)))) \<and>
    (\<exists>rows. stored (the_session s') = (stored (the_session s))\<lparr>Collecting := rows\<rparr>) \<and>
    collecting_ok (stored (the_session s')) \<and> (\<forall>k. collecting (stored (the_session s')) k
      = (if P k then None else collecting (stored (the_session s)) k))"
proof -
  let ?db = "stored (the_session s)"
  note quiet = every_quiet [rule_format] and pairs = every_pairs [rule_format] and avail = every_avail [rule_format]
  obtain x1 where g1: "get 0 s = (Ok (select 0 ?db), s\<lparr>the_session := x1\<rparr>)"
    and u1: "unchanged s (s\<lparr>the_session := x1\<rparr>)"
    unfolding get_def using reading_unchanged [of "\<lambda>db. Ok (select 0 db)" s] by auto
  let ?s1 = "s\<lparr>the_session := x1\<rparr>"
  have db1: "stored (the_session ?s1) = ?db" using u1 by (simp add: unchanged_def)
  note p0 = pairs [OF ok, of 0]
  have "available (collector_id (fst k) (stored (the_session ?s1)))" if "k \<in> set (the_pairs (select 0 ?db))" for k
    unfolding db1 using that p0 by (intro avail) auto
  from stop_pairs_ok [where s = ?s1 and respond = respond and available = available,
      OF _ quiet conjunct1 [OF p0] this] ok obtain s2 where
    r2: "stop (select 0 ?db) ?s1 = (Ok (), s2)" and s2: "balanced ?s1 s2" "data_cache s2 = data_cache ?s1"
      "calls s2 = calls ?s1 @ map (\<lambda>k. StopCollecting (fst k) [snd k])
        (filter (\<lambda>k. collecting ?db k = Some 0) (the_pairs (select 0 ?db)))"
      "\<exists>rows. stored (the_session s2) = ?db\<lparr>Collecting := rows\<rparr>" "collecting_ok (stored (the_session s2))"
      "\<And>k. collecting (stored (the_session s2)) k
        = (if k \<in> set (the_pairs (select 0 ?db)) then None else collecting ?db k)"
    unfolding stop_def db1 by blast
  obtain x3 where g3: "get 1 s2 = (Ok (select 1 (stored (the_session s2))), s2\<lparr>the_session := x3\<rparr>)"
    and u3: "unchanged s2 (s2\<lparr>the_session := x3\<rparr>)"
    unfolding get_def using reading_unchanged [of "\<lambda>db. Ok (select 1 db)" s2] by auto
  let ?s3 = "s2\<lparr>the_session := x3\<rparr>" and ?B = "select 1 (stored (the_session s2))"
  have db3: "stored (the_session ?s3) = stored (the_session s2)" using u3 by (simp add: unchanged_def)
  note p1 = pairs [OF s2(5), of 1]
  have "available (collector_id (fst k) (stored (the_session ?s3)))" if "k \<in> set (the_pairs ?B)" for k
  proof -
    have "P k" "collecting ?db k \<noteq> None" using that p1 by (auto simp: s2(6) split: if_splits)
    from avail [OF this] show ?thesis unfolding db3 using s2(4) by (auto simp: collector_id_collecting)
  qed
  from stop_pairs_ok [where s = ?s3 and respond = respond and available = available,
      OF _ quiet conjunct1 [OF p1] this] s2(5) obtain s4 where
    r4: "stop ?B ?s3 = (Ok (), s4)" and s4: "balanced ?s3 s4" "data_cache s4 = data_cache ?s3"
      "calls s4 = calls ?s3 @ map (\<lambda>k. StopCollecting (fst k) [snd k])
        (filter (\<lambda>k. collecting (stored (the_session s2)) k = Some 0) (the_pairs ?B))"
      "\<exists>rows. stored (the_session s4) = (stored (the_session s2))\<lparr>Collecting := rows\<rparr>"
      "collecting_ok (stored (the_session s4))"
      "\<And>k. collecting (stored (the_session s4)) k
        = (if k \<in> set (the_pairs ?B) then None else collecting (stored (the_session s2)) k)"
    unfolding stop_def db3 by blast
  have none: "filter (\<lambda>k. collecting (stored (the_session s2)) k = Some 0) (the_pairs ?B) = []"
    using p1 by (auto simp: filter_empty_conv)
  have every: "filter (\<lambda>k. collecting ?db k = Some 0) (the_pairs (select 0 ?db)) = the_pairs (select 0 ?db)"
    using p0 by (intro filter_True) auto
  have "collecting (stored (the_session s4)) k = (if P k then None else collecting ?db k)" for k
    using p0 p1 collecting_values [OF ok, of k] by (cases "collecting ?db k") (auto simp: s4(6) s2(6))
  moreover have "balanced s ?s1" "balanced s2 ?s3" using u1 u3 by (simp_all add: unchanged_iff)
  then have "balanced s s4" using s2(1) s4(1) balanced_trans by blast
  moreover have "calls s4 = calls s @ map (\<lambda>k. StopCollecting (fst k) [snd k]) (the_pairs (select 0 ?db))"
    using s4(3) s2(3) unfolding none every by simp
  moreover have "\<exists>rows. stored (the_session s4) = ?db\<lparr>Collecting := rows\<rparr>" using s2(4) s4(4) by auto
  ultimately show ?thesis
    using s4(2,5) s2(2) by (intro exI [of _ s4]) (simp add: andthen_def g1 r2 g3 r4)
qed

section \<open>The whole removal\<close>

lemma run_statements_ok:
  "run_statements fs s = (Ok (), s\<lparr>the_session := (the_session s)\<lparr>stored :=
     foldl (\<lambda>db f. f db) (stored (the_session s)) fs\<rparr>\<rparr>)"
proof (induction fs arbitrary: s)
  case (Cons f fs)
  then show ?case by (simp add: run_statements_def andthen_def on_session_update)
qed (simp add: run_statements_def ret_def)

lemma data_agrees_Data:
  assumes "Data (stored (the_session s')) = Data (stored (the_session s))" and "data_cache s' = data_cache s"
  shows "data_agrees s' = data_agrees s"
  using assms by (simp add: data_agrees_iff data_ok_def rows_for_def del: split_paired_All)

text \<open>Groups have been dropped from the cache; then the rows of these groups are deleted.\<close>

lemma data_agrees_dropped:
  assumes s: "data_agrees s" and s': "data_cache s' = data_cache t" "et_ok (data_cache t)"
    and ent: "entries (data_cache t) = (\<lambda>k. if k \<in> K then [] else entries (data_cache s) k)"
    and rows: "Data (stored (the_session s')) = filter (\<lambda>row. (da_collector row, da_thread row) \<notin> G)
      (Data (stored (the_session s)))"
    and covers: "\<And>row. row \<in> set (Data (stored (the_session s))) \<Longrightarrow>
      (da_collector row, da_thread row) \<in> G \<Longrightarrow> (da_collector row, da_thread row) \<in> K"
    and within: "K \<subseteq> G"
  shows "data_agrees s'"
  unfolding data_agrees_iff
proof (intro conjI allI)
  let ?db = "stored (the_session s)"
  show "data_ok (stored (the_session s'))"
    using s by (auto simp: data_agrees_iff data_ok_def rows list_all_iff sorted_wrt_map
        intro: sorted_wrt_filter)
  show "et_ok (data_cache s')" using s' by simp
  fix k
  have old: "entries (data_cache s) k = [] \<or>
      set (entries (data_cache s) k) = set (with_extents (rows_for k ?db))"
    using s by (simp add: data_agrees_iff del: split_paired_All)
  show "entries (data_cache s') k = [] \<or>
      set (entries (data_cache s') k) = set (with_extents (rows_for k (stored (the_session s'))))"
  proof (cases "k \<in> G")
    case True
    show ?thesis
    proof (cases "k \<in> K")
      case False
      then have "rows_for k ?db = []"
        using covers True by (cases k) (fastforce simp: rows_for_def filter_empty_conv)
      then show ?thesis using old False by (simp add: s'(1) ent with_extents_def)
    qed (simp add: s'(1) ent)
  next
    case False
    then have "rows_for k (stored (the_session s')) = rows_for k ?db"
      by (cases k) (auto simp: rows_for_def rows intro: filter_cong)
    moreover have "k \<notin> K" using False within by blast
    ultimately show ?thesis using old by (simp add: s'(1) ent)
  qed
qed

lemma integrity_collecting:
  assumes "collecting_ok (db\<lparr>Collecting := rows\<rparr>)" and "integrity db"
    and "\<And>k. collecting (db\<lparr>Collecting := rows\<rparr>) k = (if P k then None else collecting db k)"
  shows "integrity (db\<lparr>Collecting := rows\<rparr>)"
  using assms by (simp add: integrity_def symbols_ok_def files_ok_def objects_ok_def) blast

lemma without_thread_collecting:
  assumes "without_thread t (db\<lparr>Collecting := rows\<rparr>) db'"
    and "\<And>k. collecting (db\<lparr>Collecting := rows\<rparr>) k = (if snd k = t then None else collecting db k)"
  shows "without_thread t db db'"
proof -
  have "loaded (db\<lparr>Collecting := rows\<rparr>) = loaded db" "rows_for k (db\<lparr>Collecting := rows\<rparr>) = rows_for k db"
    "functions_in (db\<lparr>Collecting := rows\<rparr>) = functions_in db" "loops_in (db\<lparr>Collecting := rows\<rparr>) = loops_in db"
    "statements_in (db\<lparr>Collecting := rows\<rparr>) = statements_in db" for k
    by (simp_all add: fun_eq_iff loaded_def row_loads_def object_path_def thread_spaces_def
        rows_for_def functions_in_def loops_in_def statements_in_def)
  with assms show ?thesis unfolding without_thread_def by simp
qed

lemma removeThread_run:
  assumes "integrity (stored (the_session s))" and "data_agrees s" and quiet: "\<And>c. respond c = None"
    and avail: "\<And>c. collecting (stored (the_session s)) (c, t) \<noteq> None \<Longrightarrow>
      available (collector_id c (stored (the_session s)))"
  shows "\<exists>s'. Experiment_removeThread available respond t s = (Ok (), s') \<and> balanced s s' \<and>
    data_agrees s' \<and> integrity (stored (the_session s')) \<and>
    without_thread t (stored (the_session s)) (stored (the_session s')) \<and>
    calls s' = calls s @ map (\<lambda>c. StopCollecting c [t]) (sorted_list_of_set
      {c. collecting (stored (the_session s)) (c, t) = Some 0}) @ [Release t]"
proof -
  let ?db = "stored (the_session s)"
  let ?select = "\<lambda>x db. collect cg_collector (filter (\<lambda>row. cg_thread row = t \<and> is_postponed row = x) (Collecting db)) {}"
  let ?pairs = "\<lambda>A. map (\<lambda>c. (c, t)) (sorted_list_of_set A)"
  have ok: "collecting_ok ?db" using assms(1) by (simp add: integrity_def)
  have select: "?select x db = {c. collecting db (c, t) = Some x}" if "collecting_ok db" for x db
  proof -
    have "c \<in> ?select x db \<longleftrightarrow> CollectingRow c t x \<in> set (Collecting db)" for c
      by (auto simp: collect_image image_iff intro!: bexI [of _ "CollectingRow c t x"])
    then show ?thesis by (auto simp: collecting_row [OF that])
  qed
  have pairs: "\<forall>x db. collecting_ok db \<longrightarrow> distinct (?pairs (?select x db)) \<and>
      set (?pairs (?select x db)) = {k. snd k = t \<and> collecting db k = Some x}"
  proof (intro allI impI)
    fix x db assume db: "collecting_ok db"
    have "finite (?select x db)" by (simp add: collect_image)
    then show "distinct (?pairs (?select x db)) \<and>
        set (?pairs (?select x db)) = {k. snd k = t \<and> collecting db k = Some x}"
      by (auto simp: distinct_map inj_on_def select [OF db])
  qed
  let ?rest = "andthen (call_plugin respond (Release t)) (\<lambda>_. andthen (DataCache_removeThread t) (\<lambda>_.
      run_statements (removals t)))"
  let ?s1 = "at_session (Begin True) s"
  have db1: "stored (the_session ?s1) = ?db" by simp
  have ok1: "collecting_ok (stored (the_session ?s1))" using ok by simp
  have avail1: "\<forall>k. snd k = t \<longrightarrow> collecting (stored (the_session ?s1)) k \<noteq> None \<longrightarrow>
      available (collector_id (fst k) (stored (the_session ?s1)))"
    using avail by auto
  have every: "\<forall>c. respond c = None" using quiet by simp
  let ?get = "\<lambda>x. on_session (reading (\<lambda>db. Ok (?select x db)))"
  let ?stop = "\<lambda>A. for_each (?pairs A) (\<lambda>_ k. Collector_stopCollecting available respond (fst k) {snd k}) ()"
  from stop_phases [where the_pairs = ?pairs and select = ?select and P = "\<lambda>k. snd k = t" and s = ?s1
      and available = available and respond = respond and rest = ?rest, OF ok1 every pairs avail1] obtain s2 where
    run2: "andthen (?get 0) (\<lambda>A. andthen (?stop A) (\<lambda>_. andthen (?get 1) (\<lambda>B. andthen (?stop B) (\<lambda>_. ?rest)))) ?s1
        = ?rest s2"
    and s2': "balanced ?s1 s2" "data_cache s2 = data_cache ?s1"
      "calls s2 = calls ?s1 @ map (\<lambda>k. StopCollecting (fst k) [snd k]) (?pairs (?select 0 (stored (the_session ?s1))))"
      "\<exists>rows. stored (the_session s2) = (stored (the_session ?s1))\<lparr>Collecting := rows\<rparr>"
      "collecting_ok (stored (the_session s2))"
      "\<forall>k. collecting (stored (the_session s2)) k
        = (if snd k = t then None else collecting (stored (the_session ?s1)) k)"
    by - (elim exE, elim conjE, rule that, assumption+)
  note s2 = s2'(1) s2'(2-5) [unfolded at_session_simps tx_call_simps] spec [OF s2'(6), unfolded db1]
  let ?s3 = "s2\<lparr>calls := calls s2 @ [Release t]\<rparr>"
  have db3: "\<exists>rows. stored (the_session ?s3) = ?db\<lparr>Collecting := rows\<rparr>" using s2(4) by simp
  then have agrees3: "data_agrees ?s3" using assms(2) s2(2) by (subst data_agrees_Data [of _ s]) auto
  let ?q = "\<lambda>db. Ok (map (\<lambda>c. (c, t)) (ids_of cl_id (Collectors db)))"
  have "cache_agrees data_cache select_data ?s3" using agrees3 by (simp add: data_agrees_def)
  from data_cached.remove_selected_ok [OF this, of ?q] obtain s4 where
    run4: "DataCache_removeThread t ?s3 = (Ok (), s4)" and s4: "unchanged ?s3 s4"
      "cache_agrees data_cache select_data s4"
      "entries (data_cache s4) = (\<lambda>k. if k \<in> (\<lambda>c. (c, t)) ` set (ids_of cl_id (Collectors (stored (the_session ?s3))))
        then [] else entries (data_cache ?s3) k)"
    by (auto simp: DataCache_removeThread_def)
  have db4: "stored (the_session s4) = stored (the_session s2)" using s4(1) by (simp add: unchanged_def)
  let ?s5 = "s4\<lparr>the_session := (the_session s4)\<lparr>stored := purged t (stored (the_session s4))\<rparr>\<rparr>"
  have body: "?rest s2 = (Ok (), ?s5)"
    by (simp add: andthen_def call_plugin_def quiet run4 run_statements_ok)
  have "balanced s2 ?s3" "balanced ?s3 s4" "balanced s4 ?s5"
    using s4(1) by (simp_all add: balanced_def unchanged_def)
  then have kept: "balanced ?s1 ?s5" using s2(1) balanced_trans by blast
  let ?body = "andthen (?get 0) (\<lambda>A. andthen (?stop A) (\<lambda>_. andthen (?get 1) (\<lambda>B. andthen (?stop B) (\<lambda>_. ?rest))))"
  note committed = transaction_on_Ok [where body = ?body and s = s and w = True, OF run2 [unfolded body] kept]
  let ?s' = "at_session Commit ?s5"
  have stored: "stored (the_session ?s') = purged t (stored (the_session s2))" using committed(2) db4 by simp
  have calls: "calls ?s' = calls s @ map (\<lambda>c. StopCollecting c [t]) (sorted_list_of_set
      {c. collecting ?db (c, t) = Some 0}) @ [Release t]"
    using s4(1) s2(3) select [OF ok, of 0] by (simp add: unchanged_def comp_def)
  obtain rows where rows: "stored (the_session s2) = ?db\<lparr>Collecting := rows\<rparr>" using s2(4) by blast
  have int2: "integrity (stored (the_session s2))"
    using s2(5) assms(1) s2(6) unfolding rows by (rule integrity_collecting)
  then have int': "integrity (purged t (stored (the_session s2)))"
    by (rule purged_integrity_all)
  have "without_thread t (stored (the_session s2)) (purged t (stored (the_session s2)))"
    by (rule purged_without [OF int2]) (simp add: s2(6))
  then have gone: "without_thread t ?db (purged t (stored (the_session s2)))"
    using s2(6) unfolding rows by (rule without_thread_collecting)
  have "data_agrees ?s5"
  proof (rule data_agrees_dropped [OF agrees3, where t = s4 and G = "{k. snd k = t}"])
    show "entries (data_cache s4) = (\<lambda>k. if k \<in> (\<lambda>c. (c, t)) ` cl_id ` set (Collectors ?db) then []
        else entries (data_cache ?s3) k)"
      using s4(3) s2(4) by (auto simp: fun_eq_iff ids_of_def collect_image)
    show "et_ok (data_cache s4)" using s4(2) by (simp add: cache_agrees_def)
    show "Data (stored (the_session ?s5)) = filter (\<lambda>row. (da_collector row, da_thread row) \<notin> {k. snd k = t})
        (Data (stored (the_session ?s3)))"
      by (simp add: purged_simps db4)
    fix row assume "row \<in> set (Data (stored (the_session ?s3)))"
      "(da_collector row, da_thread row) \<in> {k. snd k = t}"
    moreover have "da_collector ` set (Data ?db) \<subseteq> cl_id ` set (Collectors ?db)"
      using assms(1) by (simp add: integrity_def)
    ultimately have "da_collector row \<in> cl_id ` set (Collectors ?db)" "da_thread row = t"
      by (auto simp: rows)
    then show "(da_collector row, da_thread row) \<in> (\<lambda>c. (c, t)) ` cl_id ` set (Collectors ?db)"
      by (simp only: image_eqI)
  qed auto
  then have agrees: "data_agrees ?s'"
    using committed(2) by (subst data_agrees_Data [of _ ?s5]) simp_all
  show ?thesis
    unfolding Experiment_removeThread_def CollectorGroup_stopCollecting_def for_group_single
      Thread_getCollectors_def Thread_getPostponedCollectors_def
    using committed(1,3) agrees calls int' gone stored by (intro exI [of _ ?s']) simp
qed

section \<open>Creating and removing collectors\<close>

definition new_collector :: "string \<Rightarrow> byte list \<Rightarrow> tables \<Rightarrow> tables" where
  "new_collector uid blob db = db\<lparr>Collectors := Collectors db @
     [CollectorRow (new_id (map cl_id (Collectors db))) uid (Some blob)]\<rparr>"

lemma createCollector_run:
  fixes s :: framework
  defines "db \<equiv> stored (the_session s)"
  defines "i \<equiv> new_id (map cl_id (Collectors db))"
  shows "available uid \<Longrightarrow> \<exists>s'. Experiment_createCollector available defaults uid s = (Ok i, s') \<and>
      balanced s s' \<and> data_cache s' = data_cache s \<and> calls s' = calls s \<and>
      stored (the_session s') = new_collector uid (defaults uid) db"
    and "\<not> available uid \<Longrightarrow> \<exists>s'. Experiment_createCollector available defaults uid s
      = (Throw (Exception CollectorUnavailable [uid]), s') \<and>
      (fst (nesting (the_session s)) = 0 \<longrightarrow> stored (the_session s') = db)"
proof -
  let ?s1 = "at_session (Begin True) s"
  let ?row = "CollectorRow i uid None" and ?new = "CollectorRow i uid (Some (defaults uid))"
  let ?db2 = "db\<lparr>Collectors := Collectors db @ [?row]\<rparr>"
  define s2 where "s2 = ?s1\<lparr>the_session := (the_session ?s1)\<lparr>stored := ?db2\<rparr>\<rparr>"
  have s2: "stored (the_session s2) = ?db2" "balanced ?s1 s2" "data_cache s2 = data_cache s" "calls s2 = calls s"
    "fst (nesting (the_session s2)) = Suc (fst (nesting (the_session s)))"
    "fst (nesting (the_session s)) = 0 \<longrightarrow> saved (the_session s2) = db"
    by (simp_all add: s2_def balanced_def db_def)
  have stored1: "stored (the_session ?s1) = db" by (simp add: db_def)
  have upd: "Collectors_update (\<lambda>rows. rows @ [x]) db = db\<lparr>Collectors := Collectors db @ [x]\<rparr>" for x
    by (cases db) simp
  have insert: "on_session (insert_collector uid) ?s1 = (Ok i, s2)"
    unfolding insert_collector_def on_session_def insert_row_run prod.case stored1 upd i_def s2_def ..
  have fresh: "\<forall>row \<in> set (Collectors db). cl_id row \<noteq> i" unfolding i_def by (auto dest: new_id_row)
  then have none: "filter (\<lambda>row. cl_id row = i) (Collectors db) = []" by (simp add: filter_empty_conv)
  have uid: "collector_id i ?db2 = uid" by (simp add: collector_id_def none)
  from reading_unchanged [of "\<lambda>db. Ok (collector_id i db)" s2] obtain t where
    read: "on_session (reading (\<lambda>db. Ok (collector_id i db))) s2 = (Ok uid, s2\<lparr>the_session := t\<rparr>)"
    and t: "unchanged s2 (s2\<lparr>the_session := t\<rparr>)"
    using uid s2(1) by auto
  let ?s3 = "s2\<lparr>the_session := t\<rparr>"
  let ?body = "andthen (on_session (insert_collector uid)) (\<lambda>i.
      andthen (with_impl available i (ret ())) (\<lambda>_.
      andthen (on_session (Collector_setParameterData i (defaults uid))) (\<lambda>_. ret i)))"
  have bal2: "balanced ?s1 s2" "balanced s2 ?s3" using t s2(2) by (simp_all add: unchanged_iff)
  {
    assume "available uid"
    then have impl: "with_impl available i (ret ()) s2 = (Ok (), ?s3)"
      unfolding with_impl_def andthen_def read prod.case res.case by (simp add: ret_def)
    let ?t = "at_session (Begin True) ?s3"
    let ?u = "?t\<lparr>the_session := (the_session ?t)\<lparr>stored := store_parameters i (defaults uid) ?db2\<rparr>\<rparr>"
    have "stored (the_session ?t) = ?db2" using t s2(1) by (simp add: unchanged_def)
    then have set: "on_session (update_tables (store_parameters i (defaults uid))) ?t = (Ok (), ?u)"
      by (simp add: on_session_update)
    have "balanced ?t ?u" by (simp add: balanced_def)
    note inner = transaction_on_Ok [of "on_session (update_tables (store_parameters i (defaults uid)))", OF set this]
    have body: "?body ?s1 = (Ok i, at_session Commit ?u)"
      by (simp add: andthen_def insert impl Collector_setParameterData_def on_session_transaction inner(1) ret_def)
    have "balanced ?s1 (at_session Commit ?u)" using bal2 inner(3) balanced_trans by blast
    note outer = transaction_on_Ok [where body = ?body and s = s and w = True, OF body this]
    have "store_parameters i (defaults uid) ?db2 = new_collector uid (defaults uid) db"
      using fresh by (simp add: store_parameters_def new_collector_def map_idI flip: i_def)
    then show "\<exists>s'. Experiment_createCollector available defaults uid s = (Ok i, s') \<and>
      balanced s s' \<and> data_cache s' = data_cache s \<and> calls s' = calls s \<and>
      stored (the_session s') = new_collector uid (defaults uid) db"
      unfolding Experiment_createCollector_def
      using outer inner(2) s2(3,4) by (intro exI [of _ "at_session Commit (at_session Commit ?u)"]) simp
  next
    assume "\<not> available uid"
    then have "with_impl available i (ret ()) s2 = (Throw (Exception CollectorUnavailable [uid]), ?s3)"
      unfolding with_impl_def andthen_def read prod.case res.case by (simp add: throw_def)
    then have "Experiment_createCollector available defaults uid s
        = (Throw (Exception CollectorUnavailable [uid]), at_session Rollback ?s3)"
      by (simp add: Experiment_createCollector_def transaction_on_def andthen_def insert)
    moreover have "stored (the_session (at_session Rollback ?s3)) = db" if "fst (nesting (the_session s)) = 0"
      using t that s2(5,6) by (simp add: unchanged_def)
    ultimately show "\<exists>s'. Experiment_createCollector available defaults uid s
      = (Throw (Exception CollectorUnavailable [uid]), s') \<and>
      (fst (nesting (the_session s)) = 0 \<longrightarrow> stored (the_session s') = db)"
      by (intro exI conjI impI)
  }
qed

lemma removeCollector_run:
  assumes "integrity (stored (the_session s))" and "data_agrees s" and quiet: "\<And>c. respond c = None"
    and avail: "available (collector_id c (stored (the_session s)))"
  shows "\<exists>s' rows. Experiment_removeCollector available respond c s = (Ok (), s') \<and> balanced s s' \<and>
    data_agrees s' \<and> integrity (stored (the_session s')) \<and>
    stored (the_session s') = delete_data_of da_collector c (delete_collector c
      ((stored (the_session s))\<lparr>Collecting := rows\<rparr>)) \<and>
    (\<forall>k. collecting (stored (the_session s')) k
      = (if fst k = c then None else collecting (stored (the_session s)) k)) \<and>
    calls s' = calls s @ map (\<lambda>t. StopCollecting c [t]) (sorted_list_of_set
      {t. collecting (stored (the_session s)) (c, t) = Some 0})"
proof -
  let ?db = "stored (the_session s)"
  let ?select = "\<lambda>x db. foldl (\<lambda>threads row. insert (cg_thread row) threads) {}
     (filter (\<lambda>row. cg_collector row = c \<and> is_postponed row = x) (Collecting db))"
  let ?pairs = "\<lambda>A. map (Pair c) (sorted_list_of_set A)"
  have ok: "collecting_ok ?db" using assms(1) by (simp add: integrity_def)
  have select: "?select x db = {t. collecting db (c, t) = Some x}" if "collecting_ok db" for x db
  proof -
    have "t \<in> ?select x db \<longleftrightarrow> CollectingRow c t x \<in> set (Collecting db)" for t
      by (auto simp: foldl_insert image_iff intro!: bexI [of _ "CollectingRow c t x"])
    then show ?thesis by (auto simp: collecting_row [OF that])
  qed
  have pairs: "\<forall>x db. collecting_ok db \<longrightarrow> distinct (?pairs (?select x db)) \<and>
      set (?pairs (?select x db)) = {k. fst k = c \<and> collecting db k = Some x}"
  proof (intro allI impI)
    fix x db assume db: "collecting_ok db"
    have "finite (?select x db)" by (simp add: foldl_insert)
    then show "distinct (?pairs (?select x db)) \<and>
        set (?pairs (?select x db)) = {k. fst k = c \<and> collecting db k = Some x}"
      by (auto simp: distinct_map inj_on_def select [OF db])
  qed
  let ?rest = "andthen (DataCache_removeCollector c) (\<lambda>_.
      run_statements [delete_collector c, delete_data_of da_collector c])"
  let ?s1 = "at_session (Begin True) s"
  have db1: "stored (the_session ?s1) = ?db" by simp
  have ok1: "collecting_ok (stored (the_session ?s1))" using ok by simp
  have avail1: "\<forall>k. fst k = c \<longrightarrow> collecting (stored (the_session ?s1)) k \<noteq> None \<longrightarrow>
      available (collector_id (fst k) (stored (the_session ?s1)))"
    using avail by simp
  have every: "\<forall>c. respond c = None" using quiet by simp
  let ?get = "\<lambda>x. on_session (reading (\<lambda>db. Ok (?select x db)))"
  let ?stop = "\<lambda>A. for_each (?pairs A) (\<lambda>_ k. Collector_stopCollecting available respond (fst k) {snd k}) ()"
  let ?body = "andthen (?get 0) (\<lambda>A. andthen (?stop A) (\<lambda>_. andthen (?get 1) (\<lambda>B. andthen (?stop B) (\<lambda>_. ?rest))))"
  from stop_phases [where the_pairs = ?pairs and select = ?select and P = "\<lambda>k. fst k = c" and s = ?s1
      and available = available and respond = respond and rest = ?rest, OF ok1 every pairs avail1] obtain s2 where
    run2: "?body ?s1 = ?rest s2"
    and s2': "balanced ?s1 s2" "data_cache s2 = data_cache ?s1"
      "calls s2 = calls ?s1 @ map (\<lambda>k. StopCollecting (fst k) [snd k]) (?pairs (?select 0 (stored (the_session ?s1))))"
      "\<exists>rows. stored (the_session s2) = (stored (the_session ?s1))\<lparr>Collecting := rows\<rparr>"
      "collecting_ok (stored (the_session s2))"
      "\<forall>k. collecting (stored (the_session s2)) k
        = (if fst k = c then None else collecting (stored (the_session ?s1)) k)"
    by - (elim exE, elim conjE, rule that, assumption+)
  note s2 = s2'(1) s2'(2-5) [unfolded at_session_simps tx_call_simps] spec [OF s2'(6), unfolded db1]
  obtain rows where rows: "stored (the_session s2) = ?db\<lparr>Collecting := rows\<rparr>" using s2(4) by blast
  have agrees2: "data_agrees s2" using assms(2) s2(2) by (subst data_agrees_Data [of _ s]) (auto simp: rows)
  have "cache_agrees data_cache select_data s2" using agrees2 by (simp add: data_agrees_def)
  from data_cached.remove_selected_ok [OF this, of "\<lambda>db. Ok (map (Pair c) (ids_of thread_id (Threads db)))"] obtain s4 where
    run4: "DataCache_removeCollector c s2 = (Ok (), s4)" and s4: "unchanged s2 s4"
      "cache_agrees data_cache select_data s4"
      "entries (data_cache s4) = (\<lambda>k. if k \<in> Pair c ` set (ids_of thread_id (Threads (stored (the_session s2))))
        then [] else entries (data_cache s2) k)"
    by (auto simp: DataCache_removeCollector_def)
  have db4: "stored (the_session s4) = ?db\<lparr>Collecting := rows\<rparr>" using s4(1) by (simp add: unchanged_def rows)
  let ?db5 = "delete_data_of da_collector c (delete_collector c (?db\<lparr>Collecting := rows\<rparr>))"
  let ?s5 = "s4\<lparr>the_session := (the_session s4)\<lparr>stored := ?db5\<rparr>\<rparr>"
  have body: "?rest s2 = (Ok (), ?s5)"
    by (simp add: andthen_def run4 run_statements_ok db4)
  have "balanced s2 s4" "balanced s4 ?s5" using s4(1) by (simp_all add: balanced_def unchanged_def)
  then have kept: "balanced ?s1 ?s5" using s2(1) balanced_trans by blast
  note committed = transaction_on_Ok [where body = ?body and s = s and w = True, OF run2 [unfolded body] kept]
  let ?s' = "at_session Commit ?s5"
  have stored: "stored (the_session ?s') = ?db5" using committed(2) by simp
  have calls: "calls ?s' = calls s @ map (\<lambda>t. StopCollecting c [t]) (sorted_list_of_set
      {t. collecting ?db (c, t) = Some 0})"
    using s4(1) s2(3) select [OF ok, of 0] by (simp add: unchanged_def comp_def)
  have int2: "integrity (?db\<lparr>Collecting := rows\<rparr>)"
    using s2(5) assms(1) s2(6) unfolding rows by (rule integrity_collecting)
  have same: "collecting ?db5 k = (if fst k = c then None else collecting ?db k)" for k
    using s2(6) [of k] by (simp add: rows collecting_def delete_data_of_def delete_collector_def)
  have owned: "c' \<in> cl_id ` set (Collectors ?db5)" if "collecting ?db5 (c', t) \<noteq> None" for c' t
  proof -
    have "c' \<noteq> c" "collecting ?db (c', t) \<noteq> None" using that same [of "(c', t)"] by (auto split: if_splits)
    moreover from this(2) have "c' \<in> cl_id ` set (Collectors ?db)" using assms(1) unfolding integrity_def by blast
    ultimately show ?thesis by (auto simp: delete_data_of_def delete_collector_def)
  qed
  have "symbols_ok ?db5 = symbols_ok (?db\<lparr>Collecting := rows\<rparr>)" "objects_ok ?db5 = objects_ok (?db\<lparr>Collecting := rows\<rparr>)"
    "collecting_ok ?db5 = collecting_ok (?db\<lparr>Collecting := rows\<rparr>)"
    by (simp_all add: delete_data_of_def delete_collector_def symbols_ok_def files_ok_def
        objects_ok_def collecting_ok_def)
  moreover have "da_collector ` set (Data ?db5) \<subseteq> cl_id ` set (Collectors ?db5)"
    "da_thread ` set (Data ?db5) \<subseteq> thread_id ` set (Threads ?db5)"
    using assms(1) by (auto simp: integrity_def delete_data_of_def delete_collector_def)
  ultimately have int': "integrity ?db5" using int2 owned unfolding integrity_def by blast
  have "data_agrees ?s5"
  proof (rule data_agrees_dropped [OF agrees2, where t = s4 and G = "{k. fst k = c}"])
    show "entries (data_cache s4) = (\<lambda>k. if k \<in> Pair c ` thread_id ` set (Threads ?db) then []
        else entries (data_cache s2) k)"
      using s4(3) by (auto simp: fun_eq_iff ids_of_def collect_image rows)
    show "et_ok (data_cache s4)" using s4(2) by (simp add: cache_agrees_def)
    show "Data (stored (the_session ?s5)) = filter (\<lambda>row. (da_collector row, da_thread row) \<notin> {k. fst k = c})
        (Data (stored (the_session s2)))"
      by (simp add: delete_data_of_def delete_collector_def rows)
    fix row assume "row \<in> set (Data (stored (the_session s2)))"
      "(da_collector row, da_thread row) \<in> {k. fst k = c}"
    moreover have "da_thread ` set (Data ?db) \<subseteq> thread_id ` set (Threads ?db)"
      using assms(1) by (simp add: integrity_def)
    ultimately have "da_thread row \<in> thread_id ` set (Threads ?db)" "da_collector row = c"
      by (auto simp: rows)
    then show "(da_collector row, da_thread row) \<in> Pair c ` thread_id ` set (Threads ?db)"
      by (simp only: image_eqI)
  qed auto
  then have agrees: "data_agrees ?s'"
    using committed(2) by (subst data_agrees_Data [of _ ?s5]) simp_all
  show ?thesis
    unfolding Experiment_removeCollector_def ThreadGroup_stopCollecting_def for_threads_single
      Collector_getThreads_def Collector_getPostponedThreads_def threads_collecting_def
    using committed(1,3) agrees calls int' stored same by (intro exI [of _ ?s'] exI [of _ rows]) simp
qed

lemma stop_nothing:
  assumes "threads_collecting False c (stored (the_session s)) = {}"
    and "threads_collecting True c (stored (the_session s)) = {}"
  shows "\<exists>s'. andthen (on_session (Collector_getThreads c)) (\<lambda>threads.
      andthen (ThreadGroup_stopCollecting available respond threads {c}) (\<lambda>_.
      andthen (on_session (Collector_getPostponedThreads c)) (\<lambda>postponed.
      andthen (ThreadGroup_stopCollecting available respond postponed {c}) (\<lambda>_. rest)))) s = rest s' \<and>
    unchanged s s' \<and> data_cache s' = data_cache s"
proof -
  obtain x where x: "on_session (Collector_getThreads c) s = (Ok {}, s\<lparr>the_session := x\<rparr>)"
    "unchanged s (s\<lparr>the_session := x\<rparr>)"
    using reading_unchanged [of "\<lambda>db. Ok (threads_collecting False c db)" s] assms(1)
    by (auto simp: Collector_getThreads_def)
  let ?t = "s\<lparr>the_session := x\<rparr>"
  have "threads_collecting True c (stored (the_session ?t)) = {}"
    using x(2) assms(2) by (simp add: unchanged_def)
  then obtain y where y: "on_session (Collector_getPostponedThreads c) ?t = (Ok {}, ?t\<lparr>the_session := y\<rparr>)"
    "unchanged ?t (?t\<lparr>the_session := y\<rparr>)"
    using reading_unchanged [of "\<lambda>db. Ok (threads_collecting True c db)" ?t]
    by (auto simp: Collector_getPostponedThreads_def)
  have none: "ThreadGroup_stopCollecting available respond {} {c} = ret ()"
    by (simp add: ThreadGroup_stopCollecting_def for_threads_def)
  have "unchanged s (?t\<lparr>the_session := y\<rparr>)" using x(2) y(2) by (simp add: unchanged_def)
  then show ?thesis
    by (intro exI [of _ "?t\<lparr>the_session := y\<rparr>"]) (simp only: andthen_def x(1) y(1) prod.case res.case none ret_def; simp)
qed

section \<open>Properties\<close>

text \<open>C28: removing a thread stops exactly the collectors that collect for it and then releases it, takes
  away every row that refers to it and every linked object, symbol, range and file that no other thread
  uses, and changes nothing of the other threads; the tables keep their integrity and the cache of
  performance data still agrees with them.\<close>

theorem removeThread_leaves_no_trace:
  assumes "integrity (stored (the_session s))" and "data_agrees s" and "\<And>c. respond c = None"
    and "\<And>c. collecting (stored (the_session s)) (c, t) \<noteq> None \<Longrightarrow>
      available (collector_id c (stored (the_session s)))"
  shows "\<exists>s'. Experiment_removeThread available respond t s = (Ok (), s') \<and>
    data_agrees s' \<and> integrity (stored (the_session s')) \<and>
    without_thread t (stored (the_session s)) (stored (the_session s')) \<and>
    calls s' = calls s @ map (\<lambda>c. StopCollecting c [t]) (sorted_list_of_set
      {c. collecting (stored (the_session s)) (c, t) = Some 0}) @ [Release t]"
  using removeThread_run [of s respond t available] assms by blast

lemma removeThread_leaves_no_trace_witness:
  "\<exists>s'. Experiment_removeThread (\<lambda>_. True) (\<lambda>_. None) 1 (empty_framework sample_session) = (Ok (), s') \<and>
     Threads (stored (the_session s')) = [] \<and> calls s' = [Release 1]"
proof -
  let ?s = "empty_framework sample_session"
  have db: "stored (the_session ?s) = sample_tables" "calls ?s = []"
    using sample_framework(2) by (simp_all add: empty_framework_def)
  have none: "collecting sample_tables k = None" for k by (simp add: collecting_def sample_tables_def)
  have "objects_ok sample_tables" "collecting_ok sample_tables"
    by (simp_all add: objects_ok_def sample_tables_def sample_space_def collecting_ok_def)
  moreover have "Data sample_tables = []" by (simp add: sample_tables_def)
  ultimately have "integrity (stored (the_session ?s))" "data_agrees ?s"
    using sample_ok(1) data_agrees_empty [of ?s]
    by (simp_all add: db none integrity_def empty_framework_def sample_session_simps)
  from removeThread_leaves_no_trace [OF this, of "\<lambda>_. None" 1 "\<lambda>_. True"] obtain s' where
    s': "Experiment_removeThread (\<lambda>_. True) (\<lambda>_. None) 1 ?s = (Ok (), s')"
      "without_thread 1 sample_tables (stored (the_session s'))" "calls s' = [Release 1]"
    by (auto simp: none db)
  have "Threads (stored (the_session s')) = []"
    using s'(2) by (simp add: without_thread_def) (simp add: sample_tables_def ThreadCorrect.sample_thread_def)
  with s' show ?thesis by blast
qed

lemma new_collector_removed:
  fixes s1 :: framework and db :: tables
  defines "i \<equiv> new_id (map cl_id (Collectors db))"
  assumes "integrity db" and "stored (the_session s1) = new_collector uid parameters db"
    and "data_agrees (s1\<lparr>the_session := (the_session s1)\<lparr>stored := db\<rparr>\<rparr>)"
  shows "\<exists>s2. Experiment_removeCollector available respond i s1 = (Ok (), s2) \<and>
    stored (the_session s2) = db \<and> calls s2 = calls s1"
proof -
  have fresh: "i \<notin> cl_id ` set (Collectors db)"
    using new_id_fresh [of "map cl_id (Collectors db)"] by (simp add: i_def)
  let ?b = "at_session (Begin True) s1"
  have db1: "stored (the_session ?b) = new_collector uid parameters db" using assms(3) by simp
  have same: "collecting (new_collector uid parameters db) = collecting db"
    "collecting_ok (new_collector uid parameters db) = collecting_ok db"
    by (simp_all add: fun_eq_iff collecting_def new_collector_def collecting_ok_def del: split_paired_All)
  have "collecting db (i, t) = None" for t
    using assms(2) fresh unfolding integrity_def by blast
  then have idle: "threads_collecting p i (stored (the_session ?b)) = {}" for p
    using threads_collecting_iff [of "stored (the_session ?b)" _ p i] assms(2)
    unfolding db1 by (auto simp: same integrity_def)
  let ?rest = "andthen (DataCache_removeCollector i) (\<lambda>_.
      run_statements [delete_collector i, delete_data_of da_collector i])"
  let ?body = "andthen (on_session (Collector_getThreads i)) (\<lambda>threads.
      andthen (ThreadGroup_stopCollecting available respond threads {i}) (\<lambda>_.
      andthen (on_session (Collector_getPostponedThreads i)) (\<lambda>postponed.
      andthen (ThreadGroup_stopCollecting available respond postponed {i}) (\<lambda>_. ?rest))))"
  from stop_nothing [OF idle idle, where available = available and respond = respond and rest = ?rest] obtain u where
    u: "?body ?b = ?rest u" "unchanged ?b u" "data_cache u = data_cache ?b" by blast
  have dbu: "stored (the_session u) = new_collector uid parameters db"
    using u(2) db1 by (simp add: unchanged_def)
  have "data_agrees u"
    using assms(4) u(3)
    by (subst data_agrees_Data [of _ "s1\<lparr>the_session := (the_session s1)\<lparr>stored := db\<rparr>\<rparr>"]) (simp_all add: dbu new_collector_def)
  then have "cache_agrees data_cache select_data u" by (simp add: data_agrees_def)
  from data_cached.remove_selected_ok [OF this, of "\<lambda>db. Ok (map (Pair i) (ids_of thread_id (Threads db)))"] obtain v where
    v: "DataCache_removeCollector i u = (Ok (), v)" "unchanged u v"
    by (auto simp: DataCache_removeCollector_def)
  let ?w = "v\<lparr>the_session := (the_session v)\<lparr>stored := db\<rparr>\<rparr>"
  have "da_collector ` set (Data db) \<subseteq> cl_id ` set (Collectors db)" using assms(2) by (simp add: integrity_def)
  then have "\<forall>row \<in> set (Data db). da_collector row \<noteq> i"
    unfolding image_subset_iff using fresh by metis
  moreover have "\<forall>row \<in> set (Collectors db). cl_id row \<noteq> i" using fresh by (metis imageI)
  ultimately have "delete_data_of da_collector i (delete_collector i (new_collector uid parameters db)) = db"
    by (simp add: delete_data_of_def delete_collector_def new_collector_def i_def [symmetric])
  moreover have "stored (the_session v) = new_collector uid parameters db"
    using v(2) dbu by (simp add: unchanged_def)
  ultimately have "?rest u = (Ok (), ?w)" by (simp add: andthen_def v(1) run_statements_ok)
  then have body: "?body ?b = (Ok (), ?w)" using u(1) by simp
  have "balanced ?b u" "balanced u v" "balanced v ?w"
    using u(2) v(2) by (simp_all add: unchanged_iff) (simp add: balanced_def)
  then have kept: "balanced ?b ?w" using balanced_trans by blast
  note run = transaction_on_Ok [where body = ?body and s = s1 and w = True, OF body kept]
  let ?s2 = "at_session Commit ?w"
  have "Experiment_removeCollector available respond i s1 = (Ok (), ?s2)"
    using run(1) by (simp add: Experiment_removeCollector_def)
  moreover have "stored (the_session ?s2) = db" "calls ?s2 = calls s1"
    using run(2) u(2) v(2) by (simp_all add: unchanged_def)
  ultimately show ?thesis by blast
qed

text \<open>C29: a collector that is created has the default parameters of its plugin and a number that no other
  collector had, and removing it restores the tables without a call of the plugin; if the plugin is
  missing, creating it throws and leaves the tables as they were.\<close>

theorem created_collector_can_be_removed:
  assumes "integrity (stored (the_session s))" and "data_agrees s" and "fst (nesting (the_session s)) = 0"
  shows "if available uid
    then \<exists>i s1 s2. Experiment_createCollector available defaults uid s = (Ok i, s1) \<and>
      i \<notin> cl_id ` set (Collectors (stored (the_session s))) \<and>
      fst (Experiment_getCollectors (the_session s1)) = Ok (insert i (cl_id ` set (Collectors (stored (the_session s))))) \<and>
      fst (Collector_getParameterData i (the_session s1)) = Ok (defaults uid) \<and>
      Experiment_removeCollector available respond i s1 = (Ok (), s2) \<and>
      stored (the_session s2) = stored (the_session s) \<and> calls s2 = calls s
    else \<exists>s1. Experiment_createCollector available defaults uid s
        = (Throw (Exception CollectorUnavailable [uid]), s1) \<and>
      stored (the_session s1) = stored (the_session s)"
proof (cases "available uid")
  case False
  then show ?thesis using createCollector_run(2) [of available uid defaults s] assms(3) by auto
next
  case True
  let ?db = "stored (the_session s)"
  let ?i = "new_id (map cl_id (Collectors ?db))"
  from createCollector_run(1) [where available = available and uid = uid and defaults = defaults and s = s, OF True]
  obtain s1 where
    s1: "Experiment_createCollector available defaults uid s = (Ok ?i, s1)" "balanced s s1"
      "data_cache s1 = data_cache s" "calls s1 = calls s"
      "stored (the_session s1) = new_collector uid (defaults uid) ?db"
    by blast
  have fresh: "?i \<notin> cl_id ` set (Collectors ?db)" using new_id_fresh [of "map cl_id (Collectors ?db)"] by simp
  have none: "filter (\<lambda>row. cl_id row = ?i) (Collectors ?db) = []" using fresh by (metis (mono_tags, lifting) filter_False image_eqI)
  have "data_agrees (s1\<lparr>the_session := (the_session s1)\<lparr>stored := ?db\<rparr>\<rparr>)"
    using assms(2) s1(3) by (subst data_agrees_Data [of _ s]) simp_all
  from new_collector_removed [where available = available and respond = respond, OF assms(1) s1(5) this] obtain s2 where
    removed: "Experiment_removeCollector available respond ?i s1 = (Ok (), s2)" "stored (the_session s2) = ?db" "calls s2 = calls s"
    using s1(4) by auto
  have "fst (Experiment_getCollectors (the_session s1)) = Ok (insert ?i (cl_id ` set (Collectors ?db)))"
    by (simp add: Experiment_getCollectors_def reading_fst s1(5) collect_image new_collector_def)
  moreover have "fst (Collector_getParameterData ?i (the_session s1)) = Ok (defaults uid)"
    by (simp add: Collector_getParameterData_def reading_fst s1(5) new_collector_def parameter_blob_def none)
  ultimately have "Experiment_createCollector available defaults uid s = (Ok ?i, s1) \<and>
      ?i \<notin> cl_id ` set (Collectors ?db) \<and>
      fst (Experiment_getCollectors (the_session s1)) = Ok (insert ?i (cl_id ` set (Collectors ?db))) \<and>
      fst (Collector_getParameterData ?i (the_session s1)) = Ok (defaults uid) \<and>
      Experiment_removeCollector available respond ?i s1 = (Ok (), s2) \<and>
      stored (the_session s2) = ?db \<and> calls s2 = calls s"
    using s1(1) fresh removed by (intro conjI)
  then show ?thesis unfolding if_P [OF True] by (intro exI)
qed

lemma created_collector_can_be_removed_witness:
  "\<exists>i s1 s2. Experiment_createCollector (\<lambda>_. True) (\<lambda>_. [7]) ''pcsamp'' sample_run = (Ok i, s1) \<and>
     fst (Collector_getParameterData i (the_session s1)) = Ok [7] \<and>
     Experiment_removeCollector (\<lambda>_. True) (\<lambda>_. None) i s1 = (Ok (), s2) \<and>
     stored (the_session s2) = stored (the_session sample_run)"
proof -
  have "integrity (stored (the_session sample_run))" "fst (nesting (the_session sample_run)) = 0"
    by (simp_all add: sample_run_simps integrity_def symbols_ok_def owners_ok_def files_ok_def objects_ok_def
        no_tables_def collecting_ok_def collecting_def)
  from created_collector_can_be_removed [OF this(1) sample_agrees this(2), of "\<lambda>_. True" "''pcsamp''"
      "\<lambda>_. [7]" "\<lambda>_. None"]
  show ?thesis unfolding if_True by blast
qed

end
