(* ===== verification/RemovalFaults.thy ===== *)
theory RemovalFaults
  imports Experiments
begin

text \<open>
  What the removal of a thread does not do. The caches of symbols are not told, so that they go on
  answering for symbols that are gone; and when a plugin is missing or fails on the way, the tables
  are rolled back but the plugins that were already told to stop stay stopped.
\<close>

section \<open>The caches of symbols\<close>

definition symbol_caches :: "framework \<Rightarrow> cache \<times> cache \<times> cache" where
  "symbol_caches s = (function_cache s, loop_cache s, statement_cache s)"

definition keeps_caches :: "(framework, 'a) op \<Rightarrow> bool" where
  "keeps_caches m \<longleftrightarrow> (\<forall>s. symbol_caches (snd (m s)) = symbol_caches s)"

named_theorems keeps_intros "operations that leave the caches of symbols alone"

lemma caches_basic [keeps_intros]:
  "keeps_caches (ret x)" "keeps_caches (throw e)" "keeps_caches (lift_res r)"
  "keeps_caches (on_session m)" "keeps_caches (call_plugin respond c)"
  "keeps_caches (cache_call data_cache data_cache_update f)"
  by (auto simp: keeps_caches_def ret_def throw_def lift_res_def on_session_def call_plugin_def cache_call_def
      symbol_caches_def split: prod.splits res.splits option.splits)

lemma caches_andthen [keeps_intros]:
  assumes "keeps_caches m" and "\<And>x. keeps_caches (f x)"
  shows "keeps_caches (andthen m f)"
  unfolding keeps_caches_def
proof
  fix s
  obtain r t where m: "m s = (r, t)" by fastforce
  then have "symbol_caches t = symbol_caches s" using assms(1) by (metis keeps_caches_def snd_conv)
  then show "symbol_caches (snd (andthen m f s)) = symbol_caches s"
    using m assms(2) by (cases r) (auto simp: andthen_simps keeps_caches_def)
qed

lemma caches_for_each [keeps_intros]:
  "(\<And>acc x. keeps_caches (body acc x)) \<Longrightarrow> keeps_caches (for_each xs body acc)"
  by (induction xs arbitrary: acc) (simp_all add: keeps_intros)

lemma caches_if [keeps_intros]:
  "keeps_caches m \<Longrightarrow> keeps_caches m' \<Longrightarrow> keeps_caches (if b then m else m')"
  by simp

lemma caches_transaction [keeps_intros]:
  assumes "keeps_caches m"
  shows "keeps_caches (transaction_on w m)"
  unfolding keeps_caches_def
proof
  fix s
  have "symbol_caches (at_session c t) = symbol_caches t" for c t
    by (simp add: symbol_caches_def at_session_def)
  then show "symbol_caches (snd (transaction_on w m s)) = symbol_caches s"
    using assms by (auto simp: transaction_on_def keeps_caches_def split: prod.splits res.splits)
      (metis snd_conv)+
qed

lemma removeThread_keeps_caches: "keeps_caches (Experiment_removeThread available respond t)"
  unfolding Experiment_removeThread_def CollectorGroup_stopCollecting_def for_group_def
    Collector_stopCollecting_def change_collecting_def with_impl_def run_statements_def
    DataCache_removeThread_def remove_groups_def
  by (intro keeps_intros)

text \<open>
  Symbols outlive the linked object they belong to: when the only thread that has it loaded is removed,
  the tables have no functions for it, but the caches still hold what they held. SQLite gives the
  identifiers of removed rows to new ones, so a linked object that is recorded later can find these
  entries under its own identifier.
\<close>

lemma symbols_survive_removal:
  assumes "integrity (stored (the_session s))" and "data_agrees s" and "\<And>c. respond c = None"
    and "\<And>c. collecting (stored (the_session s)) (c, t) \<noteq> None \<Longrightarrow>
      available (collector_id c (stored (the_session s)))"
    and only: "\<forall>row \<in> set (AddressSpaces (stored (the_session s))). as_linked_object row = lo \<longrightarrow> as_thread row = t"
  shows "\<exists>s'. Experiment_removeThread available respond t s = (Ok (), s') \<and>
    functions_in (stored (the_session s')) lo = {} \<and> loops_in (stored (the_session s')) lo = {} \<and>
    statements_in (stored (the_session s')) lo = {} \<and> symbol_caches s' = symbol_caches s"
proof -
  obtain s' where s': "Experiment_removeThread available respond t s = (Ok (), s')"
    "without_thread t (stored (the_session s)) (stored (the_session s'))"
    "integrity (stored (the_session s'))"
    using removeThread_run [of s respond t available] assms(1-4) by blast
  have "lo \<notin> used_objects (stored (the_session s'))"
  proof
    assume "lo \<in> used_objects (stored (the_session s'))"
    then obtain row where "row \<in> set (AddressSpaces (stored (the_session s')))" "as_linked_object row = lo"
      by (auto simp: used_objects_def)
    then show False using only s'(2) by (auto simp: without_thread_def)
  qed
  moreover have "\<forall>lo. if lo \<in> used_objects (stored (the_session s'))
      then functions_in (stored (the_session s')) lo = functions_in (stored (the_session s)) lo \<and>
        loops_in (stored (the_session s')) lo = loops_in (stored (the_session s)) lo \<and>
        statements_in (stored (the_session s')) lo = statements_in (stored (the_session s)) lo
      else functions_in (stored (the_session s')) lo = {} \<and> loops_in (stored (the_session s')) lo = {} \<and>
        statements_in (stored (the_session s')) lo = {}"
    using s'(2) unfolding without_thread_def by (elim conjE)
  ultimately have "functions_in (stored (the_session s')) lo = {} \<and>
      loops_in (stored (the_session s')) lo = {} \<and> statements_in (stored (the_session s')) lo = {}"
    by (auto dest: spec [of _ lo])
  moreover have "symbol_caches s' = symbol_caches s"
    using removeThread_keeps_caches [of available respond t] s'(1) unfolding keeps_caches_def by (metis snd_conv)
  ultimately show ?thesis using s'(1) by blast
qed

section \<open>A plugin that is missing\<close>

definition half_available :: framework where
  "half_available = empty_framework \<lparr>stored = no_tables\<lparr>
       Collectors := [CollectorRow 1 ''pcsamp'' None, CollectorRow 2 ''mpi'' None],
       Collecting := [CollectingRow 1 1 0, CollectingRow 2 1 0]\<rparr>,
     saved = no_tables, nesting = (0, False)\<rparr>"

text \<open>
  The second collector of the thread has no plugin. The exception rolls the tables back, and they say
  that the first collector still collects, but its plugin has been told to stop.
\<close>

lemma stopped_but_recorded:
  "case Experiment_removeThread (\<lambda>uid. uid = ''pcsamp'') (\<lambda>_. None) 1 half_available of (r, s) \<Rightarrow>
     r = Throw (Exception CollectorUnavailable [''mpi'']) \<and> calls s = [StopCollecting 1 [1]] \<and>
     collecting (stored (the_session s)) (1, 1) = Some 0"
  by code_simp

end
