(* ===== verification/Views.thy ===== *)
theory Views
  imports Session
begin

text \<open>
  The views that the command line keeps for reuse in the table \<open>Views\<close> (Experiment.cxx): the output of
  a command is stored under the text of the command and printed again when the command is repeated.
  Each function opens the database through an object of its own, so that its transactions are the
  outermost ones. The contents of the file with the output is an argument: a file that cannot be opened
  or read has none. A command that is \<open>NULL\<close>, which the program does not store, would make a string of
  a null pointer; this is an abort.
\<close>

section \<open>Operations\<close>

definition same_view_command :: "bool \<Rightarrow> string \<Rightarrow> ViewRow \<Rightarrow> bool" where
  "same_view_command exact_match arg row =
     (case view_cmd row of None \<Rightarrow> False
      | Some view_cmd_in_db \<Rightarrow> if exact_match then view_cmd_in_db = arg
          else take (length arg) view_cmd_in_db = arg)"

definition searchForViewCommandHeaderMatch :: "string \<Rightarrow> bool \<Rightarrow> (session, int) op" where
  "searchForViewCommandHeaderMatch arg exact_match = reading (\<lambda>db.
     Ok (case find (same_view_command exact_match arg) (Views db) of None \<Rightarrow> -1 | Some row \<Rightarrow> vw_id row))"

definition setDatabaseViewHeader :: "string \<Rightarrow> (session, unit) op" where
  "setDatabaseViewHeader arg =
     andthen (searchForViewCommandHeaderMatch arg True) (\<lambda>id_of_match.
       if id_of_match < 0 then in_transaction False (update_tables (\<lambda>db. db\<lparr>Views := Views db @
         [ViewRow (new_id (map vw_id (Views db))) (Some arg) None]\<rparr>))
       else ret ())"

text \<open>The loop that reads the file in pieces and leaves the header out.\<close>

function copy_data :: "nat \<Rightarrow> string \<Rightarrow> string" where
  "copy_data header_length contents =
     (let num = min 4096 (length contents); data = drop header_length (take num contents) in
      if num = 0 then []
      else if num \<noteq> 4096 then data @ [CHR 0x00]
      else data @ copy_data 0 (drop num contents))"
  by pat_completeness auto

termination by (relation "measure (length \<circ> snd)") auto

definition c_str :: "string \<Rightarrow> string" where
  "c_str text = takeWhile (\<lambda>c. c \<noteq> CHR 0x00) text"

definition existing_command :: "string \<Rightarrow> (session, int option) op" where
  "existing_command arg = reading (\<lambda>db.
     Ok (map_option vw_id (find (same_view_command True arg) (Views db))))"

definition addViewCommandAndDataEntries :: "string \<Rightarrow> string \<Rightarrow> nat \<Rightarrow> (session, bool) op" where
  "addViewCommandAndDataEntries arg contents view_file_header_offset =
     andthen (setDatabaseViewHeader arg) (\<lambda>_.
     andthen (existing_command arg) (\<lambda>found.
       let pstr = c_str (copy_data view_file_header_offset contents) in
     andthen (case found of None \<Rightarrow> ret ()
       | Some id_of_match \<Rightarrow> if id_of_match > 0
           then in_transaction True (update_tables (\<lambda>db. db\<lparr>Views := map (\<lambda>row.
             if vw_id row = id_of_match \<and> view_cmd row = Some arg
             then ViewRow (vw_id row) (view_cmd row) (Some pstr) else row) (Views db)\<rparr>))
           else ret ()) (\<lambda>_.
       ret (found \<noteq> None))))"

text \<open>The result with the contents of the two reference arguments, when they are assigned.\<close>

definition getViewFromExistingCommandEntry :: "string \<Rightarrow> (session, bool \<times> (string \<times> int) option) op" where
  "getViewFromExistingCommandEntry arg =
     andthen (existing_command arg) (\<lambda>found.
       case found of None \<Rightarrow> ret (False, None)
       | Some id_of_match \<Rightarrow> if id_of_match > 0
           then reading (\<lambda>db.
             let (return_val, View_String) = foldl (\<lambda>(return_val, View_String) row.
                   case view_data row of Some text \<Rightarrow> (return_val, text) | None \<Rightarrow> (False, View_String))
                 (True, []) (filter (\<lambda>row. vw_id row = id_of_match \<and> view_cmd row = Some arg) (Views db))
             in Ok (return_val,
               if return_val then Some (c_str View_String, int (length View_String)) else None))
           else ret (True, None))"

definition view_commands :: "tables \<Rightarrow> string list res" where
  "view_commands db = fold_res (\<lambda>cmds row.
     case view_cmd row of None \<Rightarrow> Abort | Some cmd \<Rightarrow> Ok (cmds @ [cmd])) (Views db) []"

definition getSavedCommandList :: "(session, string list) op" where
  "getSavedCommandList = reading view_commands"

definition removeViewTableEntry :: "int \<Rightarrow> (session, unit) op" where
  "removeViewTableEntry views_id_arg = in_transaction True (update_tables (\<lambda>db.
     db\<lparr>Views := filter (\<lambda>row. vw_id row \<noteq> views_id_arg) (Views db)\<rparr>))"

definition nonCrossSessionCmds :: "string list" where
  "nonCrossSessionCmds = [''cviewcluster'', ''cviewcreate'', ''cview'']"

definition remove_matching :: "string \<Rightarrow> string \<Rightarrow> (session, unit) op" where
  "remove_matching view_cmd_in_db view_cmd_arg =
     (if take (length view_cmd_arg) view_cmd_in_db = view_cmd_arg
      then andthen (searchForViewCommandHeaderMatch view_cmd_arg False) (\<lambda>id_of_match.
        if id_of_match > 0 then removeViewTableEntry id_of_match else ret ())
      else ret ())"

definition removeNonCrossSessionViews :: "(session, unit) op" where
  "removeNonCrossSessionViews =
     andthen (reading view_commands) (\<lambda>all_cmds_in_db.
       for_each all_cmds_in_db (\<lambda>_ cmd. for_each nonCrossSessionCmds (\<lambda>_. remove_matching cmd) ()) ())"

section \<open>Runs outside every transaction\<close>

definition runs :: "(session, 'a) op \<Rightarrow> session \<Rightarrow> 'a \<Rightarrow> tables \<Rightarrow> bool" where
  "runs m s x db \<longleftrightarrow> (\<exists>s'. m s = (Ok x, s') \<and> fst (nesting s') = 0 \<and> stored s' = db)"

named_theorems runs_intros "runs of operations outside every transaction"

lemma runs_ret [runs_intros]: "fst (nesting s) = 0 \<Longrightarrow> runs (ret x) s x (stored s)"
  by (simp add: runs_def ret_def)

lemma runs_update [runs_intros]:
  "fst (nesting s) = 0 \<Longrightarrow> runs (in_transaction w (update_tables f)) s () (f (stored s))"
  by (simp add: runs_def in_transaction_def update_tables_def)

lemma runs_reading [runs_intros]:
  "fst (nesting s) = 0 \<Longrightarrow> q (stored s) = Ok x \<Longrightarrow> runs (reading q) s x (stored s)"
  by (simp add: runs_def reading_def in_transaction_def)

lemma runs_andthen:
  assumes "runs m s x db" and "\<And>s'. fst (nesting s') = 0 \<Longrightarrow> stored s' = db \<Longrightarrow> runs (f x) s' y db'"
  shows "runs (andthen m f) s y db'"
  using assms unfolding runs_def by (auto simp: andthen_simps)

lemma runs_stored: "runs m s x db \<Longrightarrow> db = db' \<Longrightarrow> runs m s x db'"
  by simp

text \<open>Operations that change nothing but the table \<open>Views\<close>.\<close>

abbreviation with_views :: "tables \<Rightarrow> ViewRow list \<Rightarrow> tables" where
  "with_views db rows \<equiv> db\<lparr>Views := rows\<rparr>"

section \<open>Saving and reading\<close>

definition views_ok :: "tables \<Rightarrow> bool" where
  "views_ok db \<longleftrightarrow> distinct (map vw_id (Views db)) \<and> distinct (map view_cmd (Views db)) \<and>
     (\<forall>row \<in> set (Views db). 0 < vw_id row \<and> view_cmd row \<noteq> None \<and>
        (\<forall>text. view_data row = Some text \<longrightarrow> c_str text = text))"

text \<open>What the table means: a map from commands to their output.\<close>

definition saved_views :: "tables \<Rightarrow> string \<Rightarrow> string option" where
  "saved_views db arg = Option.bind (find (same_view_command True arg) (Views db)) view_data"

lemma same_command: "same_view_command True arg row \<longleftrightarrow> view_cmd row = Some arg"
  by (auto simp: same_view_command_def split: option.splits)

lemma filter_same_id:
  "distinct (map f xs) \<Longrightarrow> x \<in> set xs \<Longrightarrow> P x \<Longrightarrow> filter (\<lambda>y. f y = f x \<and> P y) xs = [x]"
proof (induction xs)
  case (Cons a xs)
  show ?case
  proof (cases "a = x")
    case True
    then have "filter (\<lambda>y. f y = f x \<and> P y) xs = []"
      using Cons.prems by (auto intro!: filter_False simp: image_iff)
    with True Cons.prems show ?thesis by simp
  qed (use Cons in auto)
qed simp

lemma found_command:
  assumes "find (same_view_command True arg) (Views db) = Some row"
  shows "row \<in> set (Views db)" and "view_cmd row = Some arg"
  using assms by (auto simp: find_Some_iff same_command)

lemma existing_command_runs:
  "fst (nesting s) = 0 \<Longrightarrow>
     runs (existing_command arg) s (map_option vw_id (find (same_view_command True arg) (Views (stored s)))) (stored s)"
  unfolding existing_command_def by (rule runs_reading) simp_all

definition answer :: "string option \<Rightarrow> bool \<times> (string \<times> int) option" where
  "answer saved_view = (case saved_view of None \<Rightarrow> (False, None)
     | Some text \<Rightarrow> (True, Some (text, int (length text))))"

lemma getView_runs:
  assumes ok: "views_ok (stored s)" and outer: "fst (nesting s) = 0"
  shows "runs (getViewFromExistingCommandEntry arg) s (answer (saved_views (stored s) arg)) (stored s)"
  unfolding getViewFromExistingCommandEntry_def
proof (rule runs_andthen [OF existing_command_runs [OF outer]])
  fix s' :: session
  assume s': "fst (nesting s') = 0" "stored s' = stored s"
  show "runs (case map_option vw_id (find (same_view_command True arg) (Views (stored s))) of
      None \<Rightarrow> ret (False, None)
    | Some i \<Rightarrow> if i > 0 then reading (\<lambda>db.
        let (return_val, View_String) = foldl (\<lambda>(return_val, View_String) row.
              case view_data row of Some text \<Rightarrow> (return_val, text) | None \<Rightarrow> (False, View_String))
            (True, []) (filter (\<lambda>row. vw_id row = i \<and> view_cmd row = Some arg) (Views db))
        in Ok (return_val, if return_val then Some (c_str View_String, int (length View_String)) else None))
      else ret (True, None)) s' (answer (saved_views (stored s) arg)) (stored s)"
  proof (cases "find (same_view_command True arg) (Views (stored s))")
    case None
    then show ?thesis
      using runs_ret [OF s'(1)] s' by (simp add: saved_views_def answer_def)
  next
    case (Some row)
    note row = found_command [OF Some]
    have rows: "filter (\<lambda>r. vw_id r = vw_id row \<and> view_cmd r = Some arg) (Views (stored s)) = [row]"
      by (rule filter_same_id) (use ok row in \<open>auto simp: views_ok_def\<close>)
    have "0 < vw_id row" and "\<And>text. view_data row = Some text \<Longrightarrow> c_str text = text"
      using ok row by (auto simp: views_ok_def)
    then show ?thesis
      using rows s' Some runs_reading [OF s'(1)]
      by (auto simp: saved_views_def answer_def split: option.splits intro!: runs_stored [OF runs_reading])
  qed
qed

text \<open>The data of a file is what follows the header, up to the first zero.\<close>

declare copy_data.simps [simp del]

lemma copy_data_body:
  "copy_data h contents = drop (min h 4096) contents @
     (if contents = [] \<or> 4096 dvd length contents then [] else [CHR 0x00])"
proof (induction h contents rule: copy_data.induct)
  case (1 h contents)
  show ?case
  proof (cases "4096 \<le> length contents")
    case True
    then have IH: "copy_data 0 (drop 4096 contents) = drop 4096 contents @
        (if drop 4096 contents = [] \<or> 4096 dvd length (drop 4096 contents) then [] else [CHR 0x00])"
      using 1 [OF refl refl] by simp
    have split: "drop h (take 4096 contents) @ drop 4096 contents = drop (min h 4096) contents"
    proof (cases "h \<le> 4096")
      case True
      then show ?thesis
        using drop_append [of h "take 4096 contents" "drop 4096 contents"] \<open>4096 \<le> length contents\<close>
        by (simp add: min_def)
    qed simp
    have "(drop 4096 contents = [] \<or> 4096 dvd length (drop 4096 contents)) =
        (contents = [] \<or> 4096 dvd length contents)"
      using True by (auto simp: dvd_minus_self)
    with True IH split show ?thesis
      by (subst copy_data.simps) (auto simp: Let_def min_def)
  next
    case False
    then have "4096 dvd length contents \<longleftrightarrow> contents = []" by (auto dest: dvd_imp_le)
    with False show ?thesis
      by (subst copy_data.simps) (auto simp: Let_def min_def)
  qed
qed

lemma c_str_terminated: "c_str (xs @ [CHR 0x00]) = c_str xs"
  by (induction xs) (simp_all add: c_str_def)

lemma c_str_copy_data: "c_str (copy_data h contents) = c_str (drop (min h 4096) contents)"
  by (simp add: copy_data_body c_str_terminated)

lemma c_str_idem: "c_str (c_str text) = c_str text"
  by (simp add: c_str_def takeWhile_idem)

section \<open>Removing views\<close>

definition session_view :: "ViewRow \<Rightarrow> bool" where
  "session_view row \<longleftrightarrow> same_view_command False ''cview'' row"

lemma session_view_prefix:
  assumes "arg \<in> set nonCrossSessionCmds"
  shows "take (length arg) cmd = arg \<Longrightarrow> take 5 cmd = ''cview''"
    and "same_view_command False arg row \<Longrightarrow> session_view row"
proof -
  have arg: "take 5 arg = ''cview''" "5 \<le> length arg"
    using assms by (auto simp: nonCrossSessionCmds_def)
  have prefix: "take 5 cmd = ''cview''" if "take (length arg) cmd = arg" for cmd
    using arg that by (metis min.absorb1 take_take)
  then show "take (length arg) cmd = arg \<Longrightarrow> take 5 cmd = ''cview''" .
  show "same_view_command False arg row \<Longrightarrow> session_view row"
    using prefix by (auto simp: session_view_def same_view_command_def eval_nat_numeral split: option.splits)
qed

text \<open>What one removal leaves: one session view less, if there is one, and all the others.\<close>

definition kept_views :: "ViewRow list \<Rightarrow> ViewRow list" where
  "kept_views rows = filter (\<lambda>row. \<not> session_view row) rows"

definition ids_ok :: "ViewRow list \<Rightarrow> bool" where
  "ids_ok rows \<longleftrightarrow> distinct (map vw_id rows) \<and> (\<forall>row \<in> set rows. 0 < vw_id row)"

definition session_views :: "ViewRow list \<Rightarrow> nat" where
  "session_views rows = length (filter session_view rows)"

lemma without_id:
  assumes ok: "ids_ok rows" and row: "row \<in> set rows" "session_view row"
  defines "rows' \<equiv> filter (\<lambda>r. vw_id r \<noteq> vw_id row) rows"
  shows "ids_ok rows'" and "kept_views rows' = kept_views rows"
    and "session_views rows' = session_views rows - 1"
proof -
  have same: "r = row" if "r \<in> set rows" "vw_id r = vw_id row" for r
    using ok row(1) that by (auto simp: ids_ok_def distinct_map dest: inj_onD)
  show "ids_ok rows'"
    using ok by (auto simp: ids_ok_def rows'_def distinct_map intro: inj_on_subset)
  show "kept_views rows' = kept_views rows"
    unfolding kept_views_def rows'_def filter_filter
    by (rule filter_cong) (use same row(2) in auto)
  have "rows' = filter (\<lambda>r. r \<noteq> row) rows"
    unfolding rows'_def by (rule filter_cong) (use same in auto)
  then have "filter session_view rows' = filter (\<lambda>r. r \<noteq> row) (filter session_view rows)"
    by (simp add: conj_commute)
  moreover have "distinct (filter session_view rows)" "row \<in> set (filter session_view rows)"
    using ok row by (auto simp: ids_ok_def distinct_map)
  ultimately have "filter session_view rows' = remove1 row (filter session_view rows)"
    by (auto simp: distinct_remove1_removeAll removeAll_filter_not_eq intro: filter_cong)
  then show "session_views rows' = session_views rows - 1"
    using row by (simp add: session_views_def length_remove1)
qed

definition progress :: "tables \<Rightarrow> nat \<Rightarrow> tables \<Rightarrow> bool" where
  "progress db n db' \<longleftrightarrow> db' = with_views db (Views db') \<and> ids_ok (Views db') \<and>
     kept_views (Views db') = kept_views (Views db) \<and>
     session_views (Views db') \<le> session_views (Views db) - n"

lemma progress_trans: "progress db n db1 \<Longrightarrow> progress db1 m db2 \<Longrightarrow> progress db (n + m) db2"
  unfolding progress_def by (elim conjE, intro conjI) (simp_all, metis tables.update_convs(14) tables.surjective)

lemma progress_refl: "ids_ok (Views db) \<Longrightarrow> progress db 0 db"
  by (simp add: progress_def)

lemma remove_matching_runs:
  assumes "fst (nesting s) = 0" and ids: "ids_ok (Views (stored s))" and arg: "arg \<in> set nonCrossSessionCmds"
  shows "\<exists>db. runs (remove_matching cmd arg) s () db \<and>
    progress (stored s) (if arg = ''cview'' \<and> take 5 cmd = ''cview'' then 1 else 0) db"
proof (cases "take (length arg) cmd = arg")
  case False
  then show ?thesis
    using runs_ret [OF assms(1), of "()"] progress_refl [OF ids]
    by (auto simp: remove_matching_def eval_nat_numeral)
next
  case True
  let ?found = "find (same_view_command False arg) (Views (stored s))"
  let ?id = "case ?found of None \<Rightarrow> -1 | Some row \<Rightarrow> vw_id row"
  have search: "runs (searchForViewCommandHeaderMatch arg False) s ?id (stored s)"
    unfolding searchForViewCommandHeaderMatch_def by (rule runs_reading [OF assms(1)]) simp
  show ?thesis
  proof (cases ?found)
    case None
    have "runs (remove_matching cmd arg) s () (stored s)"
      unfolding remove_matching_def if_P [OF True]
      by (rule runs_andthen [OF search]) (use None in \<open>auto simp: runs_def ret_def\<close>)
    moreover have "session_views (Views (stored s)) = 0" if "arg = ''cview''"
      using None that by (auto simp: find_None_iff session_views_def session_view_def filter_empty_conv)
    ultimately show ?thesis
      using progress_refl [OF ids] by (auto simp: progress_def)
  next
    case (Some row)
    let ?db = "with_views (stored s) (filter (\<lambda>r. vw_id r \<noteq> vw_id row) (Views (stored s)))"
    have row: "row \<in> set (Views (stored s))" "session_view row" "0 < vw_id row"
      using Some ids session_view_prefix(2) [OF arg] by (auto simp: find_Some_iff ids_ok_def)
    have "runs (remove_matching cmd arg) s () ?db"
      unfolding remove_matching_def if_P [OF True]
    proof (rule runs_andthen [OF search])
      fix s' :: session assume s': "fst (nesting s') = 0" "stored s' = stored s"
      show "runs (if ?id > 0 then removeViewTableEntry ?id else ret ()) s' () ?db"
        using row(3) by (simp add: Some removeViewTableEntry_def)
          (rule runs_stored [OF runs_update [OF s'(1)]], simp add: s'(2))
    qed
    moreover have "progress (stored s) n ?db" if "n \<le> 1" for n
      using without_id [OF ids row(1,2)] that by (simp add: progress_def)
    ultimately show ?thesis by (intro exI [of _ ?db]) simp
  qed
qed

lemma runs_for_each_progress:
  assumes step: "\<And>s x. x \<in> set xs \<Longrightarrow> fst (nesting s) = 0 \<Longrightarrow> ids_ok (Views (stored s)) \<Longrightarrow>
      \<exists>db. runs (body () x) s () db \<and> progress (stored s) (amount x) db"
    and "fst (nesting s) = 0" and "ids_ok (Views (stored s))"
  shows "\<exists>db. runs (for_each xs body ()) s () db \<and> progress (stored s) (sum_list (map amount xs)) db"
  using assms
proof (induction xs arbitrary: s)
  case Nil
  then show ?case using progress_refl by (auto simp: runs_def ret_def)
next
  case (Cons x xs)
  obtain db1 where first: "runs (body () x) s () db1" "progress (stored s) (amount x) db1"
    using Cons.prems by auto
  obtain s1 where s1: "body () x s = (Ok (), s1)" "fst (nesting s1) = 0" "stored s1 = db1"
    using first(1) by (auto simp: runs_def)
  have "ids_ok (Views (stored s1))" using first(2) s1(3) by (simp add: progress_def)
  with Cons.IH [of s1] Cons.prems(1) s1(2) obtain db2 where
    rest: "runs (for_each xs body ()) s1 () db2" "progress db1 (sum_list (map amount xs)) db2"
    unfolding s1(3) by auto
  then have "runs (for_each (x # xs) body ()) s () db2"
    using s1(1) by (simp add: runs_def andthen_simps)
  then show ?case using progress_trans [OF first(2) rest(2)] by auto
qed

lemma view_commands_Ok:
  assumes "\<forall>row \<in> set (Views db). view_cmd row \<noteq> None"
  shows "view_commands db = Ok (map (the \<circ> view_cmd) (Views db))"
proof -
  have "fold_res (\<lambda>cmds row. case view_cmd row of None \<Rightarrow> Abort | Some cmd \<Rightarrow> Ok (cmds @ [cmd])) (Views db) []
      = Ok (foldl (\<lambda>cmds row. cmds @ [the (view_cmd row)]) [] (Views db))"
    by (rule fold_res_Ok) (use assms in auto)
  then show ?thesis by (simp add: view_commands_def foldl_snoc)
qed

lemma views_ok_ids: "views_ok db \<Longrightarrow> ids_ok (Views db)"
  by (simp add: views_ok_def ids_ok_def)

section \<open>Properties\<close>

text \<open>Removing the views that cannot be used in another session removes exactly the rows whose
  command begins with the text \<open>cview\<close>, in whatever order the rows are, and nothing else.\<close>

theorem removeNonCrossSessionViews_exact:
  assumes "views_ok (stored s)" and "fst (nesting s) = 0"
  shows "\<exists>s'. removeNonCrossSessionViews s = (Ok (), s') \<and>
    stored s' = (stored s)\<lparr>Views := filter (\<lambda>row. take 5 (the (view_cmd row)) \<noteq> ''cview'') (Views (stored s))\<rparr>"
proof -
  let ?db = "stored s"
  let ?cmds = "map (the \<circ> view_cmd) (Views ?db)"
  let ?amount = "\<lambda>cmd. if take 5 cmd = ''cview'' then 1 else 0 :: nat"
  have some: "view_cmd row \<noteq> None" if "row \<in> set (Views ?db)" for row
    using assms(1) that by (auto simp: views_ok_def)
  have cview: "session_view row \<longleftrightarrow> take 5 (the (view_cmd row)) = ''cview''" if "row \<in> set (Views ?db)" for row
    using some [OF that] by (auto simp: session_view_def same_view_command_def eval_nat_numeral)
  have step: "\<exists>db. runs (for_each nonCrossSessionCmds (\<lambda>_. remove_matching cmd) ()) s' () db \<and>
      progress (stored s') (?amount cmd) db"
    if "fst (nesting s') = 0" "ids_ok (Views (stored s'))" for s' cmd
    using runs_for_each_progress [of nonCrossSessionCmds "\<lambda>_. remove_matching cmd"
        "\<lambda>arg. if arg = ''cview'' \<and> take 5 cmd = ''cview'' then 1 else 0" s']
      remove_matching_runs that
    by (simp add: nonCrossSessionCmds_def)
  have "runs (reading view_commands) s ?cmds ?db"
    by (rule runs_reading [OF assms(2) view_commands_Ok]) (use some in auto)
  then obtain s1 where s1: "reading view_commands s = (Ok ?cmds, s1)" "fst (nesting s1) = 0" "stored s1 = ?db"
    by (auto simp: runs_def)
  obtain db where loop: "runs (for_each ?cmds (\<lambda>_ cmd.
      for_each nonCrossSessionCmds (\<lambda>_. remove_matching cmd) ()) ()) s1 () db"
    and progress: "progress ?db (sum_list (map ?amount ?cmds)) db"
    using runs_for_each_progress [of ?cmds "\<lambda>_ cmd. for_each nonCrossSessionCmds (\<lambda>_. remove_matching cmd) ()"
        ?amount s1] step s1 views_ok_ids [OF assms(1)] by auto
  have "sum_list (map ?amount (map (the \<circ> view_cmd) rows)) = session_views rows"
    if "set rows \<subseteq> set (Views ?db)" for rows
    using that by (induction rows) (auto simp: session_views_def cview)
  then have "session_views (Views db) = 0" using progress by (simp add: progress_def)
  then have "Views db = kept_views (Views db)"
    by (auto simp: session_views_def kept_views_def filter_empty_conv)
  then have "Views db = kept_views (Views ?db)" using progress by (simp add: progress_def)
  also have "\<dots> = filter (\<lambda>row. take 5 (the (view_cmd row)) \<noteq> ''cview'') (Views ?db)"
    unfolding kept_views_def by (rule filter_cong) (use cview in auto)
  finally have "db = with_views ?db (filter (\<lambda>row. take 5 (the (view_cmd row)) \<noteq> ''cview'') (Views ?db))"
    using progress by (auto simp: progress_def)
  with loop s1(1) show ?thesis
    by (auto simp: removeNonCrossSessionViews_def runs_def andthen_simps)
qed

definition sample_views :: session where
  "sample_views = \<lparr>stored = no_tables\<lparr>Views := [ViewRow 1 (Some ''cview -c 1'') None,
     ViewRow 2 (Some ''expview'') None, ViewRow 3 (Some ''cviewcluster -c 1'') None]\<rparr>,
     saved = no_tables, nesting = (0, False)\<rparr>"

lemma sample_views_ok: "views_ok (stored sample_views)" "fst (nesting sample_views) = 0"
  by (simp_all add: sample_views_def views_ok_def)

lemma removeNonCrossSessionViews_exact_witness:
  "\<exists>s'. removeNonCrossSessionViews sample_views = (Ok (), s') \<and>
     Views (stored s') = [ViewRow 2 (Some ''expview'') None]"
  using removeNonCrossSessionViews_exact [OF sample_views_ok]
  by (auto simp: sample_views_def eval_nat_numeral)

section \<open>Saving\<close>

lemma find_snoc:
  "find P (xs @ [x]) = (case find P xs of None \<Rightarrow> if P x then Some x else None | Some y \<Rightarrow> Some y)"
  by (induction xs) auto

lemma setDatabaseViewHeader_runs:
  assumes ok: "views_ok (stored s)" and outer: "fst (nesting s) = 0"
  shows "\<exists>db row. runs (setDatabaseViewHeader arg) s () db \<and> db = with_views (stored s) (Views db) \<and>
    views_ok db \<and> find (same_view_command True arg) (Views db) = Some row \<and>
    (\<forall>cmd. saved_views db cmd = saved_views (stored s) cmd)"
proof (cases "find (same_view_command True arg) (Views (stored s))")
  case None
  let ?row = "ViewRow (new_id (map vw_id (Views (stored s)))) (Some arg) None"
  let ?db = "with_views (stored s) (Views (stored s) @ [?row])"
  have "runs (searchForViewCommandHeaderMatch arg True) s (-1) (stored s)"
    unfolding searchForViewCommandHeaderMatch_def by (rule runs_reading [OF outer]) (simp add: None)
  then have "runs (setDatabaseViewHeader arg) s () ?db"
    unfolding setDatabaseViewHeader_def
    by (rule runs_andthen) (auto intro: runs_stored [OF runs_update])
  moreover have "views_ok ?db"
    using ok None new_id_fresh [of "map vw_id (Views (stored s))"] new_id_positive
    by (auto simp: views_ok_def find_None_iff same_command)
  ultimately show ?thesis
    using None by (intro exI [of _ ?db] exI [of _ ?row])
      (auto simp: saved_views_def same_command find_snoc split: option.splits)
next
  case (Some row)
  have "runs (searchForViewCommandHeaderMatch arg True) s (vw_id row) (stored s)"
    unfolding searchForViewCommandHeaderMatch_def by (rule runs_reading [OF outer]) (simp add: Some)
  moreover have "0 < vw_id row" using ok found_command(1) [OF Some] by (auto simp: views_ok_def)
  ultimately have "runs (setDatabaseViewHeader arg) s () (stored s)"
    unfolding setDatabaseViewHeader_def by (auto simp: runs_def andthen_simps ret_def)
  with ok Some show ?thesis by auto
qed

text \<open>The update changes the data of one row.\<close>

definition with_data :: "int \<Rightarrow> string \<Rightarrow> string \<Rightarrow> ViewRow \<Rightarrow> ViewRow" where
  "with_data i arg text row = (if vw_id row = i \<and> view_cmd row = Some arg
     then ViewRow (vw_id row) (view_cmd row) (Some text) else row)"

lemma with_data_same [simp]:
  "vw_id (with_data i arg text row) = vw_id row" "view_cmd (with_data i arg text row) = view_cmd row"
  by (simp_all add: with_data_def)

lemma find_with_data:
  "find (same_view_command True cmd) (map (with_data i arg text) rows) =
     map_option (with_data i arg text) (find (same_view_command True cmd) rows)"
  by (induction rows) (simp_all add: same_command)

lemma with_data_saved:
  assumes ok: "views_ok db" and row: "find (same_view_command True arg) (Views db) = Some row"
    and no_zero: "c_str text = text"
  defines "db' \<equiv> with_views db (map (with_data (vw_id row) arg text) (Views db))"
  shows "views_ok db'" and "saved_views db' = (saved_views db)(arg := Some text)"
proof -
  have same: "map vw_id (Views db') = map vw_id (Views db)" "map view_cmd (Views db') = map view_cmd (Views db)"
    by (simp_all add: db'_def)
  have "c_str t = t" if "r \<in> set (Views db')" "view_data r = Some t" for r t
    using that ok no_zero by (auto simp: db'_def views_ok_def with_data_def split: if_splits)
  moreover have "0 < vw_id r \<and> view_cmd r \<noteq> None" if "r \<in> set (Views db')" for r
    using that ok by (auto simp: db'_def views_ok_def)
  ultimately show "views_ok db'"
    using ok unfolding views_ok_def same by blast
  have "saved_views db' cmd = ((saved_views db)(arg := Some text)) cmd" for cmd
  proof (cases "find (same_view_command True cmd) (Views db)")
    case (Some other)
    then show ?thesis
      using row found_command(2) [OF Some] found_command(2) [OF row]
      by (auto simp: saved_views_def db'_def find_with_data with_data_def)
  qed (use row in \<open>auto simp: saved_views_def db'_def find_with_data\<close>)
  then show "saved_views db' = (saved_views db)(arg := Some text)" by blast
qed

lemma addView_runs:
  fixes contents offset
  assumes "views_ok (stored s)" and outer: "fst (nesting s) = 0"
  defines "text \<equiv> c_str (drop (min offset 4096) contents)"
  shows "\<exists>db. runs (addViewCommandAndDataEntries arg contents offset) s True db \<and>
    db = with_views (stored s) (Views db) \<and> views_ok db \<and>
    saved_views db = (saved_views (stored s))(arg := Some text)"
proof -
  obtain db1 row where header: "runs (setDatabaseViewHeader arg) s () db1"
    and db1: "db1 = with_views (stored s) (Views db1)" "views_ok db1"
      "find (same_view_command True arg) (Views db1) = Some row" "saved_views db1 = saved_views (stored s)"
    using setDatabaseViewHeader_runs [OF assms(1,2), of arg] by (metis ext)
  obtain s1 where s1: "setDatabaseViewHeader arg s = (Ok (), s1)" "fst (nesting s1) = 0" "stored s1 = db1"
    using header by (auto simp: runs_def)
  obtain s2 where s2: "existing_command arg s1 = (Ok (Some (vw_id row)), s2)" "fst (nesting s2) = 0" "stored s2 = db1"
    using existing_command_runs [OF s1(2), of arg] db1(3) by (auto simp: runs_def s1(3))
  let ?db = "with_views db1 (map (with_data (vw_id row) arg text) (Views db1))"
  obtain s3 where s3: "in_transaction True (update_tables (\<lambda>db. db\<lparr>Views := map (\<lambda>r.
        if vw_id r = vw_id row \<and> view_cmd r = Some arg
        then ViewRow (vw_id r) (view_cmd r) (Some text) else r) (Views db)\<rparr>)) s2 = (Ok (), s3)"
      "fst (nesting s3) = 0" "stored s3 = ?db"
    using runs_update [OF s2(2), of True "\<lambda>db. db\<lparr>Views := map (with_data (vw_id row) arg text) (Views db)\<rparr>"]
    by (auto simp: runs_def s2(3) with_data_def [abs_def])
  have "0 < vw_id row" using db1(2) found_command(1) [OF db1(3)] by (auto simp: views_ok_def)
  then have "runs (addViewCommandAndDataEntries arg contents offset) s True ?db"
    using s1(1) s2(1) s3
    by (simp add: runs_def addViewCommandAndDataEntries_def andthen_simps c_str_copy_data text_def [symmetric] ret_def)
  moreover have "c_str text = text" by (simp add: text_def c_str_idem)
  note with_data_saved [OF db1(2,3) this]
  moreover have "?db = with_views (stored s) (Views ?db)"
    by (subst db1(1)) simp
  ultimately show ?thesis using db1(4) by (intro exI [of _ ?db]) simp
qed

text \<open>C31: a view that has been saved is read back: the answer is the contents of the file after its
  header, up to the first zero byte, and its length; a header of more than 4096 bytes is only skipped
  up to that length. Every other command keeps its answer, and no other table changes.\<close>

theorem saved_view_roundtrip:
  assumes "views_ok (stored s)" and "fst (nesting s) = 0"
  shows "\<exists>s'. addViewCommandAndDataEntries arg contents offset s = (Ok True, s') \<and>
    views_ok (stored s') \<and> stored s' = (stored s)\<lparr>Views := Views (stored s')\<rparr> \<and>
    fst (getViewFromExistingCommandEntry arg s') =
      (let text = takeWhile (\<lambda>c. c \<noteq> CHR 0x00) (drop (min offset 4096) contents)
       in Ok (True, Some (text, int (length text)))) \<and>
    (\<forall>other. if other = arg then True
       else fst (getViewFromExistingCommandEntry other s') = fst (getViewFromExistingCommandEntry other s))"
proof -
  let ?text = "c_str (drop (min offset 4096) contents)"
  obtain s' where s': "addViewCommandAndDataEntries arg contents offset s = (Ok True, s')"
    "fst (nesting s') = 0" "views_ok (stored s')" "stored s' = with_views (stored s) (Views (stored s'))"
    "saved_views (stored s') = (saved_views (stored s))(arg := Some ?text)"
    using addView_runs [OF assms, of arg contents offset] by (auto simp: runs_def)
  have "fst (getViewFromExistingCommandEntry cmd s') = Ok (answer (saved_views (stored s') cmd))" for cmd
    using getView_runs [OF s'(3,2), of cmd] by (auto simp: runs_def)
  moreover have "fst (getViewFromExistingCommandEntry cmd s) = Ok (answer (saved_views (stored s) cmd))" for cmd
    using getView_runs [OF assms, of cmd] by (auto simp: runs_def)
  ultimately show ?thesis
    using s' by (intro exI [of _ s']) (simp add: answer_def c_str_def Let_def)
qed

lemma saved_view_roundtrip_witness:
  "\<exists>s'. addViewCommandAndDataEntries ''cview -c 1'' ''header: 17 ms'' 8 sample_views = (Ok True, s') \<and>
     fst (getViewFromExistingCommandEntry ''cview -c 1'' s') = Ok (True, Some (''17 ms'', 5))"
  using saved_view_roundtrip [OF sample_views_ok, of "''cview -c 1''" "''header: 17 ms''" 8]
  by (auto simp: Let_def eval_nat_numeral)

end
