(* ===== verification/Upgrade.thy ===== *)
theory Upgrade
  imports SymbolStore
begin

text \<open>
  The versions of the schema and the updates that the constructor of \<open>Experiment\<close> runs when it opens a
  database of an older version (Experiment.cxx). The main result is that opening a database of any
  version leaves version 7 with the same contents; a function of a database before version 4, which is
  one range of addresses, becomes a function with a bitmap of exactly these addresses.
\<close>

section \<open>Databases of any version\<close>

text \<open>A row of the table \<open>Functions\<close> before version 4.\<close>

record OldFunctionRow =
  of_id :: int
  of_linked_object :: int
  of_begin :: addr
  of_end :: addr
  of_name :: string

text \<open>
  The rows of the table \<open>Open|SpeedShop\<close>, with none when there is no such table; the old table of
  functions; and the tables of the present schema. Columns and tables that a version does not have are
  there in the model with contents that nothing depends on. A database before version 7 may have a
  table of views all the same.
\<close>

record archive =
  version :: "int list"
  old_functions :: "OldFunctionRow list"
  has_views :: bool
  present :: tables

section \<open>Operations\<close>

definition Experiment_isAccessible :: "(archive, bool) op" where
  "Experiment_isAccessible a = (Ok (length (version a) = 1), a)"

definition Experiment_getVersion :: "(archive, int) op" where
  "Experiment_getVersion a = (Ok (foldl (\<lambda>_ v. v) 0 (version a)), a)"

text \<open>A write transaction that is the outermost: an exception restores the database.\<close>

definition outermost :: "('s, 'a) op \<Rightarrow> ('s, 'a) op" where
  "outermost body s = (case body s of (Throw e, _) \<Rightarrow> (Throw e, s) | (r, s') \<Rightarrow> (r, s'))"

definition statement :: "('s \<Rightarrow> 's) \<Rightarrow> ('s, unit) op" where
  "statement f s = (Ok (), f s)"

definition apply_procedure :: "('s \<Rightarrow> 's) list \<Rightarrow> ('s, unit) op" where
  "apply_procedure procedure = for_each procedure (\<lambda>_. statement) ()"

definition on_present :: "(tables \<Rightarrow> tables) \<Rightarrow> archive \<Rightarrow> archive" where
  "on_present f a = a\<lparr>present := f (present a)\<rparr>"

definition set_version :: "int \<Rightarrow> archive \<Rightarrow> archive" where
  "set_version v a = a\<lparr>version := map (\<lambda>_. v) (version a)\<rparr>"

definition updateToVersion2 :: "(archive, unit) op" where
  "updateToVersion2 = outermost (apply_procedure
     [on_present (Threads_update (map (\<lambda>row. row\<lparr>command := None\<rparr>))), set_version 2])"

definition updateToVersion3 :: "(archive, unit) op" where
  "updateToVersion3 = outermost (apply_procedure
     [on_present (Threads_update (map (\<lambda>row. row\<lparr>mpi_impl := None\<rparr>))), set_version 3])"

text \<open>
  The indices have no rows. After the renaming of the old table, the new tables are created and filled;
  a bitmap that is not yet set is null, which reads as an empty blob.
\<close>

definition new_function_tables :: "(archive \<Rightarrow> archive) list" where
  "new_function_tables =
     [on_present (Functions_update (\<lambda>_. [])),
      on_present (FunctionRanges_update (\<lambda>_. [])),
      (\<lambda>a. on_present (Functions_update (\<lambda>rows. rows @
         map (\<lambda>f. FunctionRow (of_id f) (of_linked_object f) (of_name f)) (old_functions a))) a),
      (\<lambda>a. on_present (FunctionRanges_update (\<lambda>rows. rows @
         map (\<lambda>f. RangeRow (of_id f) (of_begin f) (of_end f) []) (old_functions a))) a),
      (\<lambda>a. a\<lparr>old_functions := []\<rparr>),
      set_version 4]"

definition set_valid_bitmap :: "RangeRow \<Rightarrow> AddressBitmap \<Rightarrow> RangeRow list \<Rightarrow> RangeRow list" where
  "set_valid_bitmap row bm = map (\<lambda>r.
     if rg_owner r = rg_owner row \<and> rg_begin r = rg_begin row \<and> rg_end r = rg_end row
     then RangeRow (rg_owner r) (rg_begin r) (rg_end r) (AddressBitmap_getBlob bm) else r)"

definition whole_bitmap :: "RangeRow \<Rightarrow> AddressBitmap res" where
  "whole_bitmap row = bind_res (Interval_make (rg_begin row) (rg_end row)) (\<lambda>r.
     set_all (address_list r) (AddressBitmap_make r))"

text \<open>The body of the loop over the ranges.\<close>

definition fill_range :: "RangeRow \<Rightarrow> (archive, unit) op" where
  "fill_range row = andthen (lift_res (whole_bitmap row)) (\<lambda>bm.
     statement (on_present (FunctionRanges_update (set_valid_bitmap row bm))))"

definition updateToVersion4 :: "(archive, unit) op" where
  "updateToVersion4 = outermost (
     andthen (apply_procedure new_function_tables) (\<lambda>_ a.
       for_each (FunctionRanges (present a)) (\<lambda>_. fill_range) () a))"

definition updateToVersion5 :: "(archive, unit) op" where
  "updateToVersion5 = outermost (apply_procedure [set_version 5])"

definition updateToVersion6 :: "(archive, unit) op" where
  "updateToVersion6 = outermost (apply_procedure
     [on_present (Loops_update (\<lambda>_. [])), on_present (LoopRanges_update (\<lambda>_. [])), set_version 6])"

definition create_views :: "archive \<Rightarrow> archive" where
  "create_views a = (if has_views a then a
     else on_present (Views_update (\<lambda>_. [])) (a\<lparr>has_views := True\<rparr>))"

definition updateToVersion7 :: "(archive, unit) op" where
  "updateToVersion7 = outermost (apply_procedure [create_views, set_version 7])"

definition when_version :: "int \<Rightarrow> (archive, unit) op \<Rightarrow> (archive, unit) op" where
  "when_version v update = andthen Experiment_getVersion (\<lambda>n. if n = v then update else ret ())"

text \<open>The part of the constructor that concerns the database.\<close>

definition Experiment_open :: "string \<Rightarrow> (archive, unit) op" where
  "Experiment_open name =
     andthen Experiment_isAccessible (\<lambda>accessible.
     if \<not> accessible then throw (Exception DatabaseInvalid [name]) else
     andthen (when_version 1 updateToVersion2) (\<lambda>_.
     andthen (when_version 2 updateToVersion3) (\<lambda>_.
     andthen (when_version 3 updateToVersion4) (\<lambda>_.
     andthen (when_version 4 updateToVersion5) (\<lambda>_.
     andthen (when_version 5 updateToVersion6) (\<lambda>_.
       when_version 6 updateToVersion7))))))"

section \<open>What a database means\<close>

definition schema :: "archive \<Rightarrow> int" where
  "schema a = hd (version a)"

definition functions_of :: "archive \<Rightarrow> int \<Rightarrow> (string \<times> addr set) set" where
  "functions_of a lo =
     (if schema a < 4 then (\<lambda>f. (of_name f, points (Interval (of_begin f) (of_end f)))) `
        {f \<in> set (old_functions a). of_linked_object f = lo}
      else functions_in (present a) lo)"

definition loops_of :: "archive \<Rightarrow> int \<Rightarrow> (addr \<times> addr set) set" where
  "loops_of a lo = (if schema a < 6 then {} else loops_in (present a) lo)"

definition threads_of :: "archive \<Rightarrow> ThreadRow list" where
  "threads_of a = map (\<lambda>row. row\<lparr>command := (if schema a < 2 then None else command row),
     mpi_impl := (if schema a < 3 then None else mpi_impl row)\<rparr>) (Threads (present a))"

definition views_of :: "archive \<Rightarrow> ViewRow list" where
  "views_of a = (if has_views a then Views (present a) else [])"

text \<open>The tables that every version has.\<close>

definition same_tables :: "tables \<Rightarrow> tables \<Rightarrow> bool" where
  "same_tables db db' \<longleftrightarrow> AddressSpaces db' = AddressSpaces db \<and> LinkedObjects db' = LinkedObjects db \<and>
     Statements db' = Statements db \<and> StatementRanges db' = StatementRanges db \<and>
     Files db' = Files db \<and> Collecting db' = Collecting db \<and> Collectors db' = Collectors db \<and>
     Data db' = Data db"

definition same_contents :: "archive \<Rightarrow> archive \<Rightarrow> bool" where
  "same_contents a a' \<longleftrightarrow> functions_of a' = functions_of a \<and> loops_of a' = loops_of a \<and>
     threads_of a' = threads_of a \<and> views_of a' = views_of a \<and> same_tables (present a) (present a')"

text \<open>The invariant: the tables that the version has are in order.\<close>

definition archive_ok :: "archive \<Rightarrow> bool" where
  "archive_ok a \<longleftrightarrow> (\<exists>v \<in> {1..7}. version a = [v]) \<and> (schema a = 7 \<longrightarrow> has_views a) \<and>
     (schema a < 4 \<longrightarrow> distinct (map of_id (old_functions a)) \<and>
        (\<forall>f \<in> set (old_functions a). small (Interval (of_begin f) (of_end f)))) \<and>
     (4 \<le> schema a \<longrightarrow> owners_ok (map fn_id (Functions (present a))) (FunctionRanges (present a))) \<and>
     (6 \<le> schema a \<longrightarrow> owners_ok (map lp_id (Loops (present a))) (LoopRanges (present a))) \<and>
     owners_ok (map sm_id (Statements (present a))) (StatementRanges (present a)) \<and> files_ok (present a)"

section \<open>Each update keeps the contents\<close>

lemma same_contents_trans: "same_contents a a1 \<Longrightarrow> same_contents a1 a2 \<Longrightarrow> same_contents a a2"
  by (simp add: same_contents_def same_tables_def)

lemma same_contents_refl: "same_contents a a"
  by (simp add: same_contents_def same_tables_def)

definition updates :: "int \<Rightarrow> (archive, unit) op \<Rightarrow> bool" where
  "updates v update \<longleftrightarrow> (\<forall>a. archive_ok a \<longrightarrow> schema a = v \<longrightarrow>
     (\<exists>a'. update a = (Ok (), a') \<and> archive_ok a' \<and> schema a' = v + 1 \<and> same_contents a a'))"

lemma statement_runs:
  "apply_procedure [] a = (Ok (), a)"
  "apply_procedure (f # fs) a = apply_procedure fs (f a)"
  by (simp_all add: apply_procedure_def statement_def ret_def andthen_simps)

lemma outermost_Ok: "body a = (Ok x, a') \<Longrightarrow> outermost body a = (Ok x, a')"
  by (simp add: outermost_def)

lemma on_present_simps [simp]:
  "version (on_present f a) = version a" "old_functions (on_present f a) = old_functions a"
  "has_views (on_present f a) = has_views a" "present (on_present f a) = f (present a)"
  "version (set_version v a) = map (\<lambda>_. v) (version a)" "old_functions (set_version v a) = old_functions a"
  "has_views (set_version v a) = has_views a" "present (set_version v a) = present a"
  by (simp_all add: on_present_def set_version_def)

lemma archive_version: "archive_ok a \<Longrightarrow> version a = [schema a]"
  by (auto simp: archive_ok_def schema_def)

lemma updates_I:
  assumes "\<And>a. archive_ok a \<Longrightarrow> version a = [v] \<Longrightarrow> schema a = v \<Longrightarrow>
    \<exists>a'. update a = (Ok (), a') \<and> archive_ok a' \<and> schema a' = v + 1 \<and> same_contents a a'"
  shows "updates v update"
  using assms archive_version unfolding updates_def by simp

lemma updates_2: "updates 1 updateToVersion2"
proof (rule updates_I)
  fix a assume a: "archive_ok a" "version a = [1]" "schema a = 1"
  let ?a = "set_version 2 (on_present (Threads_update (map (\<lambda>row. row\<lparr>command := None\<rparr>))) a)"
  have v: "version ?a = [2]" "schema ?a = 2" using a by (simp_all add: schema_def)
  have "same_contents a ?a"
    unfolding same_contents_def functions_of_def loops_of_def threads_of_def views_of_def v(2) a(3)
    by (simp add: same_tables_def functions_in_def loops_in_def cong: map_cong)
  moreover have "archive_ok ?a" using a v by (simp add: archive_ok_def files_ok_def)
  moreover have "updateToVersion2 a = (Ok (), ?a)"
    by (simp add: updateToVersion2_def outermost_def statement_runs)
  ultimately show "\<exists>a'. updateToVersion2 a = (Ok (), a') \<and> archive_ok a' \<and> schema a' = 1 + 1 \<and> same_contents a a'"
    using v by auto
qed

lemma updates_3: "updates 2 updateToVersion3"
proof (rule updates_I)
  fix a assume a: "archive_ok a" "version a = [2]" "schema a = 2"
  let ?a = "set_version 3 (on_present (Threads_update (map (\<lambda>row. row\<lparr>mpi_impl := None\<rparr>))) a)"
  have v: "version ?a = [3]" "schema ?a = 3" using a by (simp_all add: schema_def)
  have "same_contents a ?a"
    unfolding same_contents_def functions_of_def loops_of_def threads_of_def views_of_def v(2) a(3)
    by (simp add: same_tables_def functions_in_def loops_in_def cong: map_cong)
  moreover have "archive_ok ?a" using a v by (simp add: archive_ok_def files_ok_def)
  moreover have "updateToVersion3 a = (Ok (), ?a)"
    by (simp add: updateToVersion3_def outermost_def statement_runs)
  ultimately show "\<exists>a'. updateToVersion3 a = (Ok (), a') \<and> archive_ok a' \<and> schema a' = 2 + 1 \<and> same_contents a a'"
    using v by auto
qed

lemma updates_5: "updates 4 updateToVersion5"
proof (rule updates_I)
  fix a assume a: "archive_ok a" "version a = [4]" "schema a = 4"
  let ?a = "set_version 5 a"
  have v: "version ?a = [5]" "schema ?a = 5" using a by (simp_all add: schema_def)
  have "same_contents a ?a"
    unfolding same_contents_def functions_of_def loops_of_def threads_of_def views_of_def v(2) a(3)
    by (simp add: same_tables_def)
  moreover have "archive_ok ?a" using a v by (simp add: archive_ok_def files_ok_def)
  moreover have "updateToVersion5 a = (Ok (), ?a)"
    by (simp add: updateToVersion5_def outermost_def statement_runs)
  ultimately show "\<exists>a'. updateToVersion5 a = (Ok (), a') \<and> archive_ok a' \<and> schema a' = 4 + 1 \<and> same_contents a a'"
    using v by auto
qed

lemma updates_6: "updates 5 updateToVersion6"
proof (rule updates_I)
  fix a assume a: "archive_ok a" "version a = [5]" "schema a = 5"
  let ?a = "set_version 6 (on_present (LoopRanges_update (\<lambda>_. [])) (on_present (Loops_update (\<lambda>_. [])) a))"
  have v: "version ?a = [6]" "schema ?a = 6" using a by (simp_all add: schema_def)
  have "same_contents a ?a"
    unfolding same_contents_def functions_of_def loops_of_def threads_of_def views_of_def v(2) a(3)
    by (simp add: same_tables_def functions_in_def loops_in_def contents_def)
  moreover have "archive_ok ?a" using a v by (simp add: archive_ok_def files_ok_def owners_ok_def)
  moreover have "updateToVersion6 a = (Ok (), ?a)"
    by (simp add: updateToVersion6_def outermost_def statement_runs)
  ultimately show "\<exists>a'. updateToVersion6 a = (Ok (), a') \<and> archive_ok a' \<and> schema a' = 5 + 1 \<and> same_contents a a'"
    using v by auto
qed

lemma updates_7: "updates 6 updateToVersion7"
proof (rule updates_I)
  fix a assume a: "archive_ok a" "version a = [6]" "schema a = 6"
  let ?a = "set_version 7 (create_views a)"
  have c: "version (create_views a) = version a" "has_views (create_views a)"
    "old_functions (create_views a) = old_functions a"
    "present (create_views a) = (present a)\<lparr>Views := views_of a\<rparr>"
    by (simp_all add: create_views_def views_of_def on_present_def)
  have v: "version ?a = [7]" "schema ?a = 7" using a c by (simp_all add: schema_def)
  have "same_contents a ?a"
    unfolding same_contents_def functions_of_def loops_of_def threads_of_def v(2) a(3)
    using c by (simp add: same_tables_def functions_in_def loops_in_def views_of_def)
  moreover have "archive_ok ?a" using a v c by (simp add: archive_ok_def files_ok_def)
  moreover have "updateToVersion7 a = (Ok (), ?a)"
    by (simp add: updateToVersion7_def outermost_def statement_runs)
  ultimately show "\<exists>a'. updateToVersion7 a = (Ok (), a') \<and> archive_ok a' \<and> schema a' = 6 + 1 \<and> same_contents a a'"
    using v by auto
qed

text \<open>The bitmaps of the old functions.\<close>

abbreviation row_range :: "RangeRow \<Rightarrow> addr interval" where
  "row_range row \<equiv> Interval (rg_begin row) (rg_end row)"

lemma whole_bitmap_ok:
  assumes "small (row_range row)"
  obtains bm where "whole_bitmap row = Ok bm" and "bm_ok bm" and "bm_range bm = row_range row"
    and "bits bm = points (row_range row)"
proof -
  have r: "proper (row_range row)" "unat (Interval_getWidth (row_range row)) < 2 ^ 32"
    using assms by (simp_all add: small_def)
  note addresses = address_list_set [OF r(1)]
  obtain bm where bm: "set_all (address_list (row_range row)) (AddressBitmap_make (row_range row)) = Ok bm"
      "bm_ok bm" "bm_range bm = row_range row"
      "{a \<in> points (row_range row). bm_value bm a} = set (address_list (row_range row))"
    using filled_bitmap [OF r, of "address_list (row_range row)"] addresses by auto
  have "bits bm = points (row_range row)"
    using bm(3,4) addresses by (simp add: bits_def)
  moreover have "Interval_make (rg_begin row) (rg_end row) = Ok (row_range row)"
    using r(1) by (simp add: Interval_make_Ok proper_def)
  ultimately show thesis using bm that by (simp add: whole_bitmap_def)
qed

definition filled_row :: "RangeRow \<Rightarrow> RangeRow" where
  "filled_row row = range_row (rg_owner row) (the_Ok (whole_bitmap row))"

lemma filled_row:
  assumes "small (row_range row)"
  shows "rg_owner (filled_row row) = rg_owner row" and "row_ok (filled_row row)"
    and "row_addresses (filled_row row) = points (row_range row)"
    and "set_valid_bitmap row (the_Ok (whole_bitmap row)) [row] = [filled_row row]"
proof -
  obtain bm where bm: "whole_bitmap row = Ok bm" "bm_ok bm" "bm_range bm = row_range row"
      "bits bm = points (row_range row)" by (rule whole_bitmap_ok [OF assms])
  then show "rg_owner (filled_row row) = rg_owner row" "row_ok (filled_row row)"
    "row_addresses (filled_row row) = points (row_range row)"
    by (simp_all add: filled_row_def row_ok_range_row row_addresses_range_row bits_def)
  show "set_valid_bitmap row (the_Ok (whole_bitmap row)) [row] = [filled_row row]"
    using bm by (simp add: set_valid_bitmap_def filled_row_def range_row_def)
qed

lemma set_valid_bitmap_others:
  "rg_owner row \<notin> rg_owner ` set rows \<Longrightarrow> set_valid_bitmap row bm rows = rows"
  by (induction rows) (auto simp: set_valid_bitmap_def)

lemma fill_rows:
  assumes "\<forall>row \<in> set rows. small (row_range row)" and "distinct (map rg_owner (rows0 @ rows))"
    and "\<forall>row \<in> set rows0. small (row_range row)"
    and "FunctionRanges (present a) = map filled_row rows0 @ rows"
  shows "for_each rows (\<lambda>_. fill_range) () a = (Ok (), on_present (FunctionRanges_update (\<lambda>_. map filled_row (rows0 @ rows))) a)"
  using assms
proof (induction rows arbitrary: rows0 a)
  case Nil
  then have "on_present (FunctionRanges_update (\<lambda>_. map filled_row rows0)) a = a"
    by (simp add: on_present_def)
  then show ?case by (simp add: ret_def)
next
  case (Cons row rows)
  have small: "small (row_range row)" using Cons.prems(1) by simp
  obtain bm where bm: "whole_bitmap row = Ok bm" by (rule whole_bitmap_ok [OF small])
  have owners: "rg_owner ` set (map filled_row rows0) = rg_owner ` set rows0"
    using Cons.prems(3) filled_row(1) by (auto simp: image_image cong: image_cong)
  have "set_valid_bitmap row bm (map filled_row rows0 @ row # rows) =
      set_valid_bitmap row bm (map filled_row rows0) @ set_valid_bitmap row bm [row] @ set_valid_bitmap row bm rows"
    by (simp add: set_valid_bitmap_def)
  also have "\<dots> = map filled_row (rows0 @ [row]) @ rows"
    using filled_row(4) [OF small] bm Cons.prems(2) owners
    by (simp add: set_valid_bitmap_others)
  finally have set: "set_valid_bitmap row bm (map filled_row rows0 @ row # rows) = map filled_row (rows0 @ [row]) @ rows" .
  let ?a = "on_present (FunctionRanges_update (set_valid_bitmap row bm)) a"
  have "for_each rows (\<lambda>_. fill_range) () ?a = (Ok (), on_present (FunctionRanges_update (\<lambda>_. map filled_row ((rows0 @ [row]) @ rows))) ?a)"
    by (rule Cons.IH) (use Cons.prems set in auto)
  moreover have "on_present (FunctionRanges_update (\<lambda>_. x)) ?a = on_present (FunctionRanges_update (\<lambda>_. x)) a" for x
    by (simp add: on_present_def)
  moreover have "fill_range row a = (Ok (), ?a)"
    by (simp add: fill_range_def bm andthen_def lift_res_def statement_def)
  ultimately show ?case by (simp add: andthen_simps)
qed

lemma contents_map:
  "contents the_id object key (map mk xs) ranges lo =
     (\<lambda>x. (key (mk x), owned ranges (the_id (mk x)))) ` {x \<in> set xs. object (mk x) = lo}"
  unfolding contents_def by auto

lemma updates_4: "updates 3 updateToVersion4"
proof (rule updates_I)
  fix a assume a: "archive_ok a" "version a = [3]" "schema a = 3"
  let ?old = "old_functions a" and ?db = "present a"
  let ?rows = "map (\<lambda>f. RangeRow (of_id f) (of_begin f) (of_end f) []) ?old"
  let ?functions = "map (\<lambda>f. FunctionRow (of_id f) (of_linked_object f) (of_name f)) ?old"
  let ?a1 = "a\<lparr>version := [4], old_functions := [], present := ?db\<lparr>Functions := ?functions, FunctionRanges := ?rows\<rparr>\<rparr>"
  let ?ranges = "map filled_row ?rows"
  let ?a2 = "on_present (FunctionRanges_update (\<lambda>_. ?ranges)) ?a1"
  have old: "distinct (map of_id ?old)" "\<And>f. f \<in> set ?old \<Longrightarrow> small (Interval (of_begin f) (of_end f))"
    using a by (auto simp: archive_ok_def)
  then have rows: "\<forall>row \<in> set ?rows. small (row_range row)" by auto
  have "apply_procedure new_function_tables a = (Ok (), ?a1)"
    using a(2) by (simp add: new_function_tables_def statement_runs on_present_def set_version_def)
  moreover have "for_each ?rows (\<lambda>_. fill_range) () ?a1 = (Ok (), ?a2)"
    using fill_rows [OF rows, of "[]" ?a1] old(1) by (simp add: comp_def)
  ultimately have run: "updateToVersion4 a = (Ok (), ?a2)"
    by (simp add: updateToVersion4_def outermost_def andthen_simps)
  have v: "version ?a2 = [4]" "schema ?a2 = 4" by (simp_all add: schema_def)
  have filled: "rg_owner (filled_row (RangeRow (of_id f) (of_begin f) (of_end f) [])) = of_id f"
    "row_ok (filled_row (RangeRow (of_id f) (of_begin f) (of_end f) []))"
    "row_addresses (filled_row (RangeRow (of_id f) (of_begin f) (of_end f) [])) = points (Interval (of_begin f) (of_end f))"
    if "f \<in> set ?old" for f
    using filled_row(1-3) [of "RangeRow (of_id f) (of_begin f) (of_end f) []"] old(2) [OF that] by simp_all
  have owners: "owners_ok (map fn_id ?functions) ?ranges"
    using old(1) filled by (auto simp: owners_ok_def list_all_iff comp_def)
  have "owned ?ranges (of_id f) = points (Interval (of_begin f) (of_end f))" if f: "f \<in> set ?old" for f
  proof -
    have "g = f" if "g \<in> set ?old" "of_id g = of_id f" for g
      using old(1) f that by (auto simp: distinct_map dest: inj_onD)
    then have "{g \<in> set ?old. of_id g = of_id f} = {f}" using f by auto
    moreover have "{x \<in> set (map h ?old). rg_owner x = of_id f} = h ` {g \<in> set ?old. of_id g = of_id f}"
      if "\<And>g. g \<in> set ?old \<Longrightarrow> rg_owner (h g) = of_id g" for h
      using that by auto
    note this [of "\<lambda>g. filled_row (RangeRow (of_id g) (of_begin g) (of_end g) [])", OF filled(1)]
    ultimately have "{row \<in> set ?ranges. rg_owner row = of_id f} = {filled_row (RangeRow (of_id f) (of_begin f) (of_end f) [])}"
      by (simp add: comp_def)
    then show ?thesis using filled(3) [OF f] by (simp add: owned_def)
  qed
  then have "functions_in (present ?a2) lo = functions_of a lo" for lo
    using a(3) by (simp add: functions_in_def contents_map functions_of_def cong: image_cong_simp)
  then have "functions_in (present ?a2) = functions_of a" by (rule ext)
  moreover have "functions_of ?a2 = functions_in (present ?a2)"
    unfolding functions_of_def v(2) fun_eq_iff by simp
  ultimately have "functions_of ?a2 = functions_of a" by simp
  then have "same_contents a ?a2"
    unfolding same_contents_def loops_of_def threads_of_def views_of_def v(2) a(3)
    by (simp add: same_tables_def cong: map_cong)
  moreover have "archive_ok ?a2" using a v owners by (simp add: archive_ok_def files_ok_def)
  ultimately show "\<exists>a'. updateToVersion4 a = (Ok (), a') \<and> archive_ok a' \<and> schema a' = 3 + 1 \<and> same_contents a a'"
    using run v by auto
qed

section \<open>Opening\<close>

lemma when_version_ok:
  assumes "updates v update" and "archive_ok a"
  shows "\<exists>a'. when_version v update a = (Ok (), a') \<and> archive_ok a' \<and> same_contents a a' \<and>
    schema a' = (if schema a = v then v + 1 else schema a)"
proof -
  have version: "Experiment_getVersion a = (Ok (schema a), a)"
    using archive_version [OF assms(2)] by (simp add: Experiment_getVersion_def)
  show ?thesis
  proof (cases "schema a = v")
    case True
    with assms obtain a' where "update a = (Ok (), a')" "archive_ok a'" "schema a' = v + 1" "same_contents a a'"
      unfolding updates_def by blast
    with True version show ?thesis by (auto simp: when_version_def andthen_simps)
  next
    case False
    with version assms(2) same_contents_refl show ?thesis
      by (auto simp: when_version_def andthen_simps ret_def)
  qed
qed

lemma schema_range: "archive_ok a \<Longrightarrow> 1 \<le> schema a \<and> schema a \<le> 7"
  by (auto simp: archive_ok_def schema_def)

lemma open_run:
  assumes a: "archive_ok a"
  shows "\<exists>a'. Experiment_open name a = (Ok (), a') \<and> archive_ok a' \<and> same_contents a a' \<and> schema a' = 7"
proof -
  obtain a1 where a1: "when_version 1 updateToVersion2 a = (Ok (), a1)" "archive_ok a1" "same_contents a a1"
    "schema a1 = (if schema a = 1 then 2 else schema a)" using when_version_ok [OF updates_2 a] by auto
  obtain a2 where a2: "when_version 2 updateToVersion3 a1 = (Ok (), a2)" "archive_ok a2" "same_contents a1 a2"
    "schema a2 = (if schema a1 = 2 then 3 else schema a1)" using when_version_ok [OF updates_3 a1(2)] by auto
  obtain a3 where a3: "when_version 3 updateToVersion4 a2 = (Ok (), a3)" "archive_ok a3" "same_contents a2 a3"
    "schema a3 = (if schema a2 = 3 then 4 else schema a2)" using when_version_ok [OF updates_4 a2(2)] by auto
  obtain a4 where a4: "when_version 4 updateToVersion5 a3 = (Ok (), a4)" "archive_ok a4" "same_contents a3 a4"
    "schema a4 = (if schema a3 = 4 then 5 else schema a3)" using when_version_ok [OF updates_5 a3(2)] by auto
  obtain a5 where a5: "when_version 5 updateToVersion6 a4 = (Ok (), a5)" "archive_ok a5" "same_contents a4 a5"
    "schema a5 = (if schema a4 = 5 then 6 else schema a4)" using when_version_ok [OF updates_6 a4(2)] by auto
  obtain a6 where a6: "when_version 6 updateToVersion7 a5 = (Ok (), a6)" "archive_ok a6" "same_contents a5 a6"
    "schema a6 = (if schema a5 = 6 then 7 else schema a5)" using when_version_ok [OF updates_7 a5(2)] by auto
  have "Experiment_isAccessible a = (Ok True, a)"
    using archive_version [OF a] by (simp add: Experiment_isAccessible_def)
  then have "Experiment_open name a = (Ok (), a6)"
    using a1(1) a2(1) a3(1) a4(1) a5(1) a6(1) by (simp add: Experiment_open_def andthen_simps)
  moreover have "same_contents a a6"
    using a1(3) a2(3) a3(3) a4(3) a5(3) a6(3) same_contents_trans by blast
  moreover have "schema a6 = 7"
    using schema_range [OF a] a1(4) a2(4) a3(4) a4(4) a5(4) a6(4) by (auto split: if_splits)
  ultimately show ?thesis using a6(2) by blast
qed

text \<open>The contents of a database at the present version are its tables.\<close>

lemma present_contents:
  assumes "archive_ok a" and "schema a = 7"
  shows "symbols_ok (present a)" and "functions_of a = functions_in (present a)"
    and "loops_of a = loops_in (present a)" and "threads_of a = Threads (present a)"
    and "views_of a = Views (present a)" and "version a = [7]"
  using assms archive_version [OF assms(1)]
  by (simp_all add: archive_ok_def symbols_ok_def functions_of_def loops_of_def threads_of_def views_of_def fun_eq_iff)

lemma open_again: "archive_ok a \<Longrightarrow> schema a = 7 \<Longrightarrow> Experiment_open name a = (Ok (), a)"
  using archive_version [of a]
  by (simp add: Experiment_open_def Experiment_isAccessible_def Experiment_getVersion_def when_version_def
      andthen_def ret_def)

section \<open>Properties\<close>

text \<open>C30: opening a database of any version from 1 to 7 brings it to version 7 with the same contents:
  its tables then hold the functions, loops, statements, threads and views that it had; a function of
  an old version has exactly the addresses of its range. Opening it again changes nothing.\<close>

theorem open_keeps_contents:
  assumes "archive_ok a"
  shows "\<exists>a'. Experiment_open name a = (Ok (), a') \<and> version a' = [7] \<and> symbols_ok (present a') \<and>
    functions_in (present a') = functions_of a \<and> loops_in (present a') = loops_of a \<and>
    Threads (present a') = threads_of a \<and> Views (present a') = views_of a \<and>
    same_tables (present a) (present a') \<and> Experiment_open name a' = (Ok (), a')"
proof -
  obtain a' where a': "Experiment_open name a = (Ok (), a')" "archive_ok a'" "same_contents a a'" "schema a' = 7"
    using open_run [OF assms] by blast
  from present_contents [OF a'(2,4)] open_again [OF a'(2,4)] a'(1,3) show ?thesis
    unfolding same_contents_def by auto
qed

definition sample_archive :: archive where
  "sample_archive = \<lparr>version = [3], old_functions = [\<lparr>of_id = 1, of_linked_object = 1,
     of_begin = 16, of_end = 20, of_name = ''main''\<rparr>], has_views = False, present = no_tables\<rparr>"

lemma sample_archive_ok: "archive_ok sample_archive"
  by (simp add: archive_ok_def sample_archive_def schema_def no_tables_def owners_ok_def files_ok_def
      small_def proper_def Interval_getWidth_def)

lemma open_keeps_contents_witness:
  "\<exists>a'. Experiment_open ''e'' sample_archive = (Ok (), a') \<and> version a' = [7] \<and>
     functions_in (present a') 1 = {(''main'', points (Interval 16 20))}"
proof -
  have "functions_of sample_archive 1 = {(''main'', points (Interval 16 20))}"
    by (auto simp: functions_of_def sample_archive_def schema_def image_iff)
  with open_keeps_contents [OF sample_archive_ok, of "''e''"] show ?thesis by auto
qed

text \<open>The errors: no single row with a version, and an old function without addresses.\<close>

lemma open_invalid:
  "length (version a) \<noteq> 1 \<Longrightarrow> Experiment_open name a = (Throw (Exception DatabaseInvalid [name]), a)"
  by (simp add: Experiment_open_def Experiment_isAccessible_def andthen_def throw_def)

lemma open_empty_function_aborts:
  assumes "version a = [3]" and "old_functions a = f # fs" and "of_end f \<le> of_begin f"
  shows "fst (Experiment_open name a) = Abort"
proof -
  let ?row = "RangeRow (of_id f) (of_begin f) (of_end f) []"
  have "whole_bitmap ?row = Abort"
    using assms(3) by (simp add: whole_bitmap_def Interval_make_def Assert_def not_less)
  then have "fst (updateToVersion4 a) = Abort"
    using assms(2) by (simp add: updateToVersion4_def outermost_def new_function_tables_def statement_runs
        andthen_def fill_range_def lift_res_def)
  then obtain a' where "updateToVersion4 a = (Abort, a')" by (cases "updateToVersion4 a") simp
  moreover have "Experiment_getVersion a = (Ok 3, a)" "Experiment_isAccessible a = (Ok True, a)"
    using assms(1) by (simp_all add: Experiment_getVersion_def Experiment_isAccessible_def)
  ultimately show ?thesis
    by (simp add: Experiment_open_def when_version_def andthen_simps ret_def)
qed

end
