(* ===== verification/Clusters.thy ===== *)
theory Clusters
  imports Session "HOL-Library.Product_Lexorder" "HOL-Library.List_Lexorder"
begin

text \<open>
  The cluster analysis of the query library (ClusterAnalysis.txx): threads are grouped by the distance
  of their metric values, always joining the two nearest clusters. The main results are that the
  analysis ends with a partition of the threads, and how many clusters a limit on their number gives.
  A thread is its entry; a group of threads is the ordered list of its entries, and the set of clusters
  is ordered as \<open>std::set\<close> orders sets. The type \<open>'m\<close> of the metric is arbitrary, with its own addition,
  subtraction and comparison; its division by a number is a parameter, as is the comparison of the ratio
  of two distances, which the code makes in floating point.
\<close>

section \<open>Distances between threads\<close>

type_synonym ('s, 'm) individual_results = "('s, (int, 'm) stdmap) stdmap"

definition value_of :: "int \<Rightarrow> (int, 'm::zero) stdmap \<Rightarrow> 'm" where
  "value_of t row = (case map_find (<) t row of Some (_, v) \<Rightarrow> v | None \<Rightarrow> 0)"

definition ManhattanDistance ::
  "('s, 'm::{zero,plus,minus,ord}) individual_results \<Rightarrow> int \<Rightarrow> int \<Rightarrow> 'm" where
  "ManhattanDistance individual first second =
     foldl (\<lambda>value (_, row).
       let value_first = value_of first row; value_second = value_of second row in
       value + (if value_first < value_second then value_second - value_first
                else value_first - value_second)) 0 individual"

text \<open>The pairs that two nested loops visit when the inner one starts behind the outer one.\<close>

fun unique_pairs :: "'a list \<Rightarrow> ('a \<times> 'a) list" where
  "unique_pairs [] = []"
| "unique_pairs (x # xs) = map (Pair x) xs @ unique_pairs xs"

record 'm DistanceMatrix =
  dm_threads :: "int list"
  dm_table :: "(int \<times> int, 'm) stdmap"

definition threads_in :: "('s, 'm) individual_results \<Rightarrow> int list" where
  "threads_in individual =
     foldl (\<lambda>threads (_, row). foldl (\<lambda>threads (t, _). set_insert (<) t threads) threads row) [] individual"

definition ordered_pair :: "int \<Rightarrow> int \<Rightarrow> int \<times> int" where
  "ordered_pair i j = (if i < j then (i, j) else (j, i))"

definition DistanceMatrix_make ::
  "(('s, 'm) individual_results \<Rightarrow> int \<Rightarrow> int \<Rightarrow> 'm) \<Rightarrow> ('s, 'm) individual_results \<Rightarrow> 'm DistanceMatrix" where
  "DistanceMatrix_make distance individual =
     (let threads = threads_in individual in
      \<lparr>dm_threads = threads,
       dm_table = foldl (\<lambda>table (i, j). map_insert (<) (ordered_pair i j) (distance individual i j) table)
         [] (unique_pairs threads)\<rparr>)"

definition getDistance :: "'m::zero DistanceMatrix \<Rightarrow> int \<Rightarrow> int \<Rightarrow> 'm res" where
  "getDistance self first second =
     (if first = second then Ok 0 else
      case map_find (<) (ordered_pair first second) (dm_table self) of
        None \<Rightarrow> Abort
      | Some (_, d) \<Rightarrow> Ok d)"

section \<open>Distances between clusters\<close>

definition linkage :: "('m \<Rightarrow> 'm \<Rightarrow> bool) \<Rightarrow> 'm::zero DistanceMatrix \<Rightarrow> int list \<Rightarrow> int list \<Rightarrow> 'm res" where
  "linkage replaces distances first second =
     bind_res (Assert (first \<noteq> [] \<and> second \<noteq> [])) (\<lambda>_.
     bind_res (fold_res (\<lambda>(is_initialized, value) (i, j).
         bind_res (getDistance distances i j) (\<lambda>d.
           Ok (if \<not> is_initialized \<or> replaces d value then (True, d) else (is_initialized, value))))
       (List.product first second) (False, 0)) (\<lambda>(_, value). Ok value))"

definition CompleteLinkageDistance :: "'m::{zero,ord} DistanceMatrix \<Rightarrow> int list \<Rightarrow> int list \<Rightarrow> 'm res" where
  "CompleteLinkageDistance = linkage (\<lambda>d value. d > value)"

definition SingleLinkageDistance :: "'m::{zero,ord} DistanceMatrix \<Rightarrow> int list \<Rightarrow> int list \<Rightarrow> 'm res" where
  "SingleLinkageDistance = linkage (\<lambda>d value. d < value)"

definition sum_of_distances :: "'m::{zero,plus} DistanceMatrix \<Rightarrow> (int \<times> int) list \<Rightarrow> 'm res" where
  "sum_of_distances distances =
     (\<lambda>pairs. fold_res (\<lambda>value (i, j). bind_res (getDistance distances i j) (\<lambda>d. Ok (value + d))) pairs 0)"

definition AverageLinkageDistance ::
  "('m \<Rightarrow> nat \<Rightarrow> 'm) \<Rightarrow> 'm::{zero,plus} DistanceMatrix \<Rightarrow> int list \<Rightarrow> int list \<Rightarrow> 'm res" where
  "AverageLinkageDistance over distances first second =
     bind_res (Assert (first \<noteq> [] \<and> second \<noteq> [])) (\<lambda>_.
     bind_res (sum_of_distances distances (List.product first second)) (\<lambda>value.
       Ok (over value (length first * length second))))"

definition AverageInterClusterDistance ::
  "('m \<Rightarrow> nat \<Rightarrow> 'm) \<Rightarrow> 'm::{zero,plus} DistanceMatrix \<Rightarrow> int list \<Rightarrow> 'm res" where
  "AverageInterClusterDistance over distances cluster =
     bind_res (Assert (cluster \<noteq> [])) (\<lambda>_.
     bind_res (sum_of_distances distances (unique_pairs cluster)) (\<lambda>value.
       Ok (over value (length (unique_pairs cluster)))))"

section \<open>Criteria\<close>

type_synonym 'm criterion = "'m DistanceMatrix \<Rightarrow> int list list \<Rightarrow> 'm \<Rightarrow> int list \<Rightarrow> int list \<Rightarrow> bool res"

definition NumberCriterion1 :: "nat \<Rightarrow> 'm criterion" where
  "NumberCriterion1 dm_count distances clusters distance first second = Ok (dm_count \<ge> length clusters)"

text \<open>\<open>reached distance average\<close> compares the ratio with the constant.\<close>

definition DistanceCriterion1 ::
  "('m \<Rightarrow> nat \<Rightarrow> 'm) \<Rightarrow> ('m \<Rightarrow> 'm \<Rightarrow> bool) \<Rightarrow> ('m::{zero,plus,ord}) criterion" where
  "DistanceCriterion1 over reached distances clusters distance first second =
     (if length first < 2 \<and> length second < 2 then Ok False
      else if length first < 2 \<and> length second \<ge> 2 then
        bind_res (AverageInterClusterDistance over distances second) (\<lambda>a. Ok (reached distance a))
      else if length first \<ge> 2 \<and> length second < 2 then
        bind_res (AverageInterClusterDistance over distances first) (\<lambda>a. Ok (reached distance a))
      else
        bind_res (AverageInterClusterDistance over distances first) (\<lambda>a.
        bind_res (AverageInterClusterDistance over distances second) (\<lambda>b.
          Ok (reached distance (if a < b then b else a)))))"

section \<open>Joining clusters\<close>

text \<open>The nearest pair of clusters, with its distance; \<open>None\<close> for the two end iterators.\<close>

definition nearest ::
  "(int list \<Rightarrow> int list \<Rightarrow> 'm::ord res) \<Rightarrow> int list list \<Rightarrow> ('m \<times> int list \<times> int list) option res" where
  "nearest cdistance clusters =
     fold_res (\<lambda>best (i, j). bind_res (cdistance i j) (\<lambda>d.
         Ok (case best of
               None \<Rightarrow> Some (d, i, j)
             | Some (distance, _) \<Rightarrow> if d < distance then Some (d, i, j) else best)))
       (unique_pairs clusters) None"

definition set_union :: "int list \<Rightarrow> int list \<Rightarrow> int list" where
  "set_union first second = foldl (\<lambda>s t. set_insert (<) t s) (foldl (\<lambda>s t. set_insert (<) t s) [] first) second"

definition join :: "int list \<Rightarrow> int list \<Rightarrow> int list list \<Rightarrow> int list list" where
  "join first second clusters =
     set_insert (<) (set_union first second) (remove1 second (remove1 first clusters))"

lemma length_set_insert: "length (set_insert lt k ks) \<le> Suc (length ks)"
  by (induction ks) auto

lemma fold_res_keeps:
  assumes "fold_res f xs acc = Ok acc'" and "P acc"
    and "\<And>x a a'. x \<in> set xs \<Longrightarrow> P a \<Longrightarrow> f a x = Ok a' \<Longrightarrow> P a'"
  shows "P acc'"
  using assms by (induction xs arbitrary: acc) (auto simp: bind_res_Ok_iff)

lemma nearest_pair:
  "nearest cdistance clusters = Ok (Some (d, first, second)) \<Longrightarrow> (first, second) \<in> set (unique_pairs clusters)"
proof -
  assume "nearest cdistance clusters = Ok (Some (d, first, second))"
  then have "case Some (d, first, second) of None \<Rightarrow> True | Some (_, p) \<Rightarrow> p \<in> set (unique_pairs clusters)"
    unfolding nearest_def
    by (rule fold_res_keeps) (auto simp: bind_res_Ok_iff split: option.splits if_splits prod.splits)
  then show ?thesis by simp
qed

lemma unique_pairs_in: "(x, y) \<in> set (unique_pairs xs) \<Longrightarrow> x \<in> set xs \<and> y \<in> set (remove1 x xs)"
  by (induction xs) (auto dest: subsetD [OF set_remove1_subset])

lemma remove_pair_length:
  assumes "(x, y) \<in> set (unique_pairs xs)"
  shows "Suc (Suc (length (remove1 y (remove1 x xs)))) = length xs"
proof -
  note unique_pairs_in [OF assms]
  moreover have "Suc (length (remove1 z zs)) = length zs" if "z \<in> set zs" for z and zs :: "'a list"
    using that by (induction zs) auto
  ultimately show ?thesis by metis
qed

lemma join_shorter:
  "(first, second) \<in> set (unique_pairs clusters) \<Longrightarrow> length (join first second clusters) < length clusters"
  using remove_pair_length [of first second clusters]
    length_set_insert [of "(<)" "set_union first second" "remove1 second (remove1 first clusters)"]
  by (simp add: join_def)

lemma bind_res_cong [fundef_cong]:
  "m = m' \<Longrightarrow> (\<And>x. m' = Ok x \<Longrightarrow> f x = f' x) \<Longrightarrow> bind_res m f = bind_res m' f'"
  by (cases m') auto

function cluster_loop ::
  "(int list \<Rightarrow> int list \<Rightarrow> 'm::ord res) \<Rightarrow> (int list list \<Rightarrow> 'm \<Rightarrow> int list \<Rightarrow> int list \<Rightarrow> bool res)
    \<Rightarrow> int list list \<Rightarrow> int list list res" where
  "cluster_loop cdistance criterion clusters =
     (if length clusters > 1 then
        bind_res (nearest cdistance clusters) (\<lambda>best.
          case best of
            None \<Rightarrow> Abort
          | Some (distance, first, second) \<Rightarrow>
              bind_res (criterion clusters distance first second) (\<lambda>met.
                if met \<and> length clusters < 5 then Ok clusters
                else cluster_loop cdistance criterion (join first second clusters)))
      else Ok clusters)"
  by pat_completeness auto

termination
  by (relation "measure (\<lambda>(_, _, clusters). length clusters)") (auto intro: join_shorter nearest_pair)

declare cluster_loop.simps [simp del]

definition ClusterAnalysis_Apply ::
  "('s, 'm) individual_results \<Rightarrow> (('s, 'm) individual_results \<Rightarrow> int \<Rightarrow> int \<Rightarrow> 'm)
    \<Rightarrow> ('m DistanceMatrix \<Rightarrow> int list \<Rightarrow> int list \<Rightarrow> 'm::ord res) \<Rightarrow> 'm criterion \<Rightarrow> int list list res" where
  "ClusterAnalysis_Apply individual idistance cdistance criterion =
     (let distances = DistanceMatrix_make idistance individual;
          clusters = foldl (\<lambda>clusters t. set_insert (<) [t] clusters) [] (dm_threads distances)
      in cluster_loop (cdistance distances) (criterion distances) clusters)"

definition ClusterAnalysis_ApplySimple ::
  "('m \<Rightarrow> nat \<Rightarrow> 'm) \<Rightarrow> ('m \<Rightarrow> 'm \<Rightarrow> bool) \<Rightarrow> ('s, 'm::{zero,plus,minus,ord}) individual_results
    \<Rightarrow> int list list res" where
  "ClusterAnalysis_ApplySimple over reached individual =
     ClusterAnalysis_Apply individual ManhattanDistance (AverageLinkageDistance over)
       (DistanceCriterion1 over reached)"

section \<open>Partitions\<close>

text \<open>Clusters as the code keeps them: an ordered set of non-empty ordered sets that share no thread.\<close>

definition partitions :: "int list list \<Rightarrow> int set \<Rightarrow> bool" where
  "partitions clusters threads \<longleftrightarrow> linear.ordered clusters \<and>
     (\<forall>c \<in> set clusters. c \<noteq> [] \<and> linear.ordered c) \<and> (\<Union>c \<in> set clusters. set c) = threads \<and>
     (\<forall>a \<in> set clusters. \<forall>b \<in> set clusters. a \<noteq> b \<longrightarrow> set a \<inter> set b = {})"

lemma insert_all_ordered:
  "linear.ordered s \<Longrightarrow> linear.ordered (foldl (\<lambda>s t. set_insert (<) t s) s ts)"
  for s :: "'a::linorder list"
  by (induction ts arbitrary: s) (simp_all add: linear.set_insert_ordered)

lemma insert_all_set: "set (foldl (\<lambda>s t. set_insert (<) t s) s ts) = set s \<union> set ts"
  for s :: "'a::linorder list"
  by (induction ts arbitrary: s) (auto simp: linear_set_insert)

lemma set_union_ok: "linear.ordered (set_union a b)" "set (set_union a b) = set a \<union> set b"
  by (simp_all add: set_union_def insert_all_ordered insert_all_set)

lemma set_insert_new_length: "k \<notin> set ks \<Longrightarrow> length (set_insert (<) k ks) = Suc (length ks)"
  for k :: "'a::linorder"
  by (induction ks) auto

lemma unique_pairs_distinct:
  "distinct xs \<Longrightarrow> (x, y) \<in> set (unique_pairs xs) \<Longrightarrow> x \<in> set xs \<and> y \<in> set xs \<and> x \<noteq> y"
  by (induction xs) auto

lemma unique_pairs_sorted: "linear.ordered xs \<Longrightarrow> (x, y) \<in> set (unique_pairs xs) \<Longrightarrow> x < y"
  by (induction xs) auto

lemma unique_pairs_complete:
  "linear.ordered xs \<Longrightarrow> x \<in> set xs \<Longrightarrow> y \<in> set xs \<Longrightarrow> x < y \<Longrightarrow> (x, y) \<in> set (unique_pairs xs)"
  by (induction xs) (auto dest: order.strict_trans)

lemma unique_pairs_none: "unique_pairs xs = [] \<longleftrightarrow> length xs \<le> 1"
  by (cases xs rule: unique_pairs.cases) auto

lemma join_partitions:
  assumes p: "partitions clusters threads" and pair: "(a, b) \<in> set (unique_pairs clusters)"
  shows "partitions (join a b clusters) threads" and "length (join a b clusters) = length clusters - 1"
proof -
  let ?rest = "remove1 b (remove1 a clusters)"
  have ordered: "linear.ordered clusters" using p by (simp add: partitions_def)
  then have distinct: "distinct clusters" by (rule linear.ordered_distinct)
  note ab = unique_pairs_distinct [OF distinct pair]
  have rest: "set ?rest = set clusters - {a, b}" using distinct by auto
  have "sorted_wrt (<) (remove1 x xs)" if "sorted_wrt (<) xs" for x and xs :: "int list list"
    using that by (induction xs) (auto dest: subsetD [OF set_remove1_subset])
  then have orest: "linear.ordered ?rest" using ordered by (simp add: linear.ordered_def)
  have nonempty: "a \<noteq> []" "b \<noteq> []" using p ab by (auto simp: partitions_def)
  have new: "set_union a b \<notin> set ?rest"
  proof
    assume "set_union a b \<in> set ?rest"
    then have "set (set_union a b) \<inter> set a = {}"
      using p ab rest by (auto simp: partitions_def)
    then show False using nonempty by (auto simp: set_union_ok)
  qed
  have members: "set (join a b clusters) = insert (set_union a b) (set clusters - {a, b})"
    by (simp add: join_def linear_set_insert rest)
  show "partitions (join a b clusters) threads"
    unfolding partitions_def
  proof (intro conjI)
    show "linear.ordered (join a b clusters)"
      unfolding join_def by (rule linear.set_insert_ordered [OF orest TrueI])
    have "set_union a b \<noteq> []" using nonempty set_union_ok(2) [of a b] by (cases a) auto
    then show "\<forall>c \<in> set (join a b clusters). c \<noteq> [] \<and> linear.ordered c"
      using p set_union_ok(1) by (auto simp: members partitions_def)
    show "(\<Union>c \<in> set (join a b clusters). set c) = threads"
      using p ab by (auto simp: members partitions_def set_union_ok)
    show "\<forall>x \<in> set (join a b clusters). \<forall>y \<in> set (join a b clusters). x \<noteq> y \<longrightarrow> set x \<inter> set y = {}"
      using p ab unfolding members by (auto simp: partitions_def set_union_ok)
  qed
  show "length (join a b clusters) = length clusters - 1"
    using set_insert_new_length [OF new] remove_pair_length [OF pair] by (simp add: join_def)
qed

section \<open>The loop\<close>

text \<open>What the loop needs of the measure and of the criterion: they answer for all clusters of the threads.\<close>

definition clusters_of :: "int set \<Rightarrow> int list set" where
  "clusters_of threads = {c. c \<noteq> [] \<and> linear.ordered c \<and> set c \<subseteq> threads}"

definition answers :: "int set \<Rightarrow> (int list \<Rightarrow> int list \<Rightarrow> 'm res) \<Rightarrow> bool" where
  "answers threads cdistance \<longleftrightarrow>
     (\<forall>a \<in> clusters_of threads. \<forall>b \<in> clusters_of threads. \<exists>d. cdistance a b = Ok d)"

lemma partitions_clusters: "partitions clusters threads \<Longrightarrow> c \<in> set clusters \<Longrightarrow> c \<in> clusters_of threads"
  by (auto simp: partitions_def clusters_of_def)

lemma nearest_ok:
  assumes p: "partitions clusters threads" and "answers threads cdistance" and "length clusters > 1"
  obtains d a b where "nearest cdistance clusters = Ok (Some (d, a, b))" and "cdistance a b = Ok d"
    and "(a, b) \<in> set (unique_pairs clusters)"
proof -
  let ?f = "\<lambda>best (i, j). bind_res (cdistance i j) (\<lambda>d. Ok (case best of
      None \<Rightarrow> Some (d, i, j) | Some (distance, _) \<Rightarrow> if d < distance then Some (d, i, j) else best))"
  have distinct: "distinct clusters" using p linear.ordered_distinct by (auto simp: partitions_def)
  have ok: "\<exists>d. cdistance i j = Ok d" if "(i, j) \<in> set (unique_pairs clusters)" for i j
    using unique_pairs_distinct [OF distinct that] partitions_clusters [OF p] assms(2)
    by (auto simp: answers_def)
  have total: "set pairs \<subseteq> set (unique_pairs clusters) \<Longrightarrow> \<exists>best'. fold_res ?f pairs best = Ok best'" for pairs best
  proof (induction pairs arbitrary: best)
    case (Cons p pairs)
    obtain i j where p: "p = (i, j)" by (cases p)
    with Cons.prems ok [of i j] obtain d where "cdistance i j = Ok d" by auto
    with Cons p show ?case by simp
  qed simp
  obtain best where best: "nearest cdistance clusters = Ok best"
    using total [of "unique_pairs clusters"] by (auto simp: nearest_def)
  obtain p ps where pairs: "unique_pairs clusters = p # ps"
    using assms(3) unique_pairs_none [of clusters] by (cases "unique_pairs clusters") auto
  with best obtain b1 where first: "?f None p = Ok b1" and rest: "fold_res ?f ps b1 = Ok best"
    by (auto simp: nearest_def bind_res_Ok_iff)
  from first have "b1 \<noteq> None" by (auto simp: bind_res_Ok_iff split: prod.splits)
  with rest have "best \<noteq> None"
    by (rule fold_res_keeps) (auto simp: bind_res_Ok_iff split: option.splits if_splits prod.splits)
  then obtain d a b where b: "best = Some (d, a, b)" by auto
  have "case best of None \<Rightarrow> True | Some (d, a, b) \<Rightarrow> cdistance a b = Ok d"
    by (rule fold_res_keeps [OF best [unfolded nearest_def]])
      (auto simp: bind_res_Ok_iff split: option.splits if_splits prod.splits)
  with b best nearest_pair [of cdistance clusters d a b] that show thesis by simp
qed

lemma cluster_loop_step:
  assumes "nearest cdistance clusters = Ok (Some (d, a, b))" and "length clusters > 1"
    and "criterion clusters d a b = Ok met"
  shows "cluster_loop cdistance criterion clusters =
    (if met \<and> length clusters < 5 then Ok clusters else cluster_loop cdistance criterion (join a b clusters))"
  using assms by (subst cluster_loop.simps) simp

lemma cluster_loop_ok:
  assumes "partitions clusters threads" and "answers threads cdistance"
    and "\<And>clusters d a b. partitions clusters threads \<Longrightarrow> (a, b) \<in> set (unique_pairs clusters) \<Longrightarrow>
      \<exists>met. criterion clusters d a b = Ok met"
  shows "\<exists>result. cluster_loop cdistance criterion clusters = Ok result \<and> partitions result threads"
  using assms(1)
proof (induction "length clusters" arbitrary: clusters rule: less_induct)
  case less
  show ?case
  proof (cases "length clusters > 1")
    case False
    with less.prems show ?thesis by (subst cluster_loop.simps) simp
  next
    case True
    obtain d a b where near: "nearest cdistance clusters = Ok (Some (d, a, b))"
      and pair: "(a, b) \<in> set (unique_pairs clusters)"
      using nearest_ok [OF less.prems assms(2) True] by metis
    obtain met where "criterion clusters d a b = Ok met" using assms(3) [OF less.prems pair] by blast
    note step = cluster_loop_step [where criterion = criterion, OF near True this]
    show ?thesis
    proof (cases "met \<and> length clusters < 5")
      case True
      with step less.prems show ?thesis by simp
    next
      case False
      have "length (join a b clusters) < length clusters" by (rule join_shorter [OF pair])
      from less.hyps [OF this join_partitions(1) [OF less.prems pair]] False step show ?thesis by auto
    qed
  qed
qed

text \<open>A criterion on the number of clusters.\<close>

lemma cluster_loop_count:
  assumes "partitions clusters threads" and "answers threads cdistance" and "clusters \<noteq> []"
  shows "\<exists>result. cluster_loop cdistance (\<lambda>clusters _ _ _. Ok (count \<ge> length clusters)) clusters = Ok result \<and>
    length result = max 1 (min (length clusters) (min count 4))"
  using assms(1,3)
proof (induction "length clusters" arbitrary: clusters rule: less_induct)
  case less
  let ?criterion = "\<lambda>clusters _ _ _. Ok (count \<ge> length clusters)"
  show ?case
  proof (cases "length clusters > 1")
    case False
    with less.prems have "length clusters = 1" by (cases clusters) auto
    then show ?thesis by (subst cluster_loop.simps) auto
  next
    case True
    obtain d a b where near: "nearest cdistance clusters = Ok (Some (d, a, b))"
      and pair: "(a, b) \<in> set (unique_pairs clusters)"
      using nearest_ok [OF less.prems(1) assms(2) True] by metis
    note step = cluster_loop_step [where criterion = ?criterion, OF near True refl]
    show ?thesis
    proof (cases "count \<ge> length clusters \<and> length clusters < 5")
      case True
      then have "length clusters = max 1 (min (length clusters) (min count 4))" using less.prems(2) by (cases clusters) auto
      with True step show ?thesis by simp
    next
      case False
      note joined = join_partitions [OF less.prems(1) pair]
      have "join a b clusters \<noteq> []" using joined(2) True by (cases "join a b clusters") auto
      from less.hyps [OF join_shorter [OF pair] joined(1) this] obtain result where
        "cluster_loop cdistance ?criterion (join a b clusters) = Ok result"
        "length result = max 1 (min (length clusters - 1) (min count 4))" using joined(2) by auto
      moreover have "max 1 (min (length clusters - 1) (min count 4)) = max 1 (min (length clusters) (min count 4))"
        using False True by auto
      ultimately show ?thesis using False step by auto
    qed
  qed
qed

section \<open>The matrix\<close>

lemma threads_in_ok:
  "linear.ordered (threads_in individual)"
  "set (threads_in individual) = (\<Union>row \<in> snd ` set individual. fst ` set row)"
proof -
  have row: "linear.ordered s \<Longrightarrow> linear.ordered (foldl (\<lambda>threads (t, _). set_insert (<) t threads) s row)"
    "set (foldl (\<lambda>threads (t, _). set_insert (<) t threads) s row) = set s \<union> fst ` set row"
    for s :: "int list" and row :: "(int, 'b) stdmap"
    by (induction row arbitrary: s) (auto simp: linear.set_insert_ordered linear_set_insert)
  have all: "linear.ordered s \<Longrightarrow> linear.ordered (foldl (\<lambda>threads (_, row).
        foldl (\<lambda>threads (t, _). set_insert (<) t threads) threads row) s rows)"
    "set (foldl (\<lambda>threads (_, row). foldl (\<lambda>threads (t, _). set_insert (<) t threads) threads row) s rows)
      = set s \<union> (\<Union>row \<in> snd ` set rows. fst ` set row)"
    for s :: "int list" and rows :: "('a, 'b) individual_results"
    by (induction rows arbitrary: s) (auto simp: row image_Un split_beta)
  show "linear.ordered (threads_in individual)"
    "set (threads_in individual) = (\<Union>row \<in> snd ` set individual. fst ` set row)"
    using all [of "[]" individual] by (simp_all add: threads_in_def)
qed

lemma table_lookup:
  fixes f :: "int \<Rightarrow> int \<Rightarrow> 'm"
  assumes "linear.ordered (keys table)" and "\<forall>(i, j) \<in> set pairs. i < j"
  defines "filled \<equiv> foldl (\<lambda>table (i, j). map_insert (<) (ordered_pair i j) (f i j) table) table pairs"
  shows "linear.ordered (keys filled) \<and> map_of filled k =
      (case map_of table k of None \<Rightarrow> if k \<in> set pairs then Some (f (fst k) (snd k)) else None | Some x \<Rightarrow> Some x)"
  using assms(1,2) unfolding filled_def
proof (induction pairs arbitrary: table)
  case (Cons p pairs)
  obtain i j where p: "p = (i, j)" "i < j" using Cons.prems(2) by (cases p) auto
  have o: "linear.ordered (keys (map_insert (<) (i, j) (f i j) table))"
    by (rule linear.insert_ordered) (use Cons.prems in auto)
  show ?case using Cons.IH [OF o] Cons.prems p
    by (auto simp: ordered_pair_def linear_map_of_insert split: option.splits)
qed (auto split: option.splits)

lemma getDistance_ok:
  assumes "i \<in> set (threads_in individual)" and "j \<in> set (threads_in individual)"
  shows "getDistance (DistanceMatrix_make distance individual) i j
    = Ok (if i = j then 0 else distance individual (min i j) (max i j))"
proof -
  let ?pairs = "unique_pairs (threads_in individual)" and ?k = "ordered_pair i j"
  have "\<forall>(i, j) \<in> set ?pairs. i < j"
    using unique_pairs_sorted [OF threads_in_ok(1)] by auto
  note table = table_lookup [of "[]", OF _ this, of "distance individual"]
  have key: "?k \<in> set ?pairs \<and> ?k = (min i j, max i j)" if "i \<noteq> j"
    using unique_pairs_complete [OF threads_in_ok(1)] assms that by (auto simp: ordered_pair_def)
  show ?thesis
  proof (cases "i = j")
    case False
    let ?table = "dm_table (DistanceMatrix_make distance individual)"
    have "map_of ?table ?k = Some (distance individual (min i j) (max i j))" "linear.ordered (keys ?table)"
      using table [of ?k] key [OF False] by (auto simp: DistanceMatrix_make_def Let_def)
    with False show ?thesis by (simp add: getDistance_def linear_find)
  qed (simp add: getDistance_def)
qed

section \<open>The measures answer\<close>

lemma fold_res_total:
  "(\<And>x a. x \<in> set xs \<Longrightarrow> \<exists>a'. f a x = Ok a') \<Longrightarrow> \<exists>a'. fold_res f xs a = Ok a'"
proof (induction xs arbitrary: a)
  case (Cons x xs)
  then obtain a1 where "f a x = Ok a1" by (metis list.set_intros(1))
  with Cons show ?case by auto
qed simp

lemma pair_distances:
  assumes "a \<in> clusters_of (set (threads_in individual))" and "b \<in> clusters_of (set (threads_in individual))"
    and "(i, j) \<in> set (List.product a b) \<or> (i, j) \<in> set (unique_pairs a)"
  shows "\<exists>d. getDistance (DistanceMatrix_make distance individual) i j = Ok d"
proof -
  have "i \<in> set (threads_in individual)" "j \<in> set (threads_in individual)"
    using assms unique_pairs_in [of i j a]
    by (auto simp: clusters_of_def dest: subsetD [OF set_remove1_subset])
  then show ?thesis by (simp add: getDistance_ok)
qed

lemma linkage_answers:
  "answers (set (threads_in individual)) (linkage replaces (DistanceMatrix_make distance individual))"
  unfolding answers_def
proof (intro ballI)
  fix a b
  assume ab: "a \<in> clusters_of (set (threads_in individual))" "b \<in> clusters_of (set (threads_in individual))"
  let ?f = "\<lambda>(is_initialized, value) (i, j). bind_res (getDistance (DistanceMatrix_make distance individual) i j)
      (\<lambda>d. Ok (if \<not> is_initialized \<or> replaces d value then (True, d) else (is_initialized, value)))"
  have "\<exists>r. fold_res ?f (List.product a b) (False, 0) = Ok r"
  proof (rule fold_res_total)
    fix p acc assume p: "p \<in> set (List.product a b)"
    obtain i j where ij: "p = (i, j)" by (cases p)
    with pair_distances [OF ab, of i j] p obtain d where
      "getDistance (DistanceMatrix_make distance individual) i j = Ok d" by blast
    with ij show "\<exists>r. ?f acc p = Ok r" by (cases acc) simp
  qed
  then show "\<exists>d. linkage replaces (DistanceMatrix_make distance individual) a b = Ok d"
    using ab by (auto simp: linkage_def clusters_of_def)
qed

lemma sum_of_distances_total:
  assumes "\<And>i j. (i, j) \<in> set pairs \<Longrightarrow> \<exists>d. getDistance distances i j = Ok d"
  shows "\<exists>v. sum_of_distances distances pairs = Ok v"
  unfolding sum_of_distances_def by (rule fold_res_total) (use assms in \<open>auto split: prod.splits\<close>, metis bind_res_simps(1))

lemma average_answers:
  "answers (set (threads_in individual)) (AverageLinkageDistance over (DistanceMatrix_make distance individual))"
  unfolding answers_def
proof (intro ballI)
  fix a b
  assume ab: "a \<in> clusters_of (set (threads_in individual))" "b \<in> clusters_of (set (threads_in individual))"
  then obtain v where "sum_of_distances (DistanceMatrix_make distance individual) (List.product a b) = Ok v"
    using sum_of_distances_total [of "List.product a b"] pair_distances [OF ab] by blast
  then show "\<exists>d. AverageLinkageDistance over (DistanceMatrix_make distance individual) a b = Ok d"
    using ab by (auto simp: AverageLinkageDistance_def clusters_of_def)
qed

lemma inter_cluster_answers:
  assumes "a \<in> clusters_of (set (threads_in individual))"
  shows "\<exists>d. AverageInterClusterDistance over (DistanceMatrix_make distance individual) a = Ok d"
proof -
  obtain v where "sum_of_distances (DistanceMatrix_make distance individual) (unique_pairs a) = Ok v"
    using sum_of_distances_total [of "unique_pairs a"] pair_distances [OF assms assms] by blast
  then show ?thesis using assms by (auto simp: AverageInterClusterDistance_def clusters_of_def)
qed

lemma distance_criterion_answers:
  assumes p: "partitions clusters (set (threads_in individual))" and pair: "(a, b) \<in> set (unique_pairs clusters)"
  shows "\<exists>met. DistanceCriterion1 over reached (DistanceMatrix_make distance individual) clusters d a b = Ok met"
proof -
  have "distinct clusters" using p linear.ordered_distinct by (auto simp: partitions_def)
  from unique_pairs_distinct [OF this pair] partitions_clusters [OF p]
  obtain x y where "AverageInterClusterDistance over (DistanceMatrix_make distance individual) a = Ok x"
    "AverageInterClusterDistance over (DistanceMatrix_make distance individual) b = Ok y"
    using inter_cluster_answers by metis
  then show ?thesis by (cases "length a < 2"; cases "length b < 2") (auto simp: DistanceCriterion1_def intro: exI [of _ False])
qed

text \<open>The clusters with which the analysis begins.\<close>

lemma single_clusters:
  assumes "linear.ordered threads"
  defines "clusters \<equiv> foldl (\<lambda>clusters t. set_insert (<) [t] clusters) [] threads"
  shows "partitions clusters (set threads)" and "length clusters = length threads"
proof -
  have "linear.ordered s \<Longrightarrow> linear.ordered (foldl (\<lambda>clusters t. set_insert (<) [t] clusters) s ts)"
    "set (foldl (\<lambda>clusters t. set_insert (<) [t] clusters) s ts) = set s \<union> (\<lambda>t. [t]) ` set ts"
    for s :: "int list list" and ts
    by (induction ts arbitrary: s) (auto simp: linear.set_insert_ordered linear_set_insert)
  from this [of "[]" threads] have c: "linear.ordered clusters" "set clusters = (\<lambda>t. [t]) ` set threads"
    by (simp_all add: clusters_def)
  then show "partitions clusters (set threads)" by (auto simp: partitions_def)
  have "length clusters = card (set clusters)"
    using linear.ordered_distinct [OF c(1)] by (simp add: distinct_card)
  also have "\<dots> = length threads"
    using linear.ordered_distinct [OF assms(1)] by (simp add: c(2) card_image inj_on_def distinct_card)
  finally show "length clusters = length threads" .
qed

section \<open>Complete and single linkage\<close>

lemma linkage_fold:
  assumes total: "\<And>i j. (i, j) \<in> set pairs \<Longrightarrow> getDistance distances i j = Ok (f i j)"
    and choice: "\<And>d v. (if replaces d v then d else v) = pick d v"
  shows "fold_res (\<lambda>(is_initialized, value) (i, j). bind_res (getDistance distances i j) (\<lambda>d.
        Ok (if \<not> is_initialized \<or> replaces d value then (True, d) else (is_initialized, value)))) pairs (True, v)
      = Ok (True, fold pick (map (case_prod f) pairs) v)"
  using total
proof (induction pairs arbitrary: v)
  case (Cons p pairs)
  obtain i j where p: "p = (i, j)" by (cases p)
  have "getDistance distances i j = Ok (f i j)" using Cons.prems p by simp
  moreover have "(if replaces (f i j) v then (True, f i j) else (True, v)) = (True, pick (f i j) v)"
    using choice [of "f i j" v] by (auto split: if_splits)
  ultimately show ?case using Cons p by simp
qed simp

lemma linkage_value:
  assumes total: "\<And>i j. i \<in> set a \<Longrightarrow> j \<in> set b \<Longrightarrow> getDistance distances i j = Ok (f i j)"
    and ab: "a \<noteq> []" "b \<noteq> []" and choice: "\<And>d v. (if replaces d v then d else v) = pick d v"
  shows "\<exists>p ps. List.product a b = p # ps \<and>
    linkage replaces distances a b = Ok (fold pick (map (case_prod f) ps) (case_prod f p))"
proof -
  obtain p ps where pairs: "List.product a b = p # ps" using ab by (cases a; cases b) auto
  obtain i j where p: "p = (i, j)" by (cases p)
  have sub: "set (p # ps) = set a \<times> set b" using pairs by (metis set_product)
  then have "getDistance distances i j = Ok (f i j)" using total p by auto
  moreover have "getDistance distances i j = Ok (f i j)" if "(i, j) \<in> set ps" for i j
    using total sub that by auto
  note linkage_fold [OF this choice]
  ultimately have "linkage replaces distances a b = Ok (fold pick (map (case_prod f) ps) (f i j))"
    using ab p unfolding linkage_def pairs by simp
  with pairs p show ?thesis by auto
qed

section \<open>Properties\<close>

text \<open>How a matrix answers for two of its threads, whatever their order.\<close>

definition thread_distance ::
  "(('s, 'm) individual_results \<Rightarrow> int \<Rightarrow> int \<Rightarrow> 'm) \<Rightarrow> ('s, 'm) individual_results \<Rightarrow> int \<Rightarrow> int \<Rightarrow> 'm::zero" where
  "thread_distance distance individual i j =
     (if i = j then 0 else distance individual (min i j) (max i j))"

text \<open>C35: the cluster analysis always returns, and its result is a partition of exactly the threads that
  have a metric value: with the average distance and any ratio, with the complete and the single
  linkage, and with any measure of the distance of two threads.\<close>

theorem clusters_partition_threads:
  "\<exists>simple complete single.
     ClusterAnalysis_ApplySimple over reached individual = Ok simple \<and>
     ClusterAnalysis_Apply individual distance CompleteLinkageDistance (DistanceCriterion1 over reached) = Ok complete \<and>
     ClusterAnalysis_Apply individual distance SingleLinkageDistance (DistanceCriterion1 over reached) = Ok single \<and>
     partitions simple (\<Union>row \<in> snd ` set individual. fst ` set row) \<and>
     partitions complete (\<Union>row \<in> snd ` set individual. fst ` set row) \<and>
     partitions single (\<Union>row \<in> snd ` set individual. fst ` set row)"
proof -
  let ?threads = "threads_in individual"
  have "\<exists>result. ClusterAnalysis_Apply individual distance cdistance (DistanceCriterion1 over reached) = Ok result \<and>
      partitions result (\<Union>row \<in> snd ` set individual. fst ` set row)"
    if "answers (set ?threads) (cdistance (DistanceMatrix_make distance individual))" for distance cdistance
    unfolding ClusterAnalysis_Apply_def Let_def threads_in_ok(2) [symmetric]
    by (rule cluster_loop_ok [OF _ that])
      (use single_clusters(1) [OF threads_in_ok(1)] distance_criterion_answers in \<open>auto simp: DistanceMatrix_make_def Let_def\<close>)
  note this [where distance = ManhattanDistance and cdistance = "AverageLinkageDistance over", OF average_answers]
    this [where distance = distance and cdistance = CompleteLinkageDistance]
    this [where distance = distance and cdistance = SingleLinkageDistance]
  then show ?thesis
    unfolding ClusterAnalysis_ApplySimple_def CompleteLinkageDistance_def SingleLinkageDistance_def
    using linkage_answers by blast
qed

text \<open>With a limit on the number of clusters, a result with at least one thread has as many clusters
  as the limit, but never more than four and never fewer than one: the loop goes on below a limit of
  five or more.\<close>

theorem number_criterion_count:
  assumes "answers (set (threads_in individual)) (cdistance (DistanceMatrix_make distance individual))"
    and "threads_in individual \<noteq> []"
  shows "\<exists>result. ClusterAnalysis_Apply individual distance cdistance (NumberCriterion1 count) = Ok result \<and>
    length result = max 1 (min (length (threads_in individual)) (min count 4))"
proof -
  note single = single_clusters [OF threads_in_ok(1), of individual]
  then have "foldl (\<lambda>clusters t. set_insert (<) [t] clusters) [] (threads_in individual) \<noteq> []"
    using assms(2) by (metis length_0_conv)
  from cluster_loop_count [OF single(1) assms(1) this, of count] single(2) show ?thesis
    by (simp add: ClusterAnalysis_Apply_def DistanceMatrix_make_def Let_def NumberCriterion1_def [abs_def])
qed

definition sample_results :: "(int, 64 word) individual_results" where
  "sample_results = [(1, [(1, 10), (2, 90), (3, 12)]), (2, [(2, 5), (4, 11)])]"

lemma number_criterion_count_witness:
  "\<exists>result. ClusterAnalysis_Apply sample_results ManhattanDistance CompleteLinkageDistance (NumberCriterion1 2) = Ok result \<and>
    length result = 2"
proof -
  have "threads_in sample_results = [1, 2, 3, 4]" by (simp add: threads_in_def sample_results_def)
  moreover have "answers (set (threads_in sample_results))
      (CompleteLinkageDistance (DistanceMatrix_make ManhattanDistance sample_results))"
    unfolding CompleteLinkageDistance_def by (rule linkage_answers)
  ultimately show ?thesis using number_criterion_count [of sample_results _ _ 2] by fastforce
qed

text \<open>The complete linkage of two clusters is the largest distance between a thread of one and a
  thread of the other, and the single linkage is the smallest.\<close>

theorem linkage_is_extreme:
  fixes individual :: "('s, 'm::{zero,linorder}) individual_results"
  assumes "a \<in> clusters_of (set (threads_in individual))" and "b \<in> clusters_of (set (threads_in individual))"
  shows "CompleteLinkageDistance (DistanceMatrix_make distance individual) a b
      = Ok (Max {thread_distance distance individual i j | i j. i \<in> set a \<and> j \<in> set b}) \<and>
    SingleLinkageDistance (DistanceMatrix_make distance individual) a b
      = Ok (Min {thread_distance distance individual i j | i j. i \<in> set a \<and> j \<in> set b})"
proof -
  let ?f = "thread_distance distance individual"
  have total: "getDistance (DistanceMatrix_make distance individual) i j = Ok (?f i j)"
    if "i \<in> set a" "j \<in> set b" for i j
    using assms that by (subst getDistance_ok) (auto simp: clusters_of_def thread_distance_def)
  have ne: "a \<noteq> []" "b \<noteq> []" using assms by (simp_all add: clusters_of_def)
  have set: "{?f i j | i j. i \<in> set a \<and> j \<in> set b} = set (map (case_prod ?f) (List.product a b))" by auto
  have "(if d > v then d else v) = max d v" "(if d < v then d else v) = min d v" for d v :: 'm by auto
  note linkage_value [OF total ne this(1)] linkage_value [OF total ne this(2)]
  then show ?thesis
    unfolding CompleteLinkageDistance_def SingleLinkageDistance_def set
    by (auto simp del: set_product simp flip: Max.set_eq_fold Min.set_eq_fold)
qed

lemma linkage_is_extreme_witness:
  "CompleteLinkageDistance (DistanceMatrix_make ManhattanDistance sample_results) [1, 3] [2] = Ok 85"
proof -
  have t: "threads_in sample_results = [1, 2, 3, 4]" by (simp add: threads_in_def sample_results_def)
  have "[1, 3] \<in> clusters_of (set (threads_in sample_results))" "[2] \<in> clusters_of (set (threads_in sample_results))"
    unfolding t by (simp_all add: clusters_of_def)
  note linkage_is_extreme [OF this, of ManhattanDistance]
  moreover have "{thread_distance ManhattanDistance sample_results i j | i j. i \<in> set [1, 3] \<and> j \<in> set [2]}
      = {thread_distance ManhattanDistance sample_results 1 2, thread_distance ManhattanDistance sample_results 3 2}"
    by auto
  moreover have "thread_distance ManhattanDistance sample_results 1 2 = 85"
    "thread_distance ManhattanDistance sample_results 3 2 = 83"
    by (simp_all add: thread_distance_def ManhattanDistance_def sample_results_def value_of_def Let_def)
  ultimately show ?thesis by simp
qed

end
