(* ===== verification/Reductions.thy ===== *)
theory Reductions
  imports Clusters ExtentTable
begin

text \<open>
  The reductions of metric values over threads (Reduction.txx). The results of a query are a map from
  source objects to maps from threads to values (\<open>individual_results\<close>). A reduction operator takes the
  values of one object; its division by a number of threads is a parameter, as the type of the values
  is arbitrary. The main results are that every operator computes what it is named after, and that
  the totals of parts of the threads add up.
\<close>

section \<open>Reductions\<close>

definition Summation :: "(int, 'm::{zero,plus}) stdmap \<Rightarrow> 'm res" where
  "Summation individual = Ok (foldl (\<lambda>value (_, v). value + v) 0 individual)"

definition ArithmeticMean :: "('m \<Rightarrow> nat \<Rightarrow> 'm) \<Rightarrow> (int, 'm::{zero,plus}) stdmap \<Rightarrow> 'm res" where
  "ArithmeticMean over individual =
     bind_res (Assert (individual \<noteq> [])) (\<lambda>_.
     bind_res (Summation individual) (\<lambda>value. Ok (over value (length individual))))"

definition Minimum :: "(int, 'm::ord) stdmap \<Rightarrow> 'm res" where
  "Minimum individual =
     bind_res (Assert (individual \<noteq> [])) (\<lambda>_.
       Ok (foldl (\<lambda>value (_, v). if v < value then v else value) (snd (hd individual)) individual))"

definition Maximum :: "(int, 'm::ord) stdmap \<Rightarrow> 'm res" where
  "Maximum individual =
     bind_res (Assert (individual \<noteq> [])) (\<lambda>_.
       Ok (foldl (\<lambda>value (_, v). if value < v then v else value) (snd (hd individual)) individual))"

definition Reduction_Apply ::
  "('s::linorder, 'm) individual_results \<Rightarrow> ((int, 'm) stdmap \<Rightarrow> 'm res) \<Rightarrow> ('s, 'm) stdmap res" where
  "Reduction_Apply individual reduction =
     fold_res (\<lambda>results (object, row).
         bind_res (reduction row) (\<lambda>v. Ok (map_insert (<) object v results)))
       individual []"

definition GetTotal :: "('s, 'm::{zero,plus}) stdmap \<Rightarrow> 'm" where
  "GetTotal results = foldl (\<lambda>total (_, v). total + v) 0 results"

definition GetSubset ::
  "('s::linorder, 'm) individual_results \<Rightarrow> int set \<Rightarrow> ('s, 'm) individual_results" where
  "GetSubset individual threads =
     foldl (\<lambda>results (object, row). foldl (\<lambda>results (t, v).
         if t \<in> threads
         then map_modify (<) object (map_insert (<) t v) (find_or_insert object [] results)
         else results) results row) [] individual"

section \<open>Reading a results map\<close>

definition results_ok :: "('s::linorder, 'm) individual_results \<Rightarrow> bool" where
  "results_ok results \<longleftrightarrow> linear.ordered (keys results) \<and> (\<forall>(_, row) \<in> set results. linear.ordered (keys row))"

definition row_of :: "('s, 'm) individual_results \<Rightarrow> 's \<Rightarrow> (int, 'm) stdmap" where
  "row_of results object = (case map_of results object of None \<Rightarrow> [] | Some row \<Rightarrow> row)"

definition value_at :: "('s, 'm::zero) individual_results \<Rightarrow> 's \<Rightarrow> int \<Rightarrow> 'm" where
  "value_at results object t = (case map_of (row_of results object) t of None \<Rightarrow> 0 | Some v \<Rightarrow> v)"

lemma results_ok_row: "results_ok results \<Longrightarrow> linear.ordered (keys (row_of results object))"
  by (auto simp: results_ok_def row_of_def dest: map_of_SomeD split: option.splits)

lemma modify_rows:
  assumes "\<forall>(_, row) \<in> set m. P row" and "\<And>row. P row \<Longrightarrow> P (f row)"
  shows "\<forall>(_, row) \<in> set (map_modify lt k f m). P row"
  using assms by (induction m) (auto split: if_splits)

lemma insert_rows: "\<forall>(_, row) \<in> set m. P row \<Longrightarrow> P x \<Longrightarrow> \<forall>(_, row) \<in> set (map_insert lt k x m). P row"
  by (induction m) (auto split: if_splits)

lemma changed_row:
  fixes object :: "'s::linorder"
  assumes "results_ok results" and "\<And>row. linear.ordered (keys row) \<Longrightarrow> linear.ordered (keys (f row))"
  defines "results' \<equiv> map_modify (<) object f (find_or_insert object [] results)"
  shows "results_ok results'" and "row_of results' = (row_of results)(object := f (row_of results object))"
proof -
  have ord: "linear.ordered (keys results)" using assms(1) by (simp add: results_ok_def)
  note new = find_or_insert_ok [OF ord, of object "[]"]
  have "\<forall>(_, row) \<in> set (find_or_insert object [] results). linear.ordered (keys row)"
    using assms(1) by (auto simp: results_ok_def find_or_insert_def dest: insert_rows [where x = "[]"])
  then have "\<forall>(_, row) \<in> set results'. linear.ordered (keys row)"
    unfolding results'_def by (rule modify_rows) (rule assms(2))
  then show "results_ok results'" using new(1) by (simp add: results_ok_def results'_def)
  show "row_of results' = (row_of results)(object := f (row_of results object))"
    using linear_map_of_modify [OF new(1), of object f] new(2)
    by (auto simp: row_of_def results'_def fun_eq_iff split: option.splits)
qed

section \<open>What the reductions compute\<close>

lemma foldl_plus: "foldl (\<lambda>a (_, v). a + v) a m = a + (\<Sum>v \<leftarrow> map snd m. v)" for a :: "'m::comm_monoid_add"
  by (induction m arbitrary: a) (auto simp: add.assoc)

lemma extremes:
  fixes row :: "(int, 'm::linorder) stdmap"
  assumes "row \<noteq> []"
  shows "Minimum row = Ok (Min (snd ` set row))" and "Maximum row = Ok (Max (snd ` set row))"
proof -
  have "foldl (\<lambda>a (_, v). if v < a then v else a) a m = Min (insert a (snd ` set m)) \<and>
      foldl (\<lambda>a (_, v). if a < v then v else a) a m = Max (insert a (snd ` set m))" for a :: 'm and m :: "(int, 'm) stdmap"
  proof (induction m arbitrary: a)
    case (Cons p m)
    have ins: "insert a (snd ` set (p # m)) = insert a (insert (snd p) (snd ` set m))" by simp
    have "Min (insert a (insert (snd p) (snd ` set m))) = Min (insert (min a (snd p)) (snd ` set m))"
      "Max (insert a (insert (snd p) (snd ` set m))) = Max (insert (max a (snd p)) (snd ` set m))"
      by (cases "m = []"; simp add: min.assoc max.assoc)+
    moreover have "(if snd p < a then snd p else a) = min a (snd p)" "(if a < snd p then snd p else a) = max a (snd p)"
      by auto
    ultimately show ?case using Cons.IH unfolding ins by (simp add: split_beta)
  qed simp
  moreover have "insert (snd (hd row)) (snd ` set row) = snd ` set row" using assms by (cases row) auto
  ultimately show "Minimum row = Ok (Min (snd ` set row))" "Maximum row = Ok (Max (snd ` set row))"
    using assms by (simp_all add: Minimum_def Maximum_def)
qed

lemma apply_ok:
  fixes individual :: "('s::linorder, 'm) individual_results"
  assumes "linear.ordered (keys individual)" and "\<And>row. row \<in> snd ` set individual \<Longrightarrow> reduction row = Ok (f row)"
  shows "Reduction_Apply individual reduction = Ok (map (apsnd f) individual)"
proof -
  have "fold_res (\<lambda>results (object, row). bind_res (reduction row) (\<lambda>v. Ok (map_insert (<) object v results)))
      m (map (apsnd f) before) = Ok (map (apsnd f) (before @ m))"
    if "linear.ordered (keys (before @ m))" and "\<And>row. row \<in> snd ` set m \<Longrightarrow> reduction row = Ok (f row)"
    for m before :: "('s, 'm) individual_results"
    using that
  proof (induction m arbitrary: before)
    case (Cons p m)
    obtain object row where p: "p = (object, row)" by (cases p)
    have less: "\<forall>k \<in> set (keys before). k < object"
      using Cons.prems(1) by (simp add: p keys_def linear.ordered_def sorted_wrt_append)
    have "map_insert (<) object v xs = xs @ [(object, v)]" if "\<forall>k \<in> set (keys xs). k < object" for v and xs :: "('s, 'x) stdmap"
      using that by (induction xs) auto
    from this [of "map (apsnd f) before" "f row"] less
    have "map_insert (<) object (f row) (map (apsnd f) before) = map (apsnd f) (before @ [p])"
      by (simp add: p keys_def comp_def)
    then show ?case using Cons.IH [of "before @ [p]"] Cons.prems by (simp add: p)
  qed simp
  from this [of "[]" individual] assms show ?thesis by (simp add: Reduction_Apply_def)
qed

text \<open>Copying the values of the threads of a group, row by row.\<close>

definition or_else :: "'v option \<Rightarrow> 'v option \<Rightarrow> 'v option" where
  "or_else x y = (case x of None \<Rightarrow> y | Some v \<Rightarrow> Some v)"

lemma copied_row:
  fixes object :: "'s::linorder" and A :: "int set" and row :: "(int, 'm) stdmap"
  assumes "results_ok results"
  defines "results' \<equiv> foldl (\<lambda>results (t, v). if t \<in> A
      then map_modify (<) object (map_insert (<) t v) (find_or_insert object [] results) else results) results row"
  shows "results_ok results' \<and> map_of (row_of results' i) t = (if i = object \<and> t \<in> A
    then or_else (map_of (row_of results i) t) (map_of row t) else map_of (row_of results i) t)"
  using assms(1) unfolding results'_def
proof (induction row arbitrary: results)
  case Nil
  then show ?case by (simp add: or_else_def split: option.splits)
next
  case (Cons p row)
  obtain u v where p: "p = (u, v)" by (cases p)
  show ?case
  proof (cases "u \<in> A")
    case True
    have "linear.ordered (keys row) \<Longrightarrow> linear.ordered (keys (map_insert (<) u v row))" for row :: "(int, 'm) stdmap"
      by (rule linear.insert_ordered) auto
    note new = changed_row [OF Cons.prems this]
    from Cons.IH [OF new(1)] True linear_map_of_insert [OF results_ok_row [OF Cons.prems], of u v object]
    show ?thesis by (auto simp: p new(2) or_else_def split: option.splits)
  next
    case False
    with Cons show ?thesis by (auto simp: p)
  qed
qed

lemma copied_rows:
  fixes m :: "('s::linorder, 'm) individual_results" and A :: "int set"
  assumes "results_ok results" and "distinct (keys m)"
  defines "results' \<equiv> foldl (\<lambda>results (object, row). foldl (\<lambda>results (t, v). if t \<in> A
      then map_modify (<) object (map_insert (<) t v) (find_or_insert object [] results) else results) results row) results m"
  shows "results_ok results' \<and> map_of (row_of results' i) t = (if t \<in> A
    then or_else (map_of (row_of results i) t) (map_of (row_of m i) t) else map_of (row_of results i) t)"
  using assms(1,2) unfolding results'_def
proof (induction m arbitrary: results)
  case Nil
  then show ?case by (simp add: row_of_def or_else_def split: option.splits)
next
  case (Cons p m)
  obtain object row where p: "p = (object, row)" by (cases p)
  have none: "row_of m object = []"
    using Cons.prems(2) by (force simp: p row_of_def keys_def dest: map_of_SomeD split: option.splits)
  have first: "row_of (p # m) = (row_of m)(object := row)" by (auto simp: p row_of_def fun_eq_iff)
  note one = copied_row [OF Cons.prems(1), of A object row]
  from Cons.IH [OF conjunct1 [OF one]] Cons.prems(2) one show ?case
    using none unfolding first by (auto simp: p or_else_def split: option.splits)
qed

lemma GetSubset_ok:
  assumes "results_ok individual"
  shows "results_ok (GetSubset individual A)"
    and "value_at (GetSubset individual A) i t = (if t \<in> A then value_at individual i t else 0)"
proof -
  have "results_ok []" "distinct (keys individual)"
    using assms linear.ordered_distinct by (auto simp: results_ok_def)
  from copied_rows [OF this, of A] have c: "results_ok (GetSubset individual A)"
    "map_of (row_of (GetSubset individual A) i) t = (if t \<in> A then map_of (row_of individual i) t else None)"
    by (auto simp: GetSubset_def row_of_def or_else_def)
  then show "results_ok (GetSubset individual A)"
    "value_at (GetSubset individual A) i t = (if t \<in> A then value_at individual i t else 0)"
    by (simp_all add: value_at_def)
qed

lemma sum_over_keys:
  fixes f :: "'v \<Rightarrow> 'm::comm_monoid_add"
  assumes "distinct (keys m)" and "finite K" and "set (keys m) \<subseteq> K"
  shows "(\<Sum>p \<leftarrow> m. f (snd p)) = (\<Sum>k \<in> K. case map_of m k of None \<Rightarrow> 0 | Some v \<Rightarrow> f v)"
  using assms(1,3)
proof (induction m)
  case (Cons p m)
  have k: "fst p \<in> K" "map_of m (fst p) = None" using Cons.prems by (auto simp: map_of_eq_None_iff keys_def)
  have "(\<Sum>k \<in> K. case map_of (p # m) k of None \<Rightarrow> 0 | Some v \<Rightarrow> f v)
      = f (snd p) + (\<Sum>k \<in> K - {fst p}. case map_of m k of None \<Rightarrow> 0 | Some v \<Rightarrow> f v)"
    unfolding sum.remove [OF assms(2) k(1)] by (cases p) (auto intro!: sum.cong arg_cong2 [where f = "(+)"])
  also have "(\<Sum>k \<in> K - {fst p}. case map_of m k of None \<Rightarrow> 0 | Some v \<Rightarrow> f v)
      = (\<Sum>k \<in> K. case map_of m k of None \<Rightarrow> 0 | Some v \<Rightarrow> f v)"
    unfolding sum.remove [OF assms(2) k(1)] by (simp add: k(2))
  finally show ?case using Cons by simp
qed simp

definition threads_of_results :: "('s, 'm) individual_results \<Rightarrow> int set" where
  "threads_of_results m = (\<Union>row \<in> snd ` set m. set (keys row))"

lemma total_of_sums:
  fixes m :: "('s::linorder, 'm::comm_monoid_add) individual_results"
  assumes "results_ok m" and "finite I" "set (keys m) \<subseteq> I" and "finite T" "threads_of_results m \<subseteq> T"
  shows "\<exists>sums. Reduction_Apply m Summation = Ok sums \<and> GetTotal sums = (\<Sum>i \<in> I. \<Sum>t \<in> T. value_at m i t)"
proof -
  let ?sum = "\<lambda>row. \<Sum>p \<leftarrow> row. snd p :: 'm"
  have "Reduction_Apply m Summation = Ok (map (apsnd ?sum) m)"
    by (rule apply_ok) (use assms(1) in \<open>auto simp: results_ok_def Summation_def foldl_plus\<close>)
  moreover have "GetTotal (map (apsnd ?sum) m) = (\<Sum>p \<leftarrow> m. ?sum (snd p))"
    by (simp add: GetTotal_def foldl_plus comp_def)
  moreover have "(\<Sum>p \<leftarrow> m. ?sum (snd p)) = (\<Sum>i \<in> I. case map_of m i of None \<Rightarrow> 0 | Some row \<Rightarrow> ?sum row)"
    by (rule sum_over_keys) (use assms(1-3) linear.ordered_distinct in \<open>auto simp: results_ok_def\<close>)
  moreover have "(case map_of m i of None \<Rightarrow> 0 | Some row \<Rightarrow> ?sum row) = (\<Sum>t \<in> T. value_at m i t)" for i
  proof (cases "map_of m i")
    case (Some row)
    then have row: "(i, row) \<in> set m" by (rule map_of_SomeD)
    then have "distinct (keys row)" "set (keys row) \<subseteq> T"
      using assms(1,5) linear.ordered_distinct by (force simp: results_ok_def threads_of_results_def)+
    from sum_over_keys [OF this(1) assms(4) this(2), of "\<lambda>v. v"] Some show ?thesis
      by (simp add: value_at_def row_of_def)
  qed (simp add: value_at_def row_of_def)
  ultimately show ?thesis by auto
qed

section \<open>Properties\<close>

text \<open>The reductions compute for every source object the sum, the mean, the minimum and the maximum of
  its values over the threads.\<close>

theorem reductions_exact:
  fixes individual :: "('s::linorder, 'm::{linorder,comm_monoid_add}) individual_results"
  assumes "results_ok individual" and "[] \<notin> snd ` set individual"
  shows "Reduction_Apply individual Summation = Ok (map (apsnd (\<lambda>row. \<Sum>p \<leftarrow> row. snd p)) individual) \<and>
    Reduction_Apply individual (ArithmeticMean over)
      = Ok (map (apsnd (\<lambda>row. over (\<Sum>p \<leftarrow> row. snd p) (length row))) individual) \<and>
    Reduction_Apply individual Minimum = Ok (map (apsnd (\<lambda>row. Min (snd ` set row))) individual) \<and>
    Reduction_Apply individual Maximum = Ok (map (apsnd (\<lambda>row. Max (snd ` set row))) individual)"
proof -
  have ord: "linear.ordered (keys individual)" using assms(1) by (simp add: results_ok_def)
  have "row \<noteq> []" if "row \<in> snd ` set individual" for row using assms(2) that by metis
  then show ?thesis
    by (intro conjI apply_ok [OF ord]) (simp_all add: extremes ArithmeticMean_def Summation_def foldl_plus)
qed

lemma reductions_exact_witness:
  "Reduction_Apply sample_results Minimum = Ok [(1, 10), (2, 5)]"
  using reductions_exact [of sample_results]
  by (simp add: sample_results_def results_ok_def)

text \<open>The total of the sums over all threads is the total for any part of the threads plus the total for
  the others.\<close>

theorem subsets_add_up:
  fixes individual :: "('s::linorder, 'm::comm_monoid_add) individual_results"
  assumes "results_ok individual" and "A \<inter> B = {}" and "threads_of_results individual \<subseteq> A \<union> B"
  shows "\<exists>a b sums. Reduction_Apply (GetSubset individual A) Summation = Ok a \<and>
    Reduction_Apply (GetSubset individual B) Summation = Ok b \<and>
    Reduction_Apply individual Summation = Ok sums \<and> GetTotal a + GetTotal b = GetTotal sums"
proof -
  let ?ms = "[individual, GetSubset individual A, GetSubset individual B]"
  let ?I = "\<Union>m \<in> set ?ms. set (keys m)" and ?T = "\<Union>m \<in> set ?ms. threads_of_results m"
  have "finite ?T" by (auto simp: threads_of_results_def)
  then have total: "\<exists>sums. Reduction_Apply m Summation = Ok sums \<and> GetTotal sums = (\<Sum>i \<in> ?I. \<Sum>t \<in> ?T. value_at m i t)"
    if "m \<in> set ?ms" for m
    by (intro total_of_sums) (use that assms(1) GetSubset_ok(1) in auto)
  have "value_at individual i t = 0" if "t \<notin> A \<union> B" for i t
    using that assms(3) by (force simp: value_at_def row_of_def threads_of_results_def keys_def
        dest: map_of_SomeD split: option.splits)
  then have "value_at (GetSubset individual A) i t + value_at (GetSubset individual B) i t = value_at individual i t" for i t
    using assms(2) by (auto simp: GetSubset_ok(2) [OF assms(1)])
  then have "(\<Sum>i \<in> ?I. \<Sum>t \<in> ?T. value_at (GetSubset individual A) i t) + (\<Sum>i \<in> ?I. \<Sum>t \<in> ?T. value_at (GetSubset individual B) i t)
      = (\<Sum>i \<in> ?I. \<Sum>t \<in> ?T. value_at individual i t)"
    by (simp only: sum.distrib [symmetric])
  then show ?thesis
    using total [of individual] total [of "GetSubset individual A"] total [of "GetSubset individual B"] by fastforce
qed

lemma subsets_add_up_witness:
  "\<exists>a b sums. Reduction_Apply (GetSubset sample_results {1, 3}) Summation = Ok a \<and>
    Reduction_Apply (GetSubset sample_results {2, 4}) Summation = Ok b \<and>
    Reduction_Apply sample_results Summation = Ok sums \<and> GetTotal a + GetTotal b = GetTotal sums"
  by (rule subsets_add_up) (auto simp: results_ok_def sample_results_def threads_of_results_def)

end
