(* ===== verification/Metrics.thy ===== *)
theory Metrics
  imports ThreadGroups Reductions
begin

text \<open>
  The query for metric values (\<open>GetMetricValues\<close> in GetMetricValues.txx). It composes what the framework
  offers: the table of the extents of the objects in the threads (ThreadGroups), and the evaluation of
  a collector's metric for these extents (Collectors). The main result is what the values are in terms
  of the tables of the database. The build without OpenMP is modelled here; TeamReduction models the
  additions of a team.
\<close>

section \<open>The results map\<close>

definition add_value ::
  "'s::linorder \<Rightarrow> int \<Rightarrow> 'm::{zero,plus} \<Rightarrow> ('s, 'm) individual_results \<Rightarrow> ('s, 'm) individual_results" where
  "add_value object t v results =
     map_modify (<) object (\<lambda>row. map_modify (<) t (\<lambda>x. x + v) (find_or_insert t 0 row))
       (find_or_insert object [] results)"

definition add_values ::
  "int \<Rightarrow> nat \<Rightarrow> 'm::{zero,plus} list \<Rightarrow> (int, 's::linorder) ExtentTable \<Rightarrow> ('s, 'm) individual_results
    \<Rightarrow> ('s, 'm) individual_results res" where
  "add_values t n vs table results =
     fold_res (\<lambda>results j.
         if vs ! j \<noteq> 0
         then bind_res (getObject t j table) (\<lambda>object. Ok (add_value object t (vs ! j) results))
         else Ok results)
       [0..<n] results"

section \<open>The query\<close>

text \<open>\<open>lockDatabase\<close> and \<open>unlockDatabase\<close> are calls of the database; nothing is called if the body throws.\<close>

definition locking_database :: "(framework, 'a) op \<Rightarrow> (framework, 'a) op" where
  "locking_database body s =
     (case body (at_session (Begin False) s) of
        (Ok x, s') \<Rightarrow> (Ok x, at_session Commit s')
      | r \<Rightarrow> r)"

definition values_of_thread ::
  "nth_element \<Rightarrow> (string \<Rightarrow> bool) \<Rightarrow> ('t, 'p) plugin \<Rightarrow> 't \<Rightarrow> 'm list metric \<Rightarrow> int \<Rightarrow> string
    \<Rightarrow> (int, int) ExtentTable \<times> (int, 'm::{zero,plus}) individual_results \<Rightarrow> int
    \<Rightarrow> (framework, (int, int) ExtentTable \<times> (int, 'm) individual_results) op" where
  "values_of_thread ne available impl type metric self uid = (\<lambda>(table, results) t.
     andthen (lift_res (getExtents t table)) (\<lambda>(extents, table).
     if dm_extents extents = [] then ret (table, results) else
     andthen (Collector_getMetricVector ne available impl type 0 metric self uid t extents
         (replicate (length (dm_extents extents)) 0)) (\<lambda>vs.
     andthen (lift_res (add_values t (length (dm_extents extents)) vs table results)) (\<lambda>results.
       ret (table, results)))))"

definition GetMetricValues ::
  "nth_element \<Rightarrow> (string \<Rightarrow> bool) \<Rightarrow> ('t, 'p) plugin \<Rightarrow> 't \<Rightarrow> 'm list metric
    \<Rightarrow> (int set \<Rightarrow> int set \<Rightarrow> extent \<Rightarrow> (session, (int, int) ExtentTable) op)
    \<Rightarrow> int \<Rightarrow> string \<Rightarrow> time interval \<Rightarrow> int set \<Rightarrow> int set \<Rightarrow> (int, 'm::{zero,plus}) individual_results
    \<Rightarrow> (framework, (int, 'm) individual_results) op" where
  "GetMetricValues ne available impl type metric extents_of self uid interval threads objects results =
     locking_database (
       andthen (on_session (extents_of threads objects (Extent interval (Interval TheLowest TheHighest)))) (\<lambda>table.
       andthen (for_each (sorted_list_of_set threads)
           (values_of_thread ne available impl type metric self uid) (table, results)) (\<lambda>(_, results).
         ret results)))"

section \<open>Adding values\<close>

lemma add_value_ok:
  assumes "results_ok results"
  shows "results_ok (add_value object t v results)"
    and "value_at (add_value object t v results) = (\<lambda>i u. if i = object \<and> u = t then value_at results i u + v else value_at results i u)"
proof -
  let ?f = "\<lambda>row. map_modify (<) t (\<lambda>x. x + v) (find_or_insert t 0 row)"
  have "linear.ordered (keys row) \<Longrightarrow> linear.ordered (keys (?f row))" for row
    using find_or_insert_ok(1) by simp
  note new = changed_row [OF assms this]
  show "results_ok (add_value object t v results)" unfolding add_value_def by (rule new(1))
  note row = find_or_insert_ok [OF results_ok_row [OF assms], of t 0 object]
  have "map_of (?f (row_of results object)) t = Some (value_at results object t + v)"
    "u \<noteq> t \<Longrightarrow> map_of (?f (row_of results object)) u = map_of (row_of results object) u" for u
    using linear_map_of_modify [OF row(1), of t "\<lambda>x. x + v"] row(2)
    by (auto simp: value_at_def split: option.splits)
  then show "value_at (add_value object t v results)
      = (\<lambda>i u. if i = object \<and> u = t then value_at results i u + v else value_at results i u)"
    by (auto simp: value_at_def add_value_def new(2) fun_eq_iff)
qed

lemma add_values_ok:
  fixes vs :: "'m::comm_monoid_add list"
  assumes "et_ok table" and "n \<le> length (entries table t)" and "results_ok results"
  shows "\<exists>results'. add_values t n vs table results = Ok results' \<and> results_ok results' \<and>
    value_at results' = (\<lambda>i u. value_at results i u +
      (if u = t then \<Sum>j \<leftarrow> [0..<n]. if fst (entries table t ! j) = i then vs ! j else 0 else 0))"
  using assms(2,3)
proof (induction n arbitrary: results)
  case 0
  then show ?case by (simp add: add_values_def fun_eq_iff)
next
  case (Suc n)
  obtain results1 where one: "add_values t n vs table results = Ok results1" "results_ok results1"
    "value_at results1 = (\<lambda>i u. value_at results i u +
      (if u = t then \<Sum>j \<leftarrow> [0..<n]. if fst (entries table t ! j) = i then vs ! j else 0 else 0))"
    using Suc.IH [OF Suc_leD [OF Suc.prems(1)] Suc.prems(2)] by blast
  have "getObject t n table = Ok (fst (entries table t ! n))"
    by (rule getObject_ok [OF assms(1)]) (use Suc.prems in simp)
  then have "add_values t (Suc n) vs table results
      = Ok (if vs ! n \<noteq> 0 then add_value (fst (entries table t ! n)) t (vs ! n) results1 else results1)"
    using one(1) by (simp add: add_values_def fold_res_append)
  then show ?case
    using one(2,3) add_value_ok [OF one(2)] by (auto simp: fun_eq_iff add.assoc)
qed

section \<open>Evaluation of a metric\<close>

text \<open>
  What a plugin does for \<open>getMetricValues\<close> with the blobs of some rows: it adds to the value of each
  extent what the blob contributes to it.
\<close>

definition row_contribution :: "(extent \<Rightarrow> byte list \<Rightarrow> extent \<Rightarrow> 'm) \<Rightarrow> extent \<Rightarrow> DataRow \<Rightarrow> 'm" where
  "row_contribution contribution x row = contribution (extent_of row) (da_blob row) x"

definition adds_contributions ::
  "'m::comm_monoid_add list metric \<Rightarrow> (extent \<Rightarrow> byte list \<Rightarrow> extent \<Rightarrow> 'm) \<Rightarrow> DataRow list \<Rightarrow> bool" where
  "adds_contributions metric contribution rows \<longleftrightarrow>
     (\<forall>row \<in> set rows. \<forall>g v. tree_ok g \<and> length v = length (dm_extents g) \<longrightarrow>
        metric (extent_of row) (da_blob row) g v
          = Ok (map (\<lambda>j. v ! j + row_contribution contribution (dm_extents g ! j) row) [0..<length v]))"

text \<open>The hardware counter collector does so for blobs as the runtime makes them.\<close>

lemma hwc_adds_contributions:
  assumes "nth_element_contract ne" and "\<And>row. row \<in> set rows \<Longrightarrow> hwc_blob_ok decode (extent_of row) (da_blob row)"
  shows "adds_contributions (HWCCollector_getMetricValues ne decode ''overflows'') (hwc_contribution decode) rows"
  using HWCCollector_ok [OF assms(1) assms(2)] by (simp add: adds_contributions_def row_contribution_def)

text \<open>What the blobs of a collector and a thread that are read contribute to an extent.\<close>

definition contributed ::
  "(extent \<Rightarrow> byte list \<Rightarrow> extent \<Rightarrow> 'm::comm_monoid_add) \<Rightarrow> (DataRow \<Rightarrow> bool) \<Rightarrow> int \<times> int \<Rightarrow> tables \<Rightarrow> extent \<Rightarrow> 'm" where
  "contributed contribution read key db x =
     (\<Sum>row \<leftarrow> filter read (rows_for key db). row_contribution contribution x row)"

text \<open>The blobs that are read for a group of extents: those that intersect its bounds.\<close>

definition in_bounds :: "ExtentGroup \<Rightarrow> DataRow \<Rightarrow> bool" where
  "in_bounds g row \<longleftrightarrow> Extent_doesIntersect (fst (ExtentGroup_getBounds g)) (extent_of row)"

lemma in_bounds_covers:
  assumes "group_ok g" and "x \<in> set (dm_extents g)" and "Extent_doesIntersect x (extent_of row)"
  shows "in_bounds g row"
proof -
  obtain b g' where "ExtentGroup_getBounds g = (b, g')" and "dm_extents g' = dm_extents g"
    and "\<And>e. e \<in> set (dm_extents g) \<Longrightarrow> extent_points e \<subseteq> extent_points b"
    by (rule getBounds_ok [OF assms(1)]) (rule that)
  then show ?thesis using covers_intersect [OF _ assms(3)] assms(2) by (simp add: in_bounds_def)
qed

lemma evaluated_rows:
  assumes ok: "data_ok (stored (the_session s))" and "set rows \<subseteq> set (Data (stored (the_session s)))"
    and g: "tree_ok g"
    and "adds_contributions metric contribution rows" and "length v = length (dm_extents g)"
  shows "\<exists>s'. for_each (map da_id rows) (\<lambda>v i. Collector_getMetricValuesOf metric g i v) v s
      = (Ok (map (\<lambda>j. v ! j + (\<Sum>row \<leftarrow> rows. row_contribution contribution (dm_extents g ! j) row)) [0..<length v]), s') \<and>
    unchanged s s' \<and> data_cache s' = data_cache s"
  using assms(1,2,4,5)
proof (induction rows arbitrary: v s)
  case Nil
  then show ?case by (simp add: ret_def unchanged_iff) (metis map_nth)
next
  case (Cons row rows)
  let ?q = "\<lambda>db. fold_res (metric_of_row metric g) (filter (\<lambda>r. da_id r = da_id row) (Data db)) v"
  let ?v = "map (\<lambda>j. v ! j + row_contribution contribution (dm_extents g ! j) row) [0..<length v]"
  have "row_extent row = Ok (extent_of row)"
    using Cons.prems(2) proper_rows [OF Cons.prems(1)] by (simp add: row_extent_ok)
  moreover have "filter (\<lambda>r. da_id r = da_id row) (Data (stored (the_session s))) = [row]"
    using row_of_id [OF Cons.prems(1), of row] Cons.prems(2) by simp
  ultimately have "?q (stored (the_session s)) = Ok ?v"
    using g Cons.prems(3,4) by (simp add: metric_of_row_def adds_contributions_def)
  from reading_unchanged [of ?q, OF this] obtain t where
    t: "Collector_getMetricValuesOf metric g (da_id row) v s = (Ok ?v, s\<lparr>the_session := t\<rparr>)"
      "unchanged s (s\<lparr>the_session := t\<rparr>)"
    by (auto simp: Collector_getMetricValuesOf_def)
  then have same: "stored t = stored (the_session s)" by (simp add: unchanged_def)
  have "adds_contributions metric contribution rows"
    using Cons.prems(3) unfolding adds_contributions_def by (meson list.set_intros(2))
  with Cons.IH [of "s\<lparr>the_session := t\<rparr>" ?v] Cons.prems(1,2,4) same obtain s' where
    s': "for_each (map da_id rows) (\<lambda>v i. Collector_getMetricValuesOf metric g i v) ?v (s\<lparr>the_session := t\<rparr>)
      = (Ok (map (\<lambda>j. ?v ! j + (\<Sum>row \<leftarrow> rows. row_contribution contribution (dm_extents g ! j) row)) [0..<length ?v]), s')"
      "unchanged (s\<lparr>the_session := t\<rparr>) s'" "data_cache s' = data_cache s"
    by auto
  have "unchanged s s'" using t(2) s'(2) by (auto simp: unchanged_def)
  with t(1) s'(1,3) show ?case by (auto simp: andthen_def add.assoc intro!: nth_equalityI)
qed

lemma evaluated_metric:
  fixes metric :: "'m::comm_monoid_add list metric"
  assumes "nth_element_contract ne" and s: "data_agrees s" and g: "group_ok g"
    and metric: "adds_contributions metric contribution (rows_for (self, thread) (stored (the_session s)))"
  defines "n \<equiv> length (dm_extents g)"
  shows "\<exists>s'. Collector_getMetricValues ne metric self thread g (replicate n 0) s
      = (Ok (map (\<lambda>j. contributed contribution (in_bounds g) (self, thread) (stored (the_session s)) (dm_extents g ! j)) [0..<n]), s') \<and>
    unchanged s s' \<and> data_agrees s'"
proof -
  let ?s = "at_session (Begin False) s" and ?db = "stored (the_session s)"
  obtain b g' where b: "ExtentGroup_getBounds g = (b, g')" and g': "dm_extents g' = dm_extents g"
    by (rule getBounds_ok [OF g])
  have tree: "tree_ok g'" using getBounds_group [OF g] b by (simp add: group_ok_def)
  let ?hit = "\<lambda>row. Extent_doesIntersect b (extent_of row)"
  let ?rows = "filter ?hit (rows_for (self, thread) ?db)"
  have read: "in_bounds g = ?hit" by (simp add: in_bounds_def b fun_eq_iff)
  have begun: "data_agrees ?s" using s by (simp add: data_agrees_cong [of ?s s])
  then have ok: "data_ok ?db" by (simp add: data_agrees_def)
  from getIdentifiers_ok [OF assms(1), of ?s "(self, thread)" b] begun obtain t where
    ids: "DataCache_getIdentifiers ne (self, thread) b ?s = (Ok (da_id ` {row \<in> set (rows_for (self, thread) ?db). ?hit row}), t)"
    and t: "cache_agrees data_cache select_data t" "unchanged ?s t"
    unfolding data_agrees_def by auto
  have db: "stored (the_session t) = ?db" using t(2) by (simp add: unchanged_def)
  have "adds_contributions metric contribution ?rows"
    using metric unfolding adds_contributions_def by (meson filter_is_subset subsetD)
  from evaluated_rows [of t ?rows g' metric contribution "replicate n 0", OF _ _ tree this] obtain u where
    u: "for_each (map da_id ?rows) (\<lambda>v i. Collector_getMetricValuesOf metric g' i v) (replicate n 0) t
      = (Ok (map (\<lambda>j. \<Sum>row \<leftarrow> ?rows. row_contribution contribution (dm_extents g ! j) row) [0..<n]), u)"
      "unchanged t u" "data_cache u = data_cache t"
    by (auto simp: db ok g' n_def rows_for_def cong: map_cong)
  have same: "(\<lambda>j. \<Sum>row \<leftarrow> ?rows. row_contribution contribution (dm_extents g ! j) row)
      = (\<lambda>j. contributed contribution (in_bounds g) (self, thread) ?db (dm_extents g ! j))"
    by (simp add: contributed_def read)
  let ?body = "andthen (Collector_getIdentifiers ne self thread g) (\<lambda>(ids, g).
        for_each (sorted_list_of_set ids) (\<lambda>v i. Collector_getMetricValuesOf metric g i v) (replicate n 0))"
  from u(1) [unfolded same] have run: "?body ?s
      = (Ok (map (\<lambda>j. contributed contribution (in_bounds g) (self, thread) ?db (dm_extents g ! j)) [0..<n]), u)"
    by (simp add: Collector_getIdentifiers_def b andthen_def ids ret_def sorted_ids [OF ok])
  have bal: "balanced ?s u" using t(2) u(2) balanced_trans by (auto simp: unchanged_iff)
  note committed = transaction_on_Ok [where w = False and s = s and body = ?body, OF run bal]
  have "stored (the_session u) = ?db" "calls u = calls s" using u(2) t(2) db by (simp_all add: unchanged_def)
  then have "unchanged s (at_session Commit u)" using committed(2,3) by (simp add: unchanged_iff)
  moreover have "data_agrees (at_session Commit u)"
    using t(1) u(3) committed(2) ok db \<open>stored (the_session u) = ?db\<close>
    by (simp add: data_agrees_def cache_agrees_def)
  ultimately show ?thesis using committed(1) by (auto simp: Collector_getMetricValues_def)
qed

section \<open>All threads\<close>

definition entries_value ::
  "(extent \<Rightarrow> 'm::comm_monoid_add) \<Rightarrow> (int \<times> extent) list \<Rightarrow> int \<Rightarrow> 'm" where
  "entries_value measure_of es i = (\<Sum>(object, x) \<leftarrow> es. if object = i then measure_of x else 0)"

lemma entries_sum:
  assumes "map snd es = xs"
  shows "(\<Sum>j \<leftarrow> [0..<length xs]. if fst (es ! j) = i then map (\<lambda>j. measure_of (xs ! j)) [0..<length xs] ! j else 0)
    = entries_value measure_of es i"
proof -
  have "map (\<lambda>j. if fst (es ! j) = i then map (\<lambda>j. measure_of (xs ! j)) [0..<length xs] ! j else 0) [0..<length xs]
      = map (\<lambda>j. case es ! j of (object, x) \<Rightarrow> if object = i then measure_of x else 0) [0..<length es]"
    using assms by (intro map_cong) (auto simp: split_beta)
  also have "\<dots> = map (\<lambda>(object, x). if object = i then measure_of x else 0) (map ((!) es) [0..<length es])"
    by (simp add: comp_def)
  finally show ?thesis by (simp add: entries_value_def map_nth)
qed

lemma thread_evaluated:
  fixes metric :: "'m::comm_monoid_add list metric"
  assumes ne: "nth_element_contract ne" and available: "available (collector_id self (stored (the_session s)))"
    and type: "map_of (dm_metrics impl) uid = Some type"
    and metric: "adds_contributions metric contribution (rows_for (self, t) (stored (the_session s)))"
    and s: "data_agrees s" and table: "et_ok table" and results: "results_ok results"
  shows "\<exists>table' results' s'. values_of_thread ne available impl type metric self uid (table, results) t s
      = (Ok (table', results'), s') \<and> unchanged s s' \<and> data_agrees s' \<and>
    et_ok table' \<and> entries table' = entries table \<and> group_of table' = group_of table \<and> results_ok results' \<and>
    value_at results' = (\<lambda>i u. value_at results i u +
      (if u = t then entries_value (contributed contribution (in_bounds (group_of table t)) (self, t)
        (stored (the_session s))) (entries table t) i else 0))"
proof -
  let ?g = "group_of table t" and ?db = "stored (the_session s)"
  let ?n = "length (dm_extents ?g)" and ?c = "contributed contribution (in_bounds (group_of table t)) (self, t) (stored (the_session s))"
  obtain table' where get: "getExtents t table = Ok (?g, table')" and t': "et_ok table'"
    "group_of table' = group_of table" "objects_of table' = objects_of table"
    using getExtents_ok [OF table, of t] by blast
  then have same: "entries table' = entries table" by (simp add: entries_def fun_eq_iff)
  show ?thesis
  proof (cases "dm_extents ?g = []")
    case True
    then have "entries table t = []" by (simp add: entries_def)
    with True get t' same s results show ?thesis
      by (simp add: values_of_thread_def res_simps andthen_def entries_value_def unchanged_iff fun_eq_iff)
  next
    case False
    have g: "group_ok ?g" and n: "length (entries table t) = ?n"
      using table by (simp_all add: et_ok_def entries_def)
    let ?body = "andthen (declared (dm_metrics impl) uid type) (\<lambda>_.
        Collector_getMetricValues ne metric self t ?g (resize_values 0 ?n (replicate ?n 0)))"
    obtain u where u: "with_impl available self ?body s = ?body u" "unchanged s u" "data_cache u = data_cache s"
      using with_impl_Ok [where available = available and self = self and s = s and body = ?body, OF available] by blast
    have db: "stored (the_session u) = ?db" using u(2) by (simp add: unchanged_def)
    then have "data_agrees u" using s u(3) by (simp add: data_agrees_cong [of u s])
    from evaluated_metric [OF ne this g, of metric contribution self t] metric obtain s' where
      s': "Collector_getMetricValues ne metric self t ?g (replicate ?n 0) u
        = (Ok (map (\<lambda>j. ?c (dm_extents ?g ! j)) [0..<?n]), s')" "unchanged u s'" "data_agrees s'"
      by (auto simp: db)
    let ?vs = "map (\<lambda>j. ?c (dm_extents ?g ! j)) [0..<?n]"
    have run: "Collector_getMetricVector ne available impl type 0 metric self uid t ?g (replicate ?n 0) s = (Ok ?vs, s')"
      using u(1) s'(1) type by (simp add: Collector_getMetricVector_def resize_values_def declared_Ok andthen_def)
    obtain results' where r: "add_values t ?n ?vs table' results = Ok results'" "results_ok results'"
      "value_at results' = (\<lambda>i u. value_at results i u +
        (if u = t then \<Sum>j \<leftarrow> [0..<?n]. if fst (entries table' t ! j) = i then ?vs ! j else 0 else 0))"
      using add_values_ok [OF t'(1), of ?n t results ?vs] results n same by auto
    have "map snd (entries table' t) = dm_extents ?g"
      using n same table by (simp add: entries_def et_ok_def)
    note sums = entries_sum [OF this, of _ ?c]
    have "values_of_thread ne available impl type metric self uid (table, results) t s = (Ok (table', results'), s')"
      using False get run r(1) by (simp add: values_of_thread_def res_simps andthen_def)
    moreover have "unchanged s s'" using u(2) s'(2) by (auto simp: unchanged_def)
    ultimately show ?thesis using r(2) r(3) [unfolded sums, unfolded same] s'(3) t'(1,2) same by blast
  qed
qed

lemma threads_evaluated:
  fixes metric :: "'m::comm_monoid_add list metric"
  assumes ne: "nth_element_contract ne" and available: "available (collector_id self db)"
    and type: "map_of (dm_metrics impl) uid = Some type"
    and "data_agrees s" and "stored (the_session s) = db" and "et_ok table" and "results_ok results" and "distinct ts"
    and "\<And>t. t \<in> set ts \<Longrightarrow> adds_contributions metric contribution (rows_for (self, t) db)"
  shows "\<exists>table' results' s'. for_each ts (values_of_thread ne available impl type metric self uid) (table, results) s
      = (Ok (table', results'), s') \<and> unchanged s s' \<and> data_agrees s' \<and> results_ok results' \<and>
    value_at results' = (\<lambda>i t. value_at results i t +
      (if t \<in> set ts then entries_value (contributed contribution (in_bounds (group_of table t)) (self, t) db)
        (entries table t) i else 0))"
  using assms(4-)
proof (induction ts arbitrary: table results s)
  case Nil
  then show ?case by (simp add: ret_def unchanged_iff fun_eq_iff)
next
  case (Cons t ts)
  have metric: "adds_contributions metric contribution (rows_for (self, t) (stored (the_session s)))"
    using Cons.prems(2,6) by simp
  from thread_evaluated [OF ne _ type metric Cons.prems(1,3,4), of available] available Cons.prems(2)
  obtain table1 results1 s1 where
    one: "values_of_thread ne available impl type metric self uid (table, results) t s = (Ok (table1, results1), s1)"
      "unchanged s s1" "data_agrees s1" "et_ok table1" "entries table1 = entries table"
      "group_of table1 = group_of table" "results_ok results1"
      "value_at results1 = (\<lambda>i u. value_at results i u +
        (if u = t then entries_value (contributed contribution (in_bounds (group_of table t)) (self, t) db)
          (entries table t) i else 0))"
    by auto
  have db: "stored (the_session s1) = db" using one(2) Cons.prems(2) by (simp add: unchanged_def)
  have "distinct ts" using Cons.prems(5) by simp
  have others: "adds_contributions metric contribution (rows_for (self, t') db)" if "t' \<in> set ts" for t'
    using Cons.prems(6) that by simp
  from Cons.IH [OF one(3) db one(4,7) \<open>distinct ts\<close> others, unfolded one(5,6)] obtain table' results' s' where
    rest: "for_each ts (values_of_thread ne available impl type metric self uid) (table1, results1) s1
      = (Ok (table', results'), s')" "unchanged s1 s'" "data_agrees s'" "results_ok results'"
      "value_at results' = (\<lambda>i t. value_at results1 i t +
        (if t \<in> set ts then entries_value (contributed contribution (in_bounds (group_of table t)) (self, t) db)
        (entries table t) i else 0))"
    by blast
  have "unchanged s s'" using one(2) rest(2) by (auto simp: unchanged_def)
  then show ?case using one(1,8) rest Cons.prems(5) by (auto simp: andthen_def fun_eq_iff)
qed

lemma query_evaluated:
  fixes metric :: "'m::comm_monoid_add list metric"
  assumes ne: "nth_element_contract ne" and available: "available (collector_id self (stored (the_session s)))"
    and type: "map_of (dm_metrics impl) uid = Some type"
    and metric: "\<And>t. t \<in> threads \<Longrightarrow>
      adds_contributions metric contribution (rows_for (self, t) (stored (the_session s)))"
    and s: "data_agrees s" and "results_ok results" and "finite threads"
    and q: "on_session (extents_of threads objects (Extent interval (Interval TheLowest TheHighest)))
        (at_session (Begin False) s) = (Ok table, at_session (Begin False) s\<lparr>the_session := u\<rparr>)"
      "unchanged (at_session (Begin False) s) (at_session (Begin False) s\<lparr>the_session := u\<rparr>)" "et_ok table"
  shows "\<exists>results' s'. GetMetricValues ne available impl type metric extents_of self uid interval threads objects results s
      = (Ok results', s') \<and> unchanged s s' \<and> data_agrees s' \<and> results_ok results' \<and>
    value_at results' = (\<lambda>i t. value_at results i t + (if t \<in> threads
      then entries_value (contributed contribution (in_bounds (group_of table t)) (self, t) (stored (the_session s)))
        (entries table t) i else 0))"
proof -
  let ?s = "at_session (Begin False) s" and ?db = "stored (the_session s)"
  let ?u = "?s\<lparr>the_session := u\<rparr>"
  have same: "stored (the_session ?u) = ?db" using q(2) by (simp add: unchanged_def)
  have "data_agrees ?u" using s same by (simp add: data_agrees_cong [of ?u s])
  from threads_evaluated [where ts = "sorted_list_of_set threads" and available = available and self = self and db = ?db
        and metric = metric and contribution = contribution,
      OF ne available type this same q(3) assms(6)] metric obtain table' results' s' where
    loop: "for_each (sorted_list_of_set threads) (values_of_thread ne available impl type metric self uid) (table, results) ?u
      = (Ok (table', results'), s')" "unchanged ?u s'" "data_agrees s'" "results_ok results'"
      "value_at results' = (\<lambda>i t. value_at results i t + (if t \<in> threads
        then entries_value (contributed contribution (in_bounds (group_of table t)) (self, t) ?db)
          (entries table t) i else 0))"
    using assms(7) by auto
  have bal: "balanced ?s s'" using q(2) loop(2) balanced_trans by (auto simp: unchanged_iff)
  note commit = commit_balanced [OF bal]
  have "stored (the_session s') = ?db" "calls s' = calls s" using loop(2) q(2) same by (simp_all add: unchanged_def)
  then have "unchanged s (at_session Commit s')" using commit by (simp add: unchanged_iff)
  moreover have "data_agrees (at_session Commit s')"
    using loop(3) commit(1) data_agrees_cong [of "at_session Commit s'" s'] by simp
  ultimately show ?thesis
    using q(1) loop(1,4,5) by (simp add: GetMetricValues_def locking_database_def andthen_def ret_def)
qed

section \<open>The values of functions\<close>

lemma entries_value_sum:
  assumes "finite objects" and "mset es = (\<Sum>i \<in> objects. mset (map (Pair i) (f i)))"
  shows "entries_value measure_of es i = (if i \<in> objects then \<Sum>x \<leftarrow> f i. measure_of x else 0)"
proof -
  let ?g = "\<lambda>(object, x). if object = i then measure_of x else 0"
  have "entries_value measure_of es i = \<Sum>\<^sub># (image_mset ?g (mset es))"
    by (simp add: entries_value_def flip: sum_mset_sum_list)
  also have "\<dots> = (\<Sum>j \<in> objects. \<Sum>\<^sub># (image_mset ?g (mset (map (Pair j) (f j)))))"
    unfolding assms(2) using assms(1) by (induction objects rule: finite_induct) simp_all
  also have "\<dots> = (\<Sum>j \<in> objects. if j = i then \<Sum>x \<leftarrow> f i. measure_of x else 0)"
  proof (rule sum.cong)
    fix j
    have "\<Sum>\<^sub># (image_mset ?g (mset (map (Pair j) (f j)))) = (\<Sum>p \<leftarrow> map (Pair j) (f j). ?g p)"
      by (simp only: mset_map [symmetric] sum_mset_sum_list)
    also have "\<dots> = (if j = i then \<Sum>x \<leftarrow> f i. measure_of x else 0)" by (simp add: comp_def)
    finally show "\<Sum>\<^sub># (image_mset ?g (mset (map (Pair j) (f j)))) = (if j = i then \<Sum>x \<leftarrow> f i. measure_of x else 0)" .
  qed simp
  also have "\<dots> = (if i \<in> objects then \<Sum>x \<leftarrow> f i. measure_of x else 0)" using assms(1) by simp
  finally show ?thesis .
qed

lemma tabulating_unchanged:
  assumes "fst (ThreadGroup_getExtentsOfFunctions beyond threads objects domain (the_session s)) = Ok table"
  shows "\<exists>u. on_session (ThreadGroup_getExtentsOfFunctions beyond threads objects domain) s
      = (Ok table, s\<lparr>the_session := u\<rparr>) \<and> unchanged s (s\<lparr>the_session := u\<rparr>)"
proof (cases "threads = {}")
  case True
  with assms show ?thesis
    by (intro exI [of _ "the_session s"])
      (simp add: ThreadGroup_getExtentsOfFunctions_def getExtentsOf_def on_session_def ret_def unchanged_iff)
next
  case False
  then obtain q where "ThreadGroup_getExtentsOfFunctions beyond threads objects domain = reading q"
    by (simp add: ThreadGroup_getExtentsOfFunctions_def getExtentsOf_def)
  then show ?thesis using assms reading_unchanged [of q s table] by (simp add: reading_fst)
qed

text \<open>The extents that a function has in a thread, cut to a time interval.\<close>

definition function_extents :: "(nat \<Rightarrow> byte) \<Rightarrow> session \<Rightarrow> time interval \<Rightarrow> int \<Rightarrow> int \<Rightarrow> extent list" where
  "function_extents beyond s interval i t =
     filter (\<lambda>e. \<not> Extent_isEmpty e) (map (\<lambda>e. Extent_inter e (Extent interval (Interval TheLowest TheHighest)))
       (the_Ok (fst (Function_getExtentIn beyond i t s))))"

lemma function_extents_cong: "stored s = stored s' \<Longrightarrow> function_extents beyond s = function_extents beyond s'"
  by (simp add: function_extents_def Function_getExtentIn_def reading_fst fun_eq_iff)

lemma asked_in_group:
  assumes "et_ok table" and "mset (entries table t) = (\<Sum>i \<in> objects. mset (map (Pair i) (f i)))"
    and "finite objects" and "i \<in> objects" and "x \<in> set (f i)"
  shows "group_ok (group_of table t)" and "x \<in> set (dm_extents (group_of table t))"
proof -
  show "group_ok (group_of table t)" using assms(1) by (simp add: et_ok_def)
  have "(i, x) \<in># mset (entries table t)"
    unfolding assms(2) using assms(3-5) by (auto simp: set_mset_sum)
  then have "x \<in> set (map snd (entries table t))" by force
  moreover have "map snd (entries table t) = dm_extents (group_of table t)"
    using assms(1) by (simp add: entries_def et_ok_def)
  ultimately show "x \<in> set (dm_extents (group_of table t))" by simp
qed

section \<open>An exception in the query\<close>

text \<open>
  A collector whose plugin is missing makes the query throw as soon as a thread has extents, and the
  transaction that locks the database stays open.
\<close>

lemma unavailable_threads:
  assumes "et_ok table" and "\<not> available (collector_id self (stored (the_session s)))"
    and "t \<in> set ts" and "entries table t \<noteq> []"
  shows "\<exists>s'. for_each ts (values_of_thread ne available impl type metric self uid) (table, results) s
      = (Throw (Exception CollectorUnavailable [collector_id self (stored (the_session s))]), s') \<and> unchanged s s'"
  using assms
proof (induction ts arbitrary: table)
  case (Cons a ts)
  obtain table' where get: "getExtents a table = Ok (group_of table a, table')" and t': "et_ok table'"
    "group_of table' = group_of table" "objects_of table' = objects_of table"
    using getExtents_ok [OF Cons.prems(1), of a] by blast
  then have same: "entries table' = entries table" by (simp add: entries_def fun_eq_iff)
  show ?case
  proof (cases "dm_extents (group_of table a) = []")
    case True
    then have "a \<noteq> t" using Cons.prems(1,4) entries_empty by blast
    with Cons.IH [OF t'(1) Cons.prems(2)] Cons.prems(3,4) True get show ?thesis
      by (simp add: values_of_thread_def res_simps andthen_def same)
  next
    case False
    from reading_unchanged [of "\<lambda>db. Ok (collector_id self db)" s] obtain u where
      "on_session (reading (\<lambda>db. Ok (collector_id self db))) s
        = (Ok (collector_id self (stored (the_session s))), s\<lparr>the_session := u\<rparr>)"
      "unchanged s (s\<lparr>the_session := u\<rparr>)" by auto
    with False get Cons.prems(2) show ?thesis
      by (simp add: values_of_thread_def Collector_getMetricVector_def with_impl_def res_simps andthen_def)
  qed
qed simp

lemma exception_leaves_database_locked:
  assumes "\<not> available (collector_id self (stored (the_session s)))"
    and "fst (ThreadGroup_getExtentsOfFunctions beyond threads objects
        (Extent interval (Interval TheLowest TheHighest)) (the_session (at_session (Begin False) s))) = Ok table"
    and "et_ok table" and "finite threads" and "t \<in> threads" and "entries table t \<noteq> []"
  shows "\<exists>e s'. GetMetricValues ne available impl type metric (ThreadGroup_getExtentsOfFunctions beyond)
        self uid interval threads objects results s = (Throw e, s') \<and>
    fst (nesting (the_session s')) = Suc (fst (nesting (the_session s)))"
proof -
  let ?s = "at_session (Begin False) s"
  obtain u where u: "on_session (ThreadGroup_getExtentsOfFunctions beyond threads objects
        (Extent interval (Interval TheLowest TheHighest))) ?s = (Ok table, ?s\<lparr>the_session := u\<rparr>)"
      "unchanged ?s (?s\<lparr>the_session := u\<rparr>)"
    using tabulating_unchanged [OF assms(2)] by blast
  have "\<not> available (collector_id self (stored (the_session (?s\<lparr>the_session := u\<rparr>))))"
    using assms(1) u(2) by (simp add: unchanged_def)
  from unavailable_threads [of table available self "?s\<lparr>the_session := u\<rparr>" t "sorted_list_of_set threads"]
    this assms(3-6) obtain s' e where
    "for_each (sorted_list_of_set threads) (values_of_thread ne available impl type metric self uid) (table, results)
      (?s\<lparr>the_session := u\<rparr>) = (Throw e, s')" "unchanged (?s\<lparr>the_session := u\<rparr>) s'"
    by fastforce
  with u show ?thesis
    by (simp add: GetMetricValues_def locking_database_def andthen_def unchanged_def)
qed

section \<open>Properties\<close>

text \<open>C32: the query for the metric values of functions adds to the results, for every function and thread
  asked for, what the blobs of the collector and the thread that it reads contribute to the extents that
  the function has in the thread within the time interval; among the blobs it reads are all that
  intersect one of these extents. If a blob contributes nothing to an extent that it does not
  intersect, the sum is over all blobs of the two. No other value and nothing in the database changes.
  The plugin is assumed to add contributions for the stored blobs of the collector and the threads, as
  the hardware counter collector does, and addition to be associative and commutative, as it is for
  metrics that are integers.\<close>

theorem metric_values_of_functions:
  fixes metric :: "'m::comm_monoid_add list metric"
  assumes "nth_element_contract ne" and "db = stored (the_session s)"
    and "\<And>t. t \<in> threads \<Longrightarrow> adds_contributions metric contribution (rows_for (self, t) db)"
    and "data_agrees s" and "symbols_ok db" and "proper_spaces db"
    and "available (collector_id self db)" and "map_of (dm_metrics impl) uid = Some type"
    and "finite threads" and "finite objects" and "results_ok results"
    and "\<And>i. i \<in> objects \<Longrightarrow> mapped_whole db (function_places db i)"
    and "exts = function_extents beyond (the_session s) interval"
  shows "\<exists>results' s' read. GetMetricValues ne available impl type metric (ThreadGroup_getExtentsOfFunctions beyond)
        self uid interval threads objects results s = (Ok results', s') \<and>
    unchanged s s' \<and> results_ok results' \<and>
    value_at results' = (\<lambda>i t. value_at results i t + (if i \<in> objects \<and> t \<in> threads
      then \<Sum>x \<leftarrow> exts i t. contributed contribution (read t) (self, t) db x else 0)) \<and>
    (\<forall>t \<in> threads. \<forall>i \<in> objects. \<forall>x \<in> set (exts i t). \<forall>row.
      Extent_doesIntersect x (extent_of row) \<longrightarrow> read t row) \<and>
    ((\<forall>t \<in> threads. \<forall>i \<in> objects. \<forall>x \<in> set (exts i t). \<forall>row \<in> set (rows_for (self, t) db).
        \<not> Extent_doesIntersect x (extent_of row) \<longrightarrow> row_contribution contribution x row = 0) \<longrightarrow>
      value_at results' = (\<lambda>i t. value_at results i t + (if i \<in> objects \<and> t \<in> threads
        then \<Sum>x \<leftarrow> exts i t. contributed contribution (\<lambda>_. True) (self, t) db x else 0)))"
proof -
  let ?s = "at_session (Begin False) s" and ?domain = "Extent interval (Interval TheLowest TheHighest)"
  have db: "stored (the_session ?s) = db" using assms(2) by simp
  have owners: "owners_ok (map fn_id (Functions db)) (FunctionRanges db)"
    using assms(5) by (simp add: symbols_ok_def)
  have same_extents: "function_extents beyond (the_session ?s) = function_extents beyond (the_session s)"
    by (rule function_extents_cong) simp
  have "tabulates threads objects ?domain (\<lambda>i t. fst (Function_getExtentIn beyond i t (the_session ?s)))
      (fst (ThreadGroup_getExtentsOfFunctions beyond threads objects ?domain (the_session ?s)))"
    unfolding ThreadGroup_getExtentsOfFunctions_def
    by (rule symbols_tabulated [OF assms(6) owners assms(12) _ db assms(9,10)])
      (simp_all add: function_rows_def Function_getExtentIn_def reading_fst db assms(2))
  then obtain table where table: "fst (ThreadGroup_getExtentsOfFunctions beyond threads objects ?domain (the_session ?s)) = Ok table"
      "et_ok table" and es: "\<And>t. t \<in> threads \<Longrightarrow> mset (entries table t)
        = (\<Sum>i \<in> objects. mset (map (Pair i) (exts i t)))"
    unfolding tabulates_def constrained_def assms(13) same_extents [symmetric] function_extents_def by auto
  obtain u where u: "on_session (ThreadGroup_getExtentsOfFunctions beyond threads objects ?domain) ?s
      = (Ok table, ?s\<lparr>the_session := u\<rparr>)" "unchanged ?s (?s\<lparr>the_session := u\<rparr>)"
    using tabulating_unchanged [OF table(1)] by blast
  let ?read = "\<lambda>t. in_bounds (group_of table t)"
  have sums: "(if t \<in> threads then entries_value f (entries table t) i else 0)
      = (if i \<in> objects \<and> t \<in> threads then \<Sum>x \<leftarrow> exts i t. f x else 0)"
    for i t and f :: "extent \<Rightarrow> 'm"
    using entries_value_sum [where measure_of = f, OF assms(10) es] by simp
  from query_evaluated [where available = available and self = self and s = s and results = results
        and extents_of = "ThreadGroup_getExtentsOfFunctions beyond",
        OF assms(1) assms(7) [unfolded assms(2)] assms(8) assms(3) [unfolded assms(2)] assms(4,11,9) u table(2)]
  obtain results' s' where run: "GetMetricValues ne available impl type metric (ThreadGroup_getExtentsOfFunctions beyond)
        self uid interval threads objects results s = (Ok results', s')" "unchanged s s'" "results_ok results'"
    and vals: "value_at results' = (\<lambda>i t. value_at results i t + (if i \<in> objects \<and> t \<in> threads
      then \<Sum>x \<leftarrow> exts i t. contributed contribution (?read t) (self, t) db x else 0))"
    unfolding sums assms(2) [symmetric] by blast
  have read: "?read t row"
    if "t \<in> threads" "i \<in> objects" "x \<in> set (exts i t)" "Extent_doesIntersect x (extent_of row)" for t i x row
    by (rule in_bounds_covers [OF asked_in_group(1,2) [OF table(2) es [OF that(1)] assms(10) that(2,3)] that(4)])
  have "contributed contribution (?read t) (self, t) db x = contributed contribution (\<lambda>_. True) (self, t) db x"
    if loc: "\<forall>t \<in> threads. \<forall>i \<in> objects. \<forall>x \<in> set (exts i t). \<forall>row \<in> set (rows_for (self, t) db).
        \<not> Extent_doesIntersect x (extent_of row) \<longrightarrow> row_contribution contribution x row = 0"
      and x: "t \<in> threads" "i \<in> objects" "x \<in> set (exts i t)" for t i x
    unfolding contributed_def filter_True
    by (simp, rule sum_list_map_filter) (use loc read x in blast)
  then have sums_agree: "(\<Sum>x \<leftarrow> exts i t. contributed contribution (?read t) (self, t) db x)
      = (\<Sum>x \<leftarrow> exts i t. contributed contribution (\<lambda>_. True) (self, t) db x)"
    if "\<forall>t \<in> threads. \<forall>i \<in> objects. \<forall>x \<in> set (exts i t). \<forall>row \<in> set (rows_for (self, t) db).
        \<not> Extent_doesIntersect x (extent_of row) \<longrightarrow> row_contribution contribution x row = 0"
      and "t \<in> threads" "i \<in> objects" for t i
    using that by (intro arg_cong [of _ _ sum_list] map_cong refl) blast
  then have "value_at results' = (\<lambda>i t. value_at results i t + (if i \<in> objects \<and> t \<in> threads
        then \<Sum>x \<leftarrow> exts i t. contributed contribution (\<lambda>_. True) (self, t) db x else 0))"
    if "\<forall>t \<in> threads. \<forall>i \<in> objects. \<forall>x \<in> set (exts i t). \<forall>row \<in> set (rows_for (self, t) db).
        \<not> Extent_doesIntersect x (extent_of row) \<longrightarrow> row_contribution contribution x row = 0"
  proof (intro ext)
    fix i t
    show "value_at results' i t = value_at results i t + (if i \<in> objects \<and> t \<in> threads
        then \<Sum>x \<leftarrow> exts i t. contributed contribution (\<lambda>_. True) (self, t) db x else 0)"
      using sums_agree [OF that, of t i] by (cases "i \<in> objects \<and> t \<in> threads") (auto simp only: vals if_True if_False)
  qed
  with run vals read show ?thesis by (intro exI [of _ results'] exI [of _ s'] exI [of _ ?read]) blast
qed

text \<open>The hardware counter collector with a decoder of three bytes: the interval, and two samples given by
  their distance from the address 4200.\<close>

definition measured_hwc :: "hwc_data xdr_decoder" where
  "measured_hwc bytes = (case bytes of
       [i, a, b] \<Rightarrow> Some (\<lparr>hwc_interval = ucast i, hwc_pc = [4200 + ucast a, 4200 + ucast b],
         hwc_count = [2, 1]\<rparr>, 3)
     | _ \<Rightarrow> None)"

definition measured_tables :: tables where
  "measured_tables = sample_tables
     \<lparr>Data := [\<lparr>da_id = 1, da_collector = 1, da_thread = 1, da_time_begin = 2, da_time_end = 9,
        da_addr_begin = 4200, da_addr_end = 5000, da_blob = [7, 1, 100]\<rparr>]\<rparr>"

definition measured :: framework where
  "measured = empty_framework \<lparr>stored = measured_tables, saved = measured_tables, nesting = (0, True)\<rparr>"

lemma measured_ok:
  "stored (the_session measured) = measured_tables" "data_agrees measured" "symbols_ok measured_tables"
  "proper_spaces measured_tables" "mapped_whole measured_tables (function_places measured_tables 1)"
proof -
  show "stored (the_session measured) = measured_tables" by (simp add: measured_def empty_framework_def)
  show "data_agrees measured"
    by (simp add: data_agrees_iff measured_def empty_framework_def et_ok_make entries_make)
      (simp add: data_ok_def measured_tables_def proper_row_def)
  show "symbols_ok measured_tables"
    using sample_ok(1) by (simp add: symbols_ok_def files_ok_def measured_tables_def)
  show "proper_spaces measured_tables"
    by (simp add: proper_spaces_def measured_tables_def sample_tables_def sample_space_def)
  show "mapped_whole measured_tables (function_places measured_tables 1)"
    using sample_whole(1) by (simp add: mapped_whole_def measured_tables_def)
qed

abbreviation measured_overflows :: "64 word list metric" where
  "measured_overflows \<equiv> HWCCollector_getMetricValues sorting_nth_element measured_hwc ''overflows''"

lemma measured_blobs:
  "adds_contributions measured_overflows (hwc_contribution measured_hwc) (rows_for (1, t) measured_tables)"
  "row \<in> set (rows_for (1, t) measured_tables) \<Longrightarrow> \<not> Extent_doesIntersect x (extent_of row) \<Longrightarrow>
     row_contribution (hwc_contribution measured_hwc) x row = 0"
proof -
  have "\<forall>row \<in> set (Data measured_tables). hwc_blob_ok measured_hwc (extent_of row) (da_blob row)"
    and "\<forall>row \<in> set (Data measured_tables). samples_inside measured_hwc (extent_of row) (da_blob row)"
    by code_simp+
  then have ok: "hwc_blob_ok measured_hwc (extent_of row) (da_blob row)"
    "samples_inside measured_hwc (extent_of row) (da_blob row)"
    if "row \<in> set (rows_for (1, t) measured_tables)" for row
    using that by (simp_all add: rows_for_def)
  show "adds_contributions measured_overflows (hwc_contribution measured_hwc) (rows_for (1, t) measured_tables)"
    by (rule hwc_adds_contributions [OF sorting_nth_element_contract ok(1)])
  show "row \<in> set (rows_for (1, t) measured_tables) \<Longrightarrow> \<not> Extent_doesIntersect x (extent_of row) \<Longrightarrow>
     row_contribution (hwc_contribution measured_hwc) x row = 0"
    unfolding row_contribution_def by (rule hwc_contribution_zero [OF ok(2)])
qed

lemma metric_values_of_functions_witness:
  "\<exists>results' s'. GetMetricValues sorting_nth_element (\<lambda>_. True) \<lparr>dm_parameters = [], dm_metrics = [(''overflows'', ())],
        get_parameter = (\<lambda>_ _. ()), set_parameter = (\<lambda>_ _ b. b)\<rparr> () measured_overflows
        (ThreadGroup_getExtentsOfFunctions (\<lambda>_. 0)) 1 ''overflows'' (Interval 0 10) {1} {1} [] measured
      = (Ok results', s') \<and> value_at results' 1 1 = 14"
proof -
  have mapped: "mapped_whole measured_tables (function_places measured_tables i)" if "i \<in> {1}" for i
    using measured_ok(5) that by simp
  let ?exts = "function_extents (\<lambda>_. 0) (the_session measured) (Interval 0 10)"
  let ?sum = "\<lambda>i t. \<Sum>x \<leftarrow> ?exts i t. contributed (hwc_contribution measured_hwc) (\<lambda>_. True) (1, t) measured_tables x"
  have sum: "?sum 1 1 = 14" by code_simp
  from metric_values_of_functions [where threads = "{1}" and objects = "{1}" and results = "[]" and self = 1
        and available = "\<lambda>_. True" and impl = "\<lparr>dm_parameters = [], dm_metrics = [(''overflows'', ())],
          get_parameter = (\<lambda>_ _. ()), set_parameter = (\<lambda>_ _ b. b)\<rparr>" and uid = "''overflows''" and type = "()"
        and interval = "Interval 0 10" and beyond = "\<lambda>_. 0" and contribution = "hwc_contribution measured_hwc",
        OF sorting_nth_element_contract measured_ok(1) [symmetric] measured_blobs(1) measured_ok(2-4) _ _ _ _ _
          mapped refl]
  obtain results' s' where run: "GetMetricValues sorting_nth_element (\<lambda>_. True) \<lparr>dm_parameters = [],
        dm_metrics = [(''overflows'', ())], get_parameter = (\<lambda>_ _. ()), set_parameter = (\<lambda>_ _ b. b)\<rparr> () measured_overflows
        (ThreadGroup_getExtentsOfFunctions (\<lambda>_. 0)) 1 ''overflows'' (Interval 0 10) {1} {1} [] measured
      = (Ok results', s')"
    and "(\<forall>t \<in> {1}. \<forall>i \<in> {1}. \<forall>x \<in> set (?exts i t). \<forall>row \<in> set (rows_for (1, t) measured_tables).
        \<not> Extent_doesIntersect x (extent_of row) \<longrightarrow>
        row_contribution (hwc_contribution measured_hwc) x row = 0) \<longrightarrow>
      value_at results' = (\<lambda>i t. value_at [] i t + (if i \<in> {1} \<and> t \<in> {1} then ?sum i t else 0))"
    by (simp add: results_ok_def) blast
  then have "value_at results' = (\<lambda>i t. value_at [] i t + (if i \<in> {1} \<and> t \<in> {1} then ?sum i t else 0))"
    using measured_blobs(2) by blast
  then have "value_at results' 1 1 = 14"
    using sum by (simp add: value_at_def [of "[]"] row_of_def)
  with run show ?thesis by blast
qed

end
