(* ===== verification/TeamReduction.thy ===== *)
theory TeamReduction
  imports Base "HOL-Library.Multiset"
begin

text \<open>
  The parallel part of \<open>GetMetricValues\<close> (GetMetricValues.txx): the threads of an OpenMP team evaluate
  the blobs of performance data into vectors of their own and then add these to the shared vector of
  shared. In every iteration each thread adds one piece of its vector, and a barrier ends the iteration.
  The threads of a team run in any order: a schedule is the list of the threads whose turn it is, and
  the addition to a shared element is two turns, one that loads and one that stores. The main results are
  that no two threads ever work on the same element, so no addition is lost whatever the schedule, and
  that the shared do not depend on the team. Sizes are natural numbers; the code computes them as \<open>int\<close>.
\<close>

section \<open>The additions of a team\<close>

definition elements_each :: "nat \<Rightarrow> nat \<Rightarrow> nat" where
  "elements_each items num_threads = (items + num_threads - 1) div num_threads"

definition first_element :: "nat \<Rightarrow> nat \<Rightarrow> nat \<Rightarrow> nat \<Rightarrow> nat" where
  "first_element n num_threads j thread_num = (n * (j + thread_num)) mod (n * num_threads)"

text \<open>The shared vector, and for each thread its loop variable and the value it has loaded.\<close>

record 'm reduction =
  re_values :: "'m list"
  re_k :: "nat list"
  re_loaded :: "'m option list"

definition element :: "nat \<Rightarrow> nat \<Rightarrow> 'm reduction \<Rightarrow> nat \<Rightarrow> nat" where
  "element num_threads j s th =
     first_element (elements_each (length (re_values s)) num_threads) num_threads j th + re_k s ! th"

definition working :: "nat \<Rightarrow> nat \<Rightarrow> 'm reduction \<Rightarrow> nat \<Rightarrow> bool" where
  "working num_threads j s th \<longleftrightarrow>
     re_k s ! th < elements_each (length (re_values s)) num_threads \<and> element num_threads j s th < length (re_values s)"

definition turn :: "'m::plus list list \<Rightarrow> nat \<Rightarrow> 'm reduction \<Rightarrow> nat \<Rightarrow> 'm reduction" where
  "turn locals j s th =
     (if th < length locals \<and> working (length locals) j s th then
        let i = element (length locals) j s th in
        case re_loaded s ! th of
          None \<Rightarrow> s\<lparr>re_loaded := (re_loaded s)[th := Some (re_values s ! i)]\<rparr>
        | Some v \<Rightarrow> s\<lparr>re_values := (re_values s)[i := v + locals ! th ! i],
            re_k := (re_k s)[th := Suc (re_k s ! th)], re_loaded := (re_loaded s)[th := None]\<rparr>
      else s)"

definition at_barrier :: "nat \<Rightarrow> nat \<Rightarrow> 'm reduction \<Rightarrow> bool" where
  "at_barrier num_threads j s \<longleftrightarrow> list_all (\<lambda>th. \<not> working num_threads j s th) [0..<num_threads]"

definition begin_iteration :: "nat \<Rightarrow> 'm list \<Rightarrow> 'm reduction" where
  "begin_iteration num_threads shared =
     \<lparr>re_values = shared, re_k = replicate num_threads 0, re_loaded = replicate num_threads None\<rparr>"

text \<open>\<open>None\<close> if the schedule ends before all threads have reached the barrier.\<close>

definition run_iteration :: "'m::plus list list \<Rightarrow> nat \<Rightarrow> nat list \<Rightarrow> 'm list \<Rightarrow> 'm list option" where
  "run_iteration locals j schedule shared =
     (let s = foldl (turn locals j) (begin_iteration (length locals) shared) schedule in
      if at_barrier (length locals) j s then Some (re_values s) else None)"

fun reduce_team :: "'m::plus list list \<Rightarrow> nat \<Rightarrow> nat list list \<Rightarrow> 'm list \<Rightarrow> 'm list option" where
  "reduce_team locals j [] shared = Some shared"
| "reduce_team locals j (schedule # schedules) shared =
     Option.bind (run_iteration locals j schedule shared) (reduce_team locals (Suc j) schedules)"

text \<open>Each thread evaluates the blobs that it has been given, beginning with zeros.\<close>

definition local_values :: "('i \<Rightarrow> 'm list \<Rightarrow> 'm list) \<Rightarrow> nat \<Rightarrow> 'i list \<Rightarrow> 'm::zero list" where
  "local_values evaluate items given = foldl (\<lambda>v i. evaluate i v) (replicate items 0) given"

definition evaluate_in_team ::
  "('i \<Rightarrow> 'm list \<Rightarrow> 'm list) \<Rightarrow> nat \<Rightarrow> 'i list list \<Rightarrow> nat list list \<Rightarrow> 'm::{zero,plus} list option" where
  "evaluate_in_team evaluate items given schedules =
     reduce_team (map (local_values evaluate items) given) 0 schedules (replicate items 0)"

section \<open>Pieces\<close>

lemma piece_cases: "th < T \<Longrightarrow> (j + th) mod T = (if j mod T + th < T then j mod T + th else j mod T + th - T)"
  for th :: nat
proof -
  assume "th < T"
  then have "j mod T < T" by simp
  with \<open>th < T\<close> have "j mod T + th - T < T" by linarith
  moreover have "(j + th) mod T = (j mod T + th) mod T" by (simp only: mod_add_left_eq)
  ultimately show ?thesis
    by (cases "j mod T + th < T") (simp_all add: le_mod_geq [of T "j mod T + th"])
qed

lemma first_element_piece: "first_element n T j th = n * ((j + th) mod T)"
  by (simp only: first_element_def mult_mod_right)

lemma elements_each_enough: "0 < T \<Longrightarrow> items \<le> elements_each items T * T"
  using dividend_less_div_times [of T "items + T - 1"] by (simp add: elements_each_def)

lemma elements_each_pos: "0 < T \<Longrightarrow> 0 < items \<Longrightarrow> 0 < elements_each items T"
  by (simp add: elements_each_def div_greater_zero_iff)

lemma same_element:
  assumes "th < T" and "th' < T" and "k < n" and "k' < n"
    and "first_element n T j th + k = first_element n T j th' + k'"
  shows "th = th' \<and> k = k'"
proof -
  have "(n * p + x) div n = p \<and> (n * p + x) mod n = x" if "x < n" for p x using that by simp
  then have "(j + th) mod T = (j + th') mod T" "k = k'"
    using assms(3-5) unfolding first_element_piece by metis+
  moreover have "j mod T < T" using assms(1) by simp
  ultimately show ?thesis
    using assms(1,2) by (simp add: piece_cases split: if_splits)
qed

text \<open>The thread that works on an element in an iteration, and the iteration in which it does.\<close>

definition other :: "nat \<Rightarrow> nat \<Rightarrow> nat \<Rightarrow> nat" where
  "other T p c = (if c mod T \<le> p then p - c mod T else p + T - c mod T)"

lemma other_ok:
  assumes "p < T"
  shows "other T p c < T \<and> (c + other T p c) mod T = p"
proof -
  define r where "r = c mod T"
  have "r < T" using assms by (simp add: r_def)
  moreover have o: "other T p c = (if r \<le> p then p - r else p + T - r)" by (simp add: other_def r_def)
  ultimately have "other T p c < T" using assms by auto
  with \<open>r < T\<close> assms show ?thesis by (auto simp: piece_cases o simp flip: r_def)
qed

lemma other_unique:
  assumes "p < T" and "x < T" and "(c + x) mod T = p"
  shows "x = other T p c"
proof -
  have "c mod T < T" using assms(1) by simp
  then show ?thesis using assms piece_cases [OF assms(2), of c] by (auto simp: other_def split: if_splits)
qed

definition owner :: "nat \<Rightarrow> nat \<Rightarrow> nat \<Rightarrow> nat \<Rightarrow> nat" where
  "owner n T j i = other T (i div n) j"

lemma owner_ok:
  assumes "i < n * T"
  shows "owner n T j i < T" and "first_element n T j (owner n T j i) + i mod n = i"
    and "i mod n < n"
proof -
  have "0 < n" using assms by (cases n) auto
  then show "i mod n < n" by simp
  have "i div n < T" using assms \<open>0 < n\<close> by (simp add: less_mult_imp_div_less mult.commute)
  from other_ok [OF this, of j] show "owner n T j i < T"
    "first_element n T j (owner n T j i) + i mod n = i"
    by (simp_all add: owner_def first_element_piece)
qed

lemma owner_swap: "i div n < T \<Longrightarrow> j < T \<Longrightarrow> owner n T (owner n T j i) i = j"
  using other_ok [of "i div n" T j] other_unique [of "i div n" T j "owner n T j i"]
  by (simp add: owner_def add.commute)

section \<open>An iteration\<close>

definition progress :: "'m::plus list list \<Rightarrow> nat \<Rightarrow> 'm list \<Rightarrow> 'm reduction \<Rightarrow> bool" where
  "progress locals j shared s \<longleftrightarrow>
     (let T = length locals; n = elements_each (length shared) T in
      length (re_values s) = length shared \<and> length (re_k s) = T \<and> length (re_loaded s) = T \<and>
      (\<forall>th < T. re_k s ! th \<le> n \<and> (re_loaded s ! th = None \<or> re_loaded s ! th = Some (shared ! element T j s th)) \<and>
        (\<forall>k < n. let i = first_element n T j th + k in i < length shared \<longrightarrow>
          re_values s ! i = (if k < re_k s ! th then shared ! i + locals ! th ! i else shared ! i))))"

lemma progress_begin: "progress locals j shared (begin_iteration (length locals) shared)"
  by (simp add: progress_def begin_iteration_def Let_def)

lemma progress_turn:
  assumes p: "progress locals j shared s"
  shows "progress locals j shared (turn locals j s a)"
proof (cases "a < length locals \<and> working (length locals) j s a")
  case True
  let ?T = "length locals" and ?n = "elements_each (length shared) (length locals)"
  let ?i = "element ?T j s a" and ?k = "re_k s ! a"
  have lens: "length (re_values s) = length shared" "length (re_k s) = ?T" "length (re_loaded s) = ?T"
    using p by (simp_all add: progress_def Let_def)
  have a: "a < ?T" "?k < ?n" "?i < length shared" and i: "?i = first_element ?n ?T j a + ?k"
    using True by (simp_all add: working_def element_def lens)
  have inv: "re_k s ! th \<le> ?n" "re_loaded s ! th = None \<or> re_loaded s ! th = Some (shared ! element ?T j s th)"
    "k < ?n \<Longrightarrow> first_element ?n ?T j th + k < length shared \<Longrightarrow> re_values s ! (first_element ?n ?T j th + k) =
      (if k < re_k s ! th then shared ! (first_element ?n ?T j th + k) + locals ! th ! (first_element ?n ?T j th + k)
       else shared ! (first_element ?n ?T j th + k))" if "th < ?T" for th k
    using p that by (simp_all add: progress_def Let_def)
  have loaded: "re_values s ! ?i = shared ! ?i" using inv(3) [OF a(1,2)] a(3) i by simp
  have apart: "first_element ?n ?T j th + k \<noteq> ?i" if "th < ?T" "k < ?n" "th \<noteq> a \<or> k \<noteq> ?k" for th k
    using same_element [OF that(1) a(1) that(2) a(2), of j] that(3) i by auto
  show ?thesis
  proof (cases "re_loaded s ! a")
    case None
    then have "turn locals j s a = s\<lparr>re_loaded := (re_loaded s)[a := Some (shared ! ?i)]\<rparr>"
      using True by (simp add: turn_def Let_def loaded)
    then show ?thesis
      using inv lens a(1) by (auto simp: progress_def Let_def element_def nth_list_update)
  next
    case (Some v)
    with inv(2) [OF a(1)] have t: "turn locals j s a = s\<lparr>re_values := (re_values s)[?i := shared ! ?i + locals ! a ! ?i],
        re_k := (re_k s)[a := Suc ?k], re_loaded := (re_loaded s)[a := None]\<rparr>"
      using True by (simp add: turn_def Let_def)
    show ?thesis
      unfolding progress_def Let_def
    proof (intro conjI allI impI)
      fix th k assume th: "th < ?T" and k: "k < ?n" and b: "first_element ?n ?T j th + k < length shared"
      show "re_values (turn locals j s a) ! (first_element ?n ?T j th + k) =
          (if k < re_k (turn locals j s a) ! th
           then shared ! (first_element ?n ?T j th + k) + locals ! th ! (first_element ?n ?T j th + k)
           else shared ! (first_element ?n ?T j th + k))"
      proof (cases "th = a \<and> k = ?k")
        case True
        then show ?thesis using a lens i by (simp add: t)
      next
        case False
        then have "k < re_k (turn locals j s a) ! th \<longleftrightarrow> k < re_k s ! th"
          using th lens False by (cases "th = a") (auto simp: t)
        with False apart [OF th k] inv(3) [OF th k b] show ?thesis by (simp add: t)
      qed
    next
      fix th assume th: "th < ?T"
      show "re_k (turn locals j s a) ! th \<le> ?n" using inv(1) [OF th] a(2) lens(2) th by (cases "th = a") (simp_all add: t)
      show "re_loaded (turn locals j s a) ! th = None \<or>
          re_loaded (turn locals j s a) ! th = Some (shared ! element ?T j (turn locals j s a) th)"
        using inv(2) [OF th] th lens by (cases "th = a") (auto simp: t element_def)
    qed (simp_all add: t lens)
  qed
next
  case False
  then have "turn locals j s a = s" by (auto simp: turn_def)
  with p show ?thesis by simp
qed

lemma progress_run: "progress locals j shared (foldl (turn locals j) (begin_iteration (length locals) shared) schedule)"
  by (induction schedule rule: rev_induct) (simp_all add: progress_begin progress_turn)

text \<open>The iteration's result, whatever the schedule.\<close>

lemma iteration_result:
  assumes "run_iteration locals j schedule shared = Some shared'" and "locals \<noteq> []"
  defines "n \<equiv> elements_each (length shared) (length locals)"
  shows "shared' = map (\<lambda>i. shared ! i + locals ! owner n (length locals) j i ! i) [0..<length shared]"
proof -
  let ?T = "length locals" and ?s = "foldl (turn locals j) (begin_iteration (length locals) shared) schedule"
  have b: "at_barrier ?T j ?s" and v: "shared' = re_values ?s"
    using assms(1) by (simp_all add: run_iteration_def Let_def split: if_splits)
  note p = progress_run [of locals j shared schedule]
  then have len: "length shared' = length shared" by (simp add: v progress_def Let_def)
  have state: "first_element n ?T j th + k < length shared \<Longrightarrow> re_values ?s ! (first_element n ?T j th + k) =
      (if k < re_k ?s ! th then shared ! (first_element n ?T j th + k) + locals ! th ! (first_element n ?T j th + k)
       else shared ! (first_element n ?T j th + k))" if "th < ?T" "k < n" for th k
    using p that by (simp add: progress_def Let_def n_def)
  show ?thesis
  proof (rule nth_equalityI)
    fix i assume "i < length shared'"
    then have i: "i < length shared" by (simp add: len)
    also have "\<dots> \<le> n * ?T" unfolding n_def by (rule elements_each_enough) (use assms(2) in simp)
    finally have o: "owner n ?T j i < ?T" "first_element n ?T j (owner n ?T j i) + i mod n = i" "i mod n < n"
      by (rule owner_ok)+
    let ?k = "re_k ?s ! owner n ?T j i"
    have "\<not> working ?T j ?s (owner n ?T j i)" using b o(1) by (simp add: at_barrier_def list_all_iff)
    then have done_: "\<not> (?k < n \<and> first_element n ?T j (owner n ?T j i) + ?k < length shared)"
      using p by (simp add: working_def element_def progress_def Let_def n_def)
    have "i mod n < ?k"
    proof (rule ccontr)
      assume "\<not> i mod n < ?k"
      with o i done_ show False by linarith
    qed
    moreover have "re_values ?s ! (first_element n ?T j (owner n ?T j i) + i mod n) =
      (if i mod n < ?k then shared ! i + locals ! owner n ?T j i ! i else shared ! i)"
      using state [OF o(1,3)] o(2) i by simp
    ultimately show "shared' ! i = map (\<lambda>i. shared ! i + locals ! owner n ?T j i ! i) [0..<length shared] ! i"
      using i o(2) by (simp add: v)
  qed (simp add: len)
qed

text \<open>A thread with enough turns reaches the barrier.\<close>

definition steps_done :: "'m reduction \<Rightarrow> nat \<Rightarrow> nat" where
  "steps_done s th = 2 * re_k s ! th + (if re_loaded s ! th = None then 0 else 1)"

lemma turn_steps:
  assumes "length (re_k s) = length locals" and "length (re_loaded s) = length locals"
    and "working (length locals) j s th" and "th < length locals"
  shows "steps_done (turn locals j s a) th = (if a = th then Suc (steps_done s th) else steps_done s th)"
  using assms by (auto simp: turn_def Let_def steps_done_def nth_list_update split: option.splits)

lemma turn_working:
  assumes "working (length locals) j (turn locals j s a) th"
    and "length (re_k s) = length locals" and "th < length locals"
  shows "working (length locals) j s th"
  using assms
  by (cases "a = th") (auto simp: turn_def working_def element_def Let_def nth_list_update split: if_splits option.splits)

lemma enough_turns:
  fixes locals :: "'m::plus list list" and j :: nat
  defines "s \<equiv> \<lambda>schedule shared. foldl (turn locals j) (begin_iteration (length locals) shared) schedule"
  assumes "th < length locals" and "working (length locals) j (s schedule shared) th"
  shows "count_list schedule th \<le> steps_done (s schedule shared) th"
  using assms(3)
proof (induction schedule rule: rev_induct)
  case (snoc a schedule)
  have lens: "length (re_k (s schedule shared)) = length locals" "length (re_loaded (s schedule shared)) = length locals"
    using progress_run [of locals j shared schedule] by (simp_all add: s_def progress_def Let_def)
  have w: "working (length locals) j (s schedule shared) th"
    using turn_working [of locals j "s schedule shared" a th] snoc.prems lens(1) assms(2) by (simp add: s_def)
  from turn_steps [OF lens w assms(2), of a] snoc.IH [OF w] show ?case by (simp add: s_def)
qed simp

lemma iteration_ends:
  assumes "\<And>th. th < length locals \<Longrightarrow> 2 * elements_each (length shared) (length locals) \<le> count_list schedule th"
  shows "\<exists>shared'. run_iteration locals j schedule shared = Some shared'"
proof -
  let ?s = "foldl (turn locals j) (begin_iteration (length locals) shared) schedule"
  have "\<not> working (length locals) j ?s th" if "th < length locals" for th
  proof
    assume w: "working (length locals) j ?s th"
    with progress_run [of locals j shared schedule] have "re_k ?s ! th < elements_each (length shared) (length locals)"
      by (simp add: working_def progress_def Let_def)
    with enough_turns [OF that w] assms [OF that] show False by (simp add: steps_done_def split: if_splits)
  qed
  then show ?thesis by (simp add: run_iteration_def Let_def at_barrier_def list_all_iff)
qed

section \<open>All iterations\<close>

lemma reduce_team_ok:
  assumes "locals \<noteq> []"
    and "\<And>schedule th. schedule \<in> set schedules \<Longrightarrow> th < length locals \<Longrightarrow>
      2 * elements_each (length shared) (length locals) \<le> count_list schedule th"
  defines "n \<equiv> elements_each (length shared) (length locals)"
  shows "reduce_team locals j schedules shared = Some (map (\<lambda>i. foldl (+) (shared ! i)
      (map (\<lambda>j. locals ! owner n (length locals) j i ! i) [j..<j + length schedules])) [0..<length shared])"
  using assms(2) unfolding n_def
proof (induction schedules arbitrary: j shared)
  case Nil
  then show ?case by (simp add: map_nth)
next
  case (Cons schedule schedules)
  obtain shared' where run: "run_iteration locals j schedule shared = Some shared'"
    using iteration_ends [of locals shared schedule j] Cons.prems by auto
  note v = iteration_result [OF run assms(1)]
  have "[j..<Suc (j + length schedules)] = j # [Suc j..<Suc (j + length schedules)]"
    by (rule upt_conv_Cons) simp
  with run Cons.IH [of shared' "Suc j"] Cons.prems show ?case by (simp add: v del: upt_Suc)
qed

text \<open>Over all iterations each thread works once on each element.\<close>

lemma owners_are_threads:
  assumes "i div n < T"
  shows "(\<lambda>j. owner n T j i) ` {0..<T} = {0..<T}" and "inj_on (\<lambda>j. owner n T j i) {0..<T}"
proof -
  have less: "owner n T j i < T" for j using other_ok [OF assms, of j] by (simp add: owner_def)
  have again: "owner n T (owner n T j i) i = j" if "j < T" for j using owner_swap [OF assms that] .
  show inj: "inj_on (\<lambda>j. owner n T j i) {0..<T}"
    by (rule inj_on_inverseI [where g = "\<lambda>th. owner n T th i"]) (simp add: again)
  show "(\<lambda>j. owner n T j i) ` {0..<T} = {0..<T}"
    by (rule endo_inj_surj [OF _ _ inj]) (use less in auto)
qed

lemma foldl_sum: "foldl (+) a (map f xs) = a + sum_list (map f xs)" for a :: "'a::comm_monoid_add"
  by (induction xs arbitrary: a) (simp_all add: add.assoc)

lemma team_sum:
  fixes locals :: "'m::comm_monoid_add list list"
  assumes "i < elements_each items (length locals) * length locals"
  defines "n \<equiv> elements_each items (length locals)"
  shows "foldl (+) a (map (\<lambda>j. locals ! owner n (length locals) j i ! i) [0..<length locals])
    = a + sum_list (map (\<lambda>l. l ! i) locals)"
proof -
  have "i div n < length locals" using assms by (simp add: less_mult_imp_div_less mult.commute)
  note o = owners_are_threads [where n = n, OF this]
  have "sum_list (map (\<lambda>j. locals ! owner n (length locals) j i ! i) [0..<length locals])
      = (\<Sum>j \<in> {0..<length locals}. locals ! owner n (length locals) j i ! i)"
    by (simp add: interv_sum_list_conv_sum_set_nat)
  also have "\<dots> = (\<Sum>th \<in> {0..<length locals}. locals ! th ! i)"
    using sum.reindex [OF o(2), of "\<lambda>th. locals ! th ! i"] by (simp add: o(1) comp_def)
  also have "\<dots> = sum_list (map (\<lambda>l. l ! i) locals)" by (simp add: sum_list_sum_nth)
  finally show ?thesis by (simp add: foldl_sum)
qed

section \<open>Properties\<close>

text \<open>C34: when a team adds its vectors, no two threads work on the same element of the shared vector in an
  iteration, and over all iterations every thread works exactly once on every element.\<close>

theorem team_is_race_free:
  assumes "0 < num_threads" and "n = elements_each items num_threads" and "th < num_threads" and "i < items"
  shows "(\<forall>th' k k'. th' < num_threads \<and> th' \<noteq> th \<and> k < n \<and> k' < n \<longrightarrow>
      first_element n num_threads j th + k \<noteq> first_element n num_threads j th' + k') \<and>
    (\<exists>!j. j < num_threads \<and> (\<exists>k < n. first_element n num_threads j th + k = i))"
proof -
  have "items \<le> n * num_threads" using elements_each_enough [OF assms(1)] assms(2) by simp
  with assms(4) have i: "i < n * num_threads" by simp
  then have p: "i div n < num_threads" by (simp add: less_mult_imp_div_less mult.commute)
  have "\<exists>!j. j < num_threads \<and> (\<exists>k < n. first_element n num_threads j th + k = i)"
  proof (rule ex1I [of _ "owner n num_threads th i"])
    show "owner n num_threads th i < num_threads \<and>
        (\<exists>k < n. first_element n num_threads (owner n num_threads th i) th + k = i)"
      using owner_ok(1,2) [OF i, of th] owner_ok(3) [OF i] by (auto simp: first_element_piece add.commute [of _ th])
    fix j assume j: "j < num_threads \<and> (\<exists>k < n. first_element n num_threads j th + k = i)"
    then have "(th + j) mod num_threads = i div n" by (auto simp: first_element_piece add.commute)
    then show "j = owner n num_threads th i" using other_unique [OF p, of j th] j by (simp add: owner_def)
  qed
  then show ?thesis using same_element [OF assms(3)] by blast
qed

lemma team_is_race_free_witness:
  "\<exists>!j. j < 4 \<and> (\<exists>k < 6. first_element 6 4 j 3 + k = (20::nat))"
  using team_is_race_free [of 4 6 22 3 20] by (simp add: elements_each_def)

text \<open>C33: the values of a team do not depend on the number of its threads, on the blobs that each of them is
  given, or on the order in which they run: if the plugin adds the values of a blob to the vector, the
  values are those of evaluating all blobs one after the other. A team whose threads get enough turns in
  each iteration always ends.\<close>

theorem team_evaluates_all:
  fixes contribution :: "'i \<Rightarrow> nat \<Rightarrow> 'm::comm_monoid_add"
  assumes "given \<noteq> []" and "length schedules = length given"
    and "mset (concat given) = mset identifiers"
    and "\<And>i v. evaluate i v = map (\<lambda>x. v ! x + contribution i x) [0..<length v]"
    and "\<And>schedule th. schedule \<in> set schedules \<Longrightarrow> th < length given \<Longrightarrow>
      2 * elements_each items (length given) \<le> count_list schedule th"
  shows "evaluate_in_team evaluate items given schedules = Some (local_values evaluate items identifiers)"
proof -
  have local: "local_values evaluate items is = map (\<lambda>x. sum_list (map (\<lambda>i. contribution i x) is)) [0..<items]" for "is"
    by (induction "is" rule: rev_induct)
      (simp_all add: local_values_def assms(4) map_replicate_const)
  let ?locals = "map (local_values evaluate items) given"
  have "i < elements_each items (length ?locals) * length ?locals" if "i < items" for i
    using elements_each_enough [of "length given" items] that assms(1) by simp
  note sums = team_sum [OF this]
  have "evaluate_in_team evaluate items given schedules
      = Some (map (\<lambda>i. 0 + sum_list (map (\<lambda>l. l ! i) ?locals)) [0..<items])"
    unfolding evaluate_in_team_def
    using reduce_team_ok [of ?locals schedules "replicate items 0" 0] assms(1,2,5) sums by simp
  also have "map (\<lambda>i. 0 + sum_list (map (\<lambda>l. l ! i) ?locals)) [0..<items] = local_values evaluate items identifiers"
  proof -
    have "sum_list (map (\<lambda>l. l ! x) ?locals) = sum_list (map (\<lambda>i. contribution i x) (concat given))" if "x < items" for x
      using that by (simp add: comp_def local) (induction given, simp_all)
    moreover have "sum_list (map (\<lambda>i. contribution i x) (concat given)) = sum_list (map (\<lambda>i. contribution i x) identifiers)" for x
      using assms(3) by (metis mset_map sum_mset_sum_list)
    ultimately show ?thesis unfolding local by simp
  qed
  finally show ?thesis .
qed

definition sample_evaluate :: "nat \<Rightarrow> nat list \<Rightarrow> nat list" where
  "sample_evaluate i v = map (\<lambda>x. v ! x + (if x = i then 1 else 0)) [0..<length v]"

lemma team_evaluates_all_witness:
  "evaluate_in_team sample_evaluate 3 [[2, 0], [2]] [[0, 1, 0, 1, 1, 1, 0, 0], [1, 0, 0, 1, 1, 1, 0, 0]]
    = Some (local_values sample_evaluate 3 [0, 2, 2])"
proof (rule team_evaluates_all [where contribution = "\<lambda>i x. if x = i then 1 else 0"])
  fix schedule th assume "schedule \<in> set [[0, 1, 0, 1, 1, 1, 0, 0], [1, 0, 0, 1, 1, 1, 0, 0 :: nat]]"
    and "th < length [[2, 0], [2 :: nat]]"
  then have "th = 0 \<or> th = 1" "count_list schedule th = 4" by (auto simp: less_Suc_eq)
  moreover have "elements_each 3 2 = 2" by (simp add: elements_each_def)
  ultimately show "2 * elements_each 3 (length [[2, 0], [2 :: nat]]) \<le> count_list schedule th"
    by (simp del: One_nat_def add: numeral_2_eq_2 [symmetric])
qed (simp_all add: sample_evaluate_def)

end
