(* ===== verification/QueryOrders.thy ===== *)
theory QueryOrders
  imports Symbols "HOL-Library.Product_Lexorder" "HOL-Library.List_Lexorder" "HOL-Library.Char_ord"
    "HOL-Library.Tree"
begin

text \<open>
  The comparisons of the query library (Queries.cxx), with which source objects of different databases are
  kept in one map, and the addition of maps of stack traces (AdditionAssignment.txx). A source object is
  its database with its entry. The main results are that linked objects, functions and statements are
  compared by a key, and that the comparison of loops, which tests for equality, is no order: a map never
  finds what it is asked for.
\<close>

section \<open>Comparisons\<close>

type_synonym object = "session \<times> int"

definition read :: "(int \<Rightarrow> (session, 'a) op) \<Rightarrow> object \<Rightarrow> 'a res" where
  "read f x = fst (f (snd x) (fst x))"

definition CompareLinkedObjects :: "object \<Rightarrow> object \<Rightarrow> bool res" where
  "CompareLinkedObjects lhs rhs =
     bind_res (read LinkedObject_getPath lhs) (\<lambda>p. bind_res (read LinkedObject_getPath rhs) (\<lambda>q. Ok (p < q)))"

definition path_of_object :: "(int \<Rightarrow> (session, int option) op) \<Rightarrow> object \<Rightarrow> string res" where
  "path_of_object getLinkedObject x =
     bind_res (read getLinkedObject x) (\<lambda>l.
       case l of None \<Rightarrow> Abort | Some l \<Rightarrow> read LinkedObject_getPath (fst x, l))"

definition compare_paths :: "(object \<Rightarrow> string res) \<Rightarrow> object \<Rightarrow> object \<Rightarrow> bool res" where
  "compare_paths path lhs rhs = bind_res (path lhs) (\<lambda>p. bind_res (path rhs) (\<lambda>q. Ok (p < q)))"

definition CompareFunctions :: "bool \<Rightarrow> object \<Rightarrow> object \<Rightarrow> bool res" where
  "CompareFunctions less_restrictive lhs rhs =
     bind_res (read Function_getMangledName lhs) (\<lambda>p. bind_res (read Function_getMangledName rhs) (\<lambda>q.
       if p < q then Ok True
       else if q < p then Ok False
       else if less_restrictive then Ok False
       else compare_paths (path_of_object Function_getLinkedObject) lhs rhs))"

definition CompareStatements :: "int \<Rightarrow> bool \<Rightarrow> object \<Rightarrow> object \<Rightarrow> bool res" where
  "CompareStatements garbage less_restrictive lhs rhs =
     bind_res (read (Statement_getLine garbage) lhs) (\<lambda>l. bind_res (read (Statement_getLine garbage) rhs) (\<lambda>m.
     if l < m then Ok True
     else if l > m then Ok False
     else
       bind_res (read (Statement_getColumn garbage) lhs) (\<lambda>c. bind_res (read (Statement_getColumn garbage) rhs) (\<lambda>d.
       if c < d then Ok True
       else if c > d then Ok False
       else if l \<noteq> 0 \<and> m \<noteq> 0 \<and> less_restrictive then Ok False
       else
         bind_res (read Statement_getPath lhs) (\<lambda>p. bind_res (read Statement_getPath rhs) (\<lambda>q.
         if p < q then Ok True
         else if q < p then Ok False
         else compare_paths (path_of_object Statement_getLinkedObject) lhs rhs))))))"

text \<open>Two sets of statements are equal if they have the same statements of the same database.\<close>

definition CompareLoops :: "('l \<Rightarrow> 's set res) \<Rightarrow> 'l \<Rightarrow> 'l \<Rightarrow> bool res" where
  "CompareLoops getDefinitions lhs rhs =
     bind_res (getDefinitions lhs) (\<lambda>d. bind_res (getDefinitions rhs) (\<lambda>e. Ok (if d = e then True else False)))"

section \<open>Stack traces\<close>

text \<open>A stack trace is a vector of addresses, which is all that is compared.\<close>

record StackTrace =
  frames :: "addr list"
  dm_thread :: int
  dm_time :: time

definition StackTrace_getLinkedObjectAt :: "nat \<Rightarrow> StackTrace \<Rightarrow> (session, int option) op" where
  "StackTrace_getLinkedObjectAt index self =
     Thread_getLinkedObjectAt (dm_thread self) (frames self ! index) (dm_time self)"

definition StackTrace_getFunctionAt ::
  "(nat \<Rightarrow> byte) \<Rightarrow> nat \<Rightarrow> StackTrace \<Rightarrow> (session, int option) op" where
  "StackTrace_getFunctionAt beyond index self =
     Thread_getFunctionAt beyond (dm_thread self) (frames self ! index) (dm_time self)"

definition StackTrace_getStatementsAt ::
  "(nat \<Rightarrow> byte) \<Rightarrow> nat \<Rightarrow> StackTrace \<Rightarrow> (session, int set) op" where
  "StackTrace_getStatementsAt beyond index self =
     Thread_getStatementsAt beyond (dm_thread self) (frames self ! index) (dm_time self)"

definition stack_less :: "StackTrace \<Rightarrow> StackTrace \<Rightarrow> bool" where
  "stack_less a b = (frames a < frames b)"

definition add_stack_traces ::
  "('v \<Rightarrow> 'v \<Rightarrow> 'v) \<Rightarrow> (StackTrace, 'v) stdmap \<Rightarrow> (StackTrace, 'v) stdmap \<Rightarrow> (StackTrace, 'v) stdmap" where
  "add_stack_traces item_plus lhs rhs =
     foldl (\<lambda>lhs (trace, v).
         if map_find stack_less trace lhs = None then map_insert stack_less trace v lhs
         else map_modify stack_less trace (\<lambda>x. item_plus x v) lhs) lhs rhs"

definition append_vector :: "'v list \<Rightarrow> 'v list \<Rightarrow> 'v list" where
  "append_vector lhs rhs = lhs @ rhs"

section \<open>The keys\<close>

definition function_key :: "object \<Rightarrow> (string \<times> string) res" where
  "function_key x =
     bind_res (read Function_getMangledName x) (\<lambda>n.
     bind_res (path_of_object Function_getLinkedObject x) (\<lambda>p. Ok (n, p)))"

definition statement_key :: "int \<Rightarrow> object \<Rightarrow> (int \<times> int \<times> string \<times> string) res" where
  "statement_key garbage x =
     bind_res (read (Statement_getLine garbage) x) (\<lambda>l.
     bind_res (read (Statement_getColumn garbage) x) (\<lambda>c.
     bind_res (read Statement_getPath x) (\<lambda>p.
     bind_res (path_of_object Statement_getLinkedObject x) (\<lambda>o'. Ok (l, c, p, o')))))"

text \<open>Less restrictive: the paths count only for statements of line zero.\<close>

definition without_paths :: "int \<times> int \<times> string \<times> string \<Rightarrow> int \<times> int \<times> string \<times> string" where
  "without_paths = (\<lambda>(l, c, p, o'). if l \<noteq> 0 then (l, c, [], []) else (l, c, p, o'))"

interpretation linked_objects: key_order "\<lambda>a b. CompareLinkedObjects a b = Ok True" "\<lambda>_. True"
  by unfold_locales (auto simp: CompareLinkedObjects_def bind_res_Ok_iff)

lemma compare_paths_less: "compare_paths path a b = Ok True \<longleftrightarrow> (\<exists>p q. path a = Ok p \<and> path b = Ok q \<and> p < q)"
  by (auto simp: compare_paths_def bind_res_Ok_iff)

lemma functions_less: "CompareFunctions less_restrictive a b = Ok True \<longleftrightarrow>
    (\<exists>p q. read Function_getMangledName a = Ok p \<and> read Function_getMangledName b = Ok q \<and>
      (p < q \<or> p = q \<and> \<not> less_restrictive \<and> compare_paths (path_of_object Function_getLinkedObject) a b = Ok True))"
  by (auto simp: CompareFunctions_def bind_res_Ok_iff)

interpretation functions_by_name: key_order "\<lambda>a b. CompareFunctions less_restrictive a b = Ok True" "\<lambda>_. True"
proof
  show "\<not> CompareFunctions less_restrictive a a = Ok True" for a
    by (simp add: functions_less compare_paths_less)
  show "CompareFunctions less_restrictive a c = Ok True"
    if "CompareFunctions less_restrictive a b = Ok True" "CompareFunctions less_restrictive b c = Ok True" for a b c
    using that unfolding functions_less compare_paths_less by (auto intro: less_trans)
qed

definition line_of :: "int \<Rightarrow> object \<Rightarrow> int" where
  "line_of garbage x = the_Ok (read (Statement_getLine garbage) x)"

definition column_of :: "int \<Rightarrow> object \<Rightarrow> int" where
  "column_of garbage x = the_Ok (read (Statement_getColumn garbage) x)"

lemma lines_and_columns:
  "read (Statement_getLine garbage) x = Ok (line_of garbage x)"
  "read (Statement_getColumn garbage) x = Ok (column_of garbage x)"
  by (simp_all add: line_of_def column_of_def read_def Statement_getLine_def Statement_getColumn_def reading_fst)

definition paths_less :: "object \<Rightarrow> object \<Rightarrow> bool" where
  "paths_less a b \<longleftrightarrow> (\<exists>p q. read Statement_getPath a = Ok p \<and> read Statement_getPath b = Ok q \<and>
     (p < q \<or> p = q \<and> compare_paths (path_of_object Statement_getLinkedObject) a b = Ok True))"

lemma paths_less_order: "\<not> paths_less a a" "paths_less a b \<Longrightarrow> paths_less b c \<Longrightarrow> paths_less a c"
  by (auto simp: paths_less_def compare_paths_less intro: less_trans)

lemma statements_less: "CompareStatements garbage less_restrictive a b = Ok True \<longleftrightarrow>
    line_of garbage a < line_of garbage b \<or> line_of garbage a = line_of garbage b \<and>
    (column_of garbage a < column_of garbage b \<or> column_of garbage a = column_of garbage b \<and>
      \<not> (line_of garbage a \<noteq> 0 \<and> less_restrictive) \<and> paths_less a b)"
  by (auto simp: CompareStatements_def lines_and_columns paths_less_def bind_res_Ok_iff)

interpretation statements_by_line: key_order "\<lambda>a b. CompareStatements garbage less_restrictive a b = Ok True" "\<lambda>_. True"
  by unfold_locales (auto simp: statements_less paths_less_order intro: paths_less_order(2))

section \<open>Maps under a key\<close>

definition rekeyed :: "('k, 'v) stdmap \<Rightarrow> ('k \<Rightarrow> 'j) \<Rightarrow> ('j, 'v) stdmap" where
  "rekeyed m f = map (apfst f) m"

lemma rekeyed_ops:
  fixes f :: "'k \<Rightarrow> 'j::linorder"
  assumes "\<And>a b. lt a b \<longleftrightarrow> f a < f b"
  shows "map_find (<) (f k) (rekeyed m f) = map_option (apfst f) (map_find lt k m)"
    and "map_insert (<) (f k) v (rekeyed m f) = rekeyed (map_insert lt k v m) f"
    and "map_modify (<) (f k) g (rekeyed m f) = rekeyed (map_modify lt k g m) f"
  by (induction m) (auto simp: rekeyed_def assms)

definition stack_value :: "(StackTrace, 'v) stdmap \<Rightarrow> addr list \<Rightarrow> 'v option" where
  "stack_value m addresses = map_of (rekeyed m frames) addresses"

definition stacks_ok :: "(StackTrace, 'v) stdmap \<Rightarrow> bool" where
  "stacks_ok m \<longleftrightarrow> linear.ordered (keys (rekeyed m frames))"

lemmas stack_ops = rekeyed_ops [of stack_less frames, OF stack_less_def]

lemma add_stack_traces_ok:
  assumes "stacks_ok lhs" and "distinct (keys (rekeyed rhs frames))"
  shows "stacks_ok (add_stack_traces item_plus lhs rhs) \<and> stack_value (add_stack_traces item_plus lhs rhs) a =
    (case (stack_value lhs a, stack_value rhs a) of
       (Some x, Some y) \<Rightarrow> Some (item_plus x y) | (None, y) \<Rightarrow> y | (x, None) \<Rightarrow> x)"
  using assms
proof (induction rhs arbitrary: lhs)
  case Nil
  then show ?case by (auto simp: add_stack_traces_def stack_value_def rekeyed_def split: option.splits)
next
  case (Cons p rhs)
  obtain trace v where p: "p = (trace, v)" by (cases p)
  let ?lhs = "if map_find stack_less trace lhs = None then map_insert stack_less trace v lhs
    else map_modify stack_less trace (\<lambda>x. item_plus x v) lhs"
  have ord: "linear.ordered (keys (rekeyed lhs frames))" using Cons.prems(1) by (simp add: stacks_ok_def)
  have none: "map_find stack_less trace lhs = None \<longleftrightarrow> stack_value lhs (frames trace) = None"
    using linear_find [OF ord, of "frames trace"] stack_ops(1) [of trace lhs] by (auto simp: stack_value_def)
  have ok: "stacks_ok ?lhs"
    using linear.insert_ordered [OF ord, of "frames trace" v] ord stack_ops(2,3) [of trace]
    by (auto simp: stacks_ok_def simp flip: stack_ops(2,3))
  have "stack_value ?lhs = (stack_value lhs)(frames trace := Some (case stack_value lhs (frames trace) of
      None \<Rightarrow> v | Some x \<Rightarrow> item_plus x v))"
    using none linear_map_of_insert [OF ord, of "frames trace" v]
      linear_map_of_modify [OF ord, of "frames trace" "\<lambda>x. item_plus x v"]
    by (auto simp: stack_value_def simp flip: stack_ops(2,3) split: option.splits)
  moreover have "stack_value rhs (frames trace) = None"
    using Cons.prems(2) by (force simp: p stack_value_def rekeyed_def keys_def map_of_eq_None_iff)
  moreover have "add_stack_traces item_plus lhs (p # rhs) = add_stack_traces item_plus ?lhs rhs"
    by (simp add: add_stack_traces_def p)
  ultimately show ?case
    using Cons.IH [OF ok] Cons.prems(2)
    by (auto simp: p stack_value_def rekeyed_def split: option.splits)
qed

section \<open>Search in a tree\<close>

text \<open>
  \<open>std::map::find\<close> descends to the first key that is not less than the one asked for, and tests whether
  that is less than the key. Whether the tree is in order matters only for what it finds.
\<close>

fun first_not_less :: "('k \<Rightarrow> 'k \<Rightarrow> bool) \<Rightarrow> 'k \<Rightarrow> 'k tree \<Rightarrow> 'k option \<Rightarrow> 'k option" where
  "first_not_less lt k \<langle>\<rangle> best = best"
| "first_not_less lt k \<langle>l, a, r\<rangle> best =
     (if lt a k then first_not_less lt k r best else first_not_less lt k l (Some a))"

definition found_in :: "('k \<Rightarrow> 'k \<Rightarrow> bool) \<Rightarrow> 'k \<Rightarrow> 'k tree \<Rightarrow> 'k option" where
  "found_in lt k t =
     (case first_not_less lt k t None of None \<Rightarrow> None | Some a \<Rightarrow> if lt k a then None else Some a)"

lemma first_not_less_member:
  "first_not_less lt k t best = Some a \<Longrightarrow> best = Some a \<or> a \<in> set_tree t \<and> \<not> lt a k"
  by (induction t arbitrary: best) (auto split: if_splits)

lemma found_not_less: "found_in lt k t = Some a \<Longrightarrow> a \<in> set_tree t \<and> \<not> lt a k"
  by (auto simp: found_in_def dest: first_not_less_member split: option.splits if_splits)

section \<open>Properties\<close>

text \<open>Where their names, lines and paths can be read, functions and statements of any databases are ordered
  by these, and under less restrictive comparisons by their names, or by their lines and columns, alone;
  only statements of line zero are then still told apart by their paths.\<close>

theorem compared_by_keys:
  assumes "function_key f = Ok k" and "function_key g = Ok k'"
    and "statement_key garbage x = Ok j" and "statement_key garbage y = Ok j'"
  shows "CompareFunctions False f g = Ok (k < k') \<and> CompareFunctions True f g = Ok (fst k < fst k') \<and>
    CompareStatements garbage False x y = Ok (j < j') \<and>
    CompareStatements garbage True x y = Ok (without_paths j < without_paths j')"
proof -
  obtain n p n' p' where fns:
    "k = (n, p)" "read Function_getMangledName f = Ok n" "path_of_object Function_getLinkedObject f = Ok p"
    "k' = (n', p')" "read Function_getMangledName g = Ok n'" "path_of_object Function_getLinkedObject g = Ok p'"
    using assms(1,2) by (auto simp: function_key_def bind_res_Ok_iff)
  obtain q o' r o'' where stmts:
    "j = (line_of garbage x, column_of garbage x, q, o')" "read Statement_getPath x = Ok q"
    "path_of_object Statement_getLinkedObject x = Ok o'"
    "j' = (line_of garbage y, column_of garbage y, r, o'')" "read Statement_getPath y = Ok r"
    "path_of_object Statement_getLinkedObject y = Ok o''"
    using assms(3,4) by (auto simp: statement_key_def bind_res_Ok_iff lines_and_columns)
  show ?thesis
    by (simp add: fns stmts CompareFunctions_def CompareStatements_def compare_paths_def
        without_paths_def lines_and_columns less_prod_def') auto
qed

lemma compared_by_keys_witness:
  "CompareStatements 0 False (sample_session, 1) (sample_session, 1) = Ok False"
proof -
  have "function_key (sample_session, 1) = Ok (''main'', ''main.c'')"
    "statement_key 0 (sample_session, 1) = Ok (10, 0, ''main.c'', ''main.c'')"
    by code_simp+
  from compared_by_keys [OF this(1,1,2,2)] show ?thesis by simp
qed

text \<open>C36: the comparison of loops holds of a loop and itself, so it is no strict weak order, and a map that uses
  it, whatever the shape of its tree, never finds a loop that has the definitions asked for.\<close>

theorem equal_loops_not_found:
  assumes "\<And>l. l \<in> insert loop (set_tree t) \<Longrightarrow> getDefinitions l = Ok (d l)"
  shows "CompareLoops getDefinitions loop loop = Ok True \<and>
    \<not> key_order (\<lambda>a b. CompareLoops getDefinitions a b = Ok True) (\<lambda>_. True) \<and>
    (\<forall>l. found_in (\<lambda>a b. CompareLoops getDefinitions a b = Ok True) loop t = Some l \<longrightarrow> d l \<noteq> d loop)"
proof -
  let ?lt = "\<lambda>a b. CompareLoops getDefinitions a b = Ok True"
  have same: "?lt l loop \<longleftrightarrow> d l = d loop" if "l \<in> insert loop (set_tree t)" for l
    using assms [OF that] assms [of loop] by (simp add: CompareLoops_def)
  then have "d l \<noteq> d loop" if "found_in ?lt loop t = Some l" for l
    using found_not_less [OF that] by blast
  moreover have "CompareLoops getDefinitions loop loop = Ok True" using same [of loop] by simp
  ultimately show ?thesis unfolding key_order_def by blast
qed

definition sample_definitions :: "nat \<Rightarrow> nat set res" where
  "sample_definitions l = Ok {l div 10}"

lemma equal_loops_not_found_witness:
  "found_in (\<lambda>a b. CompareLoops sample_definitions a b = Ok True) 12 \<langle>\<langle>\<rangle>, 12, \<langle>\<rangle>\<rangle> \<noteq> Some 12"
  using equal_loops_not_found [of 12 "\<langle>\<langle>\<rangle>, 12, \<langle>\<rangle>\<rangle>" sample_definitions "\<lambda>l. {l div 10}"]
  by (auto simp: sample_definitions_def)

text \<open>Adding one map of stack traces to another keeps every trace of the two, and a trace that both have gets
  the sum of its two values; traces are the same if their addresses are, whatever thread and time they
  are of.\<close>

theorem added_stack_traces:
  assumes "stacks_ok lhs" and "stacks_ok rhs"
  shows "stacks_ok (add_stack_traces item_plus lhs rhs) \<and> stack_value (add_stack_traces item_plus lhs rhs) a =
    (case (stack_value lhs a, stack_value rhs a) of
       (Some x, Some y) \<Rightarrow> Some (item_plus x y) | (None, y) \<Rightarrow> y | (x, None) \<Rightarrow> x)"
  using add_stack_traces_ok [OF assms(1)] assms(2) linear.ordered_distinct by (auto simp: stacks_ok_def)

lemma added_stack_traces_witness:
  "stack_value (add_stack_traces (+) [(\<lparr>frames = [1, 2], dm_thread = 1, dm_time = 5\<rparr>, 7)]
      [(\<lparr>frames = [1, 2], dm_thread = 2, dm_time = 9\<rparr>, 4 :: nat)]) [1, 2] = Some 11"
  using added_stack_traces [of "[(\<lparr>frames = [1, 2], dm_thread = 1, dm_time = 5\<rparr>, 7)]"
      "[(\<lparr>frames = [1, 2], dm_thread = 2, dm_time = 9\<rparr>, 4 :: nat)]" "(+)" "[1, 2]"]
  by (simp add: stacks_ok_def rekeyed_def stack_value_def)

end
