(* ===== verification/SmartPtr.thy ===== *)
theory SmartPtr
  imports Base
begin

text \<open>
  Smart pointers (SmartPtr.hxx). The state holds the smart pointers of the program, each with the
  addresses of its object and of its bookkeeping, the reference counts of the bookkeepings that exist,
  and the objects that were deleted, in this order. Access to a bookkeeping that was deleted and a
  second deletion of an object are undefined (\<open>None\<close>). The destructor of an object is taken to leave
  the other smart pointers alone. The lock of the bookkeeping makes each change of
  a count one step. The main result is that no use of smart pointers is undefined, and that
  an object is deleted once, when its last pointer goes.
\<close>

section \<open>The pointers\<close>

record SmartPtr =
  dm_object :: "nat option"
  dm_bookkeeping :: nat

record memory =
  pointers :: "nat \<Rightarrow> SmartPtr option"
  dm_references :: "nat \<Rightarrow> 32 word option"
  next_bookkeeping :: nat
  deleted :: "nat list"

definition isNull :: "SmartPtr \<Rightarrow> bool" where
  "isNull ptr \<longleftrightarrow> dm_object ptr = None"

definition deref :: "SmartPtr \<Rightarrow> nat res" where
  "deref ptr = bind_res (Assert (dm_object ptr \<noteq> None)) (\<lambda>_. Ok (the (dm_object ptr)))"

definition ptr_less :: "SmartPtr \<Rightarrow> SmartPtr \<Rightarrow> bool" where
  "ptr_less ptr other \<longleftrightarrow>
     (case dm_object ptr of
        None \<Rightarrow> dm_object other \<noteq> None
      | Some a \<Rightarrow> (case dm_object other of None \<Rightarrow> False | Some b \<Rightarrow> a < b))"

text \<open>Constructors. The bookkeeping starts with one reference.\<close>

definition construct :: "nat \<Rightarrow> nat option \<Rightarrow> memory \<Rightarrow> memory" where
  "construct p object m =
     m\<lparr>pointers := (pointers m)(p \<mapsto> \<lparr>dm_object = object, dm_bookkeeping = next_bookkeeping m\<rparr>),
       dm_references := (dm_references m)(next_bookkeeping m \<mapsto> 1),
       next_bookkeeping := next_bookkeeping m + 1\<rparr>"

definition acquire :: "nat \<Rightarrow> memory \<Rightarrow> memory option" where
  "acquire b m =
     map_option (\<lambda>n. m\<lparr>dm_references := (dm_references m)(b \<mapsto> n + 1)\<rparr>) (dm_references m b)"

definition delete_object :: "nat option \<Rightarrow> memory \<Rightarrow> memory option" where
  "delete_object object m =
     (case object of
        None \<Rightarrow> Some m
      | Some obj \<Rightarrow> if obj \<in> set (deleted m) then None else Some (m\<lparr>deleted := deleted m @ [obj]\<rparr>))"

definition release :: "SmartPtr \<Rightarrow> memory \<Rightarrow> memory option" where
  "release ptr m =
     (case dm_references m (dm_bookkeeping ptr) of
        None \<Rightarrow> None
      | Some n \<Rightarrow>
          let references = n - 1;
              m = m\<lparr>dm_references := (dm_references m)(dm_bookkeeping ptr \<mapsto> references)\<rparr>
          in if references = 0
             then map_option (\<lambda>m. m\<lparr>dm_references := (dm_references m)(dm_bookkeeping ptr := None)\<rparr>)
                    (delete_object (dm_object ptr) m)
             else Some m)"

definition copy :: "nat \<Rightarrow> nat \<Rightarrow> memory \<Rightarrow> memory option" where
  "copy p other m =
     Option.bind (pointers m other) (\<lambda>ptr.
       acquire (dm_bookkeeping ptr) (m\<lparr>pointers := (pointers m)(p \<mapsto> ptr)\<rparr>))"

definition destroy :: "nat \<Rightarrow> memory \<Rightarrow> memory option" where
  "destroy p m =
     Option.bind (pointers m p) (\<lambda>ptr.
       map_option (\<lambda>m. m\<lparr>pointers := (pointers m)(p := None)\<rparr>) (release ptr m))"

definition assign :: "nat \<Rightarrow> nat \<Rightarrow> memory \<Rightarrow> memory option" where
  "assign p other m =
     Option.bind (pointers m p) (\<lambda>ptr. Option.bind (pointers m other) (\<lambda>ptr'.
       if dm_object ptr \<noteq> dm_object ptr' then
         Option.bind (release ptr m) (\<lambda>m.
           acquire (dm_bookkeeping ptr') (m\<lparr>pointers := (pointers m)(p \<mapsto> ptr')\<rparr>))
       else Some m))"

section \<open>Uses of smart pointers\<close>

datatype action = Null nat | FromObject nat nat | Copy nat nat | Destroy nat | Assign nat nat

fun act :: "action \<Rightarrow> memory \<Rightarrow> memory option" where
  "act (Null p) m = Some (construct p None m)"
| "act (FromObject p obj) m = Some (construct p (Some obj) m)"
| "act (Copy p other) m = copy p other m"
| "act (Destroy p) m = destroy p m"
| "act (Assign p other) m = assign p other m"

fun act_all :: "action list \<Rightarrow> memory \<Rightarrow> memory option" where
  "act_all [] m = Some m"
| "act_all (a # actions) m = Option.bind (act a m) (act_all actions)"

text \<open>
  What the language and the callers provide: a pointer is constructed where there is none, others are
  destroyed or copied while they exist, and an object is given to one pointer only.
\<close>

fun proper_action :: "action \<Rightarrow> nat set \<Rightarrow> nat set \<Rightarrow> bool" where
  "proper_action (Null p) ps objs \<longleftrightarrow> p \<notin> ps"
| "proper_action (FromObject p obj) ps objs \<longleftrightarrow> p \<notin> ps \<and> obj \<notin> objs"
| "proper_action (Copy p other) ps objs \<longleftrightarrow> p \<notin> ps \<and> other \<in> ps"
| "proper_action (Destroy p) ps objs \<longleftrightarrow> p \<in> ps"
| "proper_action (Assign p other) ps objs \<longleftrightarrow> p \<in> ps \<and> other \<in> ps"

fun pointers_after :: "action \<Rightarrow> nat set \<Rightarrow> nat set" where
  "pointers_after (Null p) ps = insert p ps"
| "pointers_after (FromObject p obj) ps = insert p ps"
| "pointers_after (Copy p other) ps = insert p ps"
| "pointers_after (Destroy p) ps = ps - {p}"
| "pointers_after (Assign p other) ps = ps"

fun objects_after :: "action \<Rightarrow> nat set \<Rightarrow> nat set" where
  "objects_after (FromObject p obj) objs = insert obj objs"
| "objects_after _ objs = objs"

fun all_proper :: "action list \<Rightarrow> nat set \<Rightarrow> nat set \<Rightarrow> bool" where
  "all_proper [] ps objs \<longleftrightarrow> True"
| "all_proper (a # actions) ps objs \<longleftrightarrow>
     proper_action a ps objs \<and> all_proper actions (pointers_after a ps) (objects_after a objs)"

definition no_pointers :: memory where
  "no_pointers = \<lparr>pointers = (\<lambda>_. None), dm_references = (\<lambda>_. None), next_bookkeeping = 0, deleted = []\<rparr>"

section \<open>The invariant\<close>

definition holders :: "memory \<Rightarrow> nat \<Rightarrow> nat set" where
  "holders m b = {p. \<exists>ptr. pointers m p = Some ptr \<and> dm_bookkeeping ptr = b}"

definition held :: "memory \<Rightarrow> nat set" where
  "held m = (\<Union>ptr \<in> ran (pointers m). set_option (dm_object ptr))"

definition counts_ok :: "memory \<Rightarrow> bool" where
  "counts_ok m \<longleftrightarrow> finite (dom (pointers m)) \<and>
     (\<forall>b. dm_references m b = (if holders m b = {} then None else Some (of_nat (card (holders m b))))) \<and>
     (\<forall>b \<ge> next_bookkeeping m. holders m b = {})"

text \<open>Two pointers share a bookkeeping exactly when they share an object.\<close>

definition compatible :: "SmartPtr \<Rightarrow> SmartPtr \<Rightarrow> bool" where
  "compatible ptr ptr' \<longleftrightarrow>
     (dm_bookkeeping ptr = dm_bookkeeping ptr' \<longrightarrow> dm_object ptr = dm_object ptr') \<and>
     (dm_object ptr = dm_object ptr' \<and> dm_object ptr \<noteq> None \<longrightarrow> dm_bookkeeping ptr = dm_bookkeeping ptr')"

definition sharing_ok :: "memory \<Rightarrow> bool" where
  "sharing_ok m \<longleftrightarrow> (\<forall>ptr \<in> ran (pointers m). \<forall>ptr' \<in> ran (pointers m). compatible ptr ptr')"

definition memory_ok :: "nat set \<Rightarrow> nat set \<Rightarrow> memory \<Rightarrow> bool" where
  "memory_ok ps objs m \<longleftrightarrow> counts_ok m \<and> sharing_ok m \<and> dom (pointers m) = ps \<and>
     distinct (deleted m) \<and> held m \<inter> set (deleted m) = {} \<and> held m \<union> set (deleted m) = objs"

lemma no_pointers_ok: "memory_ok {} {} no_pointers"
  by (simp add: memory_ok_def counts_ok_def sharing_ok_def holders_def held_def no_pointers_def)

lemma finite_holders: "counts_ok m \<Longrightarrow> finite (holders m b)"
  by (rule finite_subset [of _ "dom (pointers m)"]) (auto simp: counts_ok_def holders_def)

lemma card_holders: "counts_ok m \<Longrightarrow> card (holders m b) \<le> card (dom (pointers m))"
  by (rule card_mono) (auto simp: counts_ok_def holders_def)

text \<open>A pointer is set or removed.\<close>

lemma holders_set:
  "p \<notin> dom (pointers m) \<Longrightarrow> pointers m' = (pointers m)(p \<mapsto> ptr) \<Longrightarrow>
    holders m' b = (if b = dm_bookkeeping ptr then insert p (holders m b) else holders m b)"
  by (auto simp: holders_def)

lemma holders_removed:
  "pointers m p = Some ptr \<Longrightarrow> pointers m' = (pointers m)(p := None) \<Longrightarrow>
    holders m' b = (if b = dm_bookkeeping ptr then holders m b - {p} else holders m b)"
  by (auto simp: holders_def)

lemma ran_set:
  "p \<notin> dom (pointers m) \<Longrightarrow> pointers m' = (pointers m)(p \<mapsto> ptr) \<Longrightarrow>
    ran (pointers m') = insert ptr (ran (pointers m))"
  by (simp add: domIff ran_map_upd)

lemma compatible_self [simp]: "compatible ptr ptr" by (simp add: compatible_def)

lemma compatible_sym: "compatible ptr ptr' \<longleftrightarrow> compatible ptr' ptr"
  by (auto simp: compatible_def)

lemma sharing_set:
  assumes "sharing_ok m" and "ran (pointers m') = insert ptr (ran (pointers m))"
    and "\<And>ptr'. ptr' \<in> ran (pointers m) \<Longrightarrow> compatible ptr ptr'"
  shows "sharing_ok m'"
  using assms(1,3) compatible_sym [of ptr] unfolding sharing_ok_def assms(2) by simp

lemma holders_fresh: "p \<notin> dom (pointers m) \<Longrightarrow> p \<notin> holders m b"
  by (auto simp: holders_def)

lemma held_object: "pointers m p = Some ptr \<Longrightarrow> dm_object ptr = Some obj \<Longrightarrow> obj \<in> held m"
  unfolding held_def by (auto intro: ranI)

lemma construct_ok:
  assumes ok: "memory_ok ps objs m" and p: "p \<notin> ps" and new: "set_option object \<inter> objs = {}"
  shows "memory_ok (insert p ps) (set_option object \<union> objs) (construct p object m)"
proof -
  let ?m = "construct p object m" and ?ptr = "\<lparr>dm_object = object, dm_bookkeeping = next_bookkeeping m\<rparr>"
  have ptrs: "pointers ?m = (pointers m)(p \<mapsto> ?ptr)" and none: "p \<notin> dom (pointers m)"
    using ok p by (simp_all add: construct_def memory_ok_def)
  note holders = holders_set [OF none ptrs] and ran = ran_set [OF none ptrs]
  have counts: "counts_ok m" and unused: "holders m (next_bookkeeping m) = {}"
    using ok by (auto simp: memory_ok_def counts_ok_def)
  have "counts_ok ?m" unfolding counts_ok_def holders
    using counts unused by (auto simp: counts_ok_def construct_def)
  moreover have "sharing_ok ?m"
  proof (rule sharing_set [OF _ ran])
    show "sharing_ok m" using ok by (simp add: memory_ok_def)
    fix ptr' assume ptr': "ptr' \<in> ran (pointers m)"
    with unused have "dm_bookkeeping ptr' \<noteq> next_bookkeeping m" by (auto simp: holders_def ran_def)
    moreover have "set_option (dm_object ptr') \<subseteq> objs" using ok ptr' by (auto simp: memory_ok_def held_def)
    ultimately show "compatible ?ptr ptr'" using new
      by (cases object; cases "dm_object ptr'") (auto simp: compatible_def)
  qed
  moreover have "held ?m = set_option object \<union> held m" unfolding held_def ran by simp
  ultimately show ?thesis
    using ok new unfolding memory_ok_def by (auto simp: construct_def)
qed

lemma copy_ok:
  assumes ok: "memory_ok ps objs m" and p: "p \<notin> ps" and other: "other \<in> ps"
  obtains m' where "copy p other m = Some m'" and "memory_ok (insert p ps) objs m'"
proof -
  from ok other obtain ptr where ptr: "pointers m other = Some ptr" by (auto simp: memory_ok_def)
  let ?b = "dm_bookkeeping ptr"
  have none: "p \<notin> dom (pointers m)" using ok p by (simp add: memory_ok_def)
  have counts: "counts_ok m" using ok by (simp add: memory_ok_def)
  have some: "holders m ?b \<noteq> {}" using ptr by (auto simp: holders_def)
  define m' where "m' = m\<lparr>pointers := (pointers m)(p \<mapsto> ptr),
    dm_references := (dm_references m)(?b \<mapsto> of_nat (card (holders m ?b)) + 1)\<rparr>"
  have ptrs: "pointers m' = (pointers m)(p \<mapsto> ptr)" by (simp add: m'_def)
  note holders = holders_set [OF none ptrs] and ran = ran_set [OF none ptrs]
  have "copy p other m = Some m'"
    using ptr counts some by (simp add: copy_def acquire_def m'_def counts_ok_def)
  moreover have "counts_ok m'"
    unfolding counts_ok_def holders
    using counts some finite_holders [OF counts] holders_fresh [OF none] by (auto simp: counts_ok_def m'_def)
  moreover have same: "ran (pointers m') = ran (pointers m)" unfolding ran using ptr by (auto intro: ranI)
  then have "sharing_ok m'" using ok by (simp add: memory_ok_def sharing_ok_def)
  moreover have "held m' = held m" unfolding held_def same ..
  ultimately show thesis
    using that [of m'] ok unfolding memory_ok_def by (auto simp: m'_def)
qed

lemma ran_removed:
  "m p = Some ptr \<Longrightarrow> ran (m(p := None)) = {ptr'. \<exists>q. q \<noteq> p \<and> m q = Some ptr'}"
  by (auto simp: ran_def)

text \<open>The count of a pointer's bookkeeping after the pointer has gone.\<close>

lemma count_after:
  assumes "finite H" and "p \<in> H" and "card H < 2 ^ 32"
  shows "(of_nat (card H) - 1 :: 32 word) = of_nat (card (H - {p}))"
    and "(of_nat (card H) - 1 :: 32 word) = 0 \<longleftrightarrow> H = {p}"
proof -
  have card: "card H = Suc (card (H - {p}))" using assms(1,2) by (rule card.remove)
  then show eq: "(of_nat (card H) - 1 :: 32 word) = of_nat (card (H - {p}))" by simp
  have "card (H - {p}) < 2 ^ 32" using card assms(3) by simp
  then have "(of_nat (card (H - {p})) :: 32 word) = 0 \<longleftrightarrow> card (H - {p}) = 0"
    by (auto simp: word_of_nat_eq_0_iff dest: dvd_imp_le)
  moreover have "card (H - {p}) = 0 \<longleftrightarrow> H = {p}" using assms(1,2) by (subst card_0_eq) auto
  ultimately show "(of_nat (card H) - 1 :: 32 word) = 0 \<longleftrightarrow> H = {p}" unfolding eq by simp
qed

text \<open>Whether the object of a pointer goes with it.\<close>

lemma held_removed:
  assumes "sharing_ok m" and ptr: "pointers m p = Some ptr" and m': "pointers m' = (pointers m)(p := None)"
  shows "held m' = (if holders m (dm_bookkeeping ptr) = {p} then held m - set_option (dm_object ptr) else held m)"
proof -
  let ?b = "dm_bookkeeping ptr"
  have share: "compatible ptr ptr'" if "pointers m q = Some ptr'" for q ptr'
    using assms(1) ptr that unfolding sharing_ok_def by (meson ranI)
  have held': "held m' = {obj. \<exists>q ptr'. q \<noteq> p \<and> pointers m q = Some ptr' \<and> dm_object ptr' = Some obj}"
    unfolding held_def m' ran_removed [of "pointers m", OF ptr] by auto
  have held: "held m = held m' \<union> set_option (dm_object ptr)"
  proof (intro equalityI subsetI)
    fix obj assume "obj \<in> held m"
    then obtain q ptr' where "pointers m q = Some ptr'" "dm_object ptr' = Some obj"
      by (auto simp: held_def ran_def)
    with ptr show "obj \<in> held m' \<union> set_option (dm_object ptr)" unfolding held' by (cases "q = p") auto
  qed (use ptr held_object in \<open>auto simp: held'\<close>)
  show ?thesis
  proof (cases "holders m ?b = {p}")
    case True
    have "dm_object ptr' \<noteq> dm_object ptr" if "q \<noteq> p" "pointers m q = Some ptr'" "dm_object ptr' \<noteq> None" for q ptr'
    proof -
      have "q \<in> holders m (dm_bookkeeping ptr')" using that(2) by (simp add: holders_def)
      with True that(1) have "dm_bookkeeping ptr' \<noteq> ?b" by (metis singletonD)
      with share [OF that(2)] that(3) show ?thesis by (auto simp: compatible_def)
    qed
    then have "held m' \<inter> set_option (dm_object ptr) = {}" unfolding held' by (cases "dm_object ptr") auto
    with True held show ?thesis by auto
  next
    case False
    then obtain q ptr' where "q \<noteq> p" "pointers m q = Some ptr'" "dm_bookkeeping ptr' = ?b"
      using ptr by (auto simp: holders_def)
    with share [of q ptr'] have "set_option (dm_object ptr) \<subseteq> held m'"
      unfolding held' by (auto simp: compatible_def)
    with False held show ?thesis by auto
  qed
qed

lemma destroy_ok:
  assumes ok: "memory_ok ps objs m" and p: "p \<in> ps" and few: "card ps < 2 ^ 32"
  obtains m' where "destroy p m = Some m'" and "memory_ok (ps - {p}) objs m'"
proof -
  from ok p obtain ptr where ptr: "pointers m p = Some ptr" by (auto simp: memory_ok_def)
  let ?b = "dm_bookkeeping ptr" and ?H = "holders m (dm_bookkeeping ptr)"
  have counts: "counts_ok m" and sharing: "sharing_ok m" using ok by (simp_all add: memory_ok_def)
  have H: "finite ?H" "p \<in> ?H" "card ?H < 2 ^ 32"
    using finite_holders [OF counts] card_holders [OF counts, of ?b] few ok ptr
    by (auto simp: holders_def memory_ok_def)
  then have n: "dm_references m ?b = Some (of_nat (card ?H))" using counts by (auto simp: counts_ok_def)
  define m' where "m' = m\<lparr>pointers := (pointers m)(p := None),
    dm_references := (dm_references m)(?b := if ?H = {p} then None else Some (of_nat (card (?H - {p})))),
    deleted := deleted m @ (if ?H = {p} then case dm_object ptr of None \<Rightarrow> [] | Some obj \<Rightarrow> [obj] else [])\<rparr>"
  have ptrs: "pointers m' = (pointers m)(p := None)" by (simp add: m'_def)
  note held = held_removed [OF sharing ptr ptrs] and holders = holders_removed [OF ptr ptrs]
  have alive: "set_option (dm_object ptr) \<inter> set (deleted m) = {}" "set_option (dm_object ptr) \<subseteq> objs"
    using ok ptr by (auto simp: memory_ok_def held_def ran_def)
  have "destroy p m = Some m'"
  proof (cases "?H = {p}")
    case True
    with alive(1) ptr n show ?thesis
      by (cases "dm_object ptr") (simp_all add: destroy_def release_def m'_def delete_object_def)
  next
    case False
    then have "(of_nat (card (?H - {p})) :: 32 word) \<noteq> 0"
      using count_after(2) [OF H] unfolding count_after(1) [OF H] by blast
    with False ptr n show ?thesis
      by (simp add: destroy_def release_def m'_def count_after(1) [OF H])
  qed
  moreover have "counts_ok m'"
    unfolding counts_ok_def holders using counts H by (auto simp: counts_ok_def m'_def)
  moreover have "sharing_ok m'"
    using sharing unfolding sharing_ok_def ptrs ran_removed [of "pointers m", OF ptr] by (auto simp: ran_def)
  moreover have gone: "set (deleted m') = set (deleted m) \<union> (if ?H = {p} then set_option (dm_object ptr) else {})"
    by (cases "?H = {p}"; cases "dm_object ptr"; simp add: m'_def)
  moreover have "distinct (deleted m')"
    using ok alive(1) by (cases "?H = {p}"; cases "dm_object ptr"; simp add: memory_ok_def m'_def)
  moreover have "held m' \<inter> set (deleted m') = {}" "held m' \<union> set (deleted m') = objs"
    unfolding held gone using ok alive by (cases "?H = {p}"; force simp: memory_ok_def)+
  moreover have "dom (pointers m') = ps - {p}" using ok by (simp add: ptrs memory_ok_def)
  ultimately have "destroy p m = Some m'" "memory_ok (ps - {p}) objs m'" unfolding memory_ok_def by blast+
  then show thesis by (rule that)
qed

text \<open>An assignment destroys the pointer and copies the other one, unless they have the same object.\<close>

lemma assign_is_copy:
  assumes "pointers m p = Some ptr" and "pointers m other = Some ptr'" and "dm_object ptr \<noteq> dm_object ptr'"
  shows "assign p other m = Option.bind (destroy p m) (copy p other)"
proof -
  have "pointers m'' = pointers m" if "release ptr m = Some m''" for m''
    using that by (auto simp: release_def delete_object_def Let_def split: option.splits if_splits)
  moreover have "p \<noteq> other" using assms by auto
  ultimately show ?thesis using assms
    by (cases "release ptr m") (auto simp: assign_def destroy_def copy_def)
qed

lemma assign_ok:
  assumes ok: "memory_ok ps objs m" and p: "p \<in> ps" "other \<in> ps" and few: "card ps < 2 ^ 32"
  obtains m' where "assign p other m = Some m'" and "memory_ok ps objs m'"
proof -
  from ok p obtain ptr ptr' where ptr: "pointers m p = Some ptr" "pointers m other = Some ptr'"
    by (auto simp: memory_ok_def)
  show thesis
  proof (cases "dm_object ptr = dm_object ptr'")
    case True
    with ptr that ok show thesis by (simp add: assign_def)
  next
    case False
    with ptr have "other \<noteq> p" by auto
    obtain m1 where m1: "destroy p m = Some m1" "memory_ok (ps - {p}) objs m1"
      by (rule destroy_ok [OF ok p(1) few])
    obtain m2 where "copy p other m1 = Some m2" "memory_ok (insert p (ps - {p})) objs m2"
      by (rule copy_ok [OF m1(2), of p other]) (use p \<open>other \<noteq> p\<close> in auto)
    with m1 that p show thesis
      unfolding assign_is_copy [OF ptr False] by (simp add: insert_absorb)
  qed
qed

section \<open>All uses\<close>

lemma act_ok:
  assumes "memory_ok ps objs m" and "proper_action a ps objs" and "card ps < 2 ^ 32"
  shows "\<exists>m'. act a m = Some m' \<and> memory_ok (pointers_after a ps) (objects_after a objs) m'"
proof (cases a)
  case (Null p)
  with assms construct_ok [OF assms(1), of p None] show ?thesis by simp
next
  case (FromObject p obj)
  with assms construct_ok [OF assms(1), of p "Some obj"] show ?thesis by simp
next
  case (Copy p other)
  with assms show ?thesis by (auto elim: copy_ok)
next
  case (Destroy p)
  with assms show ?thesis by (auto elim: destroy_ok)
next
  case (Assign p other)
  with assms show ?thesis by (auto elim: assign_ok)
qed

lemma pointers_after_bound: "card (pointers_after a ps) \<le> Suc (card ps)"
  by (cases a; cases "finite ps"; simp add: card_insert_if card_Diff1_le le_SucI)

lemma act_all_ok:
  assumes "memory_ok ps objs m" and "all_proper actions ps objs" and "card ps + length actions \<le> 2 ^ 32"
  shows "\<exists>m'. act_all actions m = Some m' \<and>
    memory_ok (fold pointers_after actions ps) (fold objects_after actions objs) m'"
  using assms
proof (induction actions arbitrary: ps objs m)
  case (Cons a actions)
  then obtain m1 where "act a m = Some m1" "memory_ok (pointers_after a ps) (objects_after a objs) m1"
    using act_ok [OF Cons.prems(1), of a] by auto
  moreover have "card (pointers_after a ps) + length actions \<le> 2 ^ 32"
    using Cons.prems(3) pointers_after_bound [of a ps] by simp
  ultimately show ?case using Cons.IH Cons.prems(2) by simp
qed simp

lemma objects_after_all:
  "fold objects_after actions objs = objs \<union> {obj. \<exists>p. FromObject p obj \<in> set actions}"
proof (induction actions arbitrary: objs)
  case (Cons a actions)
  then show ?case by (cases a) auto
qed simp

section \<open>Property\<close>

text \<open>C40: any proper sequence of fewer than \<open>2^32\<close> constructions, copies, assignments and destructions of
  smart pointers is carried out without undefined behaviour; no object is deleted twice, and
  the objects that were deleted are those that no pointer refers to any more.\<close>

theorem smart_pointers_delete_once:
  assumes "all_proper actions {} {}" and "length actions < 2 ^ 32"
  shows "\<exists>m. act_all actions no_pointers = Some m \<and> distinct (deleted m) \<and>
    set (deleted m) = {obj. \<exists>p. FromObject p obj \<in> set actions} - held m"
proof -
  from act_all_ok [OF no_pointers_ok assms(1)] assms(2) obtain m where
    "act_all actions no_pointers = Some m"
    "memory_ok (fold pointers_after actions {}) (fold objects_after actions {}) m" by auto
  then show ?thesis unfolding objects_after_all memory_ok_def by auto
qed

lemma smart_pointers_delete_once_witness:
  "\<exists>m. act_all [FromObject 0 7, Copy 1 0, Null 2, Assign 0 2, Destroy 1] no_pointers = Some m \<and>
    set (deleted m) = {7} - held m"
proof -
  let ?actions = "[FromObject 0 7, Copy 1 0, Null 2, Assign 0 2, Destroy 1]"
  have "all_proper ?actions {} {}" "length ?actions < 2 ^ 32"
    "{obj. \<exists>p. FromObject p obj \<in> set ?actions} = {7 :: nat}" by auto
  with smart_pointers_delete_once [of ?actions] show ?thesis by (metis (no_types, lifting))
qed

text \<open>Two smart pointers to the same object that were made from its address do not know of each other.\<close>

lemma object_given_twice: "act_all [FromObject 0 7, FromObject 1 7, Destroy 0, Destroy 1] no_pointers = None"
  by (simp add: no_pointers_def construct_def destroy_def release_def delete_object_def)

end
