(* ===== verification/Path.thy ===== *)
theory Path
  imports Base
begin

text \<open>
  Paths (Path.cxx). A path is a string. The functions of \<open>std::string\<close> are written out over lists of
  characters, with \<open>None\<close> for \<open>npos\<close>. What a path asks of the operating system (the password file,
  the working directory and \<open>stat\<close>) is a record of parameters. \<open>operator+=\<close> looks at the last character
  of the path and the first of the addition even when they are empty; what it finds beside an empty
  string is not defined, so both characters are parameters too, and nothing is assumed of them. The
  first one decides whether a normalised path begins with a slash.

  The main results are that the normalised form of an absolute path is its components with ``.'' and
  ``..'' resolved, and that the first component of a relative path is lost.
\<close>

section \<open>The operating system\<close>

record stat_buffer =
  st_mode :: "32 word"

record environment =
  before_empty :: char
  after_empty :: char
  getpw_size :: int
  home_of :: "string option \<Rightarrow> string option"
  getcwd :: "string option"
  stat :: "string \<Rightarrow> stat_buffer option"

definition S_ISDIR :: "32 word \<Rightarrow> bool" where "S_ISDIR mode \<longleftrightarrow> and mode 0xF000 = 0x4000"

definition S_ISREG :: "32 word \<Rightarrow> bool" where "S_ISREG mode \<longleftrightarrow> and mode 0xF000 = 0x8000"

section \<open>Strings\<close>

definition find_first :: "(char \<Rightarrow> bool) \<Rightarrow> string \<Rightarrow> nat \<Rightarrow> nat option" where
  "find_first f s pos =
     (let k = length (takeWhile (\<lambda>c. \<not> f c) (drop pos s))
      in if pos + k < length s then Some (pos + k) else None)"

definition find_char :: "char \<Rightarrow> string \<Rightarrow> nat \<Rightarrow> nat option" where
  "find_char c = find_first (\<lambda>x. x = c)"

definition find_first_not_of :: "char \<Rightarrow> string \<Rightarrow> nat \<Rightarrow> nat option" where
  "find_first_not_of c = find_first (\<lambda>x. x \<noteq> c)"

definition rfind :: "char \<Rightarrow> string \<Rightarrow> nat option" where
  "rfind c s = (if c \<in> set s then Some (length s - 1 - length (takeWhile (\<lambda>x. x \<noteq> c) (rev s))) else None)"

definition c_string :: "string \<Rightarrow> string" where
  "c_string = takeWhile (\<lambda>c. c \<noteq> CHR 0x00)"

abbreviation slash :: char where "slash \<equiv> CHR ''/''"

section \<open>Paths\<close>

definition path_add :: "environment \<Rightarrow> string \<Rightarrow> string \<Rightarrow> string" where
  "path_add env p rhs =
     (let l = if p = [] then before_empty env else last p;
          r = if rhs = [] then after_empty env else hd rhs
      in (if l \<noteq> slash \<and> r \<noteq> slash then p @ [slash] else p) @ rhs)"

definition doesExist :: "environment \<Rightarrow> string \<Rightarrow> bool" where
  "doesExist env p \<longleftrightarrow> stat env (c_string p) \<noteq> None"

definition isAbsolute :: "string \<Rightarrow> bool" where
  "isAbsolute p \<longleftrightarrow> find_char slash p 0 = Some 0"

definition isDirectory :: "environment \<Rightarrow> string \<Rightarrow> bool" where
  "isDirectory env p = (case stat env (c_string p) of None \<Rightarrow> False | Some found \<Rightarrow> S_ISDIR (st_mode found))"

definition isFile :: "environment \<Rightarrow> string \<Rightarrow> bool" where
  "isFile env p = (case stat env (c_string p) of None \<Rightarrow> False | Some found \<Rightarrow> S_ISREG (st_mode found))"

definition isExecutable :: "environment \<Rightarrow> string \<Rightarrow> bool" where
  "isExecutable env p =
     (case stat env (c_string p) of
        None \<Rightarrow> False
      | Some found \<Rightarrow> S_ISREG (st_mode found) \<and> and (st_mode found) 0x49 \<noteq> 0)"

definition getDirName :: "string \<Rightarrow> string" where
  "getDirName p = (case rfind slash p of Some pos \<Rightarrow> take (pos + 1) p | None \<Rightarrow> ''.'')"

definition getBaseName :: "string \<Rightarrow> string" where
  "getBaseName p = (case rfind slash p of Some pos \<Rightarrow> drop (pos + 1) p | None \<Rightarrow> p)"

definition removeFirst :: "string \<Rightarrow> string" where
  "removeFirst p = (case find_char slash p 1 of Some pos \<Rightarrow> drop (pos + 1) p | None \<Rightarrow> [])"

definition removeLast :: "string \<Rightarrow> string" where
  "removeLast p = (case rfind slash p of Some pos \<Rightarrow> take pos p | None \<Rightarrow> [])"

section \<open>Normalised paths\<close>

text \<open>The home directory that a tilde expression stands for.\<close>

definition tilde_home :: "environment \<Rightarrow> string \<Rightarrow> string option" where
  "tilde_home env component =
     (if component = ''~'' then home_of env None
      else home_of env (Some (c_string (drop 1 component))))"

text \<open>The body of the loop for the \<open>n\<close>-th component, which starts at \<open>i\<close>.\<close>

definition normalize_component :: "environment \<Rightarrow> nat \<Rightarrow> nat \<Rightarrow> string \<Rightarrow> string \<Rightarrow> string res" where
  "normalize_component env n i component normalized =
     (if n = 1 \<and> find_char (CHR ''~'') component 0 = Some 0 then
        if getpw_size env \<ge> 0 then
          Ok (path_add env normalized
                (case tilde_home env component of Some dir \<Rightarrow> dir | None \<Rightarrow> component))
        else Abort
      else if n = 1 \<and> i = 0 then (case getcwd env of Some dir \<Rightarrow> Ok dir | None \<Rightarrow> Abort)
      else if component = ''.'' then Ok normalized
      else if component = ''..'' then Ok (removeLast normalized)
      else Ok (path_add env normalized component))"

lemma find_first_bounds: "find_first f s pos = Some i \<Longrightarrow> pos \<le> i \<and> i < length s"
  by (auto simp: find_first_def Let_def split: if_splits)

text \<open>The loop over the components. The position \<open>next\<close> is that of the slash after the component.\<close>

function normalize_loop :: "environment \<Rightarrow> string \<Rightarrow> nat option \<Rightarrow> nat \<Rightarrow> string \<Rightarrow> string res" where
  "normalize_loop env p None n normalized = Ok normalized"
| "normalize_loop env p (Some i) n normalized =
     (let next = find_char slash p i;
          component = (case next of None \<Rightarrow> drop i p | Some q \<Rightarrow> take (q - i) (drop i p))
      in bind_res (normalize_component env n i component normalized) (\<lambda>normalized.
           normalize_loop env p
             (case next of None \<Rightarrow> None | Some q \<Rightarrow> find_first_not_of slash p q) (n + 1) normalized))"
  by pat_completeness auto

lemma next_component:
  assumes "find_char slash p i = Some q" and "find_first_not_of slash p q = Some j"
  shows "i < j \<and> j < length p"
proof -
  from assms(1) have "i \<le> q" "q < length p" "p ! q = slash"
    using nth_length_takeWhile [of "\<lambda>c. c \<noteq> slash" "drop i p"]
    by (auto simp: find_char_def find_first_def Let_def split: if_splits)
  moreover have "q \<le> j" "j < length p" "p ! j \<noteq> slash"
    using assms(2) nth_length_takeWhile [of "\<lambda>c. c = slash" "drop q p"]
    by (auto simp: find_first_not_of_def find_first_def Let_def split: if_splits)
  ultimately show ?thesis by (cases "q = j") auto
qed

termination normalize_loop
  by (relation "measure (\<lambda>(_, p, i, _, _). case i of None \<Rightarrow> 0 | Some i \<Rightarrow> Suc (length p - i))")
    (auto split: option.splits dest: next_component intro!: diff_less_mono2)

definition getNormalized :: "environment \<Rightarrow> string \<Rightarrow> string res" where
  "getNormalized env p = normalize_loop env p (find_first_not_of slash p 0) 1 []"

section \<open>Components\<close>

text \<open>The components of a path, and their resolution.\<close>

function components :: "string \<Rightarrow> string list" where
  "components [] = []"
| "components (c # cs) =
     (if c = slash then components cs
      else (c # takeWhile (\<lambda>c. c \<noteq> slash) cs) # components (dropWhile (\<lambda>c. c \<noteq> slash) cs))"
  by pat_completeness auto

termination components
  by (relation "measure length") (auto simp: less_Suc_eq_le length_dropWhile_le)

definition resolve_component :: "string \<Rightarrow> string list \<Rightarrow> string list" where
  "resolve_component c stack =
     (if c = ''.'' then stack else if c = ''..'' then butlast stack else stack @ [c])"

definition resolve :: "string list \<Rightarrow> string list" where
  "resolve cs = fold resolve_component cs []"

definition absolute :: "string list \<Rightarrow> string" where
  "absolute cs = concat (map (\<lambda>c. slash # c) cs)"

definition plain_component :: "string \<Rightarrow> bool" where
  "plain_component c \<longleftrightarrow> c \<noteq> [] \<and> slash \<notin> set c"

lemma components_are_plain: "c \<in> set (components p) \<Longrightarrow> plain_component c"
  by (induction p rule: components.induct)
    (auto simp: plain_component_def split: if_splits dest: set_takeWhileD)

lemma components_prefix:
  assumes "plain_component c"
  shows "components (c @ slash # p) = c # components p" and "components c = [c]"
proof -
  obtain d ds where c: "c = d # ds" "d \<noteq> slash" "slash \<notin> set ds"
    using assms by (cases c) (auto simp: plain_component_def)
  then have "takeWhile (\<lambda>c. c \<noteq> slash) (ds @ slash # p) = ds"
    "dropWhile (\<lambda>c. c \<noteq> slash) (ds @ slash # p) = slash # p"
    "takeWhile (\<lambda>c. c \<noteq> slash) ds = ds" and rest: "dropWhile (\<lambda>c. c \<noteq> slash) ds = []"
    by (auto simp: takeWhile_append dropWhile_append)
  moreover have "components (dropWhile (\<lambda>c. c \<noteq> slash) ds) = []"
    unfolding rest by simp
  ultimately show "components (c @ slash # p) = c # components p" "components c = [c]"
    using c by simp_all
qed

lemma components_absolute:
  "list_all plain_component cs \<Longrightarrow> components (absolute cs) = cs"
proof (induction cs)
  case (Cons c cs)
  then show ?case
    by (cases cs) (simp_all add: absolute_def components_prefix)
qed (simp add: absolute_def)

section \<open>The loop goes over the components\<close>

definition add_component :: "environment \<Rightarrow> string \<Rightarrow> string \<Rightarrow> string" where
  "add_component env c p =
     (if c = ''.'' then p else if c = ''..'' then removeLast p else path_add env p c)"

abbreviation tilde :: "string \<Rightarrow> bool" where
  "tilde c \<equiv> find_char (CHR ''~'') c 0 = Some 0"

lemma components_dropWhile: "components (dropWhile (\<lambda>c. c = slash) p) = components p"
  by (induction p) auto

lemma skip_slashes:
  shows "find_first_not_of slash p i = None \<Longrightarrow> components (drop i p) = []"
    and "find_first_not_of slash p i = Some j \<Longrightarrow>
      components (drop i p) = components (drop j p) \<and> i \<le> j \<and> j < length p \<and> p ! j \<noteq> slash"
proof -
  let ?k = "length (takeWhile (\<lambda>c. c = slash) (drop i p))"
  have "components (drop i p) = components (drop ?k (drop i p))"
    using components_dropWhile [of "drop i p"] by (simp only: dropWhile_eq_drop)
  then have same: "components (drop i p) = components (drop (i + ?k) p)" by (simp add: add.commute)
  show "find_first_not_of slash p i = None \<Longrightarrow> components (drop i p) = []"
    by (subst same) (auto simp: find_first_not_of_def find_first_def Let_def split: if_splits)
  assume "find_first_not_of slash p i = Some j"
  then have "j = i + ?k" "j < length p"
    by (auto simp: find_first_not_of_def find_first_def Let_def split: if_splits)
  with same nth_length_takeWhile [of "\<lambda>c. c = slash" "drop i p"]
  show "components (drop i p) = components (drop j p) \<and> i \<le> j \<and> j < length p \<and> p ! j \<noteq> slash" by auto
qed

text \<open>The component that starts at a position.\<close>

definition component_at :: "string \<Rightarrow> nat \<Rightarrow> string" where
  "component_at p i = (case find_char slash p i of None \<Rightarrow> drop i p | Some q \<Rightarrow> take (q - i) (drop i p))"

lemma component_at_eq: "component_at p i = takeWhile (\<lambda>c. c \<noteq> slash) (drop i p)"
proof -
  let ?c = "takeWhile (\<lambda>c. c \<noteq> slash) (drop i p)"
  have prefix: "?c = take (length ?c) (drop i p)" by (rule takeWhile_eq_take)
  show ?thesis
  proof (cases "i + length ?c < length p")
    case True
    then have "component_at p i = take (length ?c) (drop i p)"
      by (simp add: component_at_def find_char_def find_first_def Let_def)
    with prefix show ?thesis by simp
  next
    case False
    then have "take (length ?c) (drop i p) = drop i p" by simp
    with prefix have "?c = drop i p" by simp
    moreover have "component_at p i = drop i p"
      using False by (simp add: component_at_def find_char_def find_first_def Let_def)
    ultimately show ?thesis by (rule subst [OF sym])
  qed
qed

lemma components_at:
  assumes "i < length p" and "p ! i \<noteq> slash"
  shows "components (drop i p) = component_at p i #
    (case find_char slash p i of None \<Rightarrow> [] | Some q \<Rightarrow> components (drop q p))"
proof -
  let ?k = "length (takeWhile (\<lambda>c. c \<noteq> slash) (drop i p))"
  have "components (drop i p) = component_at p i # components (dropWhile (\<lambda>c. c \<noteq> slash) (drop i p))"
    using assms by (simp add: component_at_eq Cons_nth_drop_Suc [symmetric])
  also have "dropWhile (\<lambda>c. c \<noteq> slash) (drop i p) = drop (i + ?k) p"
    by (simp add: dropWhile_eq_drop add.commute)
  finally show ?thesis by (auto simp: find_char_def find_first_def Let_def)
qed

lemma later_component:
  "n > 1 \<Longrightarrow> normalize_component env n i c p = Ok (add_component env c p)"
  by (simp add: normalize_component_def add_component_def)

lemma loop_at:
  "normalize_loop env p (Some i) n normalized =
     bind_res (normalize_component env n i (component_at p i) normalized) (\<lambda>normalized.
       normalize_loop env p (Option.bind (find_char slash p i) (find_first_not_of slash p)) (n + 1) normalized)"
  by (cases "find_char slash p i") (simp_all add: component_at_def ext [of "normalize_loop env p None (Suc n)" Ok])

lemma later_components:
  assumes "n > 1"
  shows "normalize_loop env p (find_first_not_of slash p i) n q
    = Ok (fold (add_component env) (components (drop i p)) q)"
  using assms
proof (induction "length p - i" arbitrary: i n q rule: less_induct)
  case less
  show ?case
  proof (cases "find_first_not_of slash p i")
    case None
    with skip_slashes(1) [OF None] show ?thesis by simp
  next
    case (Some j)
    note j = skip_slashes(2) [OF Some]
    show ?thesis
    proof (cases "find_char slash p j")
      case None
      with j components_at [of j p] less.prems show ?thesis
        unfolding Some loop_at by (simp add: later_component)
    next
      case (Some l)
      then have "j \<le> l" "l < length p" "p ! l = slash"
        using nth_length_takeWhile [of "\<lambda>c. c \<noteq> slash" "drop j p"]
        by (auto simp: find_char_def find_first_def Let_def split: if_splits)
      with j have "i < l" by (cases "j = l") auto
      with less.hyps [of l "n + 1"] \<open>l < length p\<close> less.prems
      have "normalize_loop env p (find_first_not_of slash p l) (n + 1) q
          = Ok (fold (add_component env) (components (drop l p)) q)" for q by simp
      with j components_at [of j p] Some less.prems show ?thesis
        unfolding \<open>find_first_not_of slash p i = Some j\<close> loop_at by (simp add: later_component)
    qed
  qed
qed

section \<open>The normal form\<close>

lemma rfind_append: "slash \<notin> set c \<Longrightarrow> rfind slash (p @ slash # c) = Some (length p)"
  by (simp add: rfind_def takeWhile_append)

text \<open>A path built from nothing: the slash before the first component depends on the stray character.\<close>

definition rooted :: "environment \<Rightarrow> string list \<Rightarrow> string" where
  "rooted env cs = (if before_empty env = slash then drop 1 (absolute cs) else absolute cs)"

lemma absolute_snoc: "absolute (cs @ [c]) = absolute cs @ slash # c"
  by (simp add: absolute_def)

lemma rooted_snoc: "cs \<noteq> [] \<Longrightarrow> rooted env (cs @ [c]) = rooted env cs @ slash # c"
  by (cases cs) (simp_all add: rooted_def absolute_snoc, simp add: absolute_def)

lemma rooted_one: "rooted env [c] = (if before_empty env = slash then c else slash # c)"
  by (simp add: rooted_def absolute_def)

lemma rooted_empty [simp]: "rooted env [] = []"
  by (simp add: rooted_def absolute_def)

lemma plain_componentD:
  assumes "plain_component c"
  shows "c \<noteq> []" and "slash \<notin> set c" and "last c \<noteq> slash" and "hd c \<noteq> slash"
  using assms by (auto simp: plain_component_def dest: last_in_set list.set_sel(1))

lemma last_rooted:
  assumes "list_all plain_component cs" and "cs \<noteq> []"
  shows "rooted env cs \<noteq> []" and "last (rooted env cs) \<noteq> slash"
proof -
  obtain ds d where cs: "cs = ds @ [d]" using assms(2) by (cases cs rule: rev_cases) auto
  then have "plain_component d" using assms(1) by simp
  note d = plain_componentD [OF this]
  show "rooted env cs \<noteq> []" "last (rooted env cs) \<noteq> slash"
    using d by (cases "ds = []"; simp add: cs rooted_snoc rooted_one)+
qed

lemma removeLast_rooted:
  assumes "list_all plain_component cs"
  shows "removeLast (rooted env cs) = rooted env (butlast cs)"
proof (cases cs rule: rev_cases)
  case Nil
  then show ?thesis by (simp add: removeLast_def rfind_def)
next
  case (snoc ds d)
  then have d: "slash \<notin> set d" using assms by (simp add: plain_component_def)
  have one: "removeLast d = []" "removeLast (slash # d) = []"
    using d rfind_append [of d "[]"] by (simp_all add: removeLast_def rfind_def)
  show ?thesis
  proof (cases "ds = []")
    case False
    with snoc d show ?thesis by (simp add: rooted_snoc removeLast_def rfind_append)
  qed (use snoc one in \<open>simp add: rooted_one\<close>)
qed

lemma path_add_rooted:
  assumes "list_all plain_component cs" and "plain_component c"
  shows "path_add env (rooted env cs) c = rooted env (cs @ [c])"
proof (cases "cs = []")
  case True
  with plain_componentD [OF assms(2)] show ?thesis by (simp add: path_add_def rooted_one)
next
  case False
  with last_rooted [OF assms(1)] plain_componentD [OF assms(2)] show ?thesis
    by (simp add: path_add_def rooted_snoc)
qed

lemma components_rooted: "list_all plain_component cs \<Longrightarrow> components (rooted env cs) = cs"
proof (cases cs)
  case (Cons c ds)
  assume plain: "list_all plain_component cs"
  have "components (c @ absolute ds) = cs"
    using components_absolute [OF plain] by (simp add: Cons absolute_def)
  then show ?thesis using components_absolute [OF plain] by (simp add: rooted_def Cons absolute_def)
qed simp

text \<open>Adding the components to a path built from nothing resolves them.\<close>

lemma add_components:
  assumes "list_all plain_component stack" and "list_all plain_component cs"
  shows "fold (add_component env) cs (rooted env stack) = rooted env (fold resolve_component cs stack) \<and>
    list_all plain_component (fold resolve_component cs stack)"
  using assms
proof (induction cs arbitrary: stack)
  case (Cons c cs)
  have "list_all plain_component (butlast stack)"
    using Cons.prems(1) by (auto simp: list_all_iff dest: in_set_butlastD)
  with Cons show ?case
    by (simp add: add_component_def resolve_component_def removeLast_rooted path_add_rooted)
qed simp

lemma resolve_no_dots:
  assumes "\<And>c. c \<in> set cs \<Longrightarrow> c \<noteq> ''.'' \<and> c \<noteq> ''..''"
  shows "resolve cs = cs"
proof -
  have "fold resolve_component cs stack = stack @ cs" for stack
    using assms by (induction cs arbitrary: stack) (auto simp: resolve_component_def)
  then show ?thesis by (simp add: resolve_def)
qed

lemma resolved_from:
  "c \<in> set (fold resolve_component cs stack) \<Longrightarrow>
    c \<in> set stack \<or> (c \<in> set cs \<and> c \<noteq> ''.'' \<and> c \<noteq> ''..'')"
proof (induction cs arbitrary: stack)
  case (Cons d cs)
  have "c \<in> set (resolve_component d stack) \<Longrightarrow> c \<in> set stack \<or> (c = d \<and> d \<noteq> ''.'' \<and> d \<noteq> ''..'')"
    unfolding resolve_component_def by (cases "d = ''.''"; cases "d = ''..''") (auto dest: in_set_butlastD)
  moreover have "c \<in> set (resolve_component d stack) \<or> (c \<in> set cs \<and> c \<noteq> ''.'' \<and> c \<noteq> ''..'')"
    using Cons by simp
  ultimately show ?case by auto
qed simp

lemma resolved: "c \<in> set (resolve cs) \<Longrightarrow> c \<in> set cs \<and> c \<noteq> ''.'' \<and> c \<noteq> ''..''"
  using resolved_from [of c cs "[]"] by (simp add: resolve_def)

text \<open>The first component is special only when it begins with a tilde or starts the path.\<close>

lemma normalized_from_slash:
  assumes "isAbsolute p" and "\<forall>c \<in> set (take 1 (components p)). \<not> tilde c"
  shows "getNormalized env p = Ok (fold (add_component env) (components p) [])"
proof (cases "find_first_not_of slash p 0")
  case None
  with skip_slashes(1) [OF None] show ?thesis by (simp add: getNormalized_def)
next
  case (Some i)
  note i = skip_slashes(2) [OF Some]
  from assms(1) have "p \<noteq> []" "p ! 0 = slash"
    by (cases p; auto simp: isAbsolute_def find_char_def find_first_def split: if_splits)+
  with i have "i \<noteq> 0" by metis
  have first: "components p = component_at p i #
      (case find_char slash p i of None \<Rightarrow> [] | Some q \<Rightarrow> components (drop q p))"
    using i components_at [of i p] by simp
  then have "\<not> tilde (component_at p i)" using assms(2) by simp
  with \<open>i \<noteq> 0\<close> have "normalize_component env 1 i (component_at p i) [] = Ok (add_component env (component_at p i) [])"
    by (simp add: normalize_component_def add_component_def)
  then show ?thesis unfolding getNormalized_def Some loop_at first
    by (auto simp: later_components split: option.splits)
qed

lemma list_all_components: "list_all plain_component (components p)"
  by (simp add: list_all_iff components_are_plain)

lemma isAbsolute_absolute: "cs \<noteq> [] \<Longrightarrow> isAbsolute (absolute cs)"
  by (cases cs) (simp_all add: isAbsolute_def absolute_def find_char_def find_first_def)

lemma normalized_empty [simp]: "getNormalized env [] = Ok []"
  by (simp add: getNormalized_def find_first_not_of_def find_first_def)

lemma normalized_absolute:
  assumes "isAbsolute p" and "\<forall>c \<in> set (take 1 (components p)). \<not> tilde c"
  shows "getNormalized env p = Ok (rooted env (resolve (components p)))"
  using normalized_from_slash [OF assms] add_components [OF _ list_all_components, of "[]"]
  by (simp add: resolve_def)

text \<open>A relative path whose first component does not begin with a tilde.\<close>

lemma normalized_relative:
  assumes "plain_component c" and "\<not> tilde c" and p: "p = c \<or> p = c @ slash # rest"
  shows "getNormalized env p = (case getcwd env of None \<Rightarrow> Abort
    | Some dir \<Rightarrow> Ok (fold (add_component env) (tl (components p)) dir))"
proof -
  have "p \<noteq> []" "p ! 0 \<noteq> slash" using assms by (cases c; auto simp: plain_component_def)+
  then have start: "find_first_not_of slash p 0 = Some 0" "0 < length p"
    by (cases p; simp add: find_first_not_of_def find_first_def)+
  have "components p = component_at p 0 #
      (case find_char slash p 0 of None \<Rightarrow> [] | Some q \<Rightarrow> components (drop q p))"
    using components_at [OF start(2)] \<open>p ! 0 \<noteq> slash\<close> by simp
  moreover have "hd (components p) = c" using p components_prefix [OF assms(1)] by auto
  ultimately have first: "component_at p 0 = c" "tl (components p) =
      (case find_char slash p 0 of None \<Rightarrow> [] | Some q \<Rightarrow> components (drop q p))" by simp_all
  have "normalize_component env 1 0 c [] = (case getcwd env of Some dir \<Rightarrow> Ok dir | None \<Rightarrow> Abort)"
    using assms(2) by (simp add: normalize_component_def)
  then show ?thesis unfolding getNormalized_def start loop_at first
    by (auto simp: later_components split: option.splits)
qed

lemma dir_and_base:
  assumes "slash \<in> set p"
  shows "getDirName p @ getBaseName p = p" and "slash \<notin> set (getBaseName p)"
proof -
  from split_list_last [OF assms] obtain q c where "p = q @ slash # c" "slash \<notin> set c" by blast
  then show "getDirName p @ getBaseName p = p" "slash \<notin> set (getBaseName p)"
    by (simp_all add: getDirName_def getBaseName_def rfind_append)
qed

section \<open>Properties\<close>

text \<open>C37: the normalised form of an absolute path, the first component of which does not begin with a
  tilde, is the list of its components with ``.'' skipped and ``..'' removing the one before it, each
  after a slash; its components are this list. The code looks at a character before the empty string
  with which it starts: should that happen to be a slash, the form lacks its first slash. Otherwise
  normalising it again changes nothing, unless resolving brought a component with a tilde to the front.\<close>

theorem normalized_resolves:
  assumes "isAbsolute p" and "\<forall>c \<in> set (take 1 (components p)). \<not> tilde c"
  shows "\<exists>q. getNormalized env p = Ok q \<and>
    q = (if before_empty env = slash then drop 1 (absolute (resolve (components p)))
         else absolute (resolve (components p))) \<and>
    components q = resolve (components p) \<and>
    (before_empty env \<noteq> slash \<and> (\<forall>c \<in> set (take 1 (components q)). \<not> tilde c) \<longrightarrow> getNormalized env q = Ok q)"
proof -
  let ?cs = "resolve (components p)"
  have "list_all plain_component ?cs"
    unfolding list_all_iff using resolved components_are_plain by blast
  then have cs: "components (rooted env ?cs) = ?cs" by (rule components_rooted)
  have again: "resolve ?cs = ?cs" by (rule resolve_no_dots) (blast dest: resolved)
  have "getNormalized env (rooted env ?cs) = Ok (rooted env ?cs)"
    if "before_empty env \<noteq> slash" and "\<forall>c \<in> set (take 1 ?cs). \<not> tilde c"
  proof (cases "?cs = []")
    case False
    have "isAbsolute (rooted env ?cs)" using that(1) isAbsolute_absolute [OF False] by (simp add: rooted_def)
    from normalized_absolute [OF this] that(2) show ?thesis by (simp add: cs again)
  qed simp
  with normalized_absolute [OF assms] cs show ?thesis
    by (intro exI [of _ "rooted env ?cs"]) (simp add: rooted_def)
qed

definition some_environment :: environment where
  "some_environment = \<lparr>before_empty = CHR 0x00, after_empty = CHR 0x00, getpw_size = 1024,
     home_of = (\<lambda>user. if user = Some ''ann'' then Some ''/home/ann'' else None),
     getcwd = Some ''/tmp'', stat = (\<lambda>_. None)\<rparr>"

lemma normalized_resolves_witness:
  "(\<exists>q. getNormalized some_environment ''/usr//lib/./x/../a.so'' = Ok q \<and> q = ''/usr/lib/a.so'' \<and>
     getNormalized some_environment q = Ok q) \<and>
   getNormalized (some_environment\<lparr>before_empty := slash\<rparr>) ''/usr//lib/./x/../a.so'' = Ok ''usr/lib/a.so''"
proof -
  let ?p = "''/usr//lib/./x/../a.so''"
  have p: "isAbsolute ?p" "components ?p = [''usr'', ''lib'', ''.'', ''x'', ''..'', ''a.so'']"
    by code_simp+
  have first: "\<forall>c \<in> set (take 1 (components ?p)). \<not> tilde c" by code_simp
  have env: "before_empty some_environment \<noteq> slash" by code_simp
  have "resolve (components ?p) = [''usr'', ''lib'', ''a.so'']"
    by (simp add: p resolve_def resolve_component_def)
  moreover have "absolute [''usr'', ''lib'', ''a.so''] = ''/usr/lib/a.so''" by (simp add: absolute_def)
  moreover have "\<forall>c \<in> set (take 1 [''usr'', ''lib'', ''a.so'']). \<not> tilde c" by code_simp
  ultimately show ?thesis
    using normalized_resolves [OF p(1) first, of some_environment]
      normalized_resolves [OF p(1) first, of "some_environment\<lparr>before_empty := slash\<rparr>"] env
    by auto
qed

text \<open>The first component of a relative path is replaced by the working directory instead of being
  added to it: the normalised form of the name of a file in the working directory is that directory.\<close>

theorem relative_path_loses_first_component:
  assumes "plain_component c" and "\<not> tilde c" and "getcwd env = Some dir"
  shows "getNormalized env c = Ok dir" and "getNormalized env (c @ slash # p) = Ok (fold (add_component env) (components p) dir)"
proof -
  show "getNormalized env c = Ok dir"
    using normalized_relative [OF assms(1,2), of c] assms(3) components_prefix(2) [OF assms(1)] by simp
  show "getNormalized env (c @ slash # p) = Ok (fold (add_component env) (components p) dir)"
    using normalized_relative [OF assms(1,2), of "c @ slash # p" p] assms(3) components_prefix(1) [OF assms(1)] by simp
qed

lemma relative_path_loses_first_component_witness:
  "getNormalized some_environment ''a.out'' = Ok ''/tmp'' \<and>
    getNormalized some_environment ''bin/a.out'' = Ok ''/tmp/a.out''"
proof -
  have c: "plain_component ''a.out''" "\<not> tilde ''a.out''" "plain_component ''bin''" "\<not> tilde ''bin''"
    "getcwd some_environment = Some ''/tmp''" by code_simp+
  have "fold (add_component some_environment) (components ''a.out'') ''/tmp'' = ''/tmp/a.out''" by code_simp
  with relative_path_loses_first_component [OF c(1,2,5)]
    relative_path_loses_first_component(2) [OF c(3,4,5), of "''a.out''"]
  show ?thesis by simp
qed

text \<open>A tilde is expanded after a slash as well.\<close>

lemma tilde_after_slash: "getNormalized some_environment ''/~ann/a.out'' = Ok ''/home/ann/a.out''"
  by code_simp

end
