(* ===== verification/PCBuffer.thy ===== *)
theory PCBuffer
  imports Base
begin

text \<open>
  The buffer of unique program counters (PCBuffer.hxx and PCBuffer.cxx), which the collectors fill when
  they are asked for the addresses of their data: an array of addresses with a hash table that is
  probed linearly. Arrays are functions of the index. A probe that does not return is \<open>None\<close>. The main
  results are that the buffer is a set of addresses as long as it holds fewer than \<open>2^16\<close> of them,
  that its 16-bit length then starts again at zero, so that it is never reported as full, and when
  a probe runs for ever.
\<close>

section \<open>The buffer\<close>

definition PCBufferSize :: nat where "PCBufferSize = 1024 * 1024"

definition PCHashTableSize :: nat where "PCHashTableSize = 1024 * 1024 + 1024 * 1024 div 4"

record PCBuffer =
  buffer_length :: "16 word"
  buffer_pc :: "nat \<Rightarrow> 64 word"
  hash_table :: "nat \<Rightarrow> 32 word"

text \<open>The condition of the probing loop.\<close>

definition occupied_by_other :: "64 word \<Rightarrow> PCBuffer \<Rightarrow> nat \<Rightarrow> bool" where
  "occupied_by_other pc buffer bucket \<longleftrightarrow>
     hash_table buffer bucket > 0 \<and> buffer_pc buffer (unat (hash_table buffer bucket - 1)) \<noteq> pc"

partial_function (option) probe :: "64 word \<Rightarrow> PCBuffer \<Rightarrow> nat \<Rightarrow> nat option" where
  "probe pc buffer bucket =
     (if occupied_by_other pc buffer bucket then probe pc buffer ((bucket + 1) mod PCHashTableSize)
      else Some bucket)"

declare probe.simps [code]

definition first_bucket :: "64 word \<Rightarrow> nat" where
  "first_bucket pc = unat (drop_bit 4 pc) mod PCHashTableSize"

definition UpdatePCBuffer :: "64 word \<Rightarrow> PCBuffer \<Rightarrow> (bool \<times> PCBuffer) option" where
  "UpdatePCBuffer pc buffer =
     Option.bind (probe pc buffer (first_bucket pc)) (\<lambda>bucket.
       if hash_table buffer bucket > 0 \<and> buffer_pc buffer (unat (hash_table buffer bucket - 1)) = pc
       then Some (False, buffer)
       else
         let entry = ucast (buffer_length buffer) :: 32 word;
             new_length = buffer_length buffer + 1
         in Some (unat new_length = PCBufferSize,
              \<lparr>buffer_length = new_length, buffer_pc = (buffer_pc buffer)(unat entry := pc),
               hash_table = (hash_table buffer)(bucket := entry + 1)\<rparr>))"

definition empty_buffer :: PCBuffer where
  "empty_buffer = \<lparr>buffer_length = 0, buffer_pc = (\<lambda>_. 0), hash_table = (\<lambda>_. 0)\<rparr>"

fun update_all :: "64 word list \<Rightarrow> PCBuffer \<Rightarrow> PCBuffer option" where
  "update_all [] buffer = Some buffer"
| "update_all (pc # pcs) buffer =
     Option.bind (UpdatePCBuffer pc buffer) (\<lambda>(_, buffer). update_all pcs buffer)"

section \<open>Probing\<close>

lemma table_size: "0 < PCHashTableSize" "65536 < PCHashTableSize"
  by (simp_all add: PCHashTableSize_def)

lemma probe_steps:
  assumes "b < PCHashTableSize"
    and "\<And>i. i < k \<Longrightarrow> occupied_by_other pc buffer ((b + i) mod PCHashTableSize)"
    and "\<not> occupied_by_other pc buffer ((b + k) mod PCHashTableSize)"
  shows "probe pc buffer b = Some ((b + k) mod PCHashTableSize)"
  using assms
proof (induction k arbitrary: b)
  case 0
  then show ?case by (simp add: probe.simps [of _ _ b])
next
  case (Suc k)
  let ?b = "(b + 1) mod PCHashTableSize"
  have shift: "(?b + i) mod PCHashTableSize = (b + Suc i) mod PCHashTableSize" for i
    by (simp add: mod_add_left_eq)
  have "probe pc buffer ?b = Some ((?b + k) mod PCHashTableSize)"
  proof (rule Suc.IH)
    show "occupied_by_other pc buffer ((?b + i) mod PCHashTableSize)" if "i < k" for i
      unfolding shift using Suc.prems(2) that by blast
  qed (use Suc.prems(3) shift table_size(1) in auto)
  moreover have "occupied_by_other pc buffer b" using Suc.prems(1) Suc.prems(2) [of 0] by simp
  ultimately show ?case unfolding shift by (subst probe.simps) simp
qed

lemma probe_result:
  assumes "probe pc buffer b = Some j"
  shows "\<not> occupied_by_other pc buffer j \<and> (b < PCHashTableSize \<longrightarrow> j < PCHashTableSize)"
  by (rule probe.raw_induct [where P = "\<lambda>pc buffer b j. \<not> occupied_by_other pc buffer j \<and>
      (b < PCHashTableSize \<longrightarrow> j < PCHashTableSize)", OF _ assms])
    (auto simp: table_size split: if_splits)

text \<open>Any bucket comes up.\<close>

lemma reach_bucket:
  assumes "b < PCHashTableSize" and "j < PCHashTableSize"
  obtains k where "k < PCHashTableSize" and "(b + k) mod PCHashTableSize = j"
proof -
  have "(b + (if b \<le> j then j - b else j + PCHashTableSize - b)) mod PCHashTableSize = j"
    using assms by auto
  moreover have "(if b \<le> j then j - b else j + PCHashTableSize - b) < PCHashTableSize" using assms by auto
  ultimately show thesis using that by blast
qed

section \<open>The invariant\<close>

definition used :: "PCBuffer \<Rightarrow> nat" where
  "used buffer = unat (buffer_length buffer)"

definition addresses :: "PCBuffer \<Rightarrow> 64 word set" where
  "addresses buffer = buffer_pc buffer ` {..<used buffer}"

text \<open>Bucket \<open>j\<close> refers to entry \<open>e\<close>.\<close>

definition refers :: "PCBuffer \<Rightarrow> nat \<Rightarrow> nat \<Rightarrow> bool" where
  "refers buffer j e \<longleftrightarrow> hash_table buffer j > 0 \<and> unat (hash_table buffer j - 1) = e"

definition pc_ok :: "PCBuffer \<Rightarrow> bool" where
  "pc_ok buffer \<longleftrightarrow> inj_on (buffer_pc buffer) {..<used buffer} \<and>
     (\<forall>j < PCHashTableSize. hash_table buffer j > 0 \<longrightarrow> unat (hash_table buffer j - 1) < used buffer) \<and>
     (\<forall>j < PCHashTableSize. \<forall>i < PCHashTableSize. \<forall>e. refers buffer i e \<and> refers buffer j e \<longrightarrow> i = j) \<and>
     (\<forall>e < used buffer. \<exists>k. refers buffer ((first_bucket (buffer_pc buffer e) + k) mod PCHashTableSize) e \<and>
        (\<forall>i < k. hash_table buffer ((first_bucket (buffer_pc buffer e) + i) mod PCHashTableSize) > 0))"

lemma pc_ok_empty: "pc_ok empty_buffer"
  by (simp add: pc_ok_def empty_buffer_def used_def refers_def)

lemma first_bucket_less: "first_bucket pc < PCHashTableSize"
  by (simp add: first_bucket_def table_size)

lemma probe_present:
  assumes ok: "pc_ok buffer" and e: "e < used buffer"
  obtains j where "probe (buffer_pc buffer e) buffer (first_bucket (buffer_pc buffer e)) = Some j"
    and "refers buffer j e"
proof -
  let ?pc = "buffer_pc buffer e"
  let ?at = "\<lambda>k. (first_bucket ?pc + k) mod PCHashTableSize"
  from ok e obtain k where k: "refers buffer (?at k) e" "\<forall>i < k. hash_table buffer (?at i) > 0"
    unfolding pc_ok_def by blast
  let ?k = "LEAST k. \<not> occupied_by_other ?pc buffer (?at k)"
  have stop: "\<not> occupied_by_other ?pc buffer (?at k)" using k(1) by (simp add: refers_def occupied_by_other_def)
  then have "\<not> occupied_by_other ?pc buffer (?at ?k)" "?k \<le> k" by (rule LeastI, rule Least_le)
  moreover have "occupied_by_other ?pc buffer (?at i)" if "i < ?k" for i using not_less_Least [OF that] by simp
  ultimately have found: "probe ?pc buffer (first_bucket ?pc) = Some (?at ?k)"
    by (intro probe_steps first_bucket_less)
  have positive: "hash_table buffer (?at ?k) > 0"
    using k \<open>?k \<le> k\<close> by (cases "?k = k") (auto simp: refers_def)
  let ?f = "unat (hash_table buffer (?at ?k) - 1)"
  have "?f < used buffer" using ok positive table_size(1) by (simp add: pc_ok_def)
  moreover have "buffer_pc buffer ?f = ?pc"
    using \<open>\<not> occupied_by_other ?pc buffer (?at ?k)\<close> positive by (simp add: occupied_by_other_def)
  ultimately have "?f = e" using ok e by (auto simp: pc_ok_def inj_on_def)
  with found positive that show thesis by (simp add: refers_def)
qed

lemma probe_absent:
  assumes ok: "pc_ok buffer" and pc: "pc \<notin> addresses buffer"
  obtains k where "probe pc buffer (first_bucket pc) = Some ((first_bucket pc + k) mod PCHashTableSize)"
    and "hash_table buffer ((first_bucket pc + k) mod PCHashTableSize) = 0"
    and "\<forall>i < k. hash_table buffer ((first_bucket pc + i) mod PCHashTableSize) > 0"
proof -
  let ?at = "\<lambda>k. (first_bucket pc + k) mod PCHashTableSize"
  have occupied: "occupied_by_other pc buffer j \<longleftrightarrow> hash_table buffer j > 0" if "j < PCHashTableSize" for j
    using ok pc that by (auto simp: occupied_by_other_def pc_ok_def addresses_def)
  have "\<exists>j < PCHashTableSize. hash_table buffer j = 0"
  proof (rule ccontr)
    assume "\<not> ?thesis"
    then have full: "hash_table buffer j > 0" if "j < PCHashTableSize" for j
      using that by (auto simp: word_neq_0_conv)
    let ?entry = "\<lambda>j. unat (hash_table buffer j - 1)"
    have "inj_on ?entry {..<PCHashTableSize}"
      using ok full by (auto simp: inj_on_def pc_ok_def refers_def)
    moreover have "?entry ` {..<PCHashTableSize} \<subseteq> {..<used buffer}"
      using ok full by (auto simp: pc_ok_def)
    ultimately have "card {..<PCHashTableSize} \<le> card {..<used buffer}" by (rule card_inj_on_le) simp
    moreover have "used buffer < 65536" using unsigned_less [of "buffer_length buffer"] by (simp add: used_def)
    ultimately show False using table_size(2) by simp
  qed
  then obtain j where j: "j < PCHashTableSize" "hash_table buffer j = 0" by blast
  obtain k where "?at k = j" using reach_bucket [OF first_bucket_less j(1)] .
  with j occupied [of j] have "\<not> occupied_by_other pc buffer (?at k)" by simp
  let ?k = "LEAST k. \<not> occupied_by_other pc buffer (?at k)"
  have stop: "\<not> occupied_by_other pc buffer (?at ?k)" by (rule LeastI) fact
  have before: "occupied_by_other pc buffer (?at i)" if "i < ?k" for i using not_less_Least [OF that] by simp
  have zero: "hash_table buffer i = 0" if "i < PCHashTableSize" "\<not> occupied_by_other pc buffer i" for i
    using that(2) occupied [OF that(1)] word_gt_0 [of "hash_table buffer i"] by simp
  show thesis
  proof (rule that)
    show "probe pc buffer (first_bucket pc) = Some (?at ?k)" by (rule probe_steps [OF first_bucket_less before stop])
    show "hash_table buffer (?at ?k) = 0" by (rule zero [OF _ stop]) (simp add: table_size)
    show "\<forall>i < ?k. hash_table buffer (?at i) > 0" using before unfolding occupied_by_other_def by blast
  qed
qed

section \<open>Updating\<close>

lemma update_present:
  assumes "pc_ok buffer" and "pc \<in> addresses buffer"
  shows "UpdatePCBuffer pc buffer = Some (False, buffer)"
proof -
  from assms(2) obtain e where e: "e < used buffer" "pc = buffer_pc buffer e" by (auto simp: addresses_def)
  from probe_present [OF assms(1) e(1)] obtain j where
    "probe pc buffer (first_bucket pc) = Some j" "refers buffer j e" by (auto simp: e(2))
  with e(2) show ?thesis by (simp add: UpdatePCBuffer_def refers_def)
qed

text \<open>The buffer after the entry of a new address.\<close>

definition entered :: "64 word \<Rightarrow> nat \<Rightarrow> PCBuffer \<Rightarrow> PCBuffer" where
  "entered pc bucket buffer =
     \<lparr>buffer_length = buffer_length buffer + 1, buffer_pc = (buffer_pc buffer)(used buffer := pc),
      hash_table = (hash_table buffer)(bucket := ucast (buffer_length buffer) + 1)\<rparr>"

lemma used_less: "used buffer < 65536"
  using unsigned_less [of "buffer_length buffer"] by (simp add: used_def)

lemma entry_number: "unat (ucast (buffer_length buffer) :: 32 word) = used buffer"
  for buffer :: PCBuffer
  by (simp add: used_def unsigned_ucast_eq take_bit_nat_eq_self_iff less_trans [OF used_less [unfolded used_def]])

lemma entry_positive: "(0 :: 32 word) < ucast (buffer_length buffer) + 1"
  for buffer :: PCBuffer
proof -
  have "unat ((ucast (buffer_length buffer) :: 32 word) + 1) = used buffer + 1"
    using used_less [of buffer] by (simp add: unat_word_ariths entry_number)
  then show ?thesis by (simp add: word_less_nat_alt)
qed

lemma update_new:
  assumes "pc_ok buffer" and "pc \<notin> addresses buffer"
  obtains k where "UpdatePCBuffer pc buffer
      = Some (False, entered pc ((first_bucket pc + k) mod PCHashTableSize) buffer)"
    and "hash_table buffer ((first_bucket pc + k) mod PCHashTableSize) = 0"
    and "\<forall>i < k. hash_table buffer ((first_bucket pc + i) mod PCHashTableSize) > 0"
proof -
  obtain k where k: "probe pc buffer (first_bucket pc) = Some ((first_bucket pc + k) mod PCHashTableSize)"
    "hash_table buffer ((first_bucket pc + k) mod PCHashTableSize) = 0"
    "\<forall>i < k. hash_table buffer ((first_bucket pc + i) mod PCHashTableSize) > 0"
    using probe_absent [OF assms] by blast
  have "unat (buffer_length buffer + 1) < 65536"
    using unsigned_less [of "buffer_length buffer + 1"] by simp
  then have "unat (buffer_length buffer + 1) \<noteq> PCBufferSize" by (simp add: PCBufferSize_def)
  with k that show thesis
    by (simp add: UpdatePCBuffer_def entered_def entry_number Let_def)
qed

lemma entered_ok:
  assumes ok: "pc_ok buffer" and pc: "pc \<notin> addresses buffer" and room: "used buffer < 65535"
    and free: "hash_table buffer ((first_bucket pc + k) mod PCHashTableSize) = 0"
    and path: "\<forall>i < k. hash_table buffer ((first_bucket pc + i) mod PCHashTableSize) > 0"
  defines "buffer' \<equiv> entered pc ((first_bucket pc + k) mod PCHashTableSize) buffer"
  shows "pc_ok buffer'" and "used buffer' = Suc (used buffer)" and "addresses buffer' = insert pc (addresses buffer)"
proof -
  let ?b = "(first_bucket pc + k) mod PCHashTableSize"
  show used: "used buffer' = Suc (used buffer)"
    using room by (simp add: buffer'_def entered_def used_def unat_word_ariths)
  show "addresses buffer' = insert pc (addresses buffer)"
    unfolding addresses_def used by (auto simp: buffer'_def entered_def lessThan_Suc)
  have positive: "hash_table buffer' j > 0 \<longleftrightarrow> j = ?b \<or> hash_table buffer j > 0" for j
    by (simp add: buffer'_def entered_def entry_positive)
  have refers: "refers buffer' j e \<longleftrightarrow> (if j = ?b then e = used buffer else refers buffer j e)" for j e
    by (auto simp: refers_def buffer'_def entered_def entry_positive entry_number)
  have old: "refers buffer j e \<Longrightarrow> j < PCHashTableSize \<Longrightarrow> e < used buffer" for j e
    using ok by (auto simp: pc_ok_def refers_def)
  have unused: "\<not> refers buffer ?b e" for e using free by (simp add: refers_def)
  have pcs: "buffer_pc buffer' e = (if e = used buffer then pc else buffer_pc buffer e)" for e
    by (simp add: buffer'_def entered_def)
  show "pc_ok buffer'"
    unfolding pc_ok_def used
  proof (intro conjI allI impI)
    show "inj_on (buffer_pc buffer') {..<Suc (used buffer)}"
      using ok pc by (auto simp: pcs lessThan_Suc pc_ok_def inj_on_def addresses_def)
    show "unat (hash_table buffer' j - 1) < Suc (used buffer)" if "j < PCHashTableSize" "hash_table buffer' j > 0" for j
      using refers [of j "unat (hash_table buffer' j - 1)"] old [of j] that
      by (auto simp: refers_def split: if_splits intro: less_SucI)
    show "i = j" if "j < PCHashTableSize" "i < PCHashTableSize" "refers buffer' i e \<and> refers buffer' j e" for i j e
      using that ok old [of i e] old [of j e] by (auto simp: refers pc_ok_def split: if_splits)
    fix e assume "e < Suc (used buffer)"
    show "\<exists>k. refers buffer' ((first_bucket (buffer_pc buffer' e) + k) mod PCHashTableSize) e \<and>
        (\<forall>i < k. hash_table buffer' ((first_bucket (buffer_pc buffer' e) + i) mod PCHashTableSize) > 0)"
    proof (cases "e = used buffer")
      case True
      then show ?thesis using path by (intro exI [of _ k]) (simp add: refers pcs positive)
    next
      case False
      with \<open>e < Suc (used buffer)\<close> ok obtain l where
        "refers buffer ((first_bucket (buffer_pc buffer e) + l) mod PCHashTableSize) e"
        "\<forall>i < l. hash_table buffer ((first_bucket (buffer_pc buffer e) + i) mod PCHashTableSize) > 0"
        unfolding pc_ok_def by (metis less_SucE)
      with False unused show ?thesis by (intro exI [of _ l]) (auto simp: refers pcs positive)
    qed
  qed
qed

lemma update_all_addresses:
  assumes "pc_ok buffer" and "card (addresses buffer \<union> set pcs) < 65536"
  shows "\<exists>buffer'. update_all pcs buffer = Some buffer' \<and> pc_ok buffer' \<and>
    addresses buffer' = addresses buffer \<union> set pcs"
  using assms
proof (induction pcs arbitrary: buffer)
  case (Cons pc pcs)
  show ?case
  proof (cases "pc \<in> addresses buffer")
    case True
    then have "addresses buffer \<union> set (pc # pcs) = addresses buffer \<union> set pcs" by auto
    with Cons update_present [OF Cons.prems(1) True] show ?thesis by simp
  next
    case False
    obtain k where k: "UpdatePCBuffer pc buffer = Some (False, entered pc ((first_bucket pc + k) mod PCHashTableSize) buffer)"
      "hash_table buffer ((first_bucket pc + k) mod PCHashTableSize) = 0"
      "\<forall>i < k. hash_table buffer ((first_bucket pc + i) mod PCHashTableSize) > 0"
      using update_new [OF Cons.prems(1) False] by blast
    have "card (addresses buffer) = used buffer"
      using Cons.prems(1) by (simp add: addresses_def card_image pc_ok_def)
    moreover have "card (insert pc (addresses buffer)) \<le> card (addresses buffer \<union> set (pc # pcs))"
      by (rule card_mono) (auto simp: addresses_def)
    moreover have "finite (addresses buffer)" by (simp add: addresses_def)
    ultimately have "used buffer < 65535" using Cons.prems(2) False by simp
    note new = entered_ok [OF Cons.prems(1) False this k(2,3)]
    from Cons.IH [OF new(1)] Cons.prems(2) k(1) show ?thesis by (simp add: new(3))
  qed
qed simp

section \<open>Properties\<close>

text \<open>C38: entering addresses into an empty buffer always returns as long as fewer than \<open>2^16\<close> different
  ones are entered, and the buffer then holds exactly these, each of them once.\<close>

theorem buffer_is_set:
  assumes "card (set pcs) < 2 ^ 16"
  shows "\<exists>buffer. update_all pcs empty_buffer = Some buffer \<and> addresses buffer = set pcs \<and>
    used buffer = card (set pcs)"
proof -
  have "addresses empty_buffer = {}" by (simp add: addresses_def used_def empty_buffer_def)
  with update_all_addresses [OF pc_ok_empty, of pcs] assms obtain buffer where
    b: "update_all pcs empty_buffer = Some buffer" "pc_ok buffer" "addresses buffer = set pcs" by auto
  have "card (addresses buffer) = used buffer" using b(2) by (simp add: addresses_def card_image pc_ok_def)
  with b show ?thesis by auto
qed

lemma buffer_is_set_witness:
  "\<exists>buffer. update_all [16, 32, 16] empty_buffer = Some buffer \<and> addresses buffer = {16, 32} \<and> used buffer = 2"
proof -
  have two: "set [16, 32, 16 :: 64 word] = {16, 32}" "card {16, 32 :: 64 word} = 2" by auto
  then have "card (set [16, 32, 16 :: 64 word]) < 2 ^ 16" by simp
  from buffer_is_set [OF this] show ?thesis unfolding two .
qed

text \<open>C39: the address after \<open>2^16 - 1\<close> different ones sets the length of the buffer back to zero, so
  that all addresses are lost, and the caller is not told that the buffer is full.\<close>

theorem full_buffer_is_emptied:
  assumes "pc_ok buffer" and "used buffer = 65535" and "pc \<notin> addresses buffer"
  shows "\<exists>buffer'. UpdatePCBuffer pc buffer = Some (False, buffer') \<and> addresses buffer' = {} \<and>
    buffer_length buffer' = 0"
proof -
  from update_new [OF assms(1,3)] obtain b where "UpdatePCBuffer pc buffer = Some (False, entered pc b buffer)" by blast
  moreover have "buffer_length buffer + 1 = 0"
    using assms(2) by (simp add: used_def word_unat_eq_iff unat_word_ariths)
  ultimately show ?thesis by (simp add: entered_def addresses_def used_def)
qed

lemma full_buffer_is_emptied_witness:
  "\<exists>buffer pc buffer'. pc \<notin> addresses buffer \<and> card (addresses buffer) = 65535 \<and>
    UpdatePCBuffer pc buffer = Some (False, buffer') \<and> addresses buffer' = {}"
proof -
  let ?pcs = "map of_nat [0..<65535] :: 64 word list"
  have inj: "inj_on (of_nat :: nat \<Rightarrow> 64 word) {0..<65535}"
    by (rule inj_on_inverseI [where g = unat]) (simp add: unat_of_nat)
  then have card: "card (set ?pcs) = 65535" by (simp add: card_image)
  have "addresses empty_buffer = {}" by (simp add: addresses_def used_def empty_buffer_def)
  with update_all_addresses [OF pc_ok_empty, of ?pcs] card obtain buffer where
    b: "pc_ok buffer" "addresses buffer = set ?pcs" by auto
  have "card (addresses buffer) = used buffer" using b(1) by (simp add: addresses_def card_image pc_ok_def)
  then have used: "used buffer = 65535" unfolding b(2) card ..
  have "(65535 :: 64 word) \<notin> set ?pcs"
  proof
    assume "(65535 :: 64 word) \<in> set ?pcs"
    then obtain n where "n < 65535" "(65535 :: 64 word) = of_nat n" by auto
    then have "unat (65535 :: 64 word) = n" by (simp only: unat_of_nat) simp
    with \<open>n < 65535\<close> show False by simp
  qed
  with full_buffer_is_emptied [OF b(1) used, of 65535] b(2) card show ?thesis by metis
qed

text \<open>Once every bucket is taken, the probe for an address that is not there never returns.\<close>

lemma full_table_blocks:
  assumes "\<And>j. j < PCHashTableSize \<Longrightarrow> occupied_by_other pc buffer j"
  shows "UpdatePCBuffer pc buffer = None"
proof (cases "probe pc buffer (first_bucket pc)")
  case (Some j)
  with probe_result [OF Some] first_bucket_less assms show ?thesis by blast
qed (simp add: UpdatePCBuffer_def)

end
