(* ===== verification/Spec2Isabelle.thy ===== *)
theory Spec2Isabelle
  imports Base StdMap Hoare Interval Extent ExtentGroup KdTree KdBuild KdSearch Blob AddressBitmap
    Sqlite Database DatabaseInv Transactions SymbolTable Session SymbolStore
    ThreadQueries ThreadCorrect ExtentTable ExtentCaches SymbolCaches
    Symbols SymbolRelations AddressSpace HWCCollector PerformanceData DataQueues Collectors
    ThreadGroups Experiments RemovalFaults Views Upgrade
    Clusters Reductions Metrics TeamReduction QueryOrders
    SmartPtr Path PCBuffer
begin

text \<open>
  The framework library of Open|SpeedShop (src/libopenss-framework): the part of the program that
  stores performance experiments in SQLite databases and answers questions about threads, address
  spaces, symbols and intervals; and the query library (src/libopenss-queries), which computes metric
  values with it and compares and groups them. Every other part (the collectors, the command line, the
  views and the graphical panels) is a client of these libraries.

  \<^bold>\<open>Conventions.\<close> An operation returns a result (\<open>Base.res\<close>): a value, an exception of Exception.hxx,
  an abort by the macro of Assert.hxx, or a call that waits for a lock for ever. Stateful code is a
  function from a state to a result and the state it leaves (\<open>Base.op\<close>), sequenced by \<open>andthen\<close>; Hoare
  collects the rules of its triples. Machine integers keep their width (\<open>Word\<close>). The containers of
  the C++ library under a comparison of the program's own are lists of entries searched with that
  comparison (StdMap); its locale \<open>key_order\<close> says what a comparison must satisfy, and every use
  interprets it.

  \<^bold>\<open>Values.\<close> Interval models Time.hxx, Address.hxx, Interval.hxx, TimeInterval.hxx, AddressRange.hxx
  and TotallyOrdered.hxx; Extent models Extent.hxx. Their lemmas read every operator as an operation
  on sets of points, and the locale \<open>region\<close> states what the search structures need of them.

  \<^bold>\<open>Search.\<close> ExtentGroup models ExtentGroup.cxx: the extents, the array of nodes of the Kd-tree, and
  the query that builds the tree as it descends. \<open>std::nth_element\<close> is a parameter with its documented
  contract. KdTree states the invariant of the array, KdBuild shows that splitting a node keeps it
  and stays in bounds, and KdSearch that a query visits at most as many nodes as the array holds (the
  fuel) and returns exactly the extents that intersect.

  \<^bold>\<open>Bytes.\<close> Blob models Blob.cxx over an explicit store of allocated blocks, with the XDR procedures as
  parameters; AddressBitmap models AddressBitmap.cxx, whose blobs describe which addresses of a range
  belong to a function, loop or statement.

  \<^bold>\<open>Database.\<close> Sqlite is the record of parameters that stands for SQLite and the file system. Database
  models Database.cxx: the handles of the threads, the nested transactions with their flag, the cache
  of prepared statements, and rename and copy. DatabaseInv states the invariant and shows that every
  operation keeps it under every result; Transactions lifts this to the states any threads can reach
  and proves that nested transactions implement one transaction with a flag. A call that throws is a
  step too: a \<open>beginTransaction\<close> that throws leaves its share of the lock taken for good, which the
  reachable states count, and \<open>renameTo\<close> and \<open>copyTo\<close> may leave the lock held for writing.

  \<^bold>\<open>Sessions.\<close> Session has the tables of the schema (Experiment.cxx) as lists of rows in scan order, and
  composes them with the abstract machine of Transactions: \<open>in_transaction\<close> is what the transaction
  macros do to a database of one user. Upgrade models the constructor of \<open>Experiment\<close> on databases of
  older versions, and Views the table of saved views.

  \<^bold>\<open>Symbols.\<close> SymbolTable models SymbolTable.cxx, with the partitioning of address sets, and SymbolStore
  the storing of a symbol table; what the tables then mean is \<open>functions_in\<close>, \<open>loops_in\<close> and
  \<open>statements_in\<close>. ThreadQueries and ThreadCorrect model Thread.cxx. ExtentTable, ExtentCaches and
  SymbolCaches model the caches that the queries for symbols keep, ExtentTable.hxx, FunctionCache.cxx,
  LoopCache.cxx and StatementCache.cxx; the record \<open>framework\<close> is a session with its caches and the log
  of the calls to plugins. Symbols and SymbolRelations model Function.cxx, Loop.cxx, Statement.cxx and
  LinkedObject.cxx, and AddressSpace models AddressSpace.cxx with the history of what threads have loaded.

  \<^bold>\<open>Performance data.\<close> PerformanceData models DataCache.cxx, the storing of a blob and the evaluation
  of metrics by a plugin, of which HWCCollector models one (plugins/collectors/hwc/HWCCollector.cxx).
  DataQueues models the queues and the registry of databases (DataQueues.cxx): what the databases
  answer is a parameter, the states reached include those after a request that has thrown, with the
  thread that then holds the lock, and the next number stays within an \<open>int\<close>. Collectors models
  the classes \<open>Collector\<close> and \<open>CollectorGroup\<close>: what is told to the plugins, and what the tables say
  about it. ThreadGroups and Experiments compose these for groups and whole experiments
  (ThreadGroup.cxx, Experiment.cxx, ThreadName.cxx); RemovalFaults shows what the removal of a thread
  forgets.

  \<^bold>\<open>Queries.\<close> Metrics models the query for metric values of GetMetricValues.txx, which composes
  ThreadGroups and Collectors, and TeamReduction its parallel part: a team of threads under any
  schedule, with loads and stores as separate turns. Reductions models Reduction.txx, Clusters the
  cluster analysis of ClusterAnalysis.txx, and QueryOrders the comparisons of Queries.cxx, which
  interpret \<open>key_order\<close>, and the addition of stack traces (AdditionAssignment.txx).

  \<^bold>\<open>Utilities.\<close> SmartPtr models the reference counts of SmartPtr.hxx, Path the paths of Path.cxx, and
  PCBuffer the set of addresses of PCBuffer.cxx, a hash table whose 16-bit length wraps around.

  \<^bold>\<open>Bounds.\<close> A framework has one database. The fuel of the Kd-tree search is the number of nodes, which
  KdSearch shows to be enough; a search that did not end would be \<open>Blocked\<close>. Ranges with bitmaps are
  less than \<open>2^32\<close> addresses wide, the size that a blob can have. A probe of PCBuffer is a partial function, shown to return while
  fewer than \<open>2^16\<close> addresses are entered. The clusters' loop ends since every
  round has one cluster less; the sizes of a team are natural numbers, which the code keeps in \<open>int\<close>.

  \<^bold>\<open>Parameters.\<close> SQLite and the file system (Sqlite), \<open>std::nth_element\<close>, the XDR procedures, the
  demangler, the resolution of host names, the operator \<open>GLOB\<close>, the decoders of data headers and of
  blobs, the memory beyond a blob and beside an empty path, whether a database accepts rows (DataQueues),
  and which plugins are available and what they and the instrumentors answer. What is read of a plugin
  is either used as it is, with the exact order of its calls, or under a law on the blobs that are
  stored, which the model of the hardware counter collector is shown to satisfy.

  \<^bold>\<open>Not modelled.\<close> The readers of debugging information, the instrumentors, the other plugins, and the user
  interfaces: they drive libraries or format text. Of \<open>Experiment\<close>, the creation and attachment of
  processes and the discovery of MPI jobs, which are conversations with the instrumentor, and
  \<open>compressDB\<close>, which ends the program when it first asks a function for its address range
  (\<open>getAddressRange_aborts\<close>). Operators that print are left out everywhere.
\<close>

end
